(* ===== verification/Sc_Prelude.thy ===== *)
theory Sc_Prelude
  imports Main "HOL-Library.Word"
begin

text \<open>
  Shared vocabulary of the development: the ways an operation of the library can go wrong
  (\<open>fault\<close>), sequencing of fallible steps, the machine integers the sources mix
  (\<open>size_t\<close>, \<open>int32_t\<close>), the object representation of an integer in memory, and
  the generic list lemmas the component theories use.
\<close>

unbundle bit_operations_syntax

named_theorems size_arith \<open>machine arithmetic is exact when nothing wraps\<close>

section \<open>Faults and sequencing\<close>

text \<open>
  The sources are built without \<open>NDEBUG\<close> (makefile.sh), so a failing \<open>assert\<close> stops
  the process.  A standard container that would have to grow beyond its maximal size throws;
  reading or writing outside an object, and touching an object that has been given back to its
  pool, are undefined behaviour and are made visible as faults.  \<open>Bad_Environment\<close> marks an
  answer the operating system never gives (a \<open>read\<close> that returns more than it was asked for).
\<close>

datatype fault =
    Assert_Fail
  | Out_Of_Bounds
  | Length_Error
  | Use_After_Free
  | Bad_Function_Call
  | Null_Pointer
  | Process_Abort
  | Bad_Environment

definition bind_res :: "fault + 'a \<Rightarrow> ('a \<Rightarrow> fault + 'b) \<Rightarrow> fault + 'b" where
  "bind_res m f = (case m of Inl e \<Rightarrow> Inl e | Inr x \<Rightarrow> f x)"

definition check :: "bool \<Rightarrow> fault \<Rightarrow> fault + unit" where
  "check b e = (if b then Inr () else Inl e)"

lemma bind_res_Inl [simp]: "bind_res (Inl e) f = Inl e"
  by (simp add: bind_res_def)

lemma bind_res_Inr [simp]: "bind_res (Inr x) f = f x"
  by (simp add: bind_res_def)

lemma bind_res_eq_Inr: "bind_res m f = Inr y \<longleftrightarrow> (\<exists>x. m = Inr x \<and> f x = Inr y)"
  by (cases m) auto

lemma bind_resE: "bind_res m f = Inr y \<Longrightarrow> (\<And>x. m = Inr x \<Longrightarrow> f x = Inr y \<Longrightarrow> P) \<Longrightarrow> P"
  by (auto simp: bind_res_eq_Inr)

lemma bind_res_cong [fundef_cong]:
  "m = m' \<Longrightarrow> (\<And>x. m' = Inr x \<Longrightarrow> f x = f' x) \<Longrightarrow> bind_res m f = bind_res m' f'"
  by (cases m') auto

lemma check_True [simp]: "check True e = Inr ()"
  by (simp add: check_def)

lemma check_False [simp]: "check False e = Inl e"
  by (simp add: check_def)

lemma check_eq_Inr: "check b e = Inr u \<longleftrightarrow> b"
  by (simp add: check_def)

section \<open>Machine integers\<close>

text \<open>
  A \<open>size_t\<close> is a natural number below \<open>2 ^ 64\<close>; its sums and differences are reduced
  modulo \<open>2 ^ 64\<close>.  An \<open>int32_t\<close> is an integer in \<open>[-2^31, 2^31)\<close>; \<open>int32\<close> is
  the conversion to it, \<open>size_of_int\<close> the conversion of a signed value to \<open>size_t\<close>.
\<close>

definition size_add :: "nat \<Rightarrow> nat \<Rightarrow> nat" where
  "size_add a b = (a + b) mod 2 ^ 64"

definition size_sub :: "nat \<Rightarrow> nat \<Rightarrow> nat" where
  "size_sub a b = nat ((int a - int b) mod 2 ^ 64)"

definition size_of_int :: "int \<Rightarrow> nat" where
  "size_of_int k = nat (k mod 2 ^ 64)"

definition int32 :: "int \<Rightarrow> int" where
  "int32 k = signed_take_bit 31 k"

text \<open>The largest size of a \<open>std::vector<char>\<close> and of a \<open>std::string\<close>.\<close>

definition vec_max :: nat where
  "vec_max = 2 ^ 63 - 1"

lemma size_add_exact [size_arith]: "a + b < 2 ^ 64 \<Longrightarrow> size_add a b = a + b"
  by (simp add: size_add_def)

lemma size_sub_exact [size_arith]: "b \<le> a \<Longrightarrow> a < 2 ^ 64 \<Longrightarrow> size_sub a b = a - b"
  by (simp add: size_sub_def flip: of_nat_diff)

lemma size_sub_wraps: "a < b \<Longrightarrow> b \<le> 2 ^ 64 \<Longrightarrow> size_sub a b = 2 ^ 64 - (b - a)"
proof -
  assume h: "a < b" "b \<le> 2 ^ 64"
  have "(int a - int b) mod 2 ^ 64 = (int a - int b + 2 ^ 64) mod 2 ^ 64"
    by simp
  also have "\<dots> = int a - int b + 2 ^ 64"
    using h by (intro mod_pos_pos_trivial) auto
  finally show ?thesis
    using h by (simp add: size_sub_def nat_eq_iff of_nat_diff)
qed

lemma size_of_int_exact [size_arith]: "0 \<le> k \<Longrightarrow> k < 2 ^ 64 \<Longrightarrow> size_of_int k = nat k"
  by (simp add: size_of_int_def)

lemma int32_exact [size_arith]: "- (2 ^ 31) \<le> k \<Longrightarrow> k < 2 ^ 31 \<Longrightarrow> int32 k = k"
  by (simp add: int32_def signed_take_bit_int_eq_self)

section \<open>Object representation of integers\<close>

text \<open>
  \<open>mem_of w\<close> is what \<open>memcpy\<close> from a variable holding \<open>w\<close> copies on a little-endian
  host (the library runs on Linux hosts with \<open>epoll\<close>, which are little-endian), \<open>of_mem\<close>
  what \<open>memcpy\<close> into a variable leaves there.  \<open>htobe\<close> is the byte swap of
  \<open>htobe16\<close>, \<open>htobe32\<close> and \<open>htobe64\<close> (and of their inverses) on such a host.
\<close>

type_synonym byte = "8 word"

definition mem_of :: "'a::len word \<Rightarrow> byte list" where
  "mem_of w = map (\<lambda>i. ucast (drop_bit (8 * i) w)) [0 ..< LENGTH('a) div 8]"

fun of_mem :: "byte list \<Rightarrow> 'a::len word" where
  "of_mem [] = 0"
| "of_mem (b # bs) = ucast b OR push_bit 8 (of_mem bs)"

definition htobe :: "'a::len word \<Rightarrow> 'a word" where
  "htobe w = of_mem (rev (mem_of w))"

text \<open>The wire format: most significant byte first.\<close>

definition be_bytes :: "'a::len word \<Rightarrow> byte list" where
  "be_bytes w = rev (mem_of w)"

definition from_be :: "byte list \<Rightarrow> 'a::len word" where
  "from_be bs = of_mem (rev bs)"

lemma length_mem_of [simp]: "length (mem_of (w :: 'a::len word)) = LENGTH('a) div 8"
  by (simp add: mem_of_def)

lemma length_be_bytes [simp]: "length (be_bytes (w :: 'a::len word)) = LENGTH('a) div 8"
  by (simp add: be_bytes_def)

lemma bit_of_mem:
  "bit (of_mem bs :: 'a::len word) n \<longleftrightarrow>
     n < LENGTH('a) \<and> n div 8 < length bs \<and> bit (bs ! (n div 8)) (n mod 8)"
proof (induction bs arbitrary: n)
  case Nil
  then show ?case by simp
next
  case (Cons b bs)
  show ?case
  proof (cases "n < 8")
    case True
    then show ?thesis
      by (auto simp: bit_or_iff bit_push_bit_iff bit_ucast_iff)
  next
    case False
    then have n: "n div 8 = Suc ((n - 8) div 8)" "n mod 8 = (n - 8) mod 8"
      by (simp_all add: le_div_geq le_mod_geq)
    have "\<not> bit b n" using False bit_imp_le_length [of b n] by auto
    with False n show ?thesis
      by (auto simp: bit_or_iff bit_push_bit_iff bit_ucast_iff Cons.IH)
  qed
qed

lemma bit_nth_mem_of:
  "i < LENGTH('a) div 8 \<Longrightarrow>
     bit (mem_of (w :: 'a::len word) ! i) n \<longleftrightarrow> n < 8 \<and> bit w (8 * i + n)"
  by (auto simp: mem_of_def bit_ucast_iff bit_drop_bit_eq)

lemma of_mem_mem_of [simp]:
  fixes w :: "'a::len word"
  assumes "8 dvd LENGTH('a)"
  shows "of_mem (mem_of w) = w"
proof (rule bit_word_eqI)
  fix n assume n: "n < LENGTH('a)"
  with assms have "n div 8 < LENGTH('a) div 8"
    by (auto simp: less_mult_imp_div_less dvd_def)
  with n show "bit (of_mem (mem_of w) :: 'a word) n \<longleftrightarrow> bit w n"
    by (simp add: bit_of_mem bit_nth_mem_of)
qed

lemma mem_of_of_mem:
  assumes "length bs = LENGTH('a) div 8"
  shows "mem_of (of_mem bs :: 'a::len word) = bs"
proof (rule nth_equalityI)
  show "length (mem_of (of_mem bs :: 'a word)) = length bs" using assms by simp
next
  fix i assume "i < length (mem_of (of_mem bs :: 'a word))"
  then have i: "i < LENGTH('a) div 8" by simp
  show "mem_of (of_mem bs :: 'a word) ! i = bs ! i"
  proof (rule bit_word_eqI)
    fix n assume "n < LENGTH(8)"
    then have n: "n < 8" by simp
    with i have "8 * i + n < LENGTH('a)" by auto
    with i n assms show "bit (mem_of (of_mem bs :: 'a word) ! i) n \<longleftrightarrow> bit (bs ! i) n"
      by (simp add: bit_nth_mem_of bit_of_mem)
  qed
qed

lemma mem_of_htobe [simp]: "mem_of (htobe w) = be_bytes w"
  by (simp add: htobe_def be_bytes_def mem_of_of_mem)

lemma htobe_of_mem:
  "length bs = LENGTH('a) div 8 \<Longrightarrow> htobe (of_mem bs :: 'a::len word) = from_be bs"
  by (simp add: htobe_def from_be_def mem_of_of_mem)

lemma from_be_be_bytes [simp]: "8 dvd LENGTH('a) \<Longrightarrow> from_be (be_bytes w) = (w :: 'a::len word)"
  by (simp add: from_be_def be_bytes_def)

lemma be_bytes_from_be: "length bs = LENGTH('a) div 8 \<Longrightarrow> be_bytes (from_be bs :: 'a::len word) = bs"
  by (simp add: from_be_def be_bytes_def mem_of_of_mem)

text \<open>The number a big-endian byte string denotes, and its agreement with the machine word.\<close>

definition be_value :: "byte list \<Rightarrow> nat" where
  "be_value bs = foldl (\<lambda>n b. 256 * n + unat b) 0 bs"

lemma be_value_Nil [simp]: "be_value [] = 0"
  by (simp add: be_value_def)

lemma be_value_snoc [simp]: "be_value (bs @ [b]) = 256 * be_value bs + unat b"
  by (simp add: be_value_def)

lemma be_value_bound: "be_value bs < 256 ^ length bs"
proof (induction bs rule: rev_induct)
  case Nil
  then show ?case by simp
next
  case (snoc b bs)
  have "unat b < 256" using unsigned_less [of b, where 'a = nat] by simp
  with snoc show ?case by simp
qed

lemma of_mem_Cons_plus: "(of_mem (b # bs) :: 'a::len word) = word_of_nat (unat b) + 256 * of_mem bs"
proof -
  have "(ucast b OR push_bit 8 (of_mem bs) :: 'a word) = ucast b + push_bit 8 (of_mem bs)"
    by (rule disjunctive_add_eq_or [symmetric], rule bit_word_eqI)
      (auto simp: bit_and_iff bit_push_bit_iff bit_ucast_iff dest: bit_imp_le_length)
  moreover have "push_bit 8 (of_mem bs :: 'a word) = 256 * of_mem bs"
    by (simp add: push_bit_eq_mult mult.commute)
  ultimately show ?thesis by simp
qed

lemma of_mem_rev: "(of_mem (rev bs) :: 'a::len word) = word_of_nat (be_value bs)"
proof (induction bs rule: rev_induct)
  case Nil
  then show ?case by simp
next
  case (snoc b bs)
  then show ?case by (simp add: of_mem_Cons_plus del: of_mem.simps(2))
qed

lemma unat_from_be:
  assumes "8 * length bs = LENGTH('a)"
  shows "unat (from_be bs :: 'a::len word) = be_value bs"
proof -
  have "(256 :: nat) ^ length bs = 2 ^ LENGTH('a)"
    using power_mult [of "2 :: nat" 8 "length bs"] assms by simp
  with be_value_bound [of bs] have "be_value bs < 2 ^ LENGTH('a)" by simp
  then show ?thesis
    by (simp add: from_be_def of_mem_rev unat_of_nat take_bit_nat_eq_self)
qed

lemma be_value_be_bytes:
  "8 dvd LENGTH('a) \<Longrightarrow> be_value (be_bytes (w :: 'a::len word)) = unat w"
  using unat_from_be [of "be_bytes w", where 'a = 'a] by simp

section \<open>Sequences of fallible steps\<close>

fun each :: "('x \<Rightarrow> 's \<Rightarrow> fault + 's) \<Rightarrow> 'x list \<Rightarrow> 's \<Rightarrow> fault + 's" where
  "each f [] s = Inr s"
| "each f (x # xs) s = bind_res (f x s) (each f xs)"

fun gather :: "('k \<Rightarrow> 's \<Rightarrow> fault + ('f \<times> 's)) \<Rightarrow> 'k list \<Rightarrow> 's \<Rightarrow> fault + ('f list \<times> 's)" where
  "gather g [] s = Inr ([], s)"
| "gather g (k # ks) s =
     bind_res (g k s) (\<lambda>(x, s). bind_res (gather g ks s) (\<lambda>(xs, s). Inr (x # xs, s)))"

lemma each_append: "each f (xs @ ys) s = bind_res (each f xs s) (each f ys)"
proof (induction xs arbitrary: s)
  case Nil
  then show ?case by simp
next
  case (Cons x xs)
  then show ?case by (cases "f x s") auto
qed

lemma each_inv:
  assumes "\<And>x s. x \<in> set xs \<Longrightarrow> I s \<Longrightarrow> \<exists>s'. f x s = Inr s' \<and> I s'" and "I s"
  shows "\<exists>s'. each f xs s = Inr s' \<and> I s'"
  using assms
proof (induction xs arbitrary: s)
  case Nil
  then show ?case by simp
next
  case (Cons x xs)
  from Cons.prems obtain s1 where s1: "f x s = Inr s1" "I s1" by fastforce
  with Cons have "\<exists>s'. each f xs s1 = Inr s' \<and> I s'" by (intro Cons.IH) auto
  with s1 show ?case by simp
qed

end
