(* ===== verification/Buffer.thy ===== *)
theory Buffer
  imports Sc_Prelude
begin

text \<open>
  \<open>include/Buffer.h\<close>: the byte buffer every message of the library travels in.  The record
  holds the vector and the two indices; each method of the class is one definition over it.  The
  vector grows only in \<open>ensureWriteable\<close>, integers cross the buffer in network byte order,
  and a string is a 32-bit length followed by its bytes.
\<close>

section \<open>State\<close>

record buffer =
  buff :: "byte list"
  read_index :: nat
  write_index :: nat

definition new_buffer :: "nat \<Rightarrow> buffer" where
  "new_buffer init_size = \<lparr>buff = replicate init_size 0, read_index = 0, write_index = 0\<rparr>"

definition default_buffer :: buffer where
  "default_buffer = new_buffer (8 * 1024)"

section \<open>Indices and sizes\<close>

definition writeableBytes :: "buffer \<Rightarrow> nat" where
  "writeableBytes b = size_sub (length (buff b)) (write_index b)"

definition readableBytes :: "buffer \<Rightarrow> nat" where
  "readableBytes b = size_sub (write_index b) (read_index b)"

definition is_readable :: "nat \<Rightarrow> buffer \<Rightarrow> bool" where
  "is_readable len b \<longleftrightarrow> len \<le> readableBytes b"

definition set_write_index :: "nat \<Rightarrow> buffer \<Rightarrow> fault + buffer" where
  "set_write_index index b =
     bind_res (check (index \<le> length (buff b)) Assert_Fail) (\<lambda>_. Inr (b\<lparr>write_index := index\<rparr>))"

definition set_read_index :: "nat \<Rightarrow> buffer \<Rightarrow> fault + buffer" where
  "set_read_index index b =
     bind_res (check (index \<le> write_index b) Assert_Fail) (\<lambda>_. Inr (b\<lparr>read_index := index\<rparr>))"

definition swap :: "buffer \<Rightarrow> buffer \<Rightarrow> buffer \<times> buffer" where
  "swap b oth =
     (b\<lparr>read_index := read_index oth, write_index := write_index oth, buff := buff oth\<rparr>,
      oth\<lparr>read_index := read_index b, write_index := write_index b, buff := buff b\<rparr>)"

definition reset :: "buffer \<Rightarrow> buffer" where
  "reset b = b\<lparr>read_index := 0, write_index := 0\<rparr>"

section \<open>Memory\<close>

text \<open>
  \<open>vec_resize\<close> is \<open>vector::resize(n, '\0')\<close>; \<open>mem_write\<close> and \<open>mem_read\<close> are the
  copies to \<open>writeptr()\<close> and from \<open>readptr()\<close>, which leave the vector's storage when the
  range does not fit.
\<close>

definition vec_resize :: "nat \<Rightarrow> byte list \<Rightarrow> fault + byte list" where
  "vec_resize n xs =
     (if vec_max < n then Inl Length_Error else Inr (take n xs @ replicate (n - length xs) 0))"

definition mem_write :: "nat \<Rightarrow> byte list \<Rightarrow> byte list \<Rightarrow> fault + byte list" where
  "mem_write i ds xs =
     (if i + length ds \<le> length xs then Inr (take i xs @ ds @ drop (i + length ds) xs)
      else Inl Out_Of_Bounds)"

definition mem_read :: "nat \<Rightarrow> nat \<Rightarrow> byte list \<Rightarrow> fault + byte list" where
  "mem_read i n xs =
     (if i + n \<le> length xs then Inr (take n (drop i xs)) else Inl Out_Of_Bounds)"

definition ensureWriteable :: "nat \<Rightarrow> buffer \<Rightarrow> fault + buffer" where
  "ensureWriteable len b =
     (if writeableBytes b < len
      then bind_res (vec_resize (size_add (write_index b) len) (buff b))
             (\<lambda>xs. Inr (b\<lparr>buff := xs\<rparr>))
      else Inr b)"

definition append_bytes :: "byte list \<Rightarrow> buffer \<Rightarrow> fault + buffer" where
  "append_bytes ds b =
     bind_res (ensureWriteable (length ds) b) (\<lambda>b.
     bind_res (mem_write (write_index b) ds (buff b)) (\<lambda>xs.
     Inr (b\<lparr>buff := xs, write_index := size_add (write_index b) (length ds)\<rparr>)))"

section \<open>Integers\<close>

text \<open>
  The signed and unsigned overloads of a method copy the same bits, so one definition over words
  stands for both.
\<close>

definition writeInt8 :: "8 word \<Rightarrow> buffer \<Rightarrow> fault + buffer" where
  "writeInt8 d b = append_bytes (mem_of d) b"

definition writeInt16 :: "16 word \<Rightarrow> buffer \<Rightarrow> fault + buffer" where
  "writeInt16 d b = append_bytes (mem_of (htobe d)) b"

definition writeInt32 :: "32 word \<Rightarrow> buffer \<Rightarrow> fault + buffer" where
  "writeInt32 d b = append_bytes (mem_of (htobe d)) b"

definition writeInt64 :: "64 word \<Rightarrow> buffer \<Rightarrow> fault + buffer" where
  "writeInt64 d b = append_bytes (mem_of (htobe d)) b"

text \<open>\<open>peek_raw n\<close>: the assertion and the copy every \<open>peekInt\<close> starts with.\<close>

definition peek_raw :: "nat \<Rightarrow> buffer \<Rightarrow> fault + byte list" where
  "peek_raw n b =
     bind_res (check (is_readable n b) Assert_Fail) (\<lambda>_. mem_read (read_index b) n (buff b))"

definition peekInt8 :: "buffer \<Rightarrow> fault + 8 word" where
  "peekInt8 b = bind_res (peek_raw 1 b) (\<lambda>bs. Inr (of_mem bs))"

definition peekInt16 :: "buffer \<Rightarrow> fault + 16 word" where
  "peekInt16 b = bind_res (peek_raw 2 b) (\<lambda>bs. Inr (htobe (of_mem bs)))"

definition peekInt32 :: "buffer \<Rightarrow> fault + 32 word" where
  "peekInt32 b = bind_res (peek_raw 4 b) (\<lambda>bs. Inr (htobe (of_mem bs)))"

definition peekInt64 :: "buffer \<Rightarrow> fault + 64 word" where
  "peekInt64 b = bind_res (peek_raw 8 b) (\<lambda>bs. Inr (htobe (of_mem bs)))"

definition readInt8 :: "buffer \<Rightarrow> fault + (8 word \<times> buffer)" where
  "readInt8 b =
     bind_res (peekInt8 b) (\<lambda>d. Inr (d, b\<lparr>read_index := size_add (read_index b) 1\<rparr>))"

definition readInt16 :: "buffer \<Rightarrow> fault + (16 word \<times> buffer)" where
  "readInt16 b =
     bind_res (peekInt16 b) (\<lambda>d. Inr (d, b\<lparr>read_index := size_add (read_index b) 2\<rparr>))"

definition readInt32 :: "buffer \<Rightarrow> fault + (32 word \<times> buffer)" where
  "readInt32 b =
     bind_res (peekInt32 b) (\<lambda>d. Inr (d, b\<lparr>read_index := size_add (read_index b) 4\<rparr>))"

definition readInt64 :: "buffer \<Rightarrow> fault + (64 word \<times> buffer)" where
  "readInt64 b =
     bind_res (peekInt64 b) (\<lambda>d. Inr (d, b\<lparr>read_index := size_add (read_index b) 8\<rparr>))"

section \<open>Strings\<close>

text \<open>
  The length is cut to 32 bits before it is written.  The readers take the string variable's
  previous value \<open>old\<close>: a zero length leaves it as it was.
\<close>

definition writeString :: "byte list \<Rightarrow> buffer \<Rightarrow> fault + buffer" where
  "writeString data b =
     (let len = (word_of_nat (length data) :: 32 word) in
      bind_res (writeInt32 len b) (\<lambda>b.
      if len \<le> 0 then Inr b else append_bytes (take (unat len) data) b))"

definition peekString :: "byte list \<Rightarrow> buffer \<Rightarrow> fault + byte list" where
  "peekString old b =
     bind_res (peekInt32 b) (\<lambda>len.
     if len \<le> 0 then Inr old
     else bind_res (check (is_readable (4 + unat len) b) Assert_Fail) (\<lambda>_.
          mem_read (read_index b + 4) (unat len) (buff b)))"

definition readString :: "byte list \<Rightarrow> buffer \<Rightarrow> fault + (byte list \<times> buffer)" where
  "readString old b =
     bind_res (peekString old b) (\<lambda>data.
     Inr (data, b\<lparr>read_index := size_add (read_index b) (4 + length data)\<rparr>))"

section \<open>Well-formed buffers and their contents\<close>

text \<open>
  \<open>buffer_ok\<close> is the class invariant; \<open>contents\<close> are the bytes written and not yet read.
\<close>

definition buffer_ok :: "buffer \<Rightarrow> bool" where
  "buffer_ok b \<longleftrightarrow>
     read_index b \<le> write_index b \<and> write_index b \<le> length (buff b) \<and> length (buff b) \<le> vec_max"

definition contents :: "buffer \<Rightarrow> byte list" where
  "contents b = take (write_index b - read_index b) (drop (read_index b) (buff b))"

definition fits :: "byte list \<Rightarrow> buffer \<Rightarrow> bool" where
  "fits ds b \<longleftrightarrow> write_index b + length ds \<le> vec_max"

lemma buffer_okD:
  assumes "buffer_ok b"
  shows "read_index b \<le> write_index b" "write_index b \<le> length (buff b)"
    "length (buff b) \<le> vec_max" "write_index b < 2 ^ 64" "length (buff b) < 2 ^ 64"
  using assms by (auto simp: buffer_ok_def vec_max_def)

lemma buffer_ok_new [simp]: "n \<le> vec_max \<Longrightarrow> buffer_ok (new_buffer n)"
  by (simp add: buffer_ok_def new_buffer_def)

lemma contents_new [simp]: "contents (new_buffer n) = []"
  by (simp add: contents_def new_buffer_def)

lemma new_buffer_fields [simp]:
  "read_index (new_buffer n) = 0" "write_index (new_buffer n) = 0"
  "buff (new_buffer n) = replicate n 0"
  by (simp_all add: new_buffer_def)

lemma default_buffer_ok [simp]:
  "buffer_ok default_buffer" "contents default_buffer = []"
  "read_index default_buffer = 0" "write_index default_buffer = 0"
  by (simp_all add: default_buffer_def vec_max_def)

lemma buffer_ok_reset [simp]: "buffer_ok b \<Longrightarrow> buffer_ok (reset b)"
  by (simp add: buffer_ok_def reset_def)

lemma contents_reset [simp]: "contents (reset b) = []"
  by (simp add: contents_def reset_def)

lemma length_contents: "buffer_ok b \<Longrightarrow> length (contents b) = write_index b - read_index b"
  by (auto simp: contents_def buffer_ok_def)

lemma readable_eq: "buffer_ok b \<Longrightarrow> readableBytes b = length (contents b)"
  using buffer_okD [of b] by (simp add: readableBytes_def length_contents size_arith)

lemma writeable_eq: "buffer_ok b \<Longrightarrow> writeableBytes b = length (buff b) - write_index b"
  using buffer_okD [of b] by (simp add: writeableBytes_def size_arith)

subsection \<open>Writing\<close>

lemma ensureWriteable_ok:
  assumes "buffer_ok b" and "len \<le> vec_max"
  shows "ensureWriteable len b =
    (if length (buff b) < write_index b + len then
       (if vec_max < write_index b + len then Inl Length_Error
        else Inr (b\<lparr>buff := buff b @ replicate (write_index b + len - length (buff b)) 0\<rparr>))
     else Inr b)"
proof -
  have "write_index b + len < 2 ^ 64"
    using assms by (auto simp: buffer_ok_def vec_max_def)
  then show ?thesis
    using assms buffer_okD [of b]
    by (auto simp: ensureWriteable_def writeable_eq vec_resize_def size_arith)
qed

lemma append_bytes_fits:
  assumes ok: "buffer_ok b" and fits: "fits ds b"
  shows "append_bytes ds b =
    Inr (b\<lparr>buff := take (write_index b) (buff b) @ ds @ drop (write_index b + length ds) (buff b),
            write_index := write_index b + length ds\<rparr>)"
proof -
  have len: "length ds \<le> vec_max" and "write_index b + length ds < 2 ^ 64"
    using fits by (auto simp: fits_def vec_max_def)
  then have add: "size_add (write_index b) (length ds) = write_index b + length ds"
    by (simp add: size_arith)
  have w: "write_index b \<le> length (buff b)"
    using ok by (rule buffer_okD)
  show ?thesis
    using w fits by (auto simp: append_bytes_def ensureWriteable_ok [OF ok len] mem_write_def add fits_def)
qed

lemma append_bytes_too_long:
  "buffer_ok b \<Longrightarrow> length ds \<le> vec_max \<Longrightarrow> \<not> fits ds b \<Longrightarrow> append_bytes ds b = Inl Length_Error"
  by (auto simp: append_bytes_def ensureWriteable_ok fits_def buffer_ok_def)

lemma append_bytes_spec:
  assumes "buffer_ok b" and "fits ds b"
  obtains b' where "append_bytes ds b = Inr b'" "buffer_ok b'" "contents b' = contents b @ ds"
    "read_index b' = read_index b" "write_index b' = write_index b + length ds"
    "take (write_index b) (buff b') = take (write_index b) (buff b)"
proof -
  let ?b' = "b\<lparr>buff := take (write_index b) (buff b) @ ds @ drop (write_index b + length ds) (buff b),
                write_index := write_index b + length ds\<rparr>"
  have idx: "read_index b \<le> write_index b" "write_index b \<le> length (buff b)"
    using assms by (auto simp: buffer_ok_def)
  show thesis
  proof (rule that)
    show "append_bytes ds b = Inr ?b'"
      using assms by (rule append_bytes_fits)
    show "buffer_ok ?b'"
      using assms by (auto simp: buffer_ok_def fits_def)
    show "contents ?b' = contents b @ ds"
      using idx by (simp add: contents_def drop_take [symmetric])
  qed (use idx in auto)
qed

subsection \<open>Reading\<close>

lemma peek_raw_ok:
  assumes "buffer_ok b"
  shows "peek_raw n b =
    (if n \<le> length (contents b) then Inr (take n (contents b)) else Inl Assert_Fail)"
  using assms
  by (auto simp: peek_raw_def is_readable_def readable_eq mem_read_def contents_def min_def
      buffer_ok_def)

definition skip :: "nat \<Rightarrow> buffer \<Rightarrow> buffer" where
  "skip n b = b\<lparr>read_index := read_index b + n\<rparr>"

lemma skip_ok:
  assumes "buffer_ok b" and "n \<le> length (contents b)"
  shows "buffer_ok (skip n b)" "contents (skip n b) = drop n (contents b)"
    "write_index (skip n b) = write_index b" "buff (skip n b) = buff b"
    "size_add (read_index b) n = read_index b + n"
  using assms
  by (auto simp: buffer_ok_def skip_def length_contents contents_def drop_take vec_max_def
      size_arith add.commute)

lemma set_read_index_ok:
  assumes "buffer_ok b" and "n \<le> length (contents b)"
  shows "set_read_index (read_index b + n) b = Inr (skip n b)"
  using assms length_contents [of b]
  by (simp add: set_read_index_def skip_def buffer_ok_def le_diff_conv2 add.commute)

lemma buffer_ok_swap:
  "buffer_ok a \<Longrightarrow> buffer_ok b \<Longrightarrow> buffer_ok (fst (swap a b)) \<and> buffer_ok (snd (swap a b))"
  by (simp add: swap_def buffer_ok_def)

section \<open>Typed fields\<close>

text \<open>
  What a typed write appends and a typed read consumes.  A field is a value handed to one of the
  \<open>write\<close> methods; \<open>enc\<close> is its wire image.  Strings are read into a fresh
  \<open>std::string\<close>.
\<close>

datatype field = F8 "8 word" | F16 "16 word" | F32 "32 word" | F64 "64 word" | FString "byte list"

datatype kind = K8 | K16 | K32 | K64 | KString

fun kind_of :: "field \<Rightarrow> kind" where
  "kind_of (F8 _) = K8"
| "kind_of (F16 _) = K16"
| "kind_of (F32 _) = K32"
| "kind_of (F64 _) = K64"
| "kind_of (FString _) = KString"

fun enc :: "field \<Rightarrow> byte list" where
  "enc (F8 w) = be_bytes w"
| "enc (F16 w) = be_bytes w"
| "enc (F32 w) = be_bytes w"
| "enc (F64 w) = be_bytes w"
| "enc (FString s) = be_bytes (word_of_nat (length s) :: 32 word) @ s"

fun valid_field :: "field \<Rightarrow> bool" where
  "valid_field (FString s) \<longleftrightarrow> length s < 2 ^ 32"
| "valid_field _ \<longleftrightarrow> True"

fun write_field :: "field \<Rightarrow> buffer \<Rightarrow> fault + buffer" where
  "write_field (F8 w) b = writeInt8 w b"
| "write_field (F16 w) b = writeInt16 w b"
| "write_field (F32 w) b = writeInt32 w b"
| "write_field (F64 w) b = writeInt64 w b"
| "write_field (FString s) b = writeString s b"

fun read_field :: "kind \<Rightarrow> buffer \<Rightarrow> fault + (field \<times> buffer)" where
  "read_field K8 b = bind_res (readInt8 b) (\<lambda>(d, b). Inr (F8 d, b))"
| "read_field K16 b = bind_res (readInt16 b) (\<lambda>(d, b). Inr (F16 d, b))"
| "read_field K32 b = bind_res (readInt32 b) (\<lambda>(d, b). Inr (F32 d, b))"
| "read_field K64 b = bind_res (readInt64 b) (\<lambda>(d, b). Inr (F64 d, b))"
| "read_field KString b = bind_res (readString [] b) (\<lambda>(d, b). Inr (FString d, b))"

definition write_fields :: "field list \<Rightarrow> buffer \<Rightarrow> fault + buffer" where
  "write_fields = each write_field"

definition read_fields :: "kind list \<Rightarrow> buffer \<Rightarrow> fault + (field list \<times> buffer)" where
  "read_fields = gather read_field"

lemma be_bytes_8 [simp]: "mem_of (w :: 8 word) = be_bytes w"
  by (simp add: be_bytes_def mem_of_def)

subsection \<open>Decoding the front of the contents\<close>

lemma peekInt32_ok:
  "buffer_ok b \<Longrightarrow> peekInt32 b =
     (if 4 \<le> length (contents b) then Inr (from_be (take 4 (contents b))) else Inl Assert_Fail)"
  by (simp add: peekInt32_def peek_raw_ok htobe_of_mem)

lemma peekInt64_ok:
  "buffer_ok b \<Longrightarrow> peekInt64 b =
     (if 8 \<le> length (contents b) then Inr (from_be (take 8 (contents b))) else Inl Assert_Fail)"
  by (simp add: peekInt64_def peek_raw_ok htobe_of_mem)

lemma peekInt16_ok:
  "buffer_ok b \<Longrightarrow> peekInt16 b =
     (if 2 \<le> length (contents b) then Inr (from_be (take 2 (contents b))) else Inl Assert_Fail)"
  by (simp add: peekInt16_def peek_raw_ok htobe_of_mem)

lemma peekInt8_ok:
  assumes "buffer_ok b"
  shows "peekInt8 b =
     (if 1 \<le> length (contents b) then Inr (from_be (take 1 (contents b))) else Inl Assert_Fail)"
  using assms
  by (cases "contents b") (simp_all add: peekInt8_def peek_raw_ok from_be_def)

lemma read_skips:
  assumes "buffer_ok b"
  shows "1 \<le> length (contents b) \<Longrightarrow> readInt8 b = Inr (from_be (take 1 (contents b)), skip 1 b)"
    and "2 \<le> length (contents b) \<Longrightarrow> readInt16 b = Inr (from_be (take 2 (contents b)), skip 2 b)"
    and "4 \<le> length (contents b) \<Longrightarrow> readInt32 b = Inr (from_be (take 4 (contents b)), skip 4 b)"
    and "8 \<le> length (contents b) \<Longrightarrow> readInt64 b = Inr (from_be (take 8 (contents b)), skip 8 b)"
  using assms skip_ok(5) [OF assms]
  by (simp_all add: readInt8_def readInt16_def readInt32_def readInt64_def peekInt8_ok peekInt16_ok
      peekInt32_ok peekInt64_ok skip_def)

lemma read_short:
  assumes "buffer_ok b"
  shows "length (contents b) < 1 \<Longrightarrow> readInt8 b = Inl Assert_Fail"
    and "length (contents b) < 2 \<Longrightarrow> readInt16 b = Inl Assert_Fail"
    and "length (contents b) < 4 \<Longrightarrow> readInt32 b = Inl Assert_Fail"
    and "length (contents b) < 8 \<Longrightarrow> readInt64 b = Inl Assert_Fail"
  using assms
  by (simp_all add: readInt8_def readInt16_def readInt32_def readInt64_def peekInt8_ok peekInt16_ok
      peekInt32_ok peekInt64_ok)

lemma mem_read_contents:
  assumes "buffer_ok b" and "i + n \<le> length (contents b)"
  shows "mem_read (read_index b + i) n (buff b) = Inr (take n (drop i (contents b)))"
  using assms length_contents [OF assms(1)]
  by (auto simp: mem_read_def contents_def buffer_ok_def drop_take min_def add.commute)

lemma length_enc_string: "length (enc (FString s)) = 4 + length s"
  by simp

lemma unat_word32_length: "length s < 2 ^ 32 \<Longrightarrow> unat (word_of_nat (length s) :: 32 word) = length s"
  by (simp add: unat_of_nat take_bit_nat_eq_self)

lemma word32_length_eq_0: "length s < 2 ^ 32 \<Longrightarrow> (word_of_nat (length s) :: 32 word) = 0 \<longleftrightarrow> s = []"
proof -
  assume s: "length s < 2 ^ 32"
  have "(word_of_nat (length s) :: 32 word) = 0 \<longleftrightarrow> unat (word_of_nat (length s) :: 32 word) = 0"
    by (simp only: unat_eq_zero)
  then show ?thesis
    by (simp only: unat_word32_length [OF s] length_0_conv)
qed

lemma peekString_ok:
  assumes ok: "buffer_ok b" and s: "length s < 2 ^ 32" and c: "contents b = enc (FString s) @ rest"
  shows "peekString old b = Inr (if s = [] then old else s)"
proof -
  let ?w = "word_of_nat (length s) :: 32 word"
  have peek: "peekInt32 b = Inr ?w"
    using ok c by (simp add: peekInt32_ok)
  have unat: "unat ?w = length s"
    using s by (rule unat_word32_length)
  have zero: "?w = 0 \<longleftrightarrow> s = []"
    using s by (rule word32_length_eq_0)
  have len: "4 + length s \<le> length (contents b)"
    using c by simp
  then have "mem_read (read_index b + 4) (length s) (buff b) = Inr s"
    using mem_read_contents [OF ok len] c by simp
  then show ?thesis
    using ok len by (simp add: peekString_def peek zero unat is_readable_def readable_eq)
qed

subsection \<open>The contract of a typed codec\<close>

text \<open>
  What writers and readers of typed fields promise each other: a write appends the field's image,
  a read of the same kind at the front of such an image gives the field back.  Whole records
  follow once and for all.
\<close>

locale byte_codec =
  fixes inv :: "'b \<Rightarrow> bool"
    and view :: "'b \<Rightarrow> byte list"
    and room :: "byte list \<Rightarrow> 'b \<Rightarrow> bool"
    and image :: "'f \<Rightarrow> byte list"
    and valid :: "'f \<Rightarrow> bool"
    and kind :: "'f \<Rightarrow> 'k"
    and put :: "'f \<Rightarrow> 'b \<Rightarrow> fault + 'b"
    and get :: "'k \<Rightarrow> 'b \<Rightarrow> fault + ('f \<times> 'b)"
  assumes put_image: "inv b \<Longrightarrow> valid f \<Longrightarrow> room (image f @ es) b \<Longrightarrow>
      \<exists>b'. put f b = Inr b' \<and> inv b' \<and> view b' = view b @ image f \<and> room es b'"
    and get_image: "inv b \<Longrightarrow> valid f \<Longrightarrow> view b = image f @ rest \<Longrightarrow>
      \<exists>b'. get (kind f) b = Inr (f, b') \<and> inv b' \<and> view b' = rest"
begin

lemma put_list:
  assumes "inv b" and "list_all valid fs" and "room (concat (map image fs)) b"
  shows "\<exists>b'. each put fs b = Inr b' \<and> inv b' \<and> view b' = view b @ concat (map image fs)"
  using assms
proof (induction fs arbitrary: b)
  case Nil
  then show ?case by simp
next
  case (Cons f fs)
  then obtain b1 where b1: "put f b = Inr b1" "inv b1" "view b1 = view b @ image f"
      "room (concat (map image fs)) b1"
    using put_image [of b f "concat (map image fs)"] by auto
  then obtain b2 where "each put fs b1 = Inr b2" "inv b2"
      "view b2 = view b1 @ concat (map image fs)"
    using Cons.IH [of b1] Cons.prems by auto
  with b1 show ?case by simp
qed

lemma get_list:
  assumes "inv b" and "list_all valid fs" and "view b = concat (map image fs) @ rest"
  shows "\<exists>b'. gather get (map kind fs) b = Inr (fs, b') \<and> inv b' \<and> view b' = rest"
  using assms
proof (induction fs arbitrary: b)
  case Nil
  then show ?case by simp
next
  case (Cons f fs)
  then obtain b1 where b1: "get (kind f) b = Inr (f, b1)" "inv b1"
      "view b1 = concat (map image fs) @ rest"
    using get_image [of b f "concat (map image fs) @ rest"] by auto
  then obtain b2 where "gather get (map kind fs) b1 = Inr (fs, b2)" "inv b2" "view b2 = rest"
    using Cons.IH [of b1] Cons.prems by auto
  with b1 show ?case by simp
qed

lemma put_get_list:
  assumes "inv b" and "list_all valid fs" and "room (concat (map image fs)) b" and "view b = []"
  shows "\<exists>b1 b2. each put fs b = Inr b1 \<and> gather get (map kind fs) b1 = Inr (fs, b2)
           \<and> inv b2 \<and> view b2 = []"
proof -
  obtain b1 where b1: "each put fs b = Inr b1" "inv b1" "view b1 = concat (map image fs)"
    using put_list [OF assms(1-3)] assms(4) by auto
  with get_list [of b1 fs "[]"] assms(2) show ?thesis by auto
qed

end

subsection \<open>The buffer is such a codec\<close>

lemma writeString_ok:
  assumes ok: "buffer_ok b" and s: "length s < 2 ^ 32" and fits: "fits (enc (FString s)) b"
  shows "writeString s b = append_bytes (enc (FString s)) b"
proof -
  let ?w = "word_of_nat (length s) :: 32 word"
  have unat: "unat ?w = length s"
    using s by (rule unat_word32_length)
  have zero: "?w = 0 \<longleftrightarrow> s = []"
    using s by (rule word32_length_eq_0)
  have fits4: "fits (be_bytes ?w) b"
    using fits by (simp add: fits_def)
  obtain b1 where b1: "append_bytes (be_bytes ?w) b = Inr b1" "buffer_ok b1"
    and w1: "write_index b1 = write_index b + 4"
    using append_bytes_spec [OF ok fits4] by auto
  show ?thesis
  proof (cases "s = []")
    case True
    with b1 show ?thesis by (simp add: writeString_def writeInt32_def)
  next
    case False
    have "fits s b1"
      using fits w1 by (simp add: fits_def)
    have eq: "writeString s b = append_bytes s b1"
      using False b1 by (simp add: writeString_def writeInt32_def zero unat Let_def)
    have b1': "b1 = b\<lparr>buff := take (write_index b) (buff b) @ be_bytes ?w
                  @ drop (write_index b + 4) (buff b), write_index := write_index b + 4\<rparr>"
      using b1(1) append_bytes_fits [OF ok fits4] by simp
    have w: "write_index b \<le> length (buff b)"
      using ok by (rule buffer_okD)
    show ?thesis
      unfolding eq append_bytes_fits [OF b1(2) \<open>fits s b1\<close>] append_bytes_fits [OF ok fits]
      using w by (simp add: b1' ac_simps)
  qed
qed

lemma write_field_eq:
  assumes "buffer_ok b" and "valid_field f" and "fits (enc f) b"
  shows "write_field f b = append_bytes (enc f) b"
  using assms
  by (cases f) (simp_all add: writeInt8_def writeInt16_def writeInt32_def writeInt64_def
      writeString_ok)

lemma write_field_ok:
  assumes "buffer_ok b" and "valid_field f" and "fits (enc f @ es) b"
  shows "\<exists>b'. write_field f b = Inr b' \<and> buffer_ok b' \<and> contents b' = contents b @ enc f \<and> fits es b'"
proof -
  have fits: "fits (enc f) b"
    using assms(3) by (simp add: fits_def)
  then obtain b' where "append_bytes (enc f) b = Inr b'" "buffer_ok b'"
      "contents b' = contents b @ enc f" "write_index b' = write_index b + length (enc f)"
    using append_bytes_spec [OF assms(1)] by metis
  with assms fits show ?thesis
    by (simp add: write_field_eq fits_def)
qed

lemma read_field_ok:
  assumes ok: "buffer_ok b" and "valid_field f" and c: "contents b = enc f @ rest"
  shows "\<exists>b'. read_field (kind_of f) b = Inr (f, b') \<and> buffer_ok b' \<and> contents b' = rest"
proof (cases f)
  case (FString s)
  then have s: "length s < 2 ^ 32" and c': "contents b = enc (FString s) @ rest"
    using assms by simp_all
  have len: "4 + length s \<le> length (contents b)"
    using c' by simp
  have "readString [] b = Inr (s, skip (4 + length s) b)"
    using skip_ok(5) [OF ok len] peekString_ok [OF ok s c', of "[]"]
    by (auto simp: readString_def skip_def)
  moreover have "contents (skip (4 + length s) b) = rest"
    using c' by (simp add: skip_ok(2) [OF ok len])
  ultimately show ?thesis
    using FString skip_ok(1) [OF ok len] by simp
qed (use assms in \<open>simp_all add: read_skips skip_ok\<close>)

interpretation buffer_codec:
  byte_codec buffer_ok contents fits enc valid_field kind_of write_field read_field
  by unfold_locales (auto intro: write_field_ok read_field_ok)

section \<open>Properties\<close>

text \<open>
  On a well-formed buffer, appending bytes either succeeds or throws.  It succeeds exactly
  when the written part stays within the largest vector; then the class invariant holds again, the
  unread contents are extended by exactly the given bytes, the read index is untouched and the
  vector has grown no further than needed.  Otherwise the vector's length error is raised.
\<close>
theorem append_bytes_appends:
  assumes "buffer_ok b" and "length ds \<le> vec_max"
  shows "case append_bytes ds b of
      Inl e \<Rightarrow> e = Length_Error \<and> vec_max < write_index b + length ds
    | Inr b' \<Rightarrow> write_index b + length ds \<le> vec_max \<and> buffer_ok b'
        \<and> contents b' = contents b @ ds \<and> read_index b' = read_index b
        \<and> length (buff b') = max (length (buff b)) (write_index b + length ds)"
proof (cases "fits ds b")
  case True
  have w: "write_index b \<le> length (buff b)"
    using assms(1) by (rule buffer_okD)
  from append_bytes_spec [OF assms(1) True] obtain b' where b': "append_bytes ds b = Inr b'"
    "buffer_ok b'" "contents b' = contents b @ ds" "read_index b' = read_index b" by metis
  moreover have "length (buff b') = max (length (buff b)) (write_index b + length ds)"
    using b'(1) w append_bytes_fits [OF assms(1) True] by auto
  ultimately show ?thesis
    using True by (simp add: fits_def)
next
  case False
  with assms show ?thesis
    by (simp add: append_bytes_too_long fits_def not_le)
qed

theorem append_bytes_appends_witness:
  "case append_bytes [1, 2, 3] (new_buffer 2) of
      Inl e \<Rightarrow> e = Length_Error \<and> vec_max < 3
    | Inr b' \<Rightarrow> 3 \<le> vec_max \<and> buffer_ok b' \<and> contents b' = [1, 2, 3] \<and> read_index b' = 0
        \<and> length (buff b') = 3"
proof -
  have ok: "buffer_ok (new_buffer 2)"
    by (rule buffer_ok_new) (simp add: vec_max_def)
  have len: "length [1, 2, 3 :: byte] \<le> vec_max"
    by (simp add: vec_max_def)
  show ?thesis
    using append_bytes_appends [OF ok len] by (simp split: sum.splits)
qed

text \<open>
  C17: Writing any sequence of typed fields (8-, 16-, 32- and 64-bit integers, strings shorter
  than \<open>2 ^ 32\<close>) to a fresh buffer and reading the same kinds back in the same order gives
  exactly those fields and leaves nothing unread.
\<close>
theorem write_read_fields:
  assumes "list_all valid_field fs" and "length (concat (map enc fs)) \<le> vec_max"
    and "n \<le> vec_max"
  shows "\<exists>b1 b2. write_fields fs (new_buffer n) = Inr b1
    \<and> read_fields (map kind_of fs) b1 = Inr (fs, b2) \<and> buffer_ok b2 \<and> contents b2 = []"
proof -
  have "fits (concat (map enc fs)) (new_buffer n)"
    using assms(2) by (simp add: fits_def new_buffer_def)
  then show ?thesis
    using buffer_codec.put_get_list [of "new_buffer n" fs] assms
    by (simp add: write_fields_def read_fields_def)
qed

theorem write_read_fields_witness:
  "\<exists>b1 b2. write_fields [F64 64, F16 16, FString [115, 116], F32 32, F8 8] (new_buffer 8) = Inr b1
    \<and> read_fields [K64, K16, KString, K32, K8] b1
        = Inr ([F64 64, F16 16, FString [115, 116], F32 32, F8 8], b2)
    \<and> buffer_ok b2 \<and> contents b2 = []"
  using write_read_fields [of "[F64 64, F16 16, FString [115, 116], F32 32, F8 8]" 8]
  by (simp add: vec_max_def)

text \<open>
  The integer writers put the value on the wire most significant byte first: they append
  exactly two, four or eight bytes whose big-endian value is the number written.
\<close>
theorem write_int_wire_format:
  assumes "buffer_ok b" and "write_index b + 8 \<le> vec_max"
  shows "\<exists>b2 b4 b8 d2 d4 d8.
      writeInt16 w2 b = Inr b2 \<and> contents b2 = contents b @ d2 \<and> length d2 = 2 \<and> be_value d2 = unat w2
    \<and> writeInt32 w4 b = Inr b4 \<and> contents b4 = contents b @ d4 \<and> length d4 = 4 \<and> be_value d4 = unat w4
    \<and> writeInt64 w8 b = Inr b8 \<and> contents b8 = contents b @ d8 \<and> length d8 = 8 \<and> be_value d8 = unat w8"
proof -
  have "fits (be_bytes w2) b" "fits (be_bytes w4) b" "fits (be_bytes w8) b"
    using assms(2) by (simp_all add: fits_def)
  then obtain b2 b4 b8 where
      "append_bytes (be_bytes w2) b = Inr b2" "contents b2 = contents b @ be_bytes w2"
      "append_bytes (be_bytes w4) b = Inr b4" "contents b4 = contents b @ be_bytes w4"
      "append_bytes (be_bytes w8) b = Inr b8" "contents b8 = contents b @ be_bytes w8"
    using append_bytes_spec [OF assms(1)] by metis
  then show ?thesis
    by (simp add: writeInt16_def writeInt32_def writeInt64_def be_value_be_bytes)
qed

theorem write_int_wire_format_witness:
  "\<exists>b2 b4 b8 d2 d4 d8.
      writeInt16 0x0102 (new_buffer 4) = Inr b2 \<and> contents b2 = d2 \<and> length d2 = 2 \<and> be_value d2 = 0x0102
    \<and> writeInt32 7 (new_buffer 4) = Inr b4 \<and> contents b4 = d4 \<and> length d4 = 4 \<and> be_value d4 = 7
    \<and> writeInt64 9 (new_buffer 4) = Inr b8 \<and> contents b8 = d8 \<and> length d8 = 8 \<and> be_value d8 = 9"
  using write_int_wire_format [of "new_buffer 4" "0x0102" 7 9]
  by (simp add: new_buffer_def buffer_ok_def vec_max_def contents_def)

text \<open>
  A typed read never runs past what has been written: when the unread contents are a proper
  prefix of a field's image (the field has been cut short), reading that kind of field fails its
  assertion.
\<close>
theorem read_truncated_field:
  assumes ok: "buffer_ok b" and "valid_field f" and "n < length (enc f)"
    and c: "contents b = take n (enc f)"
  shows "read_field (kind_of f) b = Inl Assert_Fail"
proof (cases f)
  case (FString s)
  show ?thesis
  proof (cases "n < 4")
    case True
    then show ?thesis
      using FString ok c by (simp add: readString_def peekString_def peekInt32_ok)
  next
    case False
    let ?w = "word_of_nat (length s) :: 32 word"
    have s: "length s < 2 ^ 32"
      using assms(2) FString by simp
    have "s \<noteq> []" and len: "length (contents b) < 4 + length s"
      using assms(3) c FString False by auto
    moreover have "peekInt32 b = Inr ?w"
      using ok c FString False by (simp add: peekInt32_ok)
    ultimately show ?thesis
      using FString ok
      by (simp add: readString_def peekString_def word32_length_eq_0 [OF s] unat_word32_length [OF s]
          is_readable_def readable_eq)
  qed
qed (use assms in \<open>simp_all add: read_short\<close>)

theorem read_truncated_field_witness:
  "read_field KString \<lparr>buff = [0, 0, 0, 2, 65], read_index = 0, write_index = 5\<rparr> = Inl Assert_Fail"
  using read_truncated_field
    [of "\<lparr>buff = [0, 0, 0, 2, 65], read_index = 0, write_index = 5\<rparr>" "FString [65, 66]" 5]
  by (simp add: buffer_ok_def vec_max_def contents_def be_bytes_def mem_of_def upt_rec)

text \<open>
  Reading an empty string into a string variable that still holds old text breaks the buffer:
  the variable keeps its old text, the read index advances past the write index by the old
  length, and the buffer then claims almost \<open>2 ^ 64\<close> readable bytes.
\<close>
theorem readString_stale_target:
  assumes ok: "buffer_ok b" and c: "contents b = be_bytes (0 :: 32 word)"
    and old: "old \<noteq> []" "length old \<le> vec_max"
  shows "\<exists>b'. readString old b = Inr (old, b') \<and> \<not> buffer_ok b'
    \<and> readableBytes b' = 2 ^ 64 - length old"
proof -
  let ?b' = "b\<lparr>read_index := read_index b + (4 + length old)\<rparr>"
  have w: "write_index b = read_index b + 4"
    using ok c length_contents [OF ok] by (simp add: buffer_ok_def)
  have "peekString old b = Inr old"
    using peekString_ok [OF ok, of "[]" "[]" old] c by simp
  moreover have "size_add (read_index b) (4 + length old) = read_index b + (4 + length old)"
    using old w buffer_okD [OF ok] by (intro size_add_exact) (simp add: vec_max_def)
  ultimately have "readString old b = Inr (old, ?b')"
    by (simp add: readString_def)
  moreover have "readableBytes ?b' = 2 ^ 64 - length old"
    using old w buffer_okD [OF ok] by (simp add: readableBytes_def size_sub_wraps vec_max_def)
  moreover have "\<not> buffer_ok ?b'"
    using w old by (simp add: buffer_ok_def)
  ultimately show ?thesis by blast
qed

theorem readString_stale_target_witness:
  "\<exists>b'. readString [65, 66] \<lparr>buff = [0, 0, 0, 0], read_index = 0, write_index = 4\<rparr> = Inr ([65, 66], b')
    \<and> \<not> buffer_ok b' \<and> readableBytes b' = 2 ^ 64 - 2"
  using readString_stale_target
    [of "\<lparr>buff = [0, 0, 0, 0], read_index = 0, write_index = 4\<rparr>" "[65, 66]"]
  by (simp add: buffer_ok_def vec_max_def contents_def be_bytes_def mem_of_def upt_rec)

end
