(* ===== verification/Object_Pool.thy ===== *)
theory Object_Pool
  imports Sc_Prelude "HOL-Library.Multiset"
begin

text \<open>
  \<open>include/ObjectPool.h\<close>: a pool of equally sized objects, carved out of blocks obtained from
  \<open>malloc\<close>.  Every block keeps the list of its idle slots; \<open>pop\<close> hands out an idle slot
  (making a block when there is none), \<open>push\<close> gives a slot back to the block whose address
  range holds it, \<open>shrink\<close> returns wholly idle blocks to the heap.  Addresses are natural
  numbers (user-space addresses are positive as \<open>int64_t\<close>).  The address \<open>malloc\<close> returns is
  an argument of the operations that may call it, \<open>0\<close> being the null pointer.
\<close>

section \<open>State\<close>

record block =
  key :: nat
  objs :: "nat list"
  blk_begin :: nat
  blk_end :: nat

record pool =
  block_list :: "block list"
  block_size :: nat
  elem_size :: nat

definition valid_addr :: "nat \<Rightarrow> block \<Rightarrow> bool" where
  "valid_addr addr b \<longleftrightarrow> blk_begin b \<le> addr \<and> addr \<le> blk_end b"

section \<open>Operations\<close>

text \<open>
  \<open>malloc\<close> returned \<open>p\<close>.  A pool whose block size is 0 would take the front of an empty list.
\<close>

definition slot_list :: "nat \<Rightarrow> nat \<Rightarrow> nat \<Rightarrow> nat list" where
  "slot_list p n sz = map (\<lambda>i. p + i * sz) [0 ..< n]"

definition make_new_block :: "nat \<Rightarrow> pool \<Rightarrow> fault + pool" where
  "make_new_block p P =
     bind_res (check (p \<noteq> 0) Assert_Fail) (\<lambda>_.
     let obj_list = slot_list p (block_size P) (elem_size P) in
     bind_res (check (obj_list \<noteq> []) Out_Of_Bounds) (\<lambda>_.
     Inr (P\<lparr>block_list := block_list P @
            [\<lparr>key = p, objs = obj_list, blk_begin = hd obj_list, blk_end = last obj_list\<rparr>]\<rparr>)))"

definition new_pool :: "nat \<Rightarrow> nat \<Rightarrow> nat \<Rightarrow> fault + pool" where
  "new_pool p n sz = make_new_block p \<lparr>block_list = [], block_size = n, elem_size = sz\<rparr>"

definition free_all :: "pool \<Rightarrow> nat list \<times> pool" where
  "free_all P = (map key (block_list P), P\<lparr>block_list := []\<rparr>)"

definition dump_info :: "pool \<Rightarrow> (nat \<times> nat \<times> nat) \<times> (nat \<times> nat \<times> nat) list" where
  "dump_info P =
     ((length (block_list P), block_size P,
       (length (block_list P) * block_size P * elem_size P) mod 2 ^ 64),
      map (\<lambda>b. (length (objs b), blk_begin b, blk_end b)) (block_list P))"

text \<open>The first block with an idle slot gives its front slot away.\<close>

fun pop_blocks :: "block list \<Rightarrow> (nat \<times> block list) option" where
  "pop_blocks [] = None"
| "pop_blocks (b # bs) =
     (case objs b of
        [] \<Rightarrow> map_option (\<lambda>(a, bs'). (a, b # bs')) (pop_blocks bs)
      | a # rest \<Rightarrow> Some (a, b\<lparr>objs := rest\<rparr> # bs))"

definition pool_pop :: "nat \<Rightarrow> pool \<Rightarrow> fault + (nat \<times> pool)" where
  "pool_pop p P =
     (case pop_blocks (block_list P) of
        Some (a, bs) \<Rightarrow> Inr (a, P\<lparr>block_list := bs\<rparr>)
      | None \<Rightarrow> bind_res (make_new_block p P) (\<lambda>P'.
          let b = last (block_list P') in
          Inr (hd (objs b),
               P'\<lparr>block_list := butlast (block_list P') @ [b\<lparr>objs := tl (objs b)\<rparr>]\<rparr>)))"

text \<open>
  The first block whose range holds the address takes it back; an address of no block is only
  reported.
\<close>

fun push_blocks :: "nat \<Rightarrow> block list \<Rightarrow> block list option" where
  "push_blocks a [] = None"
| "push_blocks a (b # bs) =
     (if valid_addr a b then Some (b\<lparr>objs := objs b @ [a]\<rparr> # bs)
      else map_option ((#) b) (push_blocks a bs))"

definition pool_push :: "nat \<Rightarrow> pool \<Rightarrow> pool" where
  "pool_push a P =
     (case push_blocks a (block_list P) of Some bs \<Rightarrow> P\<lparr>block_list := bs\<rparr> | None \<Rightarrow> P)"

text \<open>
  The loop of \<open>shrink\<close>.  The iterator moves only by erasing the block under it, so it is always
  at the head of the list; a block that is not wholly idle leaves both the list and the iterator
  as they are.  \<open>None\<close>: the loop never ends.  The second component collects the freed keys.
\<close>

partial_function (option) shrink_loop ::
    "nat \<Rightarrow> block list \<Rightarrow> nat list \<Rightarrow> (block list \<times> nat list) option" where
  "shrink_loop n bs freed =
     (case bs of
        [] \<Rightarrow> Some (bs, freed)
      | b # rest \<Rightarrow>
          if rest = [] then Some (bs, freed)
          else if length (objs b) = n then shrink_loop n rest (freed @ [key b])
          else shrink_loop n bs freed)"

definition shrink :: "pool \<Rightarrow> (nat list \<times> pool) option" where
  "shrink P =
     map_option (\<lambda>(bs, freed). (freed, P\<lparr>block_list := bs\<rparr>))
       (shrink_loop (block_size P) (block_list P) [])"

section \<open>Invariant\<close>

text \<open>
  Every block covers its own slots, its idle list holds some of them once each, and the memory of
  two blocks never overlaps.  \<open>idle\<close> are the slots in the lists, \<open>live\<close> those handed out.
\<close>

definition apart :: "nat \<Rightarrow> nat \<Rightarrow> nat \<Rightarrow> bool" where
  "apart len p q \<longleftrightarrow> p + len \<le> q \<or> q + len \<le> p"

definition block_ok :: "nat \<Rightarrow> nat \<Rightarrow> block \<Rightarrow> bool" where
  "block_ok n sz b \<longleftrightarrow>
     blk_begin b = key b \<and> blk_end b = key b + (n - 1) * sz \<and>
     distinct (objs b) \<and> set (objs b) \<subseteq> set (slot_list (key b) n sz)"

definition blocks_ok :: "nat \<Rightarrow> nat \<Rightarrow> block list \<Rightarrow> bool" where
  "blocks_ok n sz bs \<longleftrightarrow>
     (\<forall>b \<in> set bs. block_ok n sz b) \<and> sorted_wrt (\<lambda>b c. apart (n * sz) (key b) (key c)) bs"

definition pool_ok :: "pool \<Rightarrow> bool" where
  "pool_ok P \<longleftrightarrow>
     0 < block_size P \<and> 0 < elem_size P \<and> blocks_ok (block_size P) (elem_size P) (block_list P)"

definition block_slots :: "nat \<Rightarrow> nat \<Rightarrow> block list \<Rightarrow> nat set" where
  "block_slots n sz bs = (\<Union>b \<in> set bs. set (slot_list (key b) n sz))"

definition idle_list :: "block list \<Rightarrow> nat list" where
  "idle_list bs = concat (map objs bs)"

definition all_slots :: "pool \<Rightarrow> nat set" where
  "all_slots P = block_slots (block_size P) (elem_size P) (block_list P)"

definition idle :: "pool \<Rightarrow> nat set" where
  "idle P = set (idle_list (block_list P))"

definition live :: "pool \<Rightarrow> nat set" where
  "live P = all_slots P - idle P"

text \<open>What the C library promises of a result of \<open>malloc\<close>: not null, and disjoint storage.\<close>

definition malloc_ok :: "nat \<Rightarrow> pool \<Rightarrow> bool" where
  "malloc_ok p P \<longleftrightarrow>
     p \<noteq> 0 \<and> (\<forall>b \<in> set (block_list P). apart (block_size P * elem_size P) (key b) p)"

lemma malloc_ok_exists: "\<exists>p. malloc_ok p P"
proof (intro exI)
  let ?p = "Suc (sum_list (map (\<lambda>b. key b + block_size P * elem_size P) (block_list P)))"
  have "key b + block_size P * elem_size P \<le> sum_list (map (\<lambda>b. key b + block_size P * elem_size P) (block_list P))"
    if "b \<in> set (block_list P)" for b
    using that by (intro member_le_sum_list) auto
  then show "malloc_ok ?p P" by (auto simp: malloc_ok_def apart_def intro: le_SucI)
qed

subsection \<open>Slots\<close>

lemma length_slot_list [simp]: "length (slot_list p n sz) = n"
  by (simp add: slot_list_def)

lemma slot_list_eq_Nil [simp]: "slot_list p n sz = [] \<longleftrightarrow> n = 0"
  by (simp add: slot_list_def)

lemma distinct_slot_list: "0 < sz \<Longrightarrow> distinct (slot_list p n sz)"
  by (auto simp: slot_list_def distinct_map inj_on_def)

lemma hd_slot_list [simp]: "0 < n \<Longrightarrow> hd (slot_list p n sz) = p"
  by (simp add: slot_list_def hd_map)

lemma last_slot_list [simp]: "0 < n \<Longrightarrow> last (slot_list p n sz) = p + (n - 1) * sz"
  by (simp add: slot_list_def last_map)

lemma in_slot_listE:
  assumes "a \<in> set (slot_list p n sz)"
  obtains i where "i < n" "a = p + i * sz"
  using assms by (auto simp: slot_list_def)

lemma slot_in_range:
  assumes "a \<in> set (slot_list p n sz)"
  shows "p \<le> a" "a + sz \<le> p + n * sz"
proof -
  from assms obtain i where i: "i < n" "a = p + i * sz" by (rule in_slot_listE)
  have "(i + 1) * sz \<le> n * sz" using i(1) by (intro mult_le_mono1) simp
  with i show "p \<le> a" "a + sz \<le> p + n * sz" by simp_all
qed

lemma slots_do_not_overlap:
  assumes "a \<in> set (slot_list p n sz)" "a' \<in> set (slot_list p n sz)" "a \<noteq> a'"
  shows "apart sz a a'"
proof -
  have aux: "apart sz (p + i * sz) (p + j * sz)" if "i < j" for i j
  proof -
    have "(i + 1) * sz \<le> j * sz" using that by (intro mult_le_mono1) simp
    then show ?thesis by (simp add: apart_def)
  qed
  obtain i j where "a = p + i * sz" "a' = p + j * sz" "i \<noteq> j"
    using assms by (metis in_slot_listE)
  with aux [of i j] aux [of j i] show ?thesis
    by (cases "i < j") (auto simp: apart_def)
qed

lemma slots_apart:
  assumes "apart (n * sz) p q" "0 < sz" "a \<in> set (slot_list p n sz)" "a' \<in> set (slot_list q n sz)"
  shows "apart sz a a'" "a \<noteq> a'"
  using assms slot_in_range [OF assms(3)] slot_in_range [OF assms(4)]
  by (auto simp: apart_def)

lemma valid_addr_slot:
  assumes "block_ok n sz b" and "a \<in> set (slot_list (key b) n sz)"
  shows "valid_addr a b"
proof -
  obtain i where i: "i < n" "a = key b + i * sz" using assms(2) by (rule in_slot_listE)
  then have "i * sz \<le> (n - 1) * sz" by (intro mult_le_mono1) simp
  with i assms(1) show ?thesis by (simp add: valid_addr_def block_ok_def)
qed

lemma not_valid_addr_apart:
  assumes "block_ok n sz b" "apart (n * sz) (key b) p" "0 < n" "0 < sz" "a \<in> set (slot_list p n sz)"
  shows "\<not> valid_addr a b"
proof -
  have "(n - 1) * sz + sz = n * sz" using assms(3) by (cases n) simp_all
  with assms slot_in_range [OF assms(5)] show ?thesis
    by (auto simp: valid_addr_def block_ok_def apart_def)
qed

subsection \<open>Lists of blocks\<close>

lemma blocks_ok_simps [simp]:
  "blocks_ok n sz []"
  "blocks_ok n sz (b # bs) \<longleftrightarrow>
     block_ok n sz b \<and> (\<forall>c \<in> set bs. apart (n * sz) (key b) (key c)) \<and> blocks_ok n sz bs"
  by (auto simp: blocks_ok_def)

lemma blocks_ok_append:
  "blocks_ok n sz (bs @ cs) \<longleftrightarrow> blocks_ok n sz bs \<and> blocks_ok n sz cs
     \<and> (\<forall>b \<in> set bs. \<forall>c \<in> set cs. apart (n * sz) (key b) (key c))"
  by (auto simp: blocks_ok_def sorted_wrt_append)

lemma block_slots_simps [simp]:
  "block_slots n sz [] = {}"
  "block_slots n sz (b # bs) = set (slot_list (key b) n sz) \<union> block_slots n sz bs"
  "block_slots n sz (bs @ cs) = block_slots n sz bs \<union> block_slots n sz cs"
  by (auto simp: block_slots_def)

lemma idle_list_simps [simp]:
  "idle_list [] = []"
  "idle_list (b # bs) = objs b @ idle_list bs"
  "idle_list (bs @ cs) = idle_list bs @ idle_list cs"
  by (simp_all add: idle_list_def)

lemma idle_subset_slots: "blocks_ok n sz bs \<Longrightarrow> set (idle_list bs) \<subseteq> block_slots n sz bs"
  by (induction bs) (auto simp: block_ok_def)

lemma slots_disjoint:
  assumes "0 < sz" "\<forall>c \<in> set bs. apart (n * sz) p (key c)"
  shows "set (slot_list p n sz) \<inter> block_slots n sz bs = {}"
  using assms slots_apart(2) [OF _ assms(1)] by (fastforce simp: block_slots_def)

lemma distinct_idle_list: "0 < sz \<Longrightarrow> blocks_ok n sz bs \<Longrightarrow> distinct (idle_list bs)"
proof (induction bs)
  case Nil
  then show ?case by simp
next
  case (Cons b bs)
  then have "set (slot_list (key b) n sz) \<inter> block_slots n sz bs = {}"
    by (intro slots_disjoint) auto
  moreover have "set (objs b) \<subseteq> set (slot_list (key b) n sz)" "distinct (objs b)"
    using Cons.prems by (auto simp: block_ok_def)
  moreover have "set (idle_list bs) \<subseteq> block_slots n sz bs"
    using Cons.prems idle_subset_slots by simp
  ultimately show ?case using Cons by auto
qed

lemma block_slots_apart:
  assumes "0 < sz" "blocks_ok n sz bs" "a \<in> block_slots n sz bs" "a' \<in> block_slots n sz bs" "a \<noteq> a'"
  shows "apart sz a a'"
proof -
  from assms(3,4) obtain b c where bc: "b \<in> set bs" "a \<in> set (slot_list (key b) n sz)"
      "c \<in> set bs" "a' \<in> set (slot_list (key c) n sz)"
    by (auto simp: block_slots_def)
  then obtain i j where ij: "b = bs ! i" "c = bs ! j" "i < length bs" "j < length bs"
    by (metis in_set_conv_nth)
  have "i = j \<or> apart (n * sz) (key b) (key c) \<or> apart (n * sz) (key c) (key b)"
    using ij assms(2) by (cases i j rule: linorder_cases)
      (auto simp: blocks_ok_def sorted_wrt_iff_nth_less)
  then show ?thesis
  proof (elim disjE)
    assume "i = j"
    with ij bc assms(5) show ?thesis by (auto intro: slots_do_not_overlap)
  next
    assume "apart (n * sz) (key b) (key c)"
    then show ?thesis using assms(1) bc by (blast intro: slots_apart(1))
  next
    assume "apart (n * sz) (key c) (key b)"
    then have "apart sz a' a" using assms(1) bc by (blast intro: slots_apart(1))
    then show ?thesis by (auto simp: apart_def)
  qed
qed

subsection \<open>Taking a slot\<close>

lemma pop_blocks_None: "pop_blocks bs = None \<longleftrightarrow> idle_list bs = []"
  by (induction bs) (auto split: list.splits)

lemma pop_blocks_Some:
  assumes "pop_blocks bs = Some (a, bs')"
  shows "idle_list bs = a # idle_list bs'" "map key bs' = map key bs"
  using assms by (induction bs arbitrary: bs') (auto split: list.splits)

lemma block_slots_keys: "block_slots n sz bs = (\<Union>p \<in> set (map key bs). set (slot_list p n sz))"
  by (simp add: block_slots_def)

lemma block_slots_cong: "map key bs = map key bs' \<Longrightarrow> block_slots n sz bs = block_slots n sz bs'"
  by (simp only: block_slots_keys)

lemma apart_keys_cong:
  assumes "map key cs = map key bs"
  shows "(\<forall>c \<in> set cs. apart len p (key c)) \<longleftrightarrow> (\<forall>c \<in> set bs. apart len p (key c))"
proof -
  have *: "(\<forall>c \<in> set ds. apart len p (key c)) \<longleftrightarrow> (\<forall>q \<in> set (map key ds). apart len p q)" for ds
    by simp
  show ?thesis by (simp only: * [of cs] * [of bs] assms)
qed

lemma pop_blocks_ok:
  assumes "pop_blocks bs = Some (a, bs')" "blocks_ok n sz bs"
  shows "blocks_ok n sz bs'"
  using assms
proof (induction bs arbitrary: bs')
  case Nil
  then show ?case by simp
next
  case (Cons b bs)
  show ?case
  proof (cases "objs b")
    case Nil
    with Cons.prems obtain cs where cs: "pop_blocks bs = Some (a, cs)" "bs' = b # cs"
      by auto
    moreover note apart_keys_cong [OF pop_blocks_Some(2) [OF cs(1)], of "n * sz" "key b"]
    ultimately show ?thesis using Cons by auto
  next
    case (Cons x xs)
    with Cons.prems show ?thesis by (auto simp: block_ok_def)
  qed
qed

subsection \<open>Giving a slot back\<close>

lemma push_blocks_slot:
  assumes "0 < n" "0 < sz" "blocks_ok n sz bs" "a \<in> block_slots n sz bs"
  shows "\<exists>bs'. push_blocks a bs = Some bs' \<and> map key bs' = map key bs
    \<and> mset (idle_list bs') = add_mset a (mset (idle_list bs))
    \<and> (a \<notin> set (idle_list bs) \<longrightarrow> blocks_ok n sz bs')"
  using assms(3,4)
proof (induction bs)
  case Nil
  then show ?case by simp
next
  case (Cons b bs)
  show ?case
  proof (cases "a \<in> set (slot_list (key b) n sz)")
    case True
    then have "valid_addr a b" using Cons.prems by (auto intro: valid_addr_slot)
    with True Cons.prems show ?thesis by (auto simp: block_ok_def)
  next
    case False
    with Cons.prems have a: "a \<in> block_slots n sz bs" by simp
    then obtain c where "c \<in> set bs" "a \<in> set (slot_list (key c) n sz)"
      by (auto simp: block_slots_def)
    then have nv: "\<not> valid_addr a b"
      using Cons.prems assms(1,2) by (intro not_valid_addr_apart) auto
    obtain bs' where bs': "push_blocks a bs = Some bs'" "map key bs' = map key bs"
        "mset (idle_list bs') = add_mset a (mset (idle_list bs))"
        "a \<notin> set (idle_list bs) \<longrightarrow> blocks_ok n sz bs'"
      using Cons a by auto
    note apart_keys_cong [OF bs'(2), of "n * sz" "key b"]
    with nv bs' Cons.prems show ?thesis by auto
  qed
qed

lemma push_blocks_foreign:
  assumes "\<And>b. b \<in> set bs \<Longrightarrow> \<not> valid_addr a b"
  shows "push_blocks a bs = None"
  using assms by (induction bs) auto

section \<open>The contract of a pool\<close>

text \<open>
  What the users of a pool rely on: taking yields an object nobody holds and only adds it to the
  held ones, giving back a held object only removes it.  Exclusive ownership over whole runs, and
  the bulk returns of \<open>ClientEntity::clear\<close>, follow from these laws alone.
\<close>

datatype pool_event = Pop nat | Push nat

text \<open>No event of the sequence pops an object that is held at that point.\<close>

fun exclusive :: "nat set \<Rightarrow> pool_event list \<Rightarrow> bool" where
  "exclusive H [] \<longleftrightarrow> True"
| "exclusive H (Pop a # es) \<longleftrightarrow> a \<notin> H \<and> exclusive (insert a H) es"
| "exclusive H (Push a # es) \<longleftrightarrow> exclusive (H - {a}) es"

fun held_after :: "nat set \<Rightarrow> pool_event list \<Rightarrow> nat set" where
  "held_after H [] = H"
| "held_after H (Pop a # es) = held_after (insert a H) es"
| "held_after H (Push a # es) = held_after (H - {a}) es"

locale object_pool =
  fixes inv :: "'p \<Rightarrow> bool"
    and held :: "'p \<Rightarrow> nat set"
    and fresh :: "nat \<Rightarrow> 'p \<Rightarrow> bool"
    and take1 :: "nat \<Rightarrow> 'p \<Rightarrow> fault + (nat \<times> 'p)"
    and give :: "nat \<Rightarrow> 'p \<Rightarrow> fault + 'p"
  assumes take_ok: "inv P \<Longrightarrow> fresh m P \<Longrightarrow>
      \<exists>a P'. take1 m P = Inr (a, P') \<and> inv P' \<and> a \<notin> held P \<and> held P' = insert a (held P)"
    and give_ok: "inv P \<Longrightarrow> a \<in> held P \<Longrightarrow>
      \<exists>P'. give a P = Inr P' \<and> inv P' \<and> held P' = held P - {a}"
begin

inductive run :: "'p \<Rightarrow> pool_event list \<Rightarrow> 'p \<Rightarrow> bool" where
  done_run: "run P [] P"
| pop_run: "fresh m P \<Longrightarrow> take1 m P = Inr (a, Q) \<Longrightarrow> run Q es R \<Longrightarrow> run P (Pop a # es) R"
| push_run: "a \<in> held P \<Longrightarrow> give a P = Inr Q \<Longrightarrow> run Q es R \<Longrightarrow> run P (Push a # es) R"

lemma run_exclusive:
  assumes "run P es Q" and "inv P"
  shows "inv Q \<and> exclusive (held P) es \<and> held Q = held_after (held P) es"
  using assms
proof (induction rule: run.induct)
  case (done_run P)
  then show ?case by simp
next
  case (pop_run m P a Q es R)
  then have "inv Q" "a \<notin> held P" "held Q = insert a (held P)"
    using take_ok [of P m] by auto
  with pop_run show ?case by simp
next
  case (push_run a P Q es R)
  then have "inv Q" "held Q = held P - {a}"
    using give_ok [of P a] by auto
  with push_run show ?case by simp
qed

lemma give_list:
  assumes "inv P" "distinct as" "set as \<subseteq> held P"
  shows "\<exists>P'. each give as P = Inr P' \<and> inv P' \<and> held P' = held P - set as"
  using assms
proof (induction as arbitrary: P)
  case Nil
  then show ?case by simp
next
  case (Cons a as)
  then obtain Q where Q: "give a P = Inr Q" "inv Q" "held Q = held P - {a}"
    using give_ok [of P a] by auto
  with Cons.IH [of Q] Cons.prems obtain P' where "each give as Q = Inr P'" "inv P'"
      "held P' = held Q - set as"
    by auto
  with Q show ?case by auto
qed

end

subsection \<open>The pool of the library keeps the contract\<close>

lemma make_new_block_ok:
  assumes "pool_ok P" and "p \<noteq> 0"
  shows "make_new_block p P = Inr (P\<lparr>block_list := block_list P @
      [\<lparr>key = p, objs = slot_list p (block_size P) (elem_size P), blk_begin = p,
        blk_end = p + (block_size P - 1) * elem_size P\<rparr>]\<rparr>)"
  using assms by (simp add: make_new_block_def pool_ok_def Let_def)

lemma live_subset: "live P \<subseteq> all_slots P"
  by (auto simp: live_def)

lemma pool_pop_reuse:
  assumes ok: "pool_ok P" and pop: "pop_blocks (block_list P) = Some (a, bs)"
  shows "pool_ok (P\<lparr>block_list := bs\<rparr>)" "a \<notin> live P"
    "live (P\<lparr>block_list := bs\<rparr>) = insert a (live P)"
    "all_slots (P\<lparr>block_list := bs\<rparr>) = all_slots P"
proof -
  let ?n = "block_size P" and ?sz = "elem_size P"
  have bs: "blocks_ok ?n ?sz (block_list P)" and sz: "0 < ?sz"
    using ok by (auto simp: pool_ok_def)
  show "pool_ok (P\<lparr>block_list := bs\<rparr>)"
    using ok pop_blocks_ok [OF pop] by (simp add: pool_ok_def)
  have slots: "block_slots ?n ?sz bs = block_slots ?n ?sz (block_list P)"
    using pop_blocks_Some(2) [OF pop] by (rule block_slots_cong)
  then show "all_slots (P\<lparr>block_list := bs\<rparr>) = all_slots P"
    by (simp add: all_slots_def)
  have idle: "idle_list (block_list P) = a # idle_list bs"
    using pop by (rule pop_blocks_Some)
  have "a \<notin> set (idle_list bs)"
    using distinct_idle_list [OF sz bs] idle by simp
  moreover have "a \<in> all_slots P"
    using idle_subset_slots [OF bs] idle by (simp add: all_slots_def)
  ultimately show "a \<notin> live P" "live (P\<lparr>block_list := bs\<rparr>) = insert a (live P)"
    using idle slots by (auto simp: live_def idle_def all_slots_def)
qed

lemma pool_pop_grow:
  assumes ok: "pool_ok P" and m: "malloc_ok p P" and none: "pop_blocks (block_list P) = None"
  obtains P' where "pool_pop p P = Inr (p, P')" "pool_ok P'" "p \<notin> all_slots P"
    "live P' = insert p (live P)" "all_slots P \<subseteq> all_slots P'"
    "block_size P' = block_size P" "elem_size P' = elem_size P"
proof -
  let ?n = "block_size P" and ?sz = "elem_size P"
  let ?b = "\<lparr>key = p, objs = tl (slot_list p ?n ?sz), blk_begin = p, blk_end = p + (?n - 1) * ?sz\<rparr>"
  let ?P' = "P\<lparr>block_list := block_list P @ [?b]\<rparr>"
  have n: "0 < ?n" "0 < ?sz" and bs: "blocks_ok ?n ?sz (block_list P)"
    using ok by (auto simp: pool_ok_def)
  have p: "p \<noteq> 0" and apart: "\<forall>b \<in> set (block_list P). apart (?n * ?sz) (key b) p"
    using m by (auto simp: malloc_ok_def)
  have apart': "\<forall>b \<in> set (block_list P). apart (?n * ?sz) p (key b)"
    using apart by (auto simp: apart_def)
  have sl: "slot_list p ?n ?sz = p # tl (slot_list p ?n ?sz)"
    using n hd_slot_list [of ?n p ?sz] by (metis hd_Cons_tl less_not_refl slot_list_eq_Nil)
  have d: "distinct (p # tl (slot_list p ?n ?sz))"
    using distinct_slot_list [OF n(2), of p ?n] sl by simp
  have idle: "idle_list (block_list P) = []"
    using none by (simp add: pop_blocks_None)
  have disj: "set (slot_list p ?n ?sz) \<inter> block_slots ?n ?sz (block_list P) = {}"
    using n(2) apart' by (rule slots_disjoint)
  have set_sl: "set (slot_list p ?n ?sz) = insert p (set (tl (slot_list p ?n ?sz)))"
    by (subst sl) simp
  show thesis
  proof (rule that)
    show "pool_pop p P = Inr (p, ?P')"
      using n by (simp add: pool_pop_def none make_new_block_ok [OF ok p] Let_def)
    show "pool_ok ?P'"
      using n bs apart d set_sl by (auto simp: pool_ok_def blocks_ok_append block_ok_def)
    show "p \<notin> all_slots P"
      using disj set_sl by (auto simp: all_slots_def)
    show "live ?P' = insert p (live P)"
      using d disj set_sl idle by (auto simp: live_def all_slots_def idle_def)
  qed (auto simp: all_slots_def)
qed

lemma pool_pop_ok:
  assumes "pool_ok P" and "malloc_ok m P"
  shows "\<exists>a P'. pool_pop m P = Inr (a, P') \<and> pool_ok P' \<and> a \<notin> live P \<and> live P' = insert a (live P)"
proof (cases "pop_blocks (block_list P)")
  case None
  obtain P' where "pool_pop m P = Inr (m, P')" "pool_ok P'" "m \<notin> all_slots P"
      "live P' = insert m (live P)" "all_slots P \<subseteq> all_slots P'"
      "block_size P' = block_size P" "elem_size P' = elem_size P"
    by (rule pool_pop_grow [OF assms None])
  moreover have "m \<notin> live P"
    using \<open>m \<notin> all_slots P\<close> live_subset by blast
  ultimately show ?thesis by blast
next
  case (Some x)
  then obtain a bs where x: "pop_blocks (block_list P) = Some (a, bs)" by (cases x) auto
  then have "pool_pop m P = Inr (a, P\<lparr>block_list := bs\<rparr>)" by (simp add: pool_pop_def)
  with pool_pop_reuse [OF assms(1) x] show ?thesis by blast
qed

lemma pool_push_slot:
  assumes ok: "pool_ok P" and a: "a \<in> all_slots P"
  shows "\<exists>bs. pool_push a P = P\<lparr>block_list := bs\<rparr>
    \<and> mset (idle_list bs) = add_mset a (mset (idle_list (block_list P)))
    \<and> all_slots (P\<lparr>block_list := bs\<rparr>) = all_slots P
    \<and> (a \<in> live P \<longrightarrow> pool_ok (P\<lparr>block_list := bs\<rparr>))"
proof -
  let ?n = "block_size P" and ?sz = "elem_size P"
  obtain bs where bs: "push_blocks a (block_list P) = Some bs" "map key bs = map key (block_list P)"
      "mset (idle_list bs) = add_mset a (mset (idle_list (block_list P)))"
      "a \<notin> set (idle_list (block_list P)) \<longrightarrow> blocks_ok ?n ?sz bs"
    using push_blocks_slot [of ?n ?sz "block_list P" a] ok a
    by (auto simp: pool_ok_def all_slots_def)
  then have "all_slots (P\<lparr>block_list := bs\<rparr>) = all_slots P"
    using block_slots_cong [OF bs(2)] by (simp add: all_slots_def)
  with bs ok show ?thesis
    by (auto simp: pool_push_def pool_ok_def live_def idle_def)
qed

lemma pool_push_ok:
  assumes "pool_ok P" and "a \<in> live P"
  shows "pool_ok (pool_push a P) \<and> live (pool_push a P) = live P - {a}"
proof -
  obtain bs where bs: "pool_push a P = P\<lparr>block_list := bs\<rparr>"
      "mset (idle_list bs) = add_mset a (mset (idle_list (block_list P)))"
      "all_slots (P\<lparr>block_list := bs\<rparr>) = all_slots P" "pool_ok (P\<lparr>block_list := bs\<rparr>)"
    using pool_push_slot [OF assms(1)] assms(2) live_subset by (metis subset_iff)
  have "set (idle_list bs) = insert a (set (idle_list (block_list P)))"
    using bs(2) by (metis set_mset_add_mset_insert set_mset_mset)
  with bs show ?thesis by (auto simp: live_def idle_def)
qed

interpretation opool: object_pool pool_ok live malloc_ok pool_pop "\<lambda>a P. Inr (pool_push a P)"
  by unfold_locales (erule (1) pool_pop_ok, simp add: pool_push_ok)

section \<open>Shrinking\<close>

lemma shrink_loop_returns:
  assumes "\<forall>b \<in> set (butlast bs). length (objs b) = n"
  shows "shrink_loop n bs freed = Some (drop (length bs - 1) bs, freed @ map key (butlast bs))"
  using assms
proof (induction bs arbitrary: freed)
  case Nil
  then show ?case by (simp add: shrink_loop.simps)
next
  case (Cons b bs)
  show ?case
  proof (cases "bs = []")
    case True
    then show ?thesis by (simp add: shrink_loop.simps)
  next
    case False
    with Cons.prems have b: "length (objs b) = n" and "\<forall>b \<in> set (butlast bs). length (objs b) = n"
      by auto
    with Cons.IH [of "freed @ [key b]"] False show ?thesis
      by (subst shrink_loop.simps) (cases bs; simp)
  qed
qed

lemma shrink_loop_Some:
  assumes "shrink_loop n bs freed = Some r"
  shows "\<forall>b \<in> set (butlast bs). length (objs b) = n"
proof (rule shrink_loop.raw_induct
    [where P = "\<lambda>n bs freed r. \<forall>b \<in> set (butlast bs). length (objs b) = n", OF _ assms])
  fix f n bs freed r
  assume IH: "\<And>n bs freed r. f n bs freed = Some r \<Longrightarrow> \<forall>b \<in> set (butlast bs). length (objs b) = n"
    and eq: "(case bs of [] \<Rightarrow> Some (bs, freed)
      | b # rest \<Rightarrow> if rest = [] then Some (bs, freed)
          else if length (objs b) = n then f n rest (freed @ [key b]) else f n bs freed) = Some r"
  show "\<forall>b \<in> set (butlast bs). length (objs b) = n"
  proof (cases bs)
    case Nil
    then show ?thesis by simp
  next
    case (Cons b rest)
    consider "rest = []" | "rest \<noteq> []" "length (objs b) = n" | "rest \<noteq> []" "length (objs b) \<noteq> n"
      by blast
    then show ?thesis
    proof cases
      case 2
      with eq Cons have "f n rest (freed @ [key b]) = Some r" by simp
      from IH [OF this] 2 Cons show ?thesis by simp
    next
      case 3
      with eq Cons have "f n bs freed = Some r" by simp
      then show ?thesis by (rule IH)
    qed (use Cons in simp)
  qed
qed

section \<open>Properties\<close>

text \<open>A two-slot pool, all idle, for the examples.\<close>

definition sample_pool :: pool where
  "sample_pool = \<lparr>block_list = [\<lparr>key = 100, objs = [100, 108], blk_begin = 100, blk_end = 108\<rparr>],
     block_size = 2, elem_size = 8\<rparr>"

lemma sample_pool_new: "new_pool 100 2 8 = Inr sample_pool"
  by (simp add: new_pool_def make_new_block_def sample_pool_def slot_list_def Let_def upt_rec)

lemma sample_pool_ok: "pool_ok sample_pool"
  by (simp add: sample_pool_def pool_ok_def block_ok_def slot_list_def upt_rec)

lemma sample_pool_live: "live sample_pool = {}" "idle sample_pool = {100, 108}"
  by (auto simp: sample_pool_def live_def idle_def all_slots_def slot_list_def upt_rec)

definition pool_run :: "pool \<Rightarrow> pool_event list \<Rightarrow> pool \<Rightarrow> bool" where
  "pool_run = object_pool.run live malloc_ok pool_pop (\<lambda>a P. Inr (pool_push a P))"

lemmas pool_run_intros =
  opool.run.intros [folded pool_run_def]

text \<open>
  C12: Exclusive ownership.  In any run of pops and pushes in which clients only push objects they
  hold (and \<open>malloc\<close> keeps its promise), no object is handed out while somebody holds it, the
  held objects are at every point exactly the popped and not yet pushed ones, the pool invariant
  holds at the end, and no two slots of the pool share a byte.
\<close>
theorem pool_run_exclusive:
  assumes "pool_run P es Q" and "pool_ok P"
  shows "pool_ok Q \<and> exclusive (live P) es \<and> live Q = held_after (live P) es
    \<and> (\<forall>a a'. a \<in> all_slots Q \<and> a' \<in> all_slots Q \<and> a \<noteq> a' \<longrightarrow> apart (elem_size Q) a a')"
proof -
  have "pool_ok Q \<and> exclusive (live P) es \<and> live Q = held_after (live P) es"
    using opool.run_exclusive assms by (simp add: pool_run_def)
  moreover from this have "\<forall>a a'. a \<in> all_slots Q \<and> a' \<in> all_slots Q \<and> a \<noteq> a'
      \<longrightarrow> apart (elem_size Q) a a'"
    using block_slots_apart by (auto simp: pool_ok_def all_slots_def)
  ultimately show ?thesis by blast
qed

theorem pool_run_exclusive_witness:
  "\<exists>Q. pool_run sample_pool [Pop 100, Push 100, Pop 108, Pop 100, Pop 200] Q \<and> pool_ok Q
     \<and> live Q = {100, 108, 200}"
proof -
  let ?Q = "\<lparr>block_list = [\<lparr>key = 100, objs = [], blk_begin = 100, blk_end = 108\<rparr>,
      \<lparr>key = 200, objs = [208], blk_begin = 200, blk_end = 208\<rparr>], block_size = 2, elem_size = 8\<rparr>"
  note defs = sample_pool_def malloc_ok_def apart_def pool_pop_def pool_push_def valid_addr_def
    make_new_block_def slot_list_def Let_def live_def all_slots_def idle_def upt_rec
  have run: "pool_run sample_pool [Pop 100, Push 100, Pop 108, Pop 100, Pop 200] ?Q"
    by ((rule pool_run_intros(2) [where m = 200] pool_run_intros(3), simp add: defs, simp add: defs)+,
        rule pool_run_intros(1))
  from pool_run_exclusive [OF run sample_pool_ok] have "pool_ok ?Q" "live ?Q = {100, 108, 200}"
    by (auto simp: sample_pool_live)
  with run show ?thesis by blast
qed

text \<open>
  What \<open>pop\<close> returns.  While some block has an idle slot, \<open>pop\<close> gives out the first
  one in block order and never allocates; otherwise it gives out the first slot of one new block,
  whose other slots become idle, or stops when \<open>malloc\<close> has failed.
\<close>
theorem pool_pop_reuses_or_grows:
  assumes "pool_ok P"
  shows "case idle_list (block_list P) of
      a # rest \<Rightarrow> (\<exists>P'. pool_pop p P = Inr (a, P') \<and> idle_list (block_list P') = rest
                    \<and> all_slots P' = all_slots P)
    | [] \<Rightarrow> if p = 0 then pool_pop p P = Inl Assert_Fail
        else \<exists>P'. pool_pop p P = Inr (p, P')
               \<and> p # idle_list (block_list P') = slot_list p (block_size P) (elem_size P)
               \<and> map key (block_list P') = map key (block_list P) @ [p]"
proof (cases "pop_blocks (block_list P)")
  case None
  then have "idle_list (block_list P) = []" by (simp add: pop_blocks_None)
  moreover have n: "0 < block_size P" using assms by (simp add: pool_ok_def)
  moreover have "p # tl (slot_list p (block_size P) (elem_size P)) = slot_list p (block_size P) (elem_size P)"
    using n hd_slot_list [OF n, of p "elem_size P"] by (metis hd_Cons_tl less_not_refl slot_list_eq_Nil)
  ultimately show ?thesis
    using None make_new_block_ok [OF assms, of p]
    by (auto simp: pool_pop_def make_new_block_def Let_def)
next
  case (Some x)
  then obtain a bs where x: "pop_blocks (block_list P) = Some (a, bs)" by (cases x) auto
  with pop_blocks_Some(1) [OF x] pool_pop_reuse(4) [OF assms x] show ?thesis
    by (simp add: pool_pop_def)
qed

theorem pool_pop_reuses_or_grows_witness:
  "\<exists>P'. pool_pop 0 sample_pool = Inr (100, P') \<and> idle_list (block_list P') = [108]
     \<and> all_slots P' = all_slots sample_pool"
  using pool_pop_reuses_or_grows [OF sample_pool_ok, of 0] by (simp add: sample_pool_def)

text \<open>
  The pool does not notice a second push: giving back a slot that is already idle lists it
  twice, so it will be handed out to two holders; the invariant is lost.
\<close>
theorem pool_push_twice:
  assumes "pool_ok P" and "a \<in> idle P"
  shows "count_list (idle_list (block_list (pool_push a P))) a = 2 \<and> \<not> pool_ok (pool_push a P)"
proof -
  have bs: "blocks_ok (block_size P) (elem_size P) (block_list P)" and sz: "0 < elem_size P"
    using assms(1) by (auto simp: pool_ok_def)
  have "a \<in> all_slots P"
    using idle_subset_slots [OF bs] assms(2) by (auto simp: idle_def all_slots_def)
  then obtain cs where cs: "pool_push a P = P\<lparr>block_list := cs\<rparr>"
      "mset (idle_list cs) = add_mset a (mset (idle_list (block_list P)))"
    using pool_push_slot [OF assms(1)] by blast
  have "count (mset (idle_list (block_list P))) a = 1"
    using distinct_idle_list [OF sz bs] assms(2) by (simp add: idle_def distinct_count_atmost_1)
  then have two: "count (mset (idle_list cs)) a = 2"
    using cs(2) by simp
  have "\<not> distinct (idle_list cs)"
    using two distinct_count_atmost_1 [of "idle_list cs"] by (metis num.distinct(1) numeral_eq_one_iff zero_neq_numeral)
  then have "\<not> pool_ok (P\<lparr>block_list := cs\<rparr>)"
    using distinct_idle_list [OF sz, of "block_size P" cs] by (auto simp: pool_ok_def)
  moreover note two [unfolded count_mset]
  ultimately show ?thesis by (simp add: cs(1))
qed

theorem pool_push_twice_witness:
  "count_list (idle_list (block_list (pool_push 108 sample_pool))) 108 = 2
     \<and> \<not> pool_ok (pool_push 108 sample_pool)"
  by (rule pool_push_twice [OF sample_pool_ok]) (simp add: sample_pool_live)

text \<open>
  C33: \<open>shrink\<close> returns exactly when every block but the last is wholly idle, and it then frees
  all blocks but the last.  On any other pool of several blocks its loop spins for ever on the first
  block in use, holding the pool's mutex.
\<close>
theorem shrink_returns_iff:
  "shrink P =
     (if list_all (\<lambda>b. length (objs b) = block_size P) (butlast (block_list P))
      then Some (map key (butlast (block_list P)),
                 P\<lparr>block_list := drop (length (block_list P) - 1) (block_list P)\<rparr>)
      else None)"
proof (cases "\<forall>b \<in> set (butlast (block_list P)). length (objs b) = block_size P")
  case True
  then show ?thesis by (simp add: shrink_def shrink_loop_returns list_all_iff)
next
  case False
  then have "shrink_loop (block_size P) (block_list P) [] = None"
    using shrink_loop_Some by (metis option.exhaust)
  with False show ?thesis by (auto simp: shrink_def list_all_iff)
qed

end
