(* ===== verification/Buffer_Store.thy ===== *)
theory Buffer_Store
  imports Buffer Object_Pool
begin

text \<open>
  The buffers of a \<open>TcpManager\<close>: its \<open>buffer_pool_\<close> together with the \<open>Buffer\<close> objects
  that live in it (\<open>TcpManager::pop_buffer\<close> and \<open>push_buffer\<close>, include/TcpManager.h).  A
  \<open>Buffer*\<close> is an address; \<open>bufs\<close> maps the addresses of the constructed objects to their
  values, so two pointers to one buffer see each other's writes and a pointer to a destroyed buffer
  is a fault when used.
\<close>

section \<open>State and operations\<close>

record store =
  bpool :: pool
  bufs :: "nat \<rightharpoonup> buffer"

text \<open>\<open>pop\<close> constructs a \<open>Buffer()\<close> in the slot, \<open>push\<close> runs its destructor first.\<close>

definition pop_buffer :: "nat \<Rightarrow> store \<Rightarrow> fault + (nat \<times> store)" where
  "pop_buffer m s =
     bind_res (pool_pop m (bpool s)) (\<lambda>(a, P).
     Inr (a, s\<lparr>bpool := P, bufs := (bufs s)(a \<mapsto> default_buffer)\<rparr>))"

definition push_buffer :: "nat \<Rightarrow> store \<Rightarrow> fault + store" where
  "push_buffer a s =
     (case bufs s a of
        None \<Rightarrow> Inl Use_After_Free
      | Some _ \<Rightarrow> Inr (s\<lparr>bpool := pool_push a (bpool s), bufs := (bufs s)(a := None)\<rparr>))"

definition get_buf :: "nat \<Rightarrow> store \<Rightarrow> fault + buffer" where
  "get_buf a s = (case bufs s a of None \<Rightarrow> Inl Use_After_Free | Some b \<Rightarrow> Inr b)"

definition upd_buf :: "nat \<Rightarrow> (buffer \<Rightarrow> fault + buffer) \<Rightarrow> store \<Rightarrow> fault + store" where
  "upd_buf a f s =
     bind_res (get_buf a s) (\<lambda>b. bind_res (f b) (\<lambda>b'. Inr (s\<lparr>bufs := (bufs s)(a \<mapsto> b')\<rparr>)))"

text \<open>\<open>dst->append(src->readptr(), n)\<close>.\<close>

definition append_from :: "nat \<Rightarrow> nat \<Rightarrow> nat \<Rightarrow> store \<Rightarrow> fault + store" where
  "append_from dst src n s =
     bind_res (get_buf src s) (\<lambda>b.
     bind_res (mem_read (read_index b) n (buff b)) (\<lambda>ds. upd_buf dst (append_bytes ds) s))"

section \<open>Invariant\<close>

definition store_ok :: "store \<Rightarrow> bool" where
  "store_ok s \<longleftrightarrow> pool_ok (bpool s) \<and> live (bpool s) = dom (bufs s) \<and> (\<forall>b \<in> ran (bufs s). buffer_ok b)"

definition view :: "store \<Rightarrow> nat \<Rightarrow> byte list" where
  "view s a = (case bufs s a of None \<Rightarrow> [] | Some b \<Rightarrow> contents b)"

definition same_outside :: "nat set \<Rightarrow> store \<Rightarrow> store \<Rightarrow> bool" where
  "same_outside A s s' \<longleftrightarrow> (\<forall>a \<in> dom (bufs s) - A. bufs s' a = bufs s a)"

lemma same_outside_refl [simp]: "same_outside A s s"
  by (simp add: same_outside_def)

lemma same_outside_trans:
  "same_outside A s t \<Longrightarrow> same_outside A t u \<Longrightarrow> same_outside A s u"
  by (auto simp: same_outside_def dom_def)

lemma same_outside_step:
  assumes "same_outside A s s1" "same_outside B s1 s2" "B \<subseteq> A \<union> - dom (bufs s)"
  shows "same_outside A s s2"
proof -
  have "bufs s2 x = bufs s x" if x: "x \<in> dom (bufs s)" "x \<notin> A" for x
  proof -
    have s1: "bufs s1 x = bufs s x" using assms(1) x by (simp add: same_outside_def)
    have "x \<in> dom (bufs s1)" "x \<notin> B" using s1 x assms(3) by (auto simp: domIff)
    then have "bufs s2 x = bufs s1 x" using assms(2) by (simp add: same_outside_def)
    with s1 show ?thesis by simp
  qed
  then show ?thesis by (simp add: same_outside_def)
qed

lemma same_outside_mono: "same_outside A s s' \<Longrightarrow> A \<subseteq> B \<Longrightarrow> same_outside B s s'"
  by (auto simp: same_outside_def)

lemma same_outside_view:
  "same_outside A s s' \<Longrightarrow> a \<in> dom (bufs s) \<Longrightarrow> a \<notin> A \<Longrightarrow> view s' a = view s a"
  by (simp add: same_outside_def view_def)

lemma view_Some [simp]: "bufs s a = Some b \<Longrightarrow> view s a = contents b"
  by (simp add: view_def)

lemma store_ok_buffer: "store_ok s \<Longrightarrow> bufs s a = Some b \<Longrightarrow> buffer_ok b"
  by (auto simp: store_ok_def ran_def)

lemma get_buf_Some [simp]: "bufs s a = Some b \<Longrightarrow> get_buf a s = Inr b"
  by (simp add: get_buf_def)

lemma pop_buffer_ok:
  assumes "store_ok s" and "malloc_ok m (bpool s)"
  obtains a P where "pop_buffer m s = Inr (a, s\<lparr>bpool := P, bufs := (bufs s)(a \<mapsto> default_buffer)\<rparr>)"
    "a \<notin> dom (bufs s)" "store_ok (s\<lparr>bpool := P, bufs := (bufs s)(a \<mapsto> default_buffer)\<rparr>)"
proof -
  have "pool_ok (bpool s)"
    using assms(1) by (simp add: store_ok_def)
  then obtain a P where P: "pool_pop m (bpool s) = Inr (a, P)" "pool_ok P" "a \<notin> live (bpool s)"
      "live P = insert a (live (bpool s))"
    using opool.take_ok assms(2) by blast
  have "buffer_ok b" if "b \<in> ran ((bufs s)(a \<mapsto> default_buffer))" for b
    using that assms(1) by (auto simp: store_ok_def ran_def split: if_splits)
  then have "store_ok (s\<lparr>bpool := P, bufs := (bufs s)(a \<mapsto> default_buffer)\<rparr>)"
    using P assms(1) by (simp add: store_ok_def)
  moreover have "a \<notin> dom (bufs s)"
    using P assms(1) by (simp add: store_ok_def)
  ultimately show thesis
    by (intro that [of a P]) (simp_all add: pop_buffer_def P)
qed

lemma push_buffer_ok:
  assumes "store_ok s" and "a \<in> dom (bufs s)"
  shows "\<exists>s'. push_buffer a s = Inr s' \<and> store_ok s' \<and> bufs s' = (bufs s)(a := None)"
proof -
  obtain b where b: "bufs s a = Some b" using assms(2) by blast
  have "pool_ok (pool_push a (bpool s)) \<and> live (pool_push a (bpool s)) = live (bpool s) - {a}"
    using assms by (intro pool_push_ok) (auto simp: store_ok_def)
  moreover have "ran ((bufs s)(a := None)) \<subseteq> ran (bufs s)"
    by (auto simp: ran_def split: if_splits)
  ultimately show ?thesis
    using b assms(1) by (auto simp: push_buffer_def store_ok_def)
qed

lemma upd_buf_ok:
  assumes "store_ok s" and "bufs s a = Some b" and "f b = Inr b'" and "buffer_ok b'"
  shows "upd_buf a f s = Inr (s\<lparr>bufs := (bufs s)(a \<mapsto> b')\<rparr>)"
    and "store_ok (s\<lparr>bufs := (bufs s)(a \<mapsto> b')\<rparr>)"
  using assms by (auto simp: upd_buf_def store_ok_def ran_def insert_absorb dom_def)

text \<open>The store is a pool of buffers in the sense of the pool contract.\<close>

interpretation bstore: object_pool store_ok "\<lambda>s. dom (bufs s)" "\<lambda>m s. malloc_ok m (bpool s)"
  pop_buffer push_buffer
proof unfold_locales
  fix s m assume ok: "store_ok s" "malloc_ok m (bpool s)"
  obtain a P where "pop_buffer m s = Inr (a, s\<lparr>bpool := P, bufs := (bufs s)(a \<mapsto> default_buffer)\<rparr>)"
    "a \<notin> dom (bufs s)" "store_ok (s\<lparr>bpool := P, bufs := (bufs s)(a \<mapsto> default_buffer)\<rparr>)"
    by (rule pop_buffer_ok [OF ok])
  then show "\<exists>a s'. pop_buffer m s = Inr (a, s') \<and> store_ok s' \<and> a \<notin> dom (bufs s)
      \<and> dom (bufs s') = insert a (dom (bufs s))"
    by (intro exI [of _ a] exI) (auto simp: conj_comms)
next
  fix s a assume "store_ok s" "a \<in> dom (bufs s)"
  then obtain s' where "push_buffer a s = Inr s'" "store_ok s'" "bufs s' = (bufs s)(a := None)"
    using push_buffer_ok by blast
  then show "\<exists>s'. push_buffer a s = Inr s' \<and> store_ok s' \<and> dom (bufs s') = dom (bufs s) - {a}"
    by simp
qed

lemma push_list_bufs:
  assumes "store_ok s" "distinct as" "set as \<subseteq> dom (bufs s)"
  shows "\<exists>s'. each push_buffer as s = Inr s' \<and> store_ok s' \<and> bufs s' = (bufs s) |` (- set as)"
  using assms
proof (induction as arbitrary: s)
  case Nil
  then show ?case by (simp add: restrict_map_def)
next
  case (Cons a as)
  then obtain t where t: "push_buffer a s = Inr t" "store_ok t" "bufs t = (bufs s)(a := None)"
    using push_buffer_ok [of s a] by auto
  have "distinct as" "set as \<subseteq> dom (bufs t)"
    using Cons.prems t(3) by auto
  then obtain s' where "each push_buffer as t = Inr s'" "store_ok s'"
      "bufs s' = bufs t |` (- set as)"
    using Cons.IH [OF t(2)] by blast
  with t show ?case by (auto simp: restrict_map_def fun_eq_iff)
qed

text \<open>Moving bytes between two buffers.\<close>

lemma append_from_ok:
  assumes ok: "store_ok s" and src: "bufs s src = Some sb" and dst: "bufs s dst = Some db"
    and "src \<noteq> dst" and n: "n \<le> length (contents sb)" and fits: "write_index db + n \<le> vec_max"
  obtains db' where "append_from dst src n s = Inr (s\<lparr>bufs := (bufs s)(dst \<mapsto> db')\<rparr>)"
    "store_ok (s\<lparr>bufs := (bufs s)(dst \<mapsto> db')\<rparr>)"
    "contents db' = contents db @ take n (contents sb)" "read_index db' = read_index db"
    "write_index db' = write_index db + n"
    "take (write_index db) (buff db') = take (write_index db) (buff db)"
proof -
  have sok: "buffer_ok sb" and dok: "buffer_ok db"
    using ok src dst by (auto intro: store_ok_buffer)
  have read: "mem_read (read_index sb) n (buff sb) = Inr (take n (contents sb))"
    using mem_read_contents [OF sok, of 0 n] n by simp
  have "fits (take n (contents sb)) db"
    using fits n by (simp add: fits_def)
  then obtain db' where app: "append_bytes (take n (contents sb)) db = Inr db'" "buffer_ok db'"
      and db': "contents db' = contents db @ take n (contents sb)" "read_index db' = read_index db"
      "write_index db' = write_index db + n"
      "take (write_index db) (buff db') = take (write_index db) (buff db)"
    using append_bytes_spec [OF dok] n by (metis length_take min.absorb2)
  show thesis
    using upd_buf_ok [OF ok dst, of "append_bytes (take n (contents sb))", OF app] db'
    by (intro that [of db']) (simp_all add: append_from_def src read)
qed

end
