(* ===== verification/Event_Handle.thy ===== *)
theory Event_Handle
  imports Sc_Prelude "HOL-Library.Signed_Division"
begin

text \<open>
  \<open>EventHandle\<close> (include/EventHandle.h, src/EventHandle.cpp): a descriptor with the function to
  call when it is ready.  Function values are named by numbers; calling one is recorded as a
  \<open>callback\<close>.
\<close>

section \<open>Data\<close>

definition IO_EVENT :: int where "IO_EVENT = 1"
definition TIMER_EVENT :: int where "TIMER_EVENT = 2"
definition EPOLLIN :: "32 word" where "EPOLLIN = 1"
definition EPOLLOUT :: "32 word" where "EPOLLOUT = 4"
definition EPOLLET :: "32 word" where "EPOLLET = 0x80000000"

record event_handle =
  ename :: string
  event_type :: int
  event_flags :: "32 word"
  h_fd :: int
  recycle_func :: "nat option"
  io_func :: "nat option"
  timer_func :: "nat option"

definition new_handle :: event_handle where
  "new_handle = \<lparr>ename = [], event_type = 0, event_flags = 0, h_fd = 0, recycle_func = None,
     io_func = None, timer_func = None\<rparr>"

datatype callback = IO_Call nat int "32 word" | Timer_Call nat int

section \<open>Binding\<close>

definition bind_io :: "nat \<Rightarrow> int \<Rightarrow> string \<Rightarrow> event_handle \<Rightarrow> int \<times> event_handle" where
  "bind_io f fd name h =
     (0, h\<lparr>ename := name, event_type := IO_EVENT, io_func := Some f,
           event_flags := EPOLLIN OR EPOLLET, h_fd := fd\<rparr>)"

text \<open>
  \<open>timerfd_create\<close> yields a descriptor or a negative value with an error number; the caller of
  \<open>create_timerfd\<close> sees one integer.
\<close>

definition create_timerfd :: "int \<Rightarrow> int \<Rightarrow> int" where
  "create_timerfd ret errno = (if ret < 0 then errno else ret)"

record timer_spec =
  value_sec :: int
  value_nsec :: int
  interval_sec :: int
  interval_nsec :: int

definition timer_spec_of :: "int \<Rightarrow> int \<Rightarrow> timer_spec" where
  "timer_spec_of timeout interval =
     \<lparr>value_sec = timeout sdiv 1000000, value_nsec = timeout smod 1000000 * 1000,
      interval_sec = interval sdiv 1000000, interval_nsec = interval smod 1000000 * 1000\<rparr>"

text \<open>
  The result of \<open>bind\<close> for a timer, and the descriptor and the setting handed to
  \<open>timerfd_settime\<close>, which returned \<open>settime\<close>.
\<close>

definition bind_timer ::
    "nat \<Rightarrow> int \<Rightarrow> int \<Rightarrow> string \<Rightarrow> int \<Rightarrow> int \<Rightarrow> int \<Rightarrow> event_handle
       \<Rightarrow> int \<times> (int \<times> timer_spec) option \<times> event_handle" where
  "bind_timer f timeout interval name ret errno settime h =
     (let h = h\<lparr>ename := name, event_type := TIMER_EVENT, timer_func := Some f,
                h_fd := create_timerfd ret errno, event_flags := EPOLLIN OR EPOLLET\<rparr> in
      if 0 < h_fd h then
        (if settime \<noteq> 0 then -1 else 0, Some (h_fd h, timer_spec_of timeout interval), h)
      else (-1, None, h))"

definition set_recycle_func :: "nat \<Rightarrow> event_handle \<Rightarrow> event_handle" where
  "set_recycle_func f h = h\<lparr>recycle_func := Some f\<rparr>"

definition set_event_flag :: "32 word \<Rightarrow> event_handle \<Rightarrow> event_handle" where
  "set_event_flag flags h = h\<lparr>event_flags := flags\<rparr>"

section \<open>Running and recycling\<close>

definition run_func :: "int \<Rightarrow> 32 word \<Rightarrow> event_handle \<Rightarrow> fault + callback" where
  "run_func now flags h =
     (if event_type h = IO_EVENT then
        (case io_func h of None \<Rightarrow> Inl Bad_Function_Call | Some f \<Rightarrow> Inr (IO_Call f (h_fd h) flags))
      else
        (case timer_func h of None \<Rightarrow> Inl Bad_Function_Call | Some f \<Rightarrow> Inr (Timer_Call f now)))"

text \<open>The recycle function to call, if there is one.\<close>

definition recycle_self :: "event_handle \<Rightarrow> nat option" where
  "recycle_self h = recycle_func h"

text \<open>The destructor: the descriptor it closes, and the dead object.\<close>

definition destroy_handle :: "event_handle \<Rightarrow> int option \<times> event_handle" where
  "destroy_handle h =
     (if event_type h = TIMER_EVENT then Some (h_fd h) else None,
      h\<lparr>event_type := 0, event_flags := 0, io_func := None, timer_func := None, recycle_func := None,
        h_fd := 0, ename := []\<rparr>)"

section \<open>Properties\<close>

text \<open>
  A timer that could be created is armed for the given time and period, to the microsecond, as a
  proper \<open>timespec\<close>, and its handle is ready to be registered.
\<close>

theorem bind_timer_armed:
  assumes "0 < ret" and "0 \<le> timeout" and "0 \<le> interval"
  shows "\<exists>spec h'. bind_timer f timeout interval name ret errno 0 h = (0, Some (ret, spec), h')
    \<and> value_sec spec * 1000000000 + value_nsec spec = timeout * 1000
    \<and> interval_sec spec * 1000000000 + interval_nsec spec = interval * 1000
    \<and> 0 \<le> value_nsec spec \<and> value_nsec spec < 1000000000
    \<and> 0 \<le> interval_nsec spec \<and> interval_nsec spec < 1000000000
    \<and> h_fd h' = ret \<and> (\<forall>now flags. run_func now flags h' = Inr (Timer_Call f now))"
proof -
  have eq: "k sdiv 1000000 = k div 1000000" "k smod 1000000 = k mod 1000000" if "0 \<le> k" for k :: int
    using that by (simp_all add: signed_divide_int_def signed_modulo_int_def sgn_if)
  have split: "k div 1000000 * 1000000000 + k mod 1000000 * 1000 = k * 1000" for k :: int
  proof -
    have "k = k div 1000000 * 1000000 + k mod 1000000" by simp
    then show ?thesis by linarith
  qed
  have bound: "0 \<le> k mod 1000000 * 1000 \<and> k mod 1000000 * 1000 < 1000000000" for k :: int
    using pos_mod_bound [of 1000000 k] pos_mod_sign [of 1000000 k] by linarith
  show ?thesis
    using assms bound
    by (simp add: bind_timer_def create_timerfd_def timer_spec_of_def run_func_def IO_EVENT_def
        TIMER_EVENT_def eq split)
qed

theorem bind_timer_armed_witness:
  "\<exists>spec h'. bind_timer 1 2500001 1000 ''send_timer'' 9 0 0 new_handle = (0, Some (9, spec), h')
     \<and> value_sec spec * 1000000000 + value_nsec spec = 2500001000"
  using bind_timer_armed [of 9 2500001 1000 1 "''send_timer''" 0 new_handle] by auto

text \<open>
  When \<open>timerfd_create\<close> fails, the error number takes the place of the descriptor: it passes the
  test for a descriptor, \<open>timerfd_settime\<close> is called on it, the handle keeps it whatever \<open>bind\<close>
  returns, and the destructor closes it, although it belongs to somebody else.
\<close>

theorem failed_timer_uses_errno:
  assumes "ret < 0" and "0 < errno"
  shows "\<exists>r h'. bind_timer f timeout interval name ret errno settime h
      = (r, Some (errno, timer_spec_of timeout interval), h')
    \<and> h_fd h' = errno \<and> fst (destroy_handle h') = Some errno"
  using assms by (simp add: bind_timer_def create_timerfd_def destroy_handle_def)

theorem failed_timer_uses_errno_witness:
  "\<exists>h'. bind_timer 1 0 1000 ''send_timer'' (-1) 24 (-1) new_handle
      = (-1, Some (24, timer_spec_of 0 1000), h') \<and> fst (destroy_handle h') = Some 24"
  using failed_timer_uses_errno [of "-1" 24 1 0 1000 "''send_timer''" "-1" new_handle]
  by (auto simp: bind_timer_def create_timerfd_def)

end
