(* ===== verification/Client_Entity.thy ===== *)
theory Client_Entity
  imports Buffer_Store Event_Handle
begin

text \<open>
  \<open>include/ClientEntity.h\<close> and \<open>src/ClientEntity.cpp\<close>: one connection.  The record holds the
  fields of the class, with buffers as addresses in the manager's buffer store; the three atomic flag
  words keep their bits.  Each method is a definition over the record, the store and, where it
  touches the event loop, the loop's view of this connection.  System calls return values given as
  arguments.  Mutexes guard the lists against other threads; the methods here are the critical
  sections they delimit.
\<close>

section \<open>State\<close>

record client =
  read_flag :: "32 word"
  close_flag :: "32 word"
  write_flag :: "32 word"
  closed :: bool
  fd :: int
  fd_key :: "64 word"
  addr_ip :: "byte list"
  addr_port :: "16 word"
  message_callback :: "nat option"
  established_callback :: "nat option"
  loop_index :: nat
  event_loop :: "nat option"
  cur_unpack :: "nat option"
  front_unpack :: "nat option"
  unpack_list :: "nat list"
  recv_list :: "nat list"
  wait_pack_list :: "nat list"
  wait_write_list :: "nat list"
  wait_write :: bool

definition new_client :: client where
  "new_client = \<lparr>read_flag = 0, close_flag = 0, write_flag = 0, closed = False, fd = 0, fd_key = 0,
     addr_ip = replicate 128 0, addr_port = 0, message_callback = None, established_callback = None,
     loop_index = 0, event_loop = None, cur_unpack = None, front_unpack = None, unpack_list = [],
     recv_list = [], wait_pack_list = [], wait_write_list = [], wait_write = False\<rparr>"

text \<open>
  What the connection's event loop knows of it: the event flags of the handle registered for a
  descriptor, and the descriptors whose \<open>do_update_handle\<close> is queued.
\<close>

record loop_view =
  handle_flags :: "int \<rightharpoonup> 32 word"
  update_queue :: "int list"

section \<open>Flags\<close>

definition FLAG_CLOSE :: "32 word" where "FLAG_CLOSE = 4"
definition FLAG_NEXT :: "32 word" where "FLAG_NEXT = 2"
definition FLAG_HANDLE :: "32 word" where "FLAG_HANDLE = 1"
definition FLAG_UPDATE :: "32 word" where "FLAG_UPDATE = 3"
definition FLAG_FINISH :: "32 word" where "FLAG_FINISH = 4"
definition FLAG_NOREAD :: "32 word" where "FLAG_NOREAD = 1"
definition FLAG_NOWRITE :: "32 word" where "FLAG_NOWRITE = 2"

definition can_close :: "client \<Rightarrow> bool" where
  "can_close c \<longleftrightarrow> \<not> closed c \<and> read_flag c AND FLAG_CLOSE \<noteq> 0"

definition is_update :: "client \<Rightarrow> bool" where
  "is_update c \<longleftrightarrow> read_flag c AND FLAG_UPDATE = 2"

definition handle_update :: "client \<Rightarrow> client" where
  "handle_update c = c\<lparr>read_flag := read_flag c OR FLAG_HANDLE\<rparr>"

definition finish_update :: "client \<Rightarrow> client" where
  "finish_update c = c\<lparr>read_flag := read_flag c AND FLAG_FINISH\<rparr>"

definition set_update :: "client \<Rightarrow> client" where
  "set_update c = c\<lparr>read_flag := read_flag c OR FLAG_NEXT\<rparr>"

definition force_close :: "client \<Rightarrow> client" where
  "force_close c = c\<lparr>read_flag := read_flag c OR FLAG_CLOSE\<rparr>"

definition is_write_update :: "client \<Rightarrow> bool" where
  "is_write_update c \<longleftrightarrow> write_flag c AND FLAG_UPDATE = 2"

definition handle_write_update :: "client \<Rightarrow> client" where
  "handle_write_update c = c\<lparr>write_flag := write_flag c OR FLAG_HANDLE\<rparr>"

definition set_write_update :: "client \<Rightarrow> client" where
  "set_write_update c = c\<lparr>write_flag := write_flag c OR FLAG_NEXT\<rparr>"

definition finish_write_update :: "client \<Rightarrow> client" where
  "finish_write_update c = c\<lparr>write_flag := write_flag c AND FLAG_FINISH\<rparr>"

definition ready_close :: "client \<Rightarrow> bool" where
  "ready_close c \<longleftrightarrow> 0 < sint (close_flag c)"

definition can_read :: "client \<Rightarrow> bool" where
  "can_read c \<longleftrightarrow> close_flag c AND FLAG_NOREAD = 0"

definition can_write :: "client \<Rightarrow> bool" where
  "can_write c \<longleftrightarrow> close_flag c AND FLAG_NOWRITE = 0"

definition close_read :: "client \<Rightarrow> client" where
  "close_read c = c\<lparr>close_flag := close_flag c OR FLAG_NOREAD\<rparr>"

definition close_write :: "client \<Rightarrow> client" where
  "close_write c = c\<lparr>close_flag := close_flag c OR FLAG_NOWRITE\<rparr>"

definition set_close :: "client \<Rightarrow> client" where
  "set_close c = c\<lparr>closed := True\<rparr>"

subsection \<open>The flag words bit by bit\<close>

lemma bit_flag_consts:
  "bit (1 :: 32 word) n \<longleftrightarrow> n = 0" "bit (2 :: 32 word) n \<longleftrightarrow> n = 1"
  "bit (3 :: 32 word) n \<longleftrightarrow> n < 2" "bit (4 :: 32 word) n \<longleftrightarrow> n = 2"
proof -
  have two: "(2 :: 32 word) = push_bit 1 1" and four: "(4 :: 32 word) = push_bit 2 1"
    and three: "(3 :: 32 word) = mask 2"
    by (simp_all add: mask_numeral)
  show "bit (1 :: 32 word) n \<longleftrightarrow> n = 0"
    by (simp add: bit_1_iff)
  show "bit (2 :: 32 word) n \<longleftrightarrow> n = 1" "bit (4 :: 32 word) n \<longleftrightarrow> n = 2"
    unfolding two four bit_push_bit_iff bit_1_iff by auto
  show "bit (3 :: 32 word) n \<longleftrightarrow> n < 2"
    unfolding three bit_mask_iff by auto
qed

lemma flag_tests:
  fixes x :: "32 word"
  shows "x AND 3 = 2 \<longleftrightarrow> bit x 1 \<and> \<not> bit x 0"
    and "x AND 4 = 0 \<longleftrightarrow> \<not> bit x 2" and "x AND 1 = 0 \<longleftrightarrow> \<not> bit x 0" and "x AND 2 = 0 \<longleftrightarrow> \<not> bit x 1"
proof -
  have eq: "v = w \<longleftrightarrow> (\<forall>n. bit v n \<longleftrightarrow> bit w n)" for v w :: "32 word"
    by (auto intro: bit_eqI)
  show "x AND 3 = 2 \<longleftrightarrow> bit x 1 \<and> \<not> bit x 0"
    unfolding eq bit_and_iff bit_flag_consts less_2_cases_iff by auto
  show "x AND 4 = 0 \<longleftrightarrow> \<not> bit x 2" "x AND 1 = 0 \<longleftrightarrow> \<not> bit x 0" "x AND 2 = 0 \<longleftrightarrow> \<not> bit x 1"
    unfolding eq bit_and_iff bit_flag_consts bit_0_eq by (auto intro: gr0I)
qed

lemmas flag_defs = FLAG_CLOSE_def FLAG_NEXT_def FLAG_HANDLE_def FLAG_UPDATE_def FLAG_FINISH_def
  FLAG_NOREAD_def FLAG_NOWRITE_def

lemmas flag_ops = handle_update_def finish_update_def set_update_def force_close_def
  handle_write_update_def set_write_update_def finish_write_update_def close_read_def close_write_def
  set_close_def

lemmas flag_bits = flag_defs flag_ops bit_or_iff bit_and_iff bit_flag_consts

lemma is_update_iff: "is_update c \<longleftrightarrow> bit (read_flag c) 1 \<and> \<not> bit (read_flag c) 0"
  by (simp add: is_update_def FLAG_UPDATE_def flag_tests)

lemma is_write_update_iff: "is_write_update c \<longleftrightarrow> bit (write_flag c) 1 \<and> \<not> bit (write_flag c) 0"
  by (simp add: is_write_update_def FLAG_UPDATE_def flag_tests)

lemma can_close_iff: "can_close c \<longleftrightarrow> \<not> closed c \<and> bit (read_flag c) 2"
  by (simp add: can_close_def FLAG_CLOSE_def flag_tests)

lemma can_read_iff: "can_read c \<longleftrightarrow> \<not> bit (close_flag c) 0"
  by (simp add: can_read_def FLAG_NOREAD_def flag_tests)

lemma can_write_iff: "can_write c \<longleftrightarrow> \<not> bit (close_flag c) 1"
  by (simp add: can_write_def FLAG_NOWRITE_def flag_tests)

section \<open>Life cycle\<close>

text \<open>\<open>strncpy\<close> into the zeroed array, at most 127 bytes, up to the terminator.\<close>

definition init_client :: "int \<Rightarrow> byte list \<Rightarrow> 16 word \<Rightarrow> client \<Rightarrow> client" where
  "init_client new_fd ip port c =
     (let s = take 127 (takeWhile (\<lambda>b. b \<noteq> 0) ip) in
      c\<lparr>fd := new_fd, addr_ip := s @ replicate (128 - length s) 0, addr_port := port\<rparr>)"

text \<open>\<open>clear\<close> gives every listed buffer back; \<open>cur_unpcak_\<close> and \<open>front_unpcak_\<close> are left.\<close>

definition clear :: "client \<Rightarrow> store \<Rightarrow> fault + (client \<times> store)" where
  "clear c s =
     bind_res (each push_buffer (unpack_list c) s) (\<lambda>s.
     bind_res (each push_buffer (recv_list c) s) (\<lambda>s.
     bind_res (each push_buffer (wait_pack_list c) s) (\<lambda>s.
     bind_res (each push_buffer (wait_write_list c) s) (\<lambda>s.
     Inr (c\<lparr>unpack_list := [], recv_list := [], wait_pack_list := [], wait_write_list := []\<rparr>, s)))))"

text \<open>The destructor closes the descriptor first; the result names it.\<close>

definition destroy_client :: "client \<Rightarrow> store \<Rightarrow> fault + (int \<times> client \<times> store)" where
  "destroy_client c s =
     bind_res (clear c s) (\<lambda>(c', s').
     Inr (fd c, c'\<lparr>loop_index := 0, addr_port := 0, fd := 0, close_flag := 0, read_flag := 0,
       write_flag := 0, wait_write := False, closed := False, front_unpack := None,
       cur_unpack := None, event_loop := None, message_callback := None,
       established_callback := None\<rparr>, s'))"

section \<open>Watching the socket\<close>

definition watch_write :: "int \<Rightarrow> client \<Rightarrow> loop_view \<Rightarrow> client \<times> loop_view" where
  "watch_write opt c l =
     (case handle_flags l (fd c) of
        None \<Rightarrow> (c, l)
      | Some flag \<Rightarrow>
          let (flag, c) =
            (if opt = 1 then (flag OR EPOLLOUT, c\<lparr>wait_write := True\<rparr>)
             else (flag AND NOT EPOLLOUT, c\<lparr>wait_write := False\<rparr>)) in
          (c, l\<lparr>handle_flags := (handle_flags l)(fd c \<mapsto> flag),
                update_queue := update_queue l @ [fd c]\<rparr>))"

definition watch_read :: "int \<Rightarrow> client \<Rightarrow> loop_view \<Rightarrow> loop_view" where
  "watch_read opt c l =
     (case handle_flags l (fd c) of
        None \<Rightarrow> l
      | Some flag \<Rightarrow>
          let flag = (if opt = 1 then flag OR EPOLLIN else flag AND NOT EPOLLIN) in
          l\<lparr>handle_flags := (handle_flags l)(fd c \<mapsto> flag),
            update_queue := update_queue l @ [fd c]\<rparr>)"

section \<open>Receiving\<close>

text \<open>
  The successive results of \<open>read\<close> on the non-blocking socket.  A result of no bytes is the end
  of the stream; when the list is used up there is nothing more to read for now (\<open>EAGAIN\<close>).
\<close>

datatype read_result = Read_Bytes "byte list" | Read_EINTR | Read_EAGAIN | Read_Error

datatype read_end = End_EAGAIN | End_EOF | End_Error

fun read_loop :: "read_result list \<Rightarrow> buffer \<Rightarrow> fault + (read_end \<times> buffer)" where
  "read_loop [] b = bind_res (ensureWriteable (8 * 1024) b) (\<lambda>b. Inr (End_EAGAIN, b))"
| "read_loop (r # rs) b =
     bind_res (ensureWriteable (8 * 1024) b) (\<lambda>b.
     case r of
       Read_EINTR \<Rightarrow> read_loop rs b
     | Read_EAGAIN \<Rightarrow> Inr (End_EAGAIN, b)
     | Read_Error \<Rightarrow> Inr (End_Error, b)
     | Read_Bytes ds \<Rightarrow>
         if ds = [] then Inr (End_EOF, b)
         else bind_res (check (length ds \<le> writeableBytes b) Bad_Environment) (\<lambda>_.
              bind_res (mem_write (write_index b) ds (buff b)) (\<lambda>xs.
              bind_res (set_write_index (size_add (write_index b) (length ds)) (b\<lparr>buff := xs\<rparr>)) (\<lambda>b.
              read_loop rs b))))"

definition read_data ::
    "nat \<Rightarrow> read_result list \<Rightarrow> client \<Rightarrow> store \<Rightarrow> fault + (int \<times> client \<times> store)" where
  "read_data m rs c s =
     bind_res (pop_buffer m s) (\<lambda>(a, s).
     bind_res (get_buf a s) (\<lambda>b.
     bind_res (read_loop rs b) (\<lambda>(e, b).
     let s = s\<lparr>bufs := (bufs s)(a \<mapsto> b)\<rparr> in
     if e = End_Error then
       bind_res (push_buffer a s) (\<lambda>s. Inr (-1, set_update (close_write c), s))
     else
       let c = (if e = End_EOF then set_update (close_write c) else c) in
       bind_res
         (if 0 < readableBytes b then Inr (set_update (c\<lparr>recv_list := recv_list c @ [a]\<rparr>), s)
          else bind_res (push_buffer a s) (\<lambda>s. Inr (c, s)))
         (\<lambda>(c, s). Inr (if e = End_EOF then -1 else 0, c, s)))))"

section \<open>Unpacking\<close>

text \<open>
  One round of the loop of \<open>do_handle_unpack\<close>.  A round either needs more data and goes on with
  the next received buffer, or completes a packet, or meets a length that is not positive.  A
  completed packet is handed to the message callback as a buffer and then destroyed; \<open>(k, b)\<close>
  records the callback and the buffer it saw.
\<close>

datatype verdict = Continue | Delivered "nat \<times> buffer" | Bad_Len

definition ensure_cur :: "nat \<Rightarrow> client \<Rightarrow> store \<Rightarrow> fault + (nat \<times> client \<times> store)" where
  "ensure_cur m c s =
     (case cur_unpack c of
        Some a \<Rightarrow> Inr (a, c, s)
      | None \<Rightarrow>
          bind_res (pop_buffer m s) (\<lambda>(a, s).
          bind_res (upd_buf a (writeInt64 (fd_key c)) s) (\<lambda>s.
          bind_res (upd_buf a (set_read_index 8) s) (\<lambda>s.
          Inr (a, c\<lparr>cur_unpack := Some a\<rparr>, s)))))"

definition ensure_front :: "client \<Rightarrow> nat \<times> client" where
  "ensure_front c =
     (let f = (case front_unpack c of Some f \<Rightarrow> f | None \<Rightarrow> hd (unpack_list c)) in
      (f, c\<lparr>front_unpack := Some f\<rparr>))"

text \<open>The whole of the front buffer is appended to the current one and given back.\<close>

definition absorb_front :: "nat \<Rightarrow> nat \<Rightarrow> client \<Rightarrow> store \<Rightarrow> fault + (client \<times> store)" where
  "absorb_front a f c s =
     bind_res (get_buf f s) (\<lambda>front.
     bind_res (append_from a f (readableBytes front) s) (\<lambda>s.
     bind_res (push_buffer f s) (\<lambda>s.
     Inr (c\<lparr>unpack_list := tl (unpack_list c), front_unpack := None\<rparr>, s))))"

definition move_bytes :: "nat \<Rightarrow> nat \<Rightarrow> int \<Rightarrow> store \<Rightarrow> fault + store" where
  "move_bytes a f n s =
     bind_res (append_from a f (size_of_int n) s) (\<lambda>s.
     upd_buf f (\<lambda>b. set_read_index (size_add (read_index b) (size_of_int n)) b) s)"

definition finish_unpack :: "nat \<Rightarrow> client \<Rightarrow> store \<Rightarrow> fault + ((nat \<times> buffer) \<times> store)" where
  "finish_unpack a c s =
     (case message_callback c of
        None \<Rightarrow> Inl Bad_Function_Call
      | Some k \<Rightarrow>
          bind_res (get_buf a s) (\<lambda>b.
          bind_res (push_buffer a s) (\<lambda>s. Inr ((k, b), s))))"

definition unpack_body ::
    "int \<Rightarrow> nat \<Rightarrow> nat \<Rightarrow> client \<Rightarrow> store \<Rightarrow> fault + (verdict \<times> client \<times> store)" where
  "unpack_body len a f c s =
     (if len \<le> 0 then
        bind_res (clear c s) (\<lambda>(c, s). Inr (Bad_Len, force_close (close_read c), s))
      else
        bind_res (get_buf a s) (\<lambda>cur.
        bind_res (get_buf f s) (\<lambda>front.
        let need = int32 (int (size_sub (size_of_int len) (size_sub (readableBytes cur) 4))) in
        if size_of_int need \<le> readableBytes front then
          bind_res (move_bytes a f need s) (\<lambda>s.
          bind_res (upd_buf a (set_read_index 0) s) (\<lambda>s.
          bind_res (finish_unpack a c s) (\<lambda>(msg, s).
          let c = c\<lparr>cur_unpack := None\<rparr> in
          bind_res (get_buf f s) (\<lambda>front.
          bind_res
            (if readableBytes front = 0 then
               bind_res (push_buffer f s) (\<lambda>s.
               Inr (c\<lparr>unpack_list := tl (unpack_list c), front_unpack := None\<rparr>, s))
             else Inr (c, s))
            (\<lambda>(c, s). Inr (Delivered msg, set_update c, s))))))
        else bind_res (absorb_front a f c s) (\<lambda>(c, s). Inr (Continue, c, s)))))"

definition unpack_step :: "nat \<Rightarrow> client \<Rightarrow> store \<Rightarrow> fault + (verdict \<times> client \<times> store)" where
  "unpack_step m c s =
     bind_res (ensure_cur m c s) (\<lambda>(a, c, s).
     let (f, c) = ensure_front c in
     bind_res (get_buf a s) (\<lambda>cur.
     bind_res (get_buf f s) (\<lambda>front.
     if 4 \<le> readableBytes cur then
       bind_res (peekInt32 cur) (\<lambda>len. unpack_body (sint len) a f c s)
     else
       let need = int32 (int (size_sub 4 (readableBytes cur))) in
       if size_of_int need \<le> readableBytes front then
         bind_res (move_bytes a f need s) (\<lambda>s.
         bind_res (get_buf a s) (\<lambda>cur.
         bind_res (peekInt32 cur) (\<lambda>len. unpack_body (sint len) a f c s)))
       else bind_res (absorb_front a f c s) (\<lambda>(c, s). Inr (Continue, c, s)))))"

lemma ensure_cur_lists:
  "ensure_cur m c s = Inr (a, c', s') \<Longrightarrow> unpack_list c' = unpack_list c"
  by (auto simp: ensure_cur_def bind_res_eq_Inr split: option.splits)

lemma absorb_front_lists:
  "absorb_front a f c s = Inr (c', s') \<Longrightarrow> unpack_list c' = tl (unpack_list c)"
  by (auto simp: absorb_front_def bind_res_eq_Inr)

lemma unpack_body_lists:
  "unpack_body len a f c s = Inr (Continue, c', s') \<Longrightarrow> unpack_list c' = tl (unpack_list c)"
  by (auto simp: unpack_body_def bind_res_eq_Inr Let_def absorb_front_lists split: if_splits)

lemma unpack_step_shrinks:
  assumes "unpack_step m c s = Inr (Continue, c', s')" and "unpack_list c \<noteq> []"
  shows "length (unpack_list c') < length (unpack_list c)"
proof -
  have "unpack_list c' = tl (unpack_list c)"
    using assms(1)
    by (auto simp: unpack_step_def ensure_front_def bind_res_eq_Inr Let_def
        dest!: absorb_front_lists unpack_body_lists ensure_cur_lists split: if_splits)
  with assms(2) show ?thesis by simp
qed

text \<open>The loop, and the critical section before it.\<close>

function unpack_loop :: "nat \<Rightarrow> client \<Rightarrow> store \<Rightarrow> fault + ((nat \<times> buffer) list \<times> client \<times> store)" where
  "unpack_loop m c s =
     (if unpack_list c = [] then Inr ([], if ready_close c then force_close c else c, s)
      else bind_res (unpack_step m c s) (\<lambda>r.
        case r of
          (Continue, c, s) \<Rightarrow> unpack_loop m c s
        | (Delivered msg, c, s) \<Rightarrow> Inr ([msg], c, s)
        | (Bad_Len, c, s) \<Rightarrow> Inr ([], c, s)))"
  by pat_completeness auto
termination
  by (relation "measure (\<lambda>(m, c, s). length (unpack_list c))") (auto dest: unpack_step_shrinks)

declare unpack_loop.simps [simp del]

definition do_handle_unpack ::
    "nat \<Rightarrow> client \<Rightarrow> store \<Rightarrow> fault + ((nat \<times> buffer) list \<times> client \<times> store)" where
  "do_handle_unpack m c s =
     (if recv_list c = [] \<and> unpack_list c = [] then
        let c = finish_update c in
        Inr ([], if ready_close c then force_close c else c, s)
      else
        let c = finish_update c in
        unpack_loop m (c\<lparr>unpack_list := unpack_list c @ recv_list c, recv_list := []\<rparr>) s)"

definition handle_unpack ::
    "nat \<Rightarrow> client \<Rightarrow> store \<Rightarrow> fault + ((nat \<times> buffer) list \<times> client \<times> store)" where
  "handle_unpack m c s = (if closed c then Inr ([], c, s) else do_handle_unpack m c s)"

section \<open>Sending\<close>

definition push_send_pack :: "nat \<Rightarrow> nat \<Rightarrow> client \<Rightarrow> store \<Rightarrow> fault + (int \<times> client \<times> store)" where
  "push_send_pack m src c s =
     (if ready_close c then Inr (-1, c, s)
      else
        bind_res (pop_buffer m s) (\<lambda>(tmp, s).
        bind_res (get_buf src s) (\<lambda>b.
        bind_res (append_from tmp src (readableBytes b) s) (\<lambda>s.
        Inr (0, set_write_update (c\<lparr>wait_pack_list := wait_pack_list c @ [tmp]\<rparr>), s)))))"

text \<open>
  The result of \<open>writev\<close>: bytes accepted, never more than \<open>0x7ffff000\<close> at once, or the error.
\<close>

datatype write_result = Wrote nat | Write_EINTR | Write_EAGAIN | Write_Error

text \<open>
  An entry of the array for \<open>writev\<close>: a piece of the vector of a buffer, from \<open>iov_base\<close> on.  The sum of the
  lengths is accumulated in an \<open>int32_t\<close>.
\<close>

record iovec =
  iov_buffer :: nat
  iov_base :: nat
  iov_len :: nat

fun iov_vec :: "nat list \<Rightarrow> store \<Rightarrow> fault + iovec list" where
  "iov_vec [] s = Inr []"
| "iov_vec (a # as) s =
     bind_res (get_buf a s) (\<lambda>b.
     bind_res (iov_vec as s) (\<lambda>v.
     Inr (\<lparr>iov_buffer = a, iov_base = read_index b, iov_len = readableBytes b\<rparr> # v)))"

definition total_bytes :: "iovec list \<Rightarrow> int" where
  "total_bytes v = fold (\<lambda>d n. int32 (n + int (iov_len d))) v 0"

text \<open>What \<open>writev\<close> passes to the socket: it reads the pieces where they are at that moment.\<close>

fun iov_bytes :: "iovec list \<Rightarrow> store \<Rightarrow> fault + byte list" where
  "iov_bytes [] s = Inr []"
| "iov_bytes (d # v) s =
     bind_res (get_buf (iov_buffer d) s) (\<lambda>b.
     bind_res (mem_read (iov_base d) (iov_len d) (buff b)) (\<lambda>ds.
     bind_res (iov_bytes v s) (\<lambda>es. Inr (ds @ es))))"

definition writev :: "write_result \<Rightarrow> iovec list \<Rightarrow> store \<Rightarrow> fault + byte list" where
  "writev w v s =
     (case w of
        Wrote n \<Rightarrow> bind_res (check (n \<le> 0x7ffff000) Bad_Environment) (\<lambda>_. bind_res (iov_bytes v s) (\<lambda>ds. Inr (take n ds)))
      | _ \<Rightarrow> Inr [])"

text \<open>The loop that drops the sent packets and advances into the first unsent one.\<close>

fun consume_sent :: "int \<Rightarrow> nat list \<Rightarrow> store \<Rightarrow> fault + (nat list \<times> store)" where
  "consume_sent n [] s = Inr ([], s)"
| "consume_sent n (a # as) s =
     (if n \<le> 0 then Inr (a # as, s)
      else
        bind_res (get_buf a s) (\<lambda>b.
        let r = int32 (int (readableBytes b)) in
        if r \<le> n then
          bind_res (push_buffer a s) (\<lambda>s. consume_sent (n - r) as s)
        else
          bind_res (upd_buf a (\<lambda>b. set_read_index (size_add (read_index b) (size_of_int n)) b) s)
            (\<lambda>s. Inr (a # as, s))))"

text \<open>
  \<open>do_write_data\<close> is the critical section and the array, the call, and what follows it, where \<open>writev\<close>'s
  result is cut to an \<open>int32_t\<close>.
\<close>

definition begin_write :: "client \<Rightarrow> store \<Rightarrow> fault + (iovec list \<times> client)" where
  "begin_write c s =
     (let c = finish_write_update c;
          c = c\<lparr>wait_write_list := wait_write_list c @ wait_pack_list c, wait_pack_list := []\<rparr> in
      bind_res (iov_vec (wait_write_list c) s) (\<lambda>v. Inr (v, c)))"

definition end_write ::
    "write_result \<Rightarrow> iovec list \<Rightarrow> client \<Rightarrow> store \<Rightarrow> loop_view \<Rightarrow> fault + (int \<times> client \<times> store \<times> loop_view)" where
  "end_write w v c s l =
     (case w of
        Write_EINTR \<Rightarrow> Inr (0, c, s, l)
      | Write_EAGAIN \<Rightarrow> Inr (0, c, s, l)
      | Write_Error \<Rightarrow> Inr (0, set_update (close_write c), s, l)
      | Wrote n \<Rightarrow>
          let send = int32 (int n);
              (c, l) = (if send < total_bytes v then watch_write 1 c l else (c, l)) in
          bind_res (consume_sent send (wait_write_list c) s) (\<lambda>(as, s).
          let c = c\<lparr>wait_write_list := as\<rparr> in
          Inr (0, if ready_close c then force_close c else c, s, l)))"

definition do_write_data ::
    "write_result \<Rightarrow> client \<Rightarrow> store \<Rightarrow> loop_view \<Rightarrow> fault + (int \<times> client \<times> store \<times> loop_view)" where
  "do_write_data w c s l =
     (if wait_write_list c = [] \<and> wait_pack_list c = [] then
        let c = finish_write_update c in
        Inr (0, if ready_close c then force_close c else c, s, l)
      else
        bind_res (begin_write c s) (\<lambda>(v, c).
        bind_res (writev w v s) (\<lambda>_. end_write w v c s l)))"

lemmas do_write_data_defs = do_write_data_def begin_write_def end_write_def

text \<open>\<open>free\<close>: \<open>send_mutex_.try_lock()\<close> succeeded.\<close>

definition write_data ::
    "bool \<Rightarrow> write_result \<Rightarrow> client \<Rightarrow> store \<Rightarrow> loop_view \<Rightarrow> fault + (int \<times> client \<times> store \<times> loop_view)" where
  "write_data free w c s l = (if \<not> free then Inr (0, c, s, l) else do_write_data w c s l)"

definition timeout_send ::
    "bool \<Rightarrow> write_result \<Rightarrow> client \<Rightarrow> store \<Rightarrow> loop_view \<Rightarrow> fault + (client \<times> store \<times> loop_view)" where
  "timeout_send free w c s l =
     (if wait_write c then Inr (c, s, l)
      else bind_res (write_data free w c s l) (\<lambda>(_, c, s, l). Inr (c, s, l)))"

section \<open>Events\<close>

definition handle_event ::
    "nat \<Rightarrow> read_result list \<Rightarrow> bool \<Rightarrow> write_result \<Rightarrow> int \<Rightarrow> 32 word \<Rightarrow> client \<Rightarrow> store \<Rightarrow> loop_view
       \<Rightarrow> fault + (client \<times> store \<times> loop_view)" where
  "handle_event m rs free w ev_fd events c s l =
     bind_res (check (ev_fd = fd c) Assert_Fail) (\<lambda>_.
     if ready_close c then Inr (c, s, l)
     else
       bind_res
         (if EPOLLIN AND events \<noteq> 0 then read_data m rs c s else Inr (0, c, s))
         (\<lambda>(ret, c, s).
       if ret < 0 then Inr (c, s, watch_read 0 c l)
       else if EPOLLOUT AND events \<noteq> 0 then
         let (c, l) = watch_write 0 c l in
         bind_res (write_data free w c s l) (\<lambda>(_, c, s, l). Inr (c, s, l))
       else Inr (c, s, l)))"

end
