(* ===== verification/Client_Unpack.thy ===== *)
theory Client_Unpack
  imports Client_Entity
begin

text \<open>
  The receiving half of a connection is correct: \<open>do_handle_unpack\<close>, which works on shared
  buffers cut at arbitrary places, refines a parser of one byte string.  The wire format is
  \<open>|4 byte length | data|\<close>, the length big-endian and signed.
\<close>

section \<open>The abstract parser\<close>

definition packet_len :: "byte list \<Rightarrow> int" where
  "packet_len bs = sint (from_be (take 4 bs) :: 32 word)"

datatype parsed = Need_More | Bad_Length | Packet "byte list" "byte list"

definition parse_packet :: "byte list \<Rightarrow> parsed" where
  "parse_packet bs =
     (if length bs < 4 then Need_More
      else if packet_len bs \<le> 0 then Bad_Length
      else if int (length bs) < 4 + packet_len bs then Need_More
      else Packet (take (4 + nat (packet_len bs)) bs) (drop (4 + nat (packet_len bs)) bs))"

lemma packet_len_append [simp]: "4 \<le> length bs \<Longrightarrow> packet_len (bs @ cs) = packet_len bs"
  by (simp add: packet_len_def)

lemma packet_len_less: "packet_len bs < 2 ^ 31"
  using sint_lt [of "from_be (take 4 bs) :: 32 word"] by (simp add: packet_len_def)

lemma parse_packet_Nil [simp]: "parse_packet [] = Need_More"
  by (simp add: parse_packet_def)

lemma parse_Need_More_iff:
  "parse_packet bs = Need_More \<longleftrightarrow>
     length bs < 4 \<or> 0 < packet_len bs \<and> int (length bs) < 4 + packet_len bs"
  by (auto simp: parse_packet_def)

section \<open>Invariant\<close>

definition cur_list :: "client \<Rightarrow> nat list" where
  "cur_list c = (case cur_unpack c of None \<Rightarrow> [] | Some a \<Rightarrow> [a])"

text \<open>The buffers a client owns.\<close>

definition owned :: "client \<Rightarrow> nat list" where
  "owned c = cur_list c @ unpack_list c @ recv_list c @ wait_pack_list c @ wait_write_list c"

definition head_ok :: "64 word \<Rightarrow> buffer \<Rightarrow> bool" where
  "head_ok k b \<longleftrightarrow> read_index b = 8 \<and> 8 \<le> length (buff b) \<and> take 8 (buff b) = be_bytes k"

definition client_ok :: "client \<Rightarrow> store \<Rightarrow> bool" where
  "client_ok c s \<longleftrightarrow>
     store_ok s \<and> distinct (owned c) \<and> set (owned c) \<subseteq> dom (bufs s) \<and>
     (\<forall>a. cur_unpack c = Some a \<longrightarrow>
        (\<exists>b. bufs s a = Some b \<and> head_ok (fd_key c) b \<and> parse_packet (contents b) = Need_More)) \<and>
     (\<forall>f. front_unpack c = Some f \<longrightarrow> unpack_list c \<noteq> [] \<and> f = hd (unpack_list c))"

text \<open>The bytes received and not yet delivered, in order.\<close>

definition pend :: "client \<Rightarrow> store \<Rightarrow> byte list" where
  "pend c s = concat (map (view s) (cur_list c @ unpack_list c @ recv_list c))"

text \<open>In the middle of a round: the current and the front buffer are chosen.\<close>

definition working :: "nat \<Rightarrow> nat \<Rightarrow> client \<Rightarrow> store \<Rightarrow> bool" where
  "working a f c s \<longleftrightarrow>
     store_ok s \<and> distinct (owned c) \<and> set (owned c) \<subseteq> dom (bufs s) \<and>
     cur_unpack c = Some a \<and> unpack_list c \<noteq> [] \<and> f = hd (unpack_list c) \<and>
     front_unpack c = Some f \<and> (\<exists>b. bufs s a = Some b \<and> head_ok (fd_key c) b)"

lemma workingE:
  assumes "working a f c s"
  obtains b fb rest where "store_ok s" "bufs s a = Some b" "bufs s f = Some fb" "a \<noteq> f"
    "unpack_list c = f # rest" "head_ok (fd_key c) b" "buffer_ok b" "buffer_ok fb"
    "a \<notin> set rest" "f \<notin> set rest"
    "a \<notin> set (recv_list c @ wait_pack_list c @ wait_write_list c)"
    "f \<notin> set (recv_list c @ wait_pack_list c @ wait_write_list c)"
proof -
  obtain rest where rest: "unpack_list c = f # rest"
    using assms by (cases "unpack_list c") (auto simp: working_def)
  have cur: "cur_unpack c = Some a" and d: "distinct (owned c)" and sub: "set (owned c) \<subseteq> dom (bufs s)"
      and ok: "store_ok s"
    using assms by (auto simp: working_def)
  obtain b where b: "bufs s a = Some b" "head_ok (fd_key c) b"
    using assms by (auto simp: working_def)
  have "f \<in> dom (bufs s)"
    using sub rest by (auto simp: owned_def)
  then obtain fb where fb: "bufs s f = Some fb" by blast
  show thesis
    using that [OF ok b(1) fb _ rest b(2) store_ok_buffer [OF ok b(1)] store_ok_buffer [OF ok fb]]
      d rest cur by (auto simp: owned_def cur_list_def)
qed

section \<open>Arithmetic of the lengths\<close>

lemma need_header:
  "n < 4 \<Longrightarrow> size_of_int (int32 (int (size_sub 4 n))) = 4 - n"
  by (simp add: size_arith)

lemma need_data:
  assumes "4 \<le> n" "0 < len" "int n < 4 + len" "len < 2 ^ 31"
  shows "size_of_int (int32 (int (size_sub (size_of_int len) (size_sub n 4)))) = nat len + 4 - n"
proof -
  have "size_of_int len = nat len" "size_sub n 4 = n - 4"
    using assms by (simp_all add: size_arith)
  moreover have "size_sub (nat len) (n - 4) = nat len + 4 - n"
    using assms by (subst size_sub_exact) auto
  moreover have "int32 (int (nat len + 4 - n)) = int (nat len + 4 - n)"
    using assms by (intro int32_exact) auto
  ultimately show ?thesis
    using assms by (simp add: size_of_int_def)
qed

section \<open>Building blocks\<close>

lemma ensure_cur_spec:
  assumes ok: "client_ok c s" and m: "cur_unpack c = None \<Longrightarrow> malloc_ok m (bpool s)"
    and ne: "unpack_list c \<noteq> []"
  obtains a c' s' where "ensure_cur m c s = Inr (a, c', s')"
    "c' = c\<lparr>cur_unpack := Some a\<rparr>"
    "working a (hd (unpack_list c)) (c'\<lparr>front_unpack := Some (hd (unpack_list c))\<rparr>) s'"
    "pend c' s' = pend c s" "parse_packet (view s' a) = Need_More"
    "same_outside (set (owned c)) s s'" "a \<in> set (owned c) \<or> a \<notin> dom (bufs s)"
proof (cases "cur_unpack c")
  case (Some a)
  with ok have "c\<lparr>cur_unpack := Some a\<rparr> = c" by simp
  show thesis
  proof (rule that [of a c s])
    show "working a (hd (unpack_list c)) (c\<lparr>front_unpack := Some (hd (unpack_list c))\<rparr>) s"
      using ok Some ne by (auto simp: working_def client_ok_def owned_def cur_list_def)
    show "parse_packet (view s a) = Need_More"
      using ok Some by (auto simp: client_ok_def)
  qed (use Some in \<open>auto simp: ensure_cur_def owned_def cur_list_def\<close>)
next
  case None
  have sok: "store_ok s" and d: "distinct (owned c)" and sub: "set (owned c) \<subseteq> dom (bufs s)"
    using ok by (auto simp: client_ok_def)
  obtain a P where pop: "pop_buffer m s = Inr (a, s\<lparr>bpool := P, bufs := (bufs s)(a \<mapsto> default_buffer)\<rparr>)"
    and a: "a \<notin> dom (bufs s)"
    and sok1: "store_ok (s\<lparr>bpool := P, bufs := (bufs s)(a \<mapsto> default_buffer)\<rparr>)"
    by (rule pop_buffer_ok [OF sok m [OF None]])
  let ?s1 = "s\<lparr>bpool := P, bufs := (bufs s)(a \<mapsto> default_buffer)\<rparr>"
  have "fits (be_bytes (fd_key c)) default_buffer"
    by (simp add: fits_def vec_max_def)
  then obtain b where b: "writeInt64 (fd_key c) default_buffer = Inr b" "buffer_ok b"
      "contents b = be_bytes (fd_key c)" "read_index b = 0" "write_index b = 8"
    using append_bytes_spec [of default_buffer "be_bytes (fd_key c)"]
    by (auto simp: writeInt64_def)
  have w1: "upd_buf a (writeInt64 (fd_key c)) ?s1 = Inr (?s1\<lparr>bufs := (bufs s)(a \<mapsto> b)\<rparr>)"
    and sok2: "store_ok (?s1\<lparr>bufs := (bufs s)(a \<mapsto> b)\<rparr>)"
    using upd_buf_ok [OF sok1, of a default_buffer "writeInt64 (fd_key c)" b] b by simp_all
  have skip: "set_read_index 8 b = Inr (skip 8 b)"
    using set_read_index_ok [OF b(2), of 8] b by simp
  have sk: "buffer_ok (skip 8 b)" "contents (skip 8 b) = []"
    using skip_ok(1,2) [OF b(2), of 8] b by simp_all
  let ?s2 = "?s1\<lparr>bufs := (bufs s)(a \<mapsto> skip 8 b)\<rparr>"
  have w2: "upd_buf a (set_read_index 8) (?s1\<lparr>bufs := (bufs s)(a \<mapsto> b)\<rparr>) = Inr ?s2"
    and sok3: "store_ok ?s2"
    using upd_buf_ok [OF sok2, of a b "set_read_index 8" "skip 8 b"] skip sk by simp_all
  have "head_ok (fd_key c) (skip 8 b)"
    using b buffer_okD(2) [OF b(2)] by (simp add: head_ok_def skip_def contents_def)
  then have work: "working a (hd (unpack_list c))
      (c\<lparr>cur_unpack := Some a, front_unpack := Some (hd (unpack_list c))\<rparr>) ?s2"
    using sok3 d sub a ne None by (auto simp: working_def owned_def cur_list_def)
  have v: "view ?s2 x = view s x" if "x \<in> set (unpack_list c) \<union> set (recv_list c)" for x
    using that sub a by (auto simp: view_def owned_def)
  show thesis
  proof (rule that [of a "c\<lparr>cur_unpack := Some a\<rparr>" ?s2])
    show "ensure_cur m c s = Inr (a, c\<lparr>cur_unpack := Some a\<rparr>, ?s2)"
      using None pop w1 w2 by (simp add: ensure_cur_def)
    show "pend (c\<lparr>cur_unpack := Some a\<rparr>) ?s2 = pend c s"
      using None v sk by (simp add: pend_def cur_list_def cong: map_cong)
  qed (use work sk None a in \<open>auto simp: parse_packet_def same_outside_def\<close>)
qed

lemma move_bytes_spec:
  assumes ok: "store_ok s" and a: "bufs s a = Some b" and f: "bufs s f = Some fb" and ne: "a \<noteq> f"
    and k: "size_of_int k = n" and n: "n \<le> length (contents fb)"
    and fit: "write_index b + n \<le> vec_max"
  obtains b' where "move_bytes a f k s = Inr (s\<lparr>bufs := (bufs s)(a \<mapsto> b', f \<mapsto> skip n fb)\<rparr>)"
    "store_ok (s\<lparr>bufs := (bufs s)(a \<mapsto> b', f \<mapsto> skip n fb)\<rparr>)"
    "contents b' = contents b @ take n (contents fb)" "read_index b' = read_index b"
    "take (write_index b) (buff b') = take (write_index b) (buff b)" "buffer_ok b'"
proof -
  have fok: "buffer_ok fb" using ok f by (rule store_ok_buffer)
  obtain b' where b': "append_from a f n s = Inr (s\<lparr>bufs := (bufs s)(a \<mapsto> b')\<rparr>)"
    and ok1: "store_ok (s\<lparr>bufs := (bufs s)(a \<mapsto> b')\<rparr>)"
    and c: "contents b' = contents b @ take n (contents fb)" "read_index b' = read_index b"
      "write_index b' = write_index b + n"
      "take (write_index b) (buff b') = take (write_index b) (buff b)"
    by (rule append_from_ok [OF ok f a ne [symmetric] n fit])
  have set: "set_read_index (size_add (read_index fb) n) fb = Inr (skip n fb)"
    using set_read_index_ok [OF fok n] skip_ok(5) [OF fok n] by simp
  have "upd_buf f (\<lambda>b. set_read_index (size_add (read_index b) n) b) (s\<lparr>bufs := (bufs s)(a \<mapsto> b')\<rparr>)
      = Inr (s\<lparr>bufs := (bufs s)(a \<mapsto> b', f \<mapsto> skip n fb)\<rparr>)"
    and "store_ok (s\<lparr>bufs := (bufs s)(a \<mapsto> b', f \<mapsto> skip n fb)\<rparr>)"
    using upd_buf_ok [OF ok1, of f fb "\<lambda>b. set_read_index (size_add (read_index b) n) b" "skip n fb"]
      f ne set skip_ok(1) [OF fok n] by simp_all
  moreover have "buffer_ok b'"
    using store_ok_buffer [OF ok1, of a b'] by simp
  ultimately show thesis
    using that [of b'] b' c by (simp add: move_bytes_def k)
qed

lemma absorb_front_spec:
  assumes w: "working a f c s" and b: "bufs s a = Some b" and fb: "bufs s f = Some fb"
    and fit: "write_index b + length (contents fb) \<le> vec_max"
  obtains b' s' where
    "absorb_front a f c s = Inr (c\<lparr>unpack_list := tl (unpack_list c), front_unpack := None\<rparr>, s')"
    "store_ok s'" "bufs s' = (bufs s)(a \<mapsto> b', f := None)" "contents b' = contents b @ contents fb"
    "head_ok (fd_key c) b'"
proof -
  have ok: "store_ok s" and ne: "a \<noteq> f" and hb: "head_ok (fd_key c) b" and fok: "buffer_ok fb"
      and bok: "buffer_ok b"
    using w b fb by (auto elim!: workingE)
  obtain b' where b': "append_from a f (length (contents fb)) s = Inr (s\<lparr>bufs := (bufs s)(a \<mapsto> b')\<rparr>)"
    and ok1: "store_ok (s\<lparr>bufs := (bufs s)(a \<mapsto> b')\<rparr>)"
    and c: "contents b' = contents b @ take (length (contents fb)) (contents fb)"
      "read_index b' = read_index b" "write_index b' = write_index b + length (contents fb)"
      "take (write_index b) (buff b') = take (write_index b) (buff b)"
    by (rule append_from_ok [OF ok fb b ne [symmetric] _ fit]) simp
  obtain s' where s': "push_buffer f (s\<lparr>bufs := (bufs s)(a \<mapsto> b')\<rparr>) = Inr s'" "store_ok s'"
      "bufs s' = (bufs s)(a \<mapsto> b', f := None)"
    using push_buffer_ok [OF ok1, of f] fb ne by auto
  have "head_ok (fd_key c) b'"
  proof -
    have w8: "8 \<le> write_index b"
      using hb bok by (simp add: head_ok_def buffer_ok_def)
    then have "take 8 (buff b') = take 8 (buff b)"
      using arg_cong [OF c(4), of "take 8"] by (simp add: min_absorb1)
    moreover have "8 \<le> length (buff b')"
      using w8 c(3) store_ok_buffer [OF ok1, of a b'] by (simp add: buffer_ok_def)
    ultimately show ?thesis
      using hb c(2) by (simp add: head_ok_def)
  qed
  with b' s' c(1) fb fok that show thesis
    by (simp add: absorb_front_def readable_eq)
qed

definition lists :: "client \<Rightarrow> nat list" where
  "lists c = unpack_list c @ recv_list c @ wait_pack_list c @ wait_write_list c"

lemma owned_lists: "owned c = cur_list c @ lists c"
  by (simp add: owned_def lists_def)

lemma clear_ok:
  assumes "store_ok s" and "distinct (lists c)" and "set (lists c) \<subseteq> dom (bufs s)"
  obtains s' where "clear c s = Inr (c\<lparr>unpack_list := [], recv_list := [], wait_pack_list := [],
      wait_write_list := []\<rparr>, s')" "store_ok s'" "bufs s' = bufs s |` (- set (lists c))"
proof -
  obtain s' where s': "each push_buffer (lists c) s = Inr s'" "store_ok s'"
      "bufs s' = bufs s |` (- set (lists c))"
    using push_list_bufs [OF assms] by blast
  from s'(1) obtain s1 s2 s3 where
      "each push_buffer (unpack_list c) s = Inr s1" "each push_buffer (recv_list c) s1 = Inr s2"
      "each push_buffer (wait_pack_list c) s2 = Inr s3" "each push_buffer (wait_write_list c) s3 = Inr s'"
    by (auto simp: lists_def each_append bind_res_eq_Inr)
  with s'(2,3) that show thesis by (simp add: clear_def)
qed

lemma head_write_index:
  assumes "head_ok k b" and "buffer_ok b"
  shows "write_index b = 8 + length (contents b)"
  using assms by (auto simp: head_ok_def length_contents buffer_ok_def)

lemma Need_More_fits:
  assumes "head_ok k b" and "buffer_ok b" and "parse_packet (contents b @ cs) = Need_More"
  shows "write_index b + length cs \<le> vec_max"
  using assms(3) packet_len_less [of "contents b @ cs"]
  by (auto simp: head_write_index [OF assms(1,2)] parse_Need_More_iff vec_max_def)

lemma absorb_front_ok:
  assumes w: "working a f c s" and nm: "parse_packet (view s a @ view s f) = Need_More"
  obtains s' where
    "absorb_front a f c s = Inr (c\<lparr>unpack_list := tl (unpack_list c), front_unpack := None\<rparr>, s')"
    "client_ok (c\<lparr>unpack_list := tl (unpack_list c), front_unpack := None\<rparr>) s'"
    "pend (c\<lparr>unpack_list := tl (unpack_list c), front_unpack := None\<rparr>) s' = pend c s"
    "same_outside (set (owned c)) s s'"
proof -
  let ?c = "c\<lparr>unpack_list := tl (unpack_list c), front_unpack := None\<rparr>"
  obtain b fb rest where ok: "store_ok s" and b: "bufs s a = Some b" and fb: "bufs s f = Some fb"
    and ne: "a \<noteq> f" and u: "unpack_list c = f # rest" and hb: "head_ok (fd_key c) b"
    and bok: "buffer_ok b" and out: "a \<notin> set rest" "f \<notin> set rest"
      "a \<notin> set (recv_list c @ wait_pack_list c @ wait_write_list c)"
      "f \<notin> set (recv_list c @ wait_pack_list c @ wait_write_list c)"
    using w by (elim workingE) blast
  have nm': "parse_packet (contents b @ contents fb) = Need_More"
    using nm b fb by simp
  have fit: "write_index b + length (contents fb) \<le> vec_max"
    using hb bok nm' by (rule Need_More_fits)
  obtain b' s' where s': "absorb_front a f c s = Inr (?c, s')" "store_ok s'"
      "bufs s' = (bufs s)(a \<mapsto> b', f := None)" "contents b' = contents b @ contents fb"
      "head_ok (fd_key c) b'"
    by (rule absorb_front_spec [OF w b fb fit])
  have cur: "cur_unpack c = Some a" and d: "distinct (owned c)" and sub: "set (owned c) \<subseteq> dom (bufs s)"
    using w by (auto simp: working_def)
  have v: "view s' x = view s x" if "x \<in> set rest \<union> set (recv_list c)" for x
    using that out s'(3) by (auto simp: view_def)
  show thesis
  proof (rule that)
    show "client_ok ?c s'"
      using d sub cur u s' out nm' ne by (auto simp: client_ok_def owned_def cur_list_def)
    show "pend ?c s' = pend c s"
      using cur u s'(3,4) v b fb ne by (simp add: pend_def cur_list_def cong: map_cong)
    show "same_outside (set (owned c)) s s'"
      using s'(3) cur u by (auto simp: same_outside_def owned_def cur_list_def)
  qed (rule s')
qed

lemma contents_rewound:
  assumes "head_ok k b" and "buffer_ok b"
  shows "contents (b\<lparr>read_index := 0\<rparr>) = be_bytes k @ contents b"
proof -
  have "take (write_index b) (buff b) = take 8 (buff b) @ take (write_index b - 8) (drop 8 (buff b))"
    using assms take_add [of 8 "write_index b - 8" "buff b"] by (simp add: head_ok_def buffer_ok_def)
  then show ?thesis
    using assms by (simp add: contents_def head_ok_def)
qed

section \<open>One round\<close>

text \<open>The header is complete, the packet is not.\<close>

definition header_read :: "nat \<Rightarrow> store \<Rightarrow> bool" where
  "header_read a s \<longleftrightarrow> 4 \<le> length (view s a) \<and>
     (0 < packet_len (view s a) \<longrightarrow> int (length (view s a)) < 4 + packet_len (view s a))"

lemma pend_working:
  assumes "working a f c s"
  shows "pend c s = view s a @ view s f @ concat (map (view s) (tl (unpack_list c) @ recv_list c))"
  using assms by (cases "unpack_list c") (auto simp: working_def pend_def cur_list_def)

lemma unpack_body_bad:
  assumes w: "working a f c s" and h: "header_read a s" and len: "packet_len (view s a) \<le> 0"
  shows "\<exists>c' s'. unpack_body (packet_len (view s a)) a f c s = Inr (Bad_Len, c', s')
    \<and> parse_packet (pend c s) = Bad_Length
    \<and> c' = force_close (close_read (c\<lparr>unpack_list := [], recv_list := [], wait_pack_list := [],
             wait_write_list := []\<rparr>))
    \<and> store_ok s' \<and> bufs s' = bufs s |` (- set (lists c))"
proof -
  have ok: "store_ok s" "distinct (lists c)" "set (lists c) \<subseteq> dom (bufs s)"
    using w by (auto simp: working_def owned_lists)
  obtain s' where "clear c s = Inr (c\<lparr>unpack_list := [], recv_list := [], wait_pack_list := [],
      wait_write_list := []\<rparr>, s')" "store_ok s'" "bufs s' = bufs s |` (- set (lists c))"
    by (rule clear_ok [OF ok])
  moreover have "parse_packet (pend c s) = Bad_Length"
    using h len by (simp add: pend_working [OF w] parse_packet_def header_read_def)
  ultimately show ?thesis
    using len by (simp add: unpack_body_def)
qed

lemma unpack_body_continue:
  assumes w: "working a f c s" and h: "header_read a s" and len: "0 < packet_len (view s a)"
    and short: "int (length (view s a) + length (view s f)) < 4 + packet_len (view s a)"
  obtains s' where
    "unpack_body (packet_len (view s a)) a f c s
       = Inr (Continue, c\<lparr>unpack_list := tl (unpack_list c), front_unpack := None\<rparr>, s')"
    "client_ok (c\<lparr>unpack_list := tl (unpack_list c), front_unpack := None\<rparr>) s'"
    "pend (c\<lparr>unpack_list := tl (unpack_list c), front_unpack := None\<rparr>) s' = pend c s"
    "same_outside (set (owned c)) s s'"
proof -
  obtain b fb where b: "bufs s a = Some b" "buffer_ok b" and fb: "bufs s f = Some fb" "buffer_ok fb"
    using w by (elim workingE) blast
  have nm: "parse_packet (view s a @ view s f) = Need_More"
    using h len short by (auto simp: parse_Need_More_iff header_read_def)
  obtain s' where s': "absorb_front a f c s
      = Inr (c\<lparr>unpack_list := tl (unpack_list c), front_unpack := None\<rparr>, s')"
    "client_ok (c\<lparr>unpack_list := tl (unpack_list c), front_unpack := None\<rparr>) s'"
    "pend (c\<lparr>unpack_list := tl (unpack_list c), front_unpack := None\<rparr>) s' = pend c s"
    "same_outside (set (owned c)) s s'"
    by (rule absorb_front_ok [OF w nm])
  have need: "size_of_int (int32 (int (size_sub (size_of_int (packet_len (view s a)))
      (size_sub (readableBytes b) 4)))) = nat (packet_len (view s a)) + 4 - length (contents b)"
    using h len b packet_len_less [of "contents b"]
    by (subst readable_eq [OF b(2)], intro need_data) (simp_all add: header_read_def)
  have "\<not> nat (packet_len (view s a)) + 4 - length (contents b) \<le> readableBytes fb"
    using short b fb by (auto simp: readable_eq)
  then have "unpack_body (packet_len (view s a)) a f c s
      = Inr (Continue, c\<lparr>unpack_list := tl (unpack_list c), front_unpack := None\<rparr>, s')"
    using len b(1) fb(1) s'(1) need by (simp add: unpack_body_def Let_def)
  with s'(2-4) that show thesis by blast
qed

text \<open>What a completed packet leaves behind: the rest of the front buffer, or its successor.\<close>

definition after_packet :: "bool \<Rightarrow> client \<Rightarrow> client" where
  "after_packet used_up c =
     set_update (if used_up
       then c\<lparr>cur_unpack := None, unpack_list := tl (unpack_list c), front_unpack := None\<rparr>
       else c\<lparr>cur_unpack := None\<rparr>)"

lemma after_packet_ok:
  assumes w: "working a f c s" and fb: "bufs s f = Some fb" and n: "n \<le> length (contents fb)"
    and ok': "store_ok s'" and up: "used_up \<longleftrightarrow> n = length (contents fb)"
    and bufs': "bufs s' = (bufs s)(a := None, f := (if used_up then None else Some (skip n fb)))"
  shows "client_ok (after_packet used_up c) s'"
    and "pend (after_packet used_up c) s' = drop (length (view s a) + n) (pend c s)"
    and "same_outside (set (owned c)) s s'"
proof -
  obtain rest where u: "unpack_list c = f # rest" and ne: "a \<noteq> f" and fok: "buffer_ok fb"
    and out: "a \<notin> set rest" "f \<notin> set rest"
      "a \<notin> set (recv_list c @ wait_pack_list c @ wait_write_list c)"
      "f \<notin> set (recv_list c @ wait_pack_list c @ wait_write_list c)"
    using w fb by (elim workingE) auto
  have cur: "cur_unpack c = Some a" and fr: "front_unpack c = Some f"
    and d: "distinct (owned c)" and sub: "set (owned c) \<subseteq> dom (bufs s)"
    using w u by (auto simp: working_def)
  show "client_ok (after_packet used_up c) s'"
    using d sub cur fr u out ok' bufs' ne
    by (cases used_up) (auto simp: client_ok_def owned_def cur_list_def after_packet_def set_update_def)
  have v: "view s' x = view s x" if "x \<in> set rest \<union> set (recv_list c)" for x
    using that out bufs' by (auto simp: view_def)
  have "view s' f = drop n (contents fb)" if "\<not> used_up"
    using bufs' that skip_ok(2) [OF fok n] by simp
  moreover have "drop n (contents fb) = []" if used_up
    using up that by simp
  ultimately show "pend (after_packet used_up c) s' = drop (length (view s a) + n) (pend c s)"
    using cur u v fb n
    by (cases used_up)
      (simp_all add: pend_def cur_list_def after_packet_def set_update_def cong: map_cong)
  show "same_outside (set (owned c)) s s'"
    using bufs' cur u by (auto simp: same_outside_def owned_def cur_list_def)
qed

lemma unpack_body_packet:
  assumes w: "working a f c s" and h: "header_read a s" and len: "0 < packet_len (view s a)"
    and enough: "4 + packet_len (view s a) \<le> int (length (view s a) + length (view s f))"
    and k: "message_callback c = Some k"
  obtains s' msg p used_up where
    "unpack_body (packet_len (view s a)) a f c s = Inr (Delivered (k, msg), after_packet used_up c, s')"
    "parse_packet (pend c s) = Packet p (pend (after_packet used_up c) s')"
    "contents msg = be_bytes (fd_key c) @ p" "buffer_ok msg"
    "client_ok (after_packet used_up c) s'" "same_outside (set (owned c)) s s'"
proof -
  let ?len = "packet_len (view s a)"
  obtain b fb rest where ok: "store_ok s" and b: "bufs s a = Some b" and fb: "bufs s f = Some fb"
    and ne: "a \<noteq> f" and u: "unpack_list c = f # rest" and hb: "head_ok (fd_key c) b"
    and bok: "buffer_ok b" and fok: "buffer_ok fb"
    using w by (elim workingE) blast
  define n where "n = nat ?len + 4 - length (contents b)"
  have va: "view s a = contents b" and vf: "view s f = contents fb"
    using b fb by simp_all
  have need: "size_of_int (int32 (int (size_sub (size_of_int ?len) (size_sub (readableBytes b) 4)))) = n"
    unfolding n_def using h len va packet_len_less [of "contents b"]
    by (subst readable_eq [OF bok], intro need_data) (simp_all add: header_read_def)
  have n: "n \<le> length (contents fb)" and total: "length (contents b) + n = 4 + nat ?len"
    using enough h len va vf by (auto simp: n_def header_read_def)
  have fit: "write_index b + n \<le> vec_max"
    using total packet_len_less [of "contents b"] va
    by (simp add: head_write_index [OF hb bok] vec_max_def)
  obtain b1 where mv: "move_bytes a f (int32 (int (size_sub (size_of_int ?len) (size_sub (readableBytes b) 4)))) s
        = Inr (s\<lparr>bufs := (bufs s)(a \<mapsto> b1, f \<mapsto> skip n fb)\<rparr>)"
    and ok1: "store_ok (s\<lparr>bufs := (bufs s)(a \<mapsto> b1, f \<mapsto> skip n fb)\<rparr>)"
    and b1: "contents b1 = contents b @ take n (contents fb)" "read_index b1 = read_index b"
      "take (write_index b) (buff b1) = take (write_index b) (buff b)" "buffer_ok b1"
    by (rule move_bytes_spec [OF ok b fb ne need n fit])
  have hb1: "head_ok (fd_key c) b1"
  proof -
    have w8: "8 \<le> write_index b" using head_write_index [OF hb bok] by simp
    have "take 8 (buff b1) = take 8 (buff b)"
      using arg_cong [OF b1(3), of "take 8"] w8 by (simp add: min_absorb1)
    moreover have "8 \<le> length (buff b1)"
      using arg_cong [OF b1(3), of length] w8 buffer_okD(2) [OF bok] by simp
    ultimately show ?thesis using hb b1(2) by (simp add: head_ok_def)
  qed
  let ?msg = "b1\<lparr>read_index := 0\<rparr>" and ?s1 = "s\<lparr>bufs := (bufs s)(a \<mapsto> b1, f \<mapsto> skip n fb)\<rparr>"
  let ?s2 = "?s1\<lparr>bufs := (bufs ?s1)(a \<mapsto> ?msg)\<rparr>"
  have msg: "contents ?msg = be_bytes (fd_key c) @ contents b1" "buffer_ok ?msg"
    using contents_rewound [OF hb1 b1(4)] b1(4) by (simp_all add: buffer_ok_def)
  have ok2: "store_ok ?s2" and rewind: "upd_buf a (set_read_index 0) ?s1 = Inr ?s2"
    using upd_buf_ok [OF ok1, of a b1 "set_read_index 0" ?msg] ne msg(2)
    by (simp_all add: set_read_index_def)
  obtain s3 where s3: "push_buffer a ?s2 = Inr s3" "store_ok s3" "bufs s3 = (bufs s)(a := None, f \<mapsto> skip n fb)"
    using push_buffer_ok [OF ok2, of a] ne by (auto simp: fun_upd_twist)
  have fin: "finish_unpack a c ?s2 = Inr ((k, ?msg), s3)"
    using k s3(1) by (simp add: finish_unpack_def)
  have sk: "buffer_ok (skip n fb)" "contents (skip n fb) = drop n (contents fb)"
    using skip_ok(1,2) [OF fok n] by simp_all
  have rd: "readableBytes (skip n fb) = 0 \<longleftrightarrow> n = length (contents fb)"
    using n by (auto simp: readable_eq [OF sk(1)] sk(2))
  define used_up where "used_up \<longleftrightarrow> n = length (contents fb)"
  obtain s4 where s4: "push_buffer f s3 = Inr s4" "store_ok s4" "bufs s4 = (bufs s3)(f := None)"
    using push_buffer_ok [OF s3(2), of f] s3(3) by auto
  define s' where "s' = (if used_up then s4 else s3)"
  have ok': "store_ok s'"
    and bufs': "bufs s' = (bufs s)(a := None, f := (if used_up then None else Some (skip n fb)))"
    using s3 s4 by (auto simp: s'_def fun_eq_iff)
  have body: "unpack_body ?len a f c s = Inr (Delivered (k, ?msg), after_packet used_up c, s')"
    using len b fb s3(3) s4(1) mv rewind fin need n rd
    by (simp add: unpack_body_def Let_def readable_eq [OF fok] used_up_def s'_def after_packet_def)
  note post = after_packet_ok [OF w fb n ok' used_up_def bufs']
  have "parse_packet (pend c s) = Packet (contents b1) (pend (after_packet used_up c) s')"
  proof -
    have p: "pend c s = contents b @ contents fb @ concat (map (view s) (tl (unpack_list c) @ recv_list c))"
      using pend_working [OF w] va vf by simp
    have t: "take (4 + nat ?len) (pend c s) = contents b1"
      using total n b1(1) unfolding p by (simp flip: total)
    have "4 \<le> length (contents b)"
      using h va by (simp add: header_read_def)
    then have pl: "packet_len (pend c s) = ?len"
      unfolding p va by simp
    have "4 + ?len \<le> int (length (pend c s))"
      using enough va vf unfolding p by simp
    then show ?thesis
      using len post(2) t pl va by (simp add: parse_packet_def total)
  qed
  then show thesis
    using that [OF body _ msg(1) _ post(1,3)] msg(2) b1(1) by blast
qed

lemma head_ok_appended:
  assumes "head_ok k b" "buffer_ok b" "read_index b' = read_index b"
    "take (write_index b) (buff b') = take (write_index b) (buff b)"
  shows "head_ok k b'"
proof -
  have w8: "8 \<le> write_index b" using head_write_index [OF assms(1,2)] by simp
  have "take 8 (buff b') = take 8 (buff b)"
    using arg_cong [OF assms(4), of "take 8"] w8 by (simp add: min_absorb1)
  moreover have "8 \<le> length (buff b')"
    using arg_cong [OF assms(4), of length] w8 buffer_okD(2) [OF assms(2)] by simp
  ultimately show ?thesis using assms(1,3) by (simp add: head_ok_def)
qed

lemma move_header:
  assumes w: "working a f c s" and short: "length (view s a) < 4"
    and enough: "4 \<le> length (view s a) + length (view s f)"
  obtains s' where
    "move_bytes a f (int32 (int (size_sub 4 (length (view s a))))) s = Inr s'"
    "working a f c s'" "header_read a s'" "pend c s' = pend c s" "same_outside (set (owned c)) s s'"
proof -
  obtain b fb rest where ok: "store_ok s" and b: "bufs s a = Some b" and fb: "bufs s f = Some fb"
    and ne: "a \<noteq> f" and u: "unpack_list c = f # rest" and hb: "head_ok (fd_key c) b"
    and bok: "buffer_ok b" and fok: "buffer_ok fb"
    and out: "a \<notin> set rest" "f \<notin> set rest"
      "a \<notin> set (recv_list c @ wait_pack_list c @ wait_write_list c)"
      "f \<notin> set (recv_list c @ wait_pack_list c @ wait_write_list c)"
    using w by (elim workingE) blast
  define n where "n = 4 - length (contents b)"
  have need: "size_of_int (int32 (int (size_sub 4 (length (view s a))))) = n"
    using need_header short b by (simp add: n_def)
  have n: "n \<le> length (contents fb)" "length (contents b) + n = 4"
    using short enough b fb by (auto simp: n_def)
  have fit: "write_index b + n \<le> vec_max"
    using n(2) by (simp add: head_write_index [OF hb bok] vec_max_def)
  obtain b1 where mv: "move_bytes a f (int32 (int (size_sub 4 (length (view s a))))) s
        = Inr (s\<lparr>bufs := (bufs s)(a \<mapsto> b1, f \<mapsto> skip n fb)\<rparr>)"
    and ok1: "store_ok (s\<lparr>bufs := (bufs s)(a \<mapsto> b1, f \<mapsto> skip n fb)\<rparr>)"
    and b1: "contents b1 = contents b @ take n (contents fb)" "read_index b1 = read_index b"
      "take (write_index b) (buff b1) = take (write_index b) (buff b)" "buffer_ok b1"
    by (rule move_bytes_spec [OF ok b fb ne need n(1) fit])
  let ?s' = "s\<lparr>bufs := (bufs s)(a \<mapsto> b1, f \<mapsto> skip n fb)\<rparr>"
  have hb1: "head_ok (fd_key c) b1"
    using hb bok b1(2,3) by (rule head_ok_appended)
  have cur: "cur_unpack c = Some a" and fr: "front_unpack c = Some f"
    and d: "distinct (owned c)" and sub: "set (owned c) \<subseteq> dom (bufs s)"
    using w u by (auto simp: working_def)
  have v: "view ?s' x = view s x" if "x \<in> set rest \<union> set (recv_list c)" for x
    using that out by (auto simp: view_def)
  show thesis
  proof (rule that [of ?s'])
    show "working a f c ?s'"
      using ok1 d sub cur fr u hb1 ne by (auto simp: working_def)
    show "header_read a ?s'"
      using b1(1) n ne by (simp add: header_read_def)
    show "pend c ?s' = pend c s"
      using cur u v b fb ne b1(1) skip_ok(2) [OF fok n(1)]
      by (simp add: pend_def cur_list_def cong: map_cong)
    show "same_outside (set (owned c)) s ?s'"
      using cur u by (auto simp: same_outside_def owned_def cur_list_def)
  qed (rule mv)
qed

text \<open>
  After a bad length the current buffer is still held although no list names it, and the front
  pointer refers to a buffer that has been given back.
\<close>

definition dangling :: "client \<Rightarrow> store \<Rightarrow> bool" where
  "dangling c s \<longleftrightarrow> (\<exists>a f. cur_unpack c = Some a \<and> a \<in> dom (bufs s)
     \<and> front_unpack c = Some f \<and> f \<notin> dom (bufs s))"

text \<open>
  The three ways a round can end, as seen from the client before it.  The right-hand sides name
  every field a round may change.
\<close>

definition round_ok :: "nat \<Rightarrow> client \<Rightarrow> store \<Rightarrow> verdict \<Rightarrow> client \<Rightarrow> store \<Rightarrow> bool" where
  "round_ok k c s v c' s' \<longleftrightarrow>
     (case v of
        Continue \<Rightarrow>
          client_ok c' s' \<and> pend c' s' = pend c s \<and> cur_unpack c' \<noteq> None \<and>
          c' = c\<lparr>cur_unpack := cur_unpack c', front_unpack := None, unpack_list := tl (unpack_list c)\<rparr>
      | Delivered (k', msg) \<Rightarrow>
          k' = k \<and> client_ok c' s' \<and> buffer_ok msg \<and>
          (\<exists>p. parse_packet (pend c s) = Packet p (pend c' s') \<and> contents msg = be_bytes (fd_key c) @ p) \<and>
          c' = set_update (c\<lparr>cur_unpack := None, front_unpack := front_unpack c',
                             unpack_list := unpack_list c'\<rparr>)
      | Bad_Len \<Rightarrow>
          parse_packet (pend c s) = Bad_Length \<and> store_ok s' \<and> dangling c' s' \<and>
          c' = force_close (close_read (c\<lparr>cur_unpack := cur_unpack c', front_unpack := front_unpack c',
                 unpack_list := [], recv_list := [], wait_pack_list := [], wait_write_list := []\<rparr>)))"

lemma unpack_body_ok:
  assumes w: "working a f c s" and h: "header_read a s" and k: "message_callback c = Some k"
  shows "\<exists>v c' s'. unpack_body (packet_len (view s a)) a f c s = Inr (v, c', s')
    \<and> round_ok k c s v c' s' \<and> same_outside (set (owned c)) s s' \<and> set (owned c') \<subseteq> set (owned c)"
proof -
  consider "packet_len (view s a) \<le> 0"
    | "0 < packet_len (view s a)" "int (length (view s a) + length (view s f)) < 4 + packet_len (view s a)"
    | "0 < packet_len (view s a)" "4 + packet_len (view s a) \<le> int (length (view s a) + length (view s f))"
    by linarith
  then show ?thesis
  proof cases
    case 1
    from unpack_body_bad [OF w h 1] obtain c' s' where
        "unpack_body (packet_len (view s a)) a f c s = Inr (Bad_Len, c', s')"
        "parse_packet (pend c s) = Bad_Length" "store_ok s'"
        "bufs s' = bufs s |` (- set (lists c))"
        "c' = force_close (close_read (c\<lparr>unpack_list := [], recv_list := [], wait_pack_list := [],
                wait_write_list := []\<rparr>))"
      by blast
    moreover have "dangling (force_close (close_read (c\<lparr>unpack_list := [], recv_list := [],
        wait_pack_list := [], wait_write_list := []\<rparr>))) s'"
      if "bufs s' = bufs s |` (- set (lists c))"
    proof -
      have "f \<in> set (lists c)" "a \<notin> set (lists c)" "a \<in> dom (bufs s)"
        using w by (auto simp: working_def owned_lists lists_def cur_list_def)
      then show ?thesis
        using w that by (auto simp: dangling_def working_def force_close_def close_read_def)
    qed
    ultimately show ?thesis
      by (auto simp: round_ok_def same_outside_def owned_lists lists_def cur_list_def force_close_def
          close_read_def)
  next
    case 2
    let ?c = "c\<lparr>unpack_list := tl (unpack_list c), front_unpack := None\<rparr>"
    obtain s' where s': "unpack_body (packet_len (view s a)) a f c s = Inr (Continue, ?c, s')"
        "client_ok ?c s'" "pend ?c s' = pend c s" "same_outside (set (owned c)) s s'"
      by (rule unpack_body_continue [OF w h 2])
    moreover have "set (owned ?c) \<subseteq> set (owned c)"
      by (cases "unpack_list c") (auto simp: owned_def cur_list_def)
    moreover have "cur_unpack c \<noteq> None" using w by (simp add: working_def)
    ultimately have "round_ok k c s Continue ?c s'" by (simp add: round_ok_def)
    with s' \<open>set (owned ?c) \<subseteq> set (owned c)\<close> show ?thesis by blast
  next
    case 3
    obtain s' msg p used_up where
      "unpack_body (packet_len (view s a)) a f c s = Inr (Delivered (k, msg), after_packet used_up c, s')"
      "parse_packet (pend c s) = Packet p (pend (after_packet used_up c) s')"
      "contents msg = be_bytes (fd_key c) @ p" "buffer_ok msg"
      "client_ok (after_packet used_up c) s'" "same_outside (set (owned c)) s s'"
      by (rule unpack_body_packet [OF w h 3 k])
    moreover have "after_packet used_up c = set_update (c\<lparr>cur_unpack := None,
        front_unpack := front_unpack (after_packet used_up c),
        unpack_list := unpack_list (after_packet used_up c)\<rparr>)"
      by (simp add: after_packet_def set_update_def)
    moreover have "set (owned (after_packet used_up c)) \<subseteq> set (owned c)"
      by (cases "unpack_list c")
        (auto simp: after_packet_def set_update_def owned_def cur_list_def split: if_splits)
    ultimately show ?thesis
      by (auto simp: round_ok_def)
  qed
qed

lemma peekInt32_view:
  assumes "store_ok s" "bufs s a = Some b" "4 \<le> length (view s a)"
  shows "\<exists>len. peekInt32 b = Inr len \<and> sint len = packet_len (view s a)"
  using assms store_ok_buffer [OF assms(1,2)] by (simp add: peekInt32_ok packet_len_def)

lemma unpack_step_ok:
  assumes ok: "client_ok c s" and m: "cur_unpack c = None \<Longrightarrow> malloc_ok m (bpool s)"
    and ne: "unpack_list c \<noteq> []" and k: "message_callback c = Some k"
  shows "\<exists>v c' s'. unpack_step m c s = Inr (v, c', s') \<and> round_ok k c s v c' s'
    \<and> same_outside (set (owned c)) s s' \<and> set (owned c') \<subseteq> set (owned c) \<union> - dom (bufs s)"
proof -
  let ?f = "hd (unpack_list c)"
  obtain a s1 where cur: "ensure_cur m c s = Inr (a, c\<lparr>cur_unpack := Some a\<rparr>, s1)"
    and w: "working a ?f (c\<lparr>cur_unpack := Some a, front_unpack := Some ?f\<rparr>) s1"
    and p: "pend (c\<lparr>cur_unpack := Some a\<rparr>) s1 = pend c s" and nm: "parse_packet (view s1 a) = Need_More"
    and so: "same_outside (set (owned c)) s s1" and new: "a \<in> set (owned c) \<or> a \<notin> dom (bufs s)"
    by (rule ensure_cur_spec [OF ok m ne]) auto
  let ?c = "c\<lparr>cur_unpack := Some a, front_unpack := Some ?f\<rparr>"
  have front: "ensure_front (c\<lparr>cur_unpack := Some a\<rparr>) = (?f, ?c)"
    using ok by (auto simp: ensure_front_def client_ok_def Let_def split: option.splits)
  have pc: "pend ?c s1 = pend c s"
    using p by (simp add: pend_def cur_list_def)
  have kc: "message_callback ?c = Some k" using k by simp
  obtain b fb where sok: "store_ok s1" and b: "bufs s1 a = Some b" and fb: "bufs s1 ?f = Some fb"
    using w by (elim workingE) blast
  have bl: "readableBytes b = length (view s1 a)" "readableBytes fb = length (view s1 ?f)"
    using b fb store_ok_buffer [OF sok] by (simp_all add: readable_eq)
  have lift: "round_ok k c s v c' s' \<longleftrightarrow> round_ok k ?c s2 v c' s'" if "pend ?c s2 = pend c s" for v c' s' s2
    using that by (auto simp: round_ok_def split: verdict.splits)
  have sub: "set (owned ?c) \<subseteq> set (owned c) \<union> - dom (bufs s)"
    using new by (auto simp: owned_def cur_list_def)
  then have outside: "same_outside (set (owned ?c)) s1 s' \<Longrightarrow> set (owned c') \<subseteq> set (owned ?c) \<Longrightarrow>
      same_outside (set (owned c)) s s' \<and> set (owned c') \<subseteq> set (owned c) \<union> - dom (bufs s)" for s' c'
    using same_outside_step [OF so] by blast
  consider "4 \<le> length (view s1 a)"
    | "length (view s1 a) < 4" "4 \<le> length (view s1 a) + length (view s1 ?f)"
    | "length (view s1 a) + length (view s1 ?f) < 4"
    by linarith
  then show ?thesis
  proof cases
    case 1
    then have h: "header_read a s1"
      using nm by (auto simp: header_read_def parse_Need_More_iff)
    obtain len where "peekInt32 b = Inr len" "sint len = packet_len (view s1 a)"
      using peekInt32_view [OF sok b 1] by blast
    then have "unpack_step m c s = unpack_body (packet_len (view s1 a)) a ?f ?c s1"
      using 1 cur front b fb bl by (simp add: unpack_step_def)
    moreover obtain v c' s' where "unpack_body (packet_len (view s1 a)) a ?f ?c s1 = Inr (v, c', s')"
      "round_ok k ?c s1 v c' s'" "same_outside (set (owned ?c)) s1 s'" "set (owned c') \<subseteq> set (owned ?c)"
      using unpack_body_ok [OF w h kc] by blast
    ultimately show ?thesis using lift [OF pc] outside by metis
  next
    case 2
    obtain s2 where mv: "move_bytes a ?f (int32 (int (size_sub 4 (length (view s1 a))))) s1 = Inr s2"
      and w2: "working a ?f ?c s2" and h: "header_read a s2" and p2: "pend ?c s2 = pend ?c s1"
      and so2: "same_outside (set (owned ?c)) s1 s2"
      by (rule move_header [OF w 2])
    obtain b2 where sok2: "store_ok s2" and b2: "bufs s2 a = Some b2"
      using w2 by (elim workingE) blast
    have "4 \<le> length (view s2 a)" using h by (simp add: header_read_def)
    then obtain len where "peekInt32 b2 = Inr len" "sint len = packet_len (view s2 a)"
      using peekInt32_view [OF sok2 b2] by blast
    then have "unpack_step m c s = unpack_body (packet_len (view s2 a)) a ?f ?c s2"
      using 2 cur front b fb bl b2 mv need_header [OF 2(1)]
      by (simp add: unpack_step_def Let_def le_diff_conv add.commute)
    moreover have p3: "pend ?c s2 = pend c s" using p2 pc by simp
    moreover obtain v c' s' where "unpack_body (packet_len (view s2 a)) a ?f ?c s2 = Inr (v, c', s')"
      "round_ok k ?c s2 v c' s'" "same_outside (set (owned ?c)) s2 s'" "set (owned c') \<subseteq> set (owned ?c)"
      using unpack_body_ok [OF w2 h kc] by blast
    ultimately show ?thesis
      using lift [OF p3] outside same_outside_trans [OF so2] by metis
  next
    case 3
    then have "parse_packet (view s1 a @ view s1 ?f) = Need_More"
      by (simp add: parse_packet_def)
    then obtain s2 where s2: "absorb_front a ?f ?c s1
        = Inr (?c\<lparr>unpack_list := tl (unpack_list ?c), front_unpack := None\<rparr>, s2)"
      "client_ok (?c\<lparr>unpack_list := tl (unpack_list ?c), front_unpack := None\<rparr>) s2"
      "pend (?c\<lparr>unpack_list := tl (unpack_list ?c), front_unpack := None\<rparr>) s2 = pend ?c s1"
      "same_outside (set (owned ?c)) s1 s2"
      by (rule absorb_front_ok [OF w])
    then have "unpack_step m c s
        = Inr (Continue, ?c\<lparr>unpack_list := tl (unpack_list ?c), front_unpack := None\<rparr>, s2)"
      using 3 cur front b fb bl need_header [of "length (view s1 a)"]
      by (simp add: unpack_step_def Let_def le_diff_conv add.commute)
    moreover have "set (owned (?c\<lparr>unpack_list := tl (unpack_list ?c), front_unpack := None\<rparr>))
        \<subseteq> set (owned ?c)"
      using ne by (cases "unpack_list c") (auto simp: owned_def cur_list_def)
    ultimately show ?thesis
      using s2 pc outside by (simp add: round_ok_def)
  qed
qed

section \<open>The whole handler\<close>

definition unpack_result ::
    "nat \<Rightarrow> client \<Rightarrow> store \<Rightarrow> (nat \<times> buffer) list \<Rightarrow> client \<Rightarrow> store \<Rightarrow> bool" where
  "unpack_result k c s out c' s' \<longleftrightarrow>
     (case parse_packet (pend c s) of
        Need_More \<Rightarrow>
          out = [] \<and> client_ok c' s' \<and> pend c' s' = pend c s \<and>
          (\<exists>u. let d = c\<lparr>cur_unpack := u, front_unpack := None, unpack_list := []\<rparr> in
               c' = (if ready_close c then force_close d else d))
      | Packet p rest \<Rightarrow>
          (\<exists>msg. out = [(k, msg)] \<and> contents msg = be_bytes (fd_key c) @ p \<and> buffer_ok msg) \<and>
          client_ok c' s' \<and> pend c' s' = rest \<and>
          (\<exists>f us. c' = set_update (c\<lparr>cur_unpack := None, front_unpack := f, unpack_list := us\<rparr>))
      | Bad_Length \<Rightarrow>
          out = [] \<and> store_ok s' \<and> dangling c' s' \<and>
          (\<exists>u f. c' = force_close (close_read (c\<lparr>cur_unpack := u, front_unpack := f,
             unpack_list := [], recv_list := [], wait_pack_list := [], wait_write_list := []\<rparr>))))"

lemma client_ok_frame:
  "client_ok (c\<lparr>read_flag := x\<rparr>) s = client_ok c s" "client_ok (c\<lparr>close_flag := x\<rparr>) s = client_ok c s"
  "client_ok (c\<lparr>write_flag := x\<rparr>) s = client_ok c s" "client_ok (c\<lparr>closed := y\<rparr>) s = client_ok c s"
  "pend (c\<lparr>read_flag := x\<rparr>) s = pend c s" "pend (c\<lparr>close_flag := x\<rparr>) s = pend c s"
  "pend (c\<lparr>write_flag := x\<rparr>) s = pend c s" "pend (c\<lparr>closed := y\<rparr>) s = pend c s"
  by (simp_all add: client_ok_def pend_def owned_def cur_list_def)

lemma ready_close_frame:
  "ready_close (c\<lparr>cur_unpack := u\<rparr>) = ready_close c" "ready_close (c\<lparr>front_unpack := u\<rparr>) = ready_close c"
  "ready_close (c\<lparr>unpack_list := us\<rparr>) = ready_close c" "ready_close (c\<lparr>recv_list := us\<rparr>) = ready_close c"
  "ready_close (c\<lparr>read_flag := x\<rparr>) = ready_close c"
  by (simp_all add: ready_close_def)

lemma unpack_result_continue:
  assumes "round_ok k c s Continue c' s'" and "unpack_result k c' s' out c'' s''"
  shows "unpack_result k c s out c'' s''"
proof -
  have p: "pend c' s' = pend c s"
    and "c' = c\<lparr>cur_unpack := cur_unpack c', front_unpack := None, unpack_list := tl (unpack_list c)\<rparr>"
    using assms(1) by (auto simp: round_ok_def)
  then obtain u where c': "c' = c\<lparr>cur_unpack := u, front_unpack := None, unpack_list := tl (unpack_list c)\<rparr>"
    by blast
  show ?thesis
    using assms(2) by (cases "parse_packet (pend c s)")
      (auto simp: unpack_result_def p [unfolded c'] c' ready_close_frame Let_def)
qed

lemma unpack_loop_ok:
  assumes "client_ok c s" and "cur_unpack c = None \<Longrightarrow> malloc_ok m (bpool s)"
    and "recv_list c = []" and "message_callback c = Some k"
  shows "\<exists>out c' s'. unpack_loop m c s = Inr (out, c', s') \<and> unpack_result k c s out c' s'
    \<and> same_outside (set (owned c)) s s'"
  using assms
proof (induction "length (unpack_list c)" arbitrary: c s rule: less_induct)
  case less
  show ?case
  proof (cases "unpack_list c = []")
    case True
    have "front_unpack c = None"
      using less.prems(1) True by (cases "front_unpack c") (auto simp: client_ok_def)
    then have c: "c = c\<lparr>cur_unpack := cur_unpack c, front_unpack := None, unpack_list := []\<rparr>"
      using True by simp
    have "parse_packet (pend c s) = Need_More"
      using less.prems(1,3) True
      by (cases "cur_unpack c") (auto simp: client_ok_def pend_def cur_list_def)
    moreover have "\<exists>u. let d = c\<lparr>cur_unpack := u, front_unpack := None, unpack_list := []\<rparr> in
        (if ready_close c then force_close c else c) = (if ready_close c then force_close d else d)"
      using c by (intro exI [of _ "cur_unpack c"]) (simp add: Let_def)
    ultimately show ?thesis
      using less.prems(1) True
      by (subst unpack_loop.simps) (simp add: unpack_result_def force_close_def client_ok_frame)
  next
    case False
    obtain v c1 s1 where st: "unpack_step m c s = Inr (v, c1, s1)" and r: "round_ok k c s v c1 s1"
      and so: "same_outside (set (owned c)) s s1"
      and sub: "set (owned c1) \<subseteq> set (owned c) \<union> - dom (bufs s)"
      using unpack_step_ok [OF less.prems(1,2) False less.prems(4)] by blast
    show ?thesis
    proof (cases v)
      case Continue
      have c1: "c1 = c\<lparr>cur_unpack := cur_unpack c1, front_unpack := None, unpack_list := tl (unpack_list c)\<rparr>"
        and ok1: "client_ok c1 s1" and cur1: "cur_unpack c1 \<noteq> None"
        using r Continue by (auto simp: round_ok_def)
      have "unpack_list c1 = tl (unpack_list c)" "recv_list c1 = []" "message_callback c1 = Some k"
        using less.prems(3,4) by (subst c1, simp)+
      moreover from this have "length (unpack_list c1) < length (unpack_list c)"
        using False by simp
      ultimately obtain out c2 s2 where r2: "unpack_loop m c1 s1 = Inr (out, c2, s2)"
          "unpack_result k c1 s1 out c2 s2" "same_outside (set (owned c1)) s1 s2"
        using less.hyps [of c1 s1] ok1 cur1 by blast
      have "unpack_loop m c s = Inr (out, c2, s2)"
        using False st Continue r2(1) by (subst unpack_loop.simps) simp
      then show ?thesis
        using unpack_result_continue [OF r [unfolded Continue] r2(2)] same_outside_step [OF so r2(3) sub]
        by blast
    next
      case (Delivered msg)
      have "unpack_loop m c s = Inr ([msg], c1, s1)"
        using False st Delivered by (subst unpack_loop.simps) simp
      moreover have "c1 = set_update (c\<lparr>cur_unpack := None, front_unpack := front_unpack c1,
          unpack_list := unpack_list c1\<rparr>)"
        using r Delivered by (cases msg) (simp add: round_ok_def)
      then have "\<exists>f us. c1 = set_update (c\<lparr>cur_unpack := None, front_unpack := f, unpack_list := us\<rparr>)"
        by blast
      moreover obtain b p where "msg = (k, b)" "client_ok c1 s1" "buffer_ok b"
          "parse_packet (pend c s) = Packet p (pend c1 s1)" "contents b = be_bytes (fd_key c) @ p"
        using r Delivered by (cases msg) (simp add: round_ok_def, blast)
      ultimately have "unpack_result k c s [msg] c1 s1"
        by (simp add: unpack_result_def)
      moreover have "unpack_loop m c s = Inr ([msg], c1, s1)"
        by fact
      ultimately show ?thesis using so by blast
    next
      case Bad_Len
      have "unpack_loop m c s = Inr ([], c1, s1)"
        using False st Bad_Len by (subst unpack_loop.simps) simp
      moreover have "unpack_result k c s [] c1 s1"
        using r Bad_Len by (auto simp: round_ok_def unpack_result_def)
      ultimately show ?thesis using so by blast
    qed
  qed
qed

lemma do_handle_unpack_ok:
  assumes ok: "client_ok c s" and m: "cur_unpack c = None \<Longrightarrow> malloc_ok m (bpool s)"
    and k: "message_callback c = Some k"
  shows "\<exists>out c' s'. do_handle_unpack m c s = Inr (out, c', s')
    \<and> unpack_result k ((finish_update c)\<lparr>unpack_list := unpack_list c @ recv_list c, recv_list := []\<rparr>)
        s out c' s'
    \<and> same_outside (set (owned c)) s s'"
proof -
  let ?c = "(finish_update c)\<lparr>unpack_list := unpack_list c @ recv_list c, recv_list := []\<rparr>"
  have own: "owned ?c = owned c" and cur: "cur_unpack ?c = cur_unpack c"
    by (simp_all add: owned_def cur_list_def finish_update_def)
  have okc: "client_ok ?c s"
    using ok by (auto simp: client_ok_def owned_def cur_list_def finish_update_def)
  obtain out c' s' where loop: "unpack_loop m ?c s = Inr (out, c', s')"
      "unpack_result k ?c s out c' s'" "same_outside (set (owned ?c)) s s'"
    using unpack_loop_ok [OF okc, of m k] m k cur by (auto simp: finish_update_def)
  show ?thesis
  proof (cases "recv_list c = [] \<and> unpack_list c = []")
    case False
    then have "do_handle_unpack m c s = unpack_loop m ?c s"
      by (auto simp: do_handle_unpack_def Let_def finish_update_def)
    with loop own show ?thesis by auto
  next
    case True
    have "do_handle_unpack m c s = unpack_loop m ?c s"
      using True by (subst unpack_loop.simps)
        (simp add: do_handle_unpack_def Let_def finish_update_def force_close_def ready_close_def)
    with loop own show ?thesis by auto
  qed
qed

end
