(* ===== verification/Client_Receive.thy ===== *)
theory Client_Receive
  imports Client_Unpack
begin

text \<open>
  What a peer and the application observe of the receiving half of a connection: one call of the
  unpack handler, one call of \<open>read_data\<close>, any interleaving of the two, and what is left when
  a connection is destroyed or meets a length that is not positive.
\<close>

section \<open>Reading from the socket\<close>

text \<open>
  The bytes a sequence of \<open>read\<close> results carries up to the first one that ends the loop, and the
  way the loop ends.
\<close>

fun stream_bytes :: "read_result list \<Rightarrow> byte list" where
  "stream_bytes [] = []"
| "stream_bytes (Read_EINTR # rs) = stream_bytes rs"
| "stream_bytes (Read_EAGAIN # rs) = []"
| "stream_bytes (Read_Error # rs) = []"
| "stream_bytes (Read_Bytes ds # rs) = (if ds = [] then [] else ds @ stream_bytes rs)"

fun stream_end :: "read_result list \<Rightarrow> read_end" where
  "stream_end [] = End_EAGAIN"
| "stream_end (Read_EINTR # rs) = stream_end rs"
| "stream_end (Read_EAGAIN # rs) = End_EAGAIN"
| "stream_end (Read_Error # rs) = End_Error"
| "stream_end (Read_Bytes ds # rs) = (if ds = [] then End_EOF else stream_end rs)"

text \<open>An error discards what the same call had read.\<close>

definition kept_bytes :: "read_result list \<Rightarrow> byte list" where
  "kept_bytes rs = (if stream_end rs = End_Error then [] else stream_bytes rs)"

text \<open>
  Over several calls: what the socket gave, what was kept of it, and what was thrown away when the last of
  them failed.
\<close>

definition socket_bytes :: "read_result list list \<Rightarrow> byte list" where
  "socket_bytes rss = concat (map stream_bytes rss)"

definition kept_stream :: "read_result list list \<Rightarrow> byte list" where
  "kept_stream rss = concat (map kept_bytes rss)"

definition lost_bytes :: "read_result list list \<Rightarrow> byte list" where
  "lost_bytes rss = (if rss = [] \<or> stream_end (last rss) \<noteq> End_Error then [] else stream_bytes (last rss))"

definition last_call_ends :: "read_result list list \<Rightarrow> bool" where
  "last_call_ends rss \<longleftrightarrow> (\<forall>rs \<in> set (butlast rss). stream_end rs = End_EAGAIN)"

lemma read_streams_simps [simp]:
  "socket_bytes [] = []" "kept_stream [] = []" "lost_bytes [] = []" "last_call_ends []" "last_call_ends [rs]"
  "socket_bytes (rs # rss) = stream_bytes rs @ socket_bytes rss" "kept_stream (rs # rss) = kept_bytes rs @ kept_stream rss"
  by (simp_all add: socket_bytes_def kept_stream_def lost_bytes_def last_call_ends_def)

lemma last_call_ends_Cons: "stream_end rs = End_EAGAIN \<Longrightarrow> last_call_ends rss \<Longrightarrow> last_call_ends (rs # rss)"
  by (simp add: last_call_ends_def)

lemma kept_and_lost:
  assumes "last_call_ends rss"
  shows "socket_bytes rss = kept_stream rss @ lost_bytes rss"
  using assms
proof (induction rss)
  case (Cons rs rss)
  then show ?case
    by (cases "rss = []") (simp_all add: last_call_ends_def lost_bytes_def kept_bytes_def)
qed simp

lemma ensureWriteable_grows:
  assumes "buffer_ok b" and "write_index b + len \<le> vec_max"
  obtains b' where "ensureWriteable len b = Inr b'" "buffer_ok b'" "contents b' = contents b"
    "write_index b' = write_index b" "len \<le> writeableBytes b'" "read_index b' = read_index b"
proof -
  let ?b' = "if length (buff b) < write_index b + len
    then b\<lparr>buff := buff b @ replicate (write_index b + len - length (buff b)) 0\<rparr> else b"
  have ok: "buffer_ok ?b'" using assms by (auto simp: buffer_ok_def)
  have "ensureWriteable len b = Inr ?b'"
    using assms by (subst ensureWriteable_ok) auto
  moreover have "contents ?b' = contents b"
    using assms(1) by (auto simp: contents_def buffer_ok_def)
  moreover have "len \<le> writeableBytes ?b'"
    using writeable_eq [OF ok] assms(1) by (auto simp: buffer_ok_def split: if_splits)
  ultimately show thesis
    using that [of ?b'] ok by auto
qed

lemma write_chunk:
  assumes "buffer_ok b" and "length ds \<le> writeableBytes b"
  obtains xs b' where "mem_write (write_index b) ds (buff b) = Inr xs"
    "set_write_index (size_add (write_index b) (length ds)) (b\<lparr>buff := xs\<rparr>) = Inr b'"
    "buffer_ok b'" "contents b' = contents b @ ds" "write_index b' = write_index b + length ds"
proof -
  let ?xs = "take (write_index b) (buff b) @ ds @ drop (write_index b + length ds) (buff b)"
  have le: "read_index b \<le> write_index b" "write_index b + length ds \<le> length (buff b)" "length (buff b) \<le> vec_max"
    using assms writeable_eq [OF assms(1)] by (auto simp: buffer_ok_def)
  then have add: "size_add (write_index b) (length ds) = write_index b + length ds"
    by (simp add: size_arith vec_max_def)
  show thesis
    by (rule that [of ?xs "b\<lparr>buff := ?xs, write_index := write_index b + length ds\<rparr>"])
      (use le in \<open>auto simp: mem_write_def set_write_index_def add buffer_ok_def contents_def
        drop_take [symmetric]\<close>)
qed

lemma read_loop_ok:
  assumes "buffer_ok b" and "write_index b + length (stream_bytes rs) + 8 * 1024 \<le> vec_max"
    and "read_loop rs b \<noteq> Inl Bad_Environment"
  shows "\<exists>b'. read_loop rs b = Inr (stream_end rs, b') \<and> buffer_ok b'
    \<and> contents b' = contents b @ stream_bytes rs"
  using assms
proof (induction rs arbitrary: b)
  case Nil
  then show ?case by (auto elim!: ensureWriteable_grows [of b "8 * 1024"])
next
  case (Cons r rs)
  obtain b1 where b1: "ensureWriteable (8 * 1024) b = Inr b1" "buffer_ok b1" "contents b1 = contents b"
      "write_index b1 = write_index b" "8 * 1024 \<le> writeableBytes b1"
    using ensureWriteable_grows [of b "8 * 1024"] Cons.prems by (metis add_leD1 add.commute add.left_commute)
  show ?case
  proof (cases r)
    case (Read_Bytes ds)
    show ?thesis
    proof (cases "ds = []")
      case False
      have fit: "length ds \<le> writeableBytes b1"
        using Cons.prems(3) b1(1) Read_Bytes False by (auto simp: check_def split: if_splits)
      obtain xs b2 where b2: "mem_write (write_index b1) ds (buff b1) = Inr xs"
          "set_write_index (size_add (write_index b1) (length ds)) (b1\<lparr>buff := xs\<rparr>) = Inr b2"
          "buffer_ok b2" "contents b2 = contents b1 @ ds" "write_index b2 = write_index b1 + length ds"
        by (rule write_chunk [OF b1(2) fit])
      have step: "read_loop (r # rs) b = read_loop rs b2"
        using Read_Bytes False b1(1) b2 fit by simp
      have "\<exists>b'. read_loop rs b2 = Inr (stream_end rs, b') \<and> buffer_ok b'
          \<and> contents b' = contents b2 @ stream_bytes rs"
        by (rule Cons.IH) (use Cons.prems step b1 b2 Read_Bytes False in \<open>simp_all\<close>)
      then show ?thesis
        unfolding step using b1 b2 Read_Bytes False by auto
    qed (use Read_Bytes b1 in simp)
  next
    case Read_EINTR
    have step: "read_loop (r # rs) b = read_loop rs b1"
      using Read_EINTR b1(1) by simp
    have "\<exists>b'. read_loop rs b1 = Inr (stream_end rs, b') \<and> buffer_ok b'
        \<and> contents b' = contents b1 @ stream_bytes rs"
      by (rule Cons.IH) (use Cons.prems step b1 Read_EINTR in \<open>simp_all\<close>)
    then show ?thesis
      unfolding step using b1 Read_EINTR by simp
  qed (use b1 in simp_all)
qed

text \<open>
  The kernel never returns more than it was asked for, and what arrives at once fits a vector.  A
  kernel that never returns more than 8192 bytes is a good one.
\<close>

definition reads_ok :: "read_result list \<Rightarrow> bool" where
  "reads_ok rs \<longleftrightarrow> read_loop rs default_buffer \<noteq> Inl Bad_Environment \<and>
     length (stream_bytes rs) + 8 * 1024 \<le> vec_max"

lemma read_loop_small:
  assumes "buffer_ok b" and "\<forall>ds. Read_Bytes ds \<in> set rs \<longrightarrow> length ds \<le> 8 * 1024"
    and "write_index b + length (stream_bytes rs) + 8 * 1024 \<le> vec_max"
  shows "read_loop rs b \<noteq> Inl Bad_Environment"
  using assms
proof (induction rs arbitrary: b)
  case Nil
  then show ?case by (auto elim!: ensureWriteable_grows [of b "8 * 1024"])
next
  case (Cons r rs)
  obtain b1 where b1: "ensureWriteable (8 * 1024) b = Inr b1" "buffer_ok b1"
      "write_index b1 = write_index b" "8 * 1024 \<le> writeableBytes b1"
    using ensureWriteable_grows [of b "8 * 1024"] Cons.prems by (metis add_leD1 add.commute add.left_commute)
  show ?case
  proof (cases r)
    case (Read_Bytes ds)
    have "length ds \<le> 8 * 1024" using Cons.prems Read_Bytes by simp
    then have fit: "length ds \<le> writeableBytes b1" using b1 by linarith
    obtain xs b2 where b2: "mem_write (write_index b1) ds (buff b1) = Inr xs"
        "set_write_index (size_add (write_index b1) (length ds)) (b1\<lparr>buff := xs\<rparr>) = Inr b2"
        "buffer_ok b2" "write_index b2 = write_index b1 + length ds"
      by (rule write_chunk [OF b1(2) fit])
    show ?thesis
    proof (cases "ds = []")
      case False
      have "read_loop rs b2 \<noteq> Inl Bad_Environment"
        by (rule Cons.IH) (use Cons.prems b1 b2 Read_Bytes False in simp_all)
      then show ?thesis using Read_Bytes False b1(1) b2 fit by simp
    qed (use Read_Bytes b1 in simp)
  next
    case Read_EINTR
    have "read_loop rs b1 \<noteq> Inl Bad_Environment"
      by (rule Cons.IH) (use Cons.prems b1 Read_EINTR in simp_all)
    then show ?thesis using Read_EINTR b1(1) by simp
  qed (use b1 in simp_all)
qed

lemma reads_ok_small:
  assumes "\<forall>ds. Read_Bytes ds \<in> set rs \<longrightarrow> length ds \<le> 8 * 1024"
    and "length (stream_bytes rs) + 8 * 1024 \<le> vec_max"
  shows "reads_ok rs"
  using read_loop_small [of default_buffer rs] assms by (simp add: reads_ok_def)

lemma client_ok_same:
  assumes "client_ok c s" and "store_ok s'" and "\<forall>x \<in> dom (bufs s). bufs s' x = bufs s x"
  shows "client_ok c s'" and "pend c s' = pend c s"
proof -
  have sub: "set (owned c) \<subseteq> dom (bufs s)" using assms(1) by (simp add: client_ok_def)
  then have eq: "bufs s' x = bufs s x" if "x \<in> set (owned c)" for x
    using that assms(3) by blast
  then have "cur_unpack c = Some a \<Longrightarrow> bufs s' a = bufs s a" for a
    by (simp add: owned_def cur_list_def)
  moreover have "set (owned c) \<subseteq> dom (bufs s')"
    using sub eq by (auto simp: domIff)
  ultimately show "client_ok c s'"
    using assms(1,2) unfolding client_ok_def by simp
  have "map (view s') (cur_list c @ unpack_list c @ recv_list c)
      = map (view s) (cur_list c @ unpack_list c @ recv_list c)"
    using eq by (intro map_cong) (auto simp: view_def owned_def)
  then show "pend c s' = pend c s" by (simp only: pend_def)
qed

lemma client_ok_receive:
  assumes ok: "client_ok c s" and new: "a \<notin> dom (bufs s)" and s': "store_ok s'"
    and same: "\<forall>x \<in> dom (bufs s). bufs s' x = bufs s x" and a: "bufs s' a = Some b"
  shows "client_ok (c\<lparr>recv_list := recv_list c @ [a]\<rparr>) s'"
    and "pend (c\<lparr>recv_list := recv_list c @ [a]\<rparr>) s' = pend c s @ contents b"
proof -
  have okc: "client_ok c s'" and p: "pend c s' = pend c s"
    using client_ok_same [OF ok s' same] by blast+
  have "a \<notin> set (owned c)" using ok new by (auto simp: client_ok_def)
  with okc a show "client_ok (c\<lparr>recv_list := recv_list c @ [a]\<rparr>) s'"
    by (auto simp: client_ok_def owned_def cur_list_def)
  show "pend (c\<lparr>recv_list := recv_list c @ [a]\<rparr>) s' = pend c s @ contents b"
    using p a by (simp add: pend_def cur_list_def)
qed

definition read_outcome :: "read_result list \<Rightarrow> client \<Rightarrow> client" where
  "read_outcome rs c =
     (let c = (if stream_end rs = End_EAGAIN then c else set_update (close_write c)) in
      if kept_bytes rs = [] then c else set_update c)"

lemma read_data_run:
  assumes sok: "store_ok s" and m: "malloc_ok m (bpool s)"
    and env: "reads_ok rs"
  obtains a t c' s' where "pop_buffer m s = Inr (a, t)" "a \<notin> dom (bufs s)"
    "read_data m rs c s = Inr (if stream_end rs = End_EAGAIN then 0 else -1, c', s')" "store_ok s'"
    "\<forall>x \<in> dom (bufs s). bufs s' x = bufs s x"
    "kept_bytes rs = [] \<and> c' = read_outcome rs c \<or>
     kept_bytes rs \<noteq> [] \<and> c' = (read_outcome rs c)\<lparr>recv_list := recv_list c @ [a]\<rparr> \<and>
       (\<exists>b. bufs s' = (bufs s)(a \<mapsto> b) \<and> contents b = kept_bytes rs)"
proof -
  obtain a P where pop: "pop_buffer m s = Inr (a, s\<lparr>bpool := P, bufs := (bufs s)(a \<mapsto> default_buffer)\<rparr>)"
    and a: "a \<notin> dom (bufs s)"
    and sok1: "store_ok (s\<lparr>bpool := P, bufs := (bufs s)(a \<mapsto> default_buffer)\<rparr>)"
    by (rule pop_buffer_ok [OF sok m])
  let ?s1 = "s\<lparr>bpool := P, bufs := (bufs s)(a \<mapsto> default_buffer)\<rparr>"
  obtain b where b: "read_loop rs default_buffer = Inr (stream_end rs, b)" "buffer_ok b"
      "contents b = stream_bytes rs"
    using read_loop_ok [of default_buffer rs] env by (auto simp: reads_ok_def)
  let ?s2 = "s\<lparr>bpool := P, bufs := (bufs s)(a \<mapsto> b)\<rparr>"
  have sok2: "store_ok ?s2"
    using upd_buf_ok(2) [OF sok1, of a default_buffer "\<lambda>_. Inr b" b] b by simp
  obtain s3 where s3: "push_buffer a ?s2 = Inr s3" "store_ok s3" "bufs s3 = (bufs s)(a := None)"
    using push_buffer_ok [OF sok2, of a] by auto
  have bufs3: "bufs s3 = bufs s" using s3(3) a by (auto simp: fun_upd_idem_iff domIff)
  have start: "read_data m rs c s =
     (if stream_end rs = End_Error then Inr (-1, set_update (close_write c), s3)
      else let c = (if stream_end rs = End_EOF then set_update (close_write c) else c) in
        if stream_bytes rs = [] then Inr (if stream_end rs = End_EOF then -1 else 0, c, s3)
        else Inr (if stream_end rs = End_EOF then -1 else 0, set_update (c\<lparr>recv_list := recv_list c @ [a]\<rparr>), ?s2))"
    using pop b s3 by (simp add: read_data_def Let_def readable_eq)
  show thesis
  proof (cases "kept_bytes rs = []")
    case True
    then have "stream_end rs = End_Error \<or> stream_bytes rs = []"
      by (simp add: kept_bytes_def split: if_splits)
    then have run: "read_data m rs c s = Inr (if stream_end rs = End_EAGAIN then 0 else -1, read_outcome rs c, s3)"
      unfolding start read_outcome_def True by (elim disjE; cases "stream_end rs") (simp_all add: Let_def)
    show thesis
      by (rule that [OF pop a run s3(2)]) (simp_all add: True bufs3)
  next
    case False
    let ?c = "(read_outcome rs c)\<lparr>recv_list := recv_list c @ [a]\<rparr>"
    have run: "read_data m rs c s = Inr (if stream_end rs = End_EAGAIN then 0 else -1, ?c, ?s2)"
      using False unfolding start by (cases "stream_end rs")
        (simp_all add: read_outcome_def kept_bytes_def set_update_def close_write_def split: if_splits)
    have c: "contents b = kept_bytes rs"
      using False b by (simp add: kept_bytes_def split: if_splits)
    have same: "\<forall>x \<in> dom (bufs s). bufs ?s2 x = bufs s x" using a by auto
    show thesis
      by (rule that [OF pop a run sok2 same], intro disjI2 conjI exI [of _ b]) (simp_all add: False c)
  qed
qed

lemma read_data_ok:
  assumes ok: "client_ok c s" and m: "malloc_ok m (bpool s)"
    and env: "reads_ok rs"
  obtains c' s' where
    "read_data m rs c s = Inr (if stream_end rs = End_EAGAIN then 0 else -1, c', s')"
    "client_ok c' s'" "pend c' s' = pend c s @ kept_bytes rs" "same_outside {} s s'"
    "\<exists>as. c' = (read_outcome rs c)\<lparr>recv_list := recv_list c @ as\<rparr>"
proof -
  have sok: "store_ok s" using ok by (simp add: client_ok_def)
  obtain a t c' s' where a: "a \<notin> dom (bufs s)" and s': "store_ok s'"
    and run: "read_data m rs c s = Inr (if stream_end rs = End_EAGAIN then 0 else -1, c', s')"
    and same: "\<forall>x \<in> dom (bufs s). bufs s' x = bufs s x"
    and c': "kept_bytes rs = [] \<and> c' = read_outcome rs c \<or>
     kept_bytes rs \<noteq> [] \<and> c' = (read_outcome rs c)\<lparr>recv_list := recv_list c @ [a]\<rparr> \<and>
       (\<exists>b. bufs s' = (bufs s)(a \<mapsto> b) \<and> contents b = kept_bytes rs)"
    by (rule read_data_run [OF sok m env])
  have frame: "client_ok (read_outcome rs c) t = client_ok c t" "pend (read_outcome rs c) t = pend c t"
    "client_ok ((read_outcome rs c)\<lparr>recv_list := us\<rparr>) t = client_ok (c\<lparr>recv_list := us\<rparr>) t"
    "pend ((read_outcome rs c)\<lparr>recv_list := us\<rparr>) t = pend (c\<lparr>recv_list := us\<rparr>) t"
    "recv_list (read_outcome rs c) = recv_list c" for t us
    by (simp_all add: read_outcome_def set_update_def close_write_def client_ok_def pend_def
        owned_def cur_list_def Let_def)
  have "client_ok c' s' \<and> pend c' s' = pend c s @ kept_bytes rs
      \<and> (\<exists>as. c' = (read_outcome rs c)\<lparr>recv_list := recv_list c @ as\<rparr>)"
    using c'
  proof (elim disjE conjE exE)
    assume "kept_bytes rs = []" "c' = read_outcome rs c"
    moreover have "read_outcome rs c = (read_outcome rs c)\<lparr>recv_list := recv_list c @ []\<rparr>"
      by (simp add: read_outcome_def set_update_def close_write_def Let_def)
    ultimately show ?thesis
      using client_ok_same [OF ok s' same] by (metis append_Nil2 frame(1,2))
  next
    fix b assume "bufs s' = (bufs s)(a \<mapsto> b)" "contents b = kept_bytes rs"
      "c' = (read_outcome rs c)\<lparr>recv_list := recv_list c @ [a]\<rparr>"
    with client_ok_receive [OF ok a s' same, of b] show ?thesis by (auto simp: frame)
  qed
  with run same that show thesis by (auto simp: same_outside_def)
qed

text \<open>Without the invariant of the client: what \<open>read_data\<close> leaves alone.\<close>

lemma push_buffer_frame: "push_buffer a s = Inr s' \<Longrightarrow> bufs s' = (bufs s)(a := None)"
  by (auto simp: push_buffer_def split: option.splits)

lemma read_data_cases:
  assumes "read_data m rs c s = Inr (r, c', s')"
  obtains a s1 b s2 us where "pop_buffer m s = Inr (a, s1)" "s2 = s1\<lparr>bufs := (bufs s1)(a \<mapsto> b)\<rparr>"
    "s' = s2 \<or> push_buffer a s2 = Inr s'"
    "c' = c\<lparr>recv_list := us\<rparr> \<or> c' = set_update (c\<lparr>recv_list := us\<rparr>)
      \<or> c' = set_update (close_write c)
      \<or> c' = set_update ((set_update (close_write c))\<lparr>recv_list := us\<rparr>)"
proof -
  obtain a s1 where pop: "pop_buffer m s = Inr (a, s1)"
    using assms by (auto simp: read_data_def bind_res_eq_Inr)
  then obtain b0 e b where run: "get_buf a s1 = Inr b0" "read_loop rs b0 = Inr (e, b)"
    using assms by (auto simp: read_data_def bind_res_eq_Inr)
  let ?s2 = "s1\<lparr>bufs := (bufs s1)(a \<mapsto> b)\<rparr>"
  let ?c = "if e = End_EOF then set_update (close_write c) else c"
  consider "e = End_Error" "push_buffer a ?s2 = Inr s'" "c' = set_update (close_write c)"
    | "e \<noteq> End_Error" "s' = ?s2" "c' = set_update (?c\<lparr>recv_list := recv_list ?c @ [a]\<rparr>)"
    | "e \<noteq> End_Error" "push_buffer a ?s2 = Inr s'" "c' = ?c"
    using assms by (cases "e = End_Error"; cases "0 < readableBytes b")
      (auto simp: read_data_def pop run bind_res_eq_Inr Let_def)
  then show thesis
  proof cases
    case 1 then show thesis using pop that by blast
  next
    case 2 then show thesis using pop that by (auto split: if_splits)
  next
    case 3
    have "c' = c\<lparr>recv_list := recv_list c\<rparr> \<or> c' = set_update (close_write c)" using 3 by simp
    then show thesis using 3 pop that by blast
  qed
qed

lemma read_data_frame:
  assumes "read_data m rs c s = Inr (r, c', s')"
  shows "\<exists>x y us. c' = c\<lparr>read_flag := x, close_flag := y, recv_list := us\<rparr> \<and>
    (\<forall>n. bit (close_flag c) n \<longrightarrow> bit y n)"
proof -
  obtain us where
    "c' = c\<lparr>recv_list := us\<rparr> \<or> c' = set_update (c\<lparr>recv_list := us\<rparr>)
      \<or> c' = set_update (close_write c)
      \<or> c' = set_update ((set_update (close_write c))\<lparr>recv_list := us\<rparr>)"
    using assms by (rule read_data_cases)
  then have "c' = c\<lparr>read_flag := read_flag c', close_flag := close_flag c', recv_list := recv_list c'\<rparr>"
    and "\<forall>n. bit (close_flag c) n \<longrightarrow> bit (close_flag c') n"
    by (elim disjE; simp add: set_update_def close_write_def bit_or_iff)+
  then show ?thesis by blast
qed

lemma read_data_others:
  assumes "store_ok s" and "malloc_ok m (bpool s)" and "read_data m rs c s = Inr (r, c', s')"
    and "x \<in> dom (bufs s)"
  shows "bufs s' x = bufs s x"
proof -
  obtain a P where pop: "pop_buffer m s = Inr (a, s\<lparr>bpool := P, bufs := (bufs s)(a \<mapsto> default_buffer)\<rparr>)"
    and a: "a \<notin> dom (bufs s)"
    by (rule pop_buffer_ok [OF assms(1,2)])
  have "x \<noteq> a" using a assms(4) by blast
  from assms(3) show ?thesis
    by (rule read_data_cases) (use \<open>x \<noteq> a\<close> in \<open>auto simp: pop dest!: push_buffer_frame\<close>)
qed

section \<open>A sample connection\<close>

text \<open>
  Five slots, two of them idle.  Three received buffers: a length cut after three bytes, the rest of
  a packet of two bytes with the beginning of the next, and a length of zero.
\<close>

definition rx_buf :: "byte list \<Rightarrow> buffer" where
  "rx_buf bs = \<lparr>buff = bs, read_index = 0, write_index = length bs\<rparr>"

definition rx_store :: store where
  "rx_store =
     \<lparr>bpool = \<lparr>block_list = [\<lparr>key = 100, objs = [124, 132], blk_begin = 100, blk_end = 132\<rparr>],
        block_size = 5, elem_size = 8\<rparr>,
      bufs = [100 \<mapsto> rx_buf [0, 0, 0], 108 \<mapsto> rx_buf [2, 7, 8, 0, 0], 116 \<mapsto> rx_buf [0, 0, 0, 0]]\<rparr>"

definition rx_client :: "nat list \<Rightarrow> client" where
  "rx_client as = new_client\<lparr>fd := 5, fd_key := 9, message_callback := Some 0, read_flag := 2,
     recv_list := as\<rparr>"

lemma rx_store_ok: "store_ok rx_store"
proof -
  have "live (bpool rx_store) = {100, 108, 116}"
    by (auto simp: live_def all_slots_def block_slots_def idle_def idle_list_def rx_store_def
        slot_list_def upt_rec)
  moreover have "pool_ok (bpool rx_store)"
    by (simp add: pool_ok_def blocks_ok_def block_ok_def rx_store_def slot_list_def upt_rec)
  ultimately show ?thesis
    by (auto simp: store_ok_def rx_store_def ran_def buffer_ok_def rx_buf_def vec_max_def
        split: if_splits)
qed

lemma rx_client_ok: "set as \<subseteq> {100, 108, 116} \<Longrightarrow> distinct as \<Longrightarrow> client_ok (rx_client as) rx_store"
  using rx_store_ok by (auto simp: client_ok_def owned_def cur_list_def rx_client_def new_client_def)
    (auto simp: rx_store_def)

lemma rx_malloc: "malloc_ok 200 (bpool rx_store)"
  by (simp add: malloc_ok_def apart_def rx_store_def)

lemma rx_pend:
  "pend (rx_client [100, 108]) rx_store = [0, 0, 0, 2, 7, 8, 0, 0]"
  "pend (rx_client [116]) rx_store = [0, 0, 0, 0]"
  "message_callback (rx_client as) = Some 0" "fd_key (rx_client as) = 9" "closed (rx_client as) = False"
  by (simp_all add: pend_def cur_list_def rx_client_def new_client_def view_def rx_store_def rx_buf_def
      contents_def)

lemma rx_parse:
  "parse_packet [0, 0, 0, 2, 7, 8, 0, 0] = Packet [0, 0, 0, 2, 7, 8] [0, 0]"
  "parse_packet [0, 0, 0, 0] = Bad_Length"
  by code_simp+

section \<open>One call of the handler\<close>

lemma finish_update_bits:
  "is_update (set_update (finish_update c)) \<and> \<not> is_update (finish_update c)"
  "can_close (force_close c) \<longleftrightarrow> \<not> closed c" "can_close (finish_update c) \<longleftrightarrow> can_close c"
  "can_close (set_update c) \<longleftrightarrow> can_close c" "\<not> can_read (close_read c)"
  "is_update (force_close c) \<longleftrightarrow> is_update c"
  by (auto simp: is_update_iff can_close_iff can_read_iff flag_bits)

lemma flag_frame:
  "is_update (c\<lparr>cur_unpack := u\<rparr>) = is_update c" "can_close (c\<lparr>cur_unpack := u\<rparr>) = can_close c"
  "is_update (c\<lparr>front_unpack := u\<rparr>) = is_update c" "can_close (c\<lparr>front_unpack := u\<rparr>) = can_close c"
  "is_update (c\<lparr>unpack_list := us\<rparr>) = is_update c" "can_close (c\<lparr>unpack_list := us\<rparr>) = can_close c"
  "is_update (c\<lparr>recv_list := us\<rparr>) = is_update c" "can_close (c\<lparr>recv_list := us\<rparr>) = can_close c"
  "can_close (c\<lparr>close_flag := x\<rparr>) = can_close c" "is_update (c\<lparr>close_flag := x\<rparr>) = is_update c"
  "closed (finish_update c) = closed c" "fd_key (finish_update c) = fd_key c"
  by (simp_all add: is_update_def can_close_def finish_update_def)

lemma force_close_frame:
  "can_read (force_close c) = can_read c" "lists (force_close c) = lists c"
  "lists (close_read c) = lists c" "closed (close_read c) = closed c"
  by (simp_all add: can_read_def force_close_def close_read_def lists_def)

lemma can_close_force: "can_close (force_close c) \<or> closed c"
  by (auto simp: can_close_iff flag_bits)

lemmas flag_simps = flag_frame force_close_frame finish_update_bits

text \<open>
  C7: \<open>do_handle_unpack\<close>, on received data cut into buffers anywhere, does what the parser does on
  the concatenated bytes.  Without a whole packet nothing is delivered or lost and the update mark
  is withdrawn; a closing connection is then released for removal.  With one, the callback gets
  exactly one buffer, the connection key followed by the packet, the rest stays and the mark is set
  again.  A length that is not positive stops reading and asks for removal; the current buffer stays
  held and the front pointer dangles.  No other buffer of the pool is touched.
\<close>

theorem do_handle_unpack_refines:
  assumes "client_ok c s" and "cur_unpack c = None \<Longrightarrow> malloc_ok m (bpool s)"
    and "message_callback c = Some k"
  shows "\<exists>out c' s'. do_handle_unpack m c s = Inr (out, c', s') \<and> same_outside (set (owned c)) s s' \<and>
    (case parse_packet (pend c s) of
       Need_More \<Rightarrow> out = [] \<and> client_ok c' s' \<and> pend c' s' = pend c s \<and> \<not> is_update c' \<and>
         (can_close c' \<longleftrightarrow> can_close c \<or> (\<not> closed c \<and> ready_close c))
     | Packet p rest \<Rightarrow> (\<exists>b. out = [(k, b)] \<and> contents b = be_bytes (fd_key c) @ p) \<and>
         client_ok c' s' \<and> pend c' s' = rest \<and> is_update c' \<and> (can_close c' \<longleftrightarrow> can_close c)
     | Bad_Length \<Rightarrow> out = [] \<and> lists c' = [] \<and> dangling c' s' \<and> \<not> can_read c' \<and>
         (can_close c' \<longleftrightarrow> \<not> closed c))"
proof -
  let ?c = "(finish_update c)\<lparr>unpack_list := unpack_list c @ recv_list c, recv_list := []\<rparr>"
  obtain out c' s' where r: "do_handle_unpack m c s = Inr (out, c', s')"
      "unpack_result k ?c s out c' s'" "same_outside (set (owned c)) s s'"
    using do_handle_unpack_ok [OF assms] by blast
  have p: "pend ?c s = pend c s" and key: "fd_key ?c = fd_key c" and cl: "ready_close ?c = ready_close c"
    by (simp_all add: pend_def cur_list_def finish_update_def ready_close_def)
  note res = r(2) [unfolded unpack_result_def p key cl]
  have set: "set_update (c\<lparr>cur_unpack := u, front_unpack := f, unpack_list := us\<rparr>) =
      (set_update c)\<lparr>cur_unpack := u, front_unpack := f, unpack_list := us\<rparr>"
    "set_update (c\<lparr>recv_list := us\<rparr>) = (set_update c)\<lparr>recv_list := us\<rparr>" for c u f us
    by (simp_all add: set_update_def)
  have "can_close c \<Longrightarrow> \<not> closed c" by (simp add: can_close_def)
  show ?thesis
  proof (cases "parse_packet (pend c s)")
    case Need_More
    then obtain u where "out = []" "client_ok c' s'" "pend c' s' = pend c s"
      "c' = (let d = (finish_update c)\<lparr>recv_list := [], cur_unpack := u, front_unpack := None,
               unpack_list := []\<rparr> in if ready_close c then force_close d else d)"
      using res by (auto simp: Let_def)
    with Need_More r(1,3) \<open>can_close c \<Longrightarrow> \<not> closed c\<close> show ?thesis
      by (cases "ready_close c") (auto simp: Let_def flag_simps)
  next
    case Bad_Length
    then show ?thesis using res r(1,3) by (auto simp: flag_simps) (simp add: lists_def)
  next
    case (Packet q rest)
    then show ?thesis using res r(1,3) by (auto simp: flag_simps set)
  qed
qed

theorem do_handle_unpack_refines_witness:
  "\<exists>b c' s'. do_handle_unpack 200 (rx_client [100, 108]) rx_store = Inr ([(0, b)], c', s')
    \<and> contents b = [0, 0, 0, 0, 0, 0, 0, 9, 0, 0, 0, 2, 7, 8] \<and> pend c' s' = [0, 0] \<and> is_update c'"
proof -
  have "be_bytes (9 :: 64 word) = [0, 0, 0, 0, 0, 0, 0, 9]" by code_simp
  then show ?thesis
    using do_handle_unpack_refines [of "rx_client [100, 108]" rx_store 200 0]
      rx_client_ok [of "[100, 108]"] rx_malloc by (auto simp: rx_pend rx_parse)
qed

section \<open>What a bad length leaves behind\<close>

lemma dangling_faults:
  assumes "dangling c s" and "unpack_list c @ recv_list c \<noteq> []"
  shows "do_handle_unpack m c s = Inl Use_After_Free"
proof -
  obtain a f b where c: "cur_unpack c = Some a" "bufs s a = Some b" "front_unpack c = Some f"
      "bufs s f = None"
    using assms(1) by (auto simp: dangling_def)
  let ?c = "(finish_update c)\<lparr>unpack_list := unpack_list c @ recv_list c, recv_list := []\<rparr>"
  have "do_handle_unpack m c s = unpack_loop m ?c s"
    using assms(2) by (auto simp: do_handle_unpack_def Let_def finish_update_def)
  also have "unpack_step m ?c s = Inl Use_After_Free"
    using c by (simp add: unpack_step_def ensure_cur_def ensure_front_def get_buf_def finish_update_def)
  then have "unpack_loop m ?c s = Inl Use_After_Free"
    using assms(2) by (subst unpack_loop.simps) auto
  finally show ?thesis .
qed

text \<open>
  C32: After a length that is not positive, \<open>clear\<close> has given the front buffer back but
  \<open>front_unpcak_\<close> still points to it.  Data that the event loop queues before the connection is
  removed makes the next call of the handler use the buffer after it was freed.
\<close>

theorem bad_length_then_data:
  assumes "client_ok c s" and "cur_unpack c = None \<Longrightarrow> malloc_ok m (bpool s)"
    and "message_callback c = Some k" and "parse_packet (pend c s) = Bad_Length"
    and "do_handle_unpack m c s = Inr (out, c1, s1)"
    and "malloc_ok m2 (bpool s1)" and "read_data m2 rs c1 s1 = Inr (ret, c2, s2)"
    and "recv_list c2 \<noteq> []" and "front_unpack c1 = Some f" and "f \<notin> dom (bufs s2)"
  shows "do_handle_unpack m3 c2 s2 = Inl Use_After_Free"
proof -
  have d: "dangling c1 s1" "store_ok s1"
    using do_handle_unpack_ok [OF assms(1-3)] assms(4,5)
    by (auto simp: unpack_result_def pend_def cur_list_def finish_update_def)
  have keep: "cur_unpack c2 = cur_unpack c1" "front_unpack c2 = front_unpack c1"
    using read_data_frame [OF assms(7)] by auto
  have "x \<in> dom (bufs s1) \<Longrightarrow> x \<in> dom (bufs s2)" for x
    using read_data_others [OF d(2) assms(6,7)] by (simp add: domIff)
  then have "dangling c2 s2"
    using d(1) keep assms(9,10) by (auto simp: dangling_def)
  then show ?thesis using assms(8) by (intro dangling_faults) simp_all
qed

definition rx_cut_client :: client where
  "rx_cut_client = (rx_client [116])\<lparr>cur_unpack := Some 108\<rparr>"

definition rx_cut_store :: store where
  "rx_cut_store = rx_store\<lparr>bufs := (bufs rx_store)(108 \<mapsto>
     \<lparr>buff = [0, 0, 0, 0, 0, 0, 0, 9, 0, 0, 0], read_index = 8, write_index = 11\<rparr>)\<rparr>"

lemma rx_cut_ok: "client_ok rx_cut_client rx_cut_store"
proof -
  have "store_ok rx_cut_store"
    using upd_buf_ok(2) [OF rx_store_ok, of 108 "rx_buf [2, 7, 8, 0, 0]"
        "\<lambda>_. Inr \<lparr>buff = [0, 0, 0, 0, 0, 0, 0, 9, 0, 0, 0], read_index = 8, write_index = 11\<rparr>"]
    by (simp add: rx_cut_store_def rx_store_def buffer_ok_def vec_max_def)
  moreover have "be_bytes (9 :: 64 word) = [0, 0, 0, 0, 0, 0, 0, 9]" by code_simp
  ultimately show ?thesis
    by (auto simp: client_ok_def owned_def cur_list_def rx_cut_client_def rx_client_def new_client_def
        rx_cut_store_def rx_store_def head_ok_def contents_def parse_packet_def)
qed

lemma rx_cut_pend: "pend rx_cut_client rx_cut_store = [0, 0, 0, 0, 0, 0, 0]"
  by (simp add: pend_def cur_list_def rx_cut_client_def rx_client_def new_client_def view_def
      rx_cut_store_def rx_store_def rx_buf_def contents_def)

definition rx_bad_store :: store where
  "rx_bad_store =
     \<lparr>bpool = \<lparr>block_list = [\<lparr>key = 100, objs = [124, 132, 116], blk_begin = 100, blk_end = 132\<rparr>],
        block_size = 5, elem_size = 8\<rparr>,
      bufs = [100 \<mapsto> rx_buf [0, 0, 0],
        108 \<mapsto> \<lparr>buff = [0, 0, 0, 0, 0, 0, 0, 9, 0, 0, 0, 0], read_index = 8, write_index = 12\<rparr>]\<rparr>"

lemma rx_cut_run:
  "do_handle_unpack m rx_cut_client rx_cut_store =
    Inr ([], force_close (close_read (finish_update (rx_cut_client\<lparr>recv_list := [],
       front_unpack := Some 116\<rparr>))), rx_bad_store)"
proof -
  have zero: "peekInt32 \<lparr>buff = [0, 0, 0, 0, 0, 0, 0, 9, 0, 0, 0, 0], read_index = 8,
      write_index = 12\<rparr> = Inr 0"
    by code_simp
  note run = unpack_step_def ensure_cur_def ensure_front_def rx_cut_store_def rx_store_def
    readableBytes_def size_arith rx_buf_def move_bytes_def append_from_def upd_buf_def get_buf_def
    mem_read_def append_bytes_def ensureWriteable_def writeableBytes_def vec_resize_def vec_max_def
    mem_write_def set_read_index_def unpack_body_def
    clear_def push_buffer_def pool_push_def valid_addr_def
  have "unpack_step m (finish_update (rx_cut_client\<lparr>unpack_list := [116], recv_list := []\<rparr>)) rx_cut_store
      = Inr (Bad_Len, force_close (close_read (finish_update (rx_cut_client\<lparr>recv_list := [],
       front_unpack := Some 116\<rparr>))), rx_bad_store)"
    by (simp add: run rx_cut_client_def rx_client_def new_client_def finish_update_def zero
        force_close_def close_read_def rx_bad_store_def fun_upd_twist)
  moreover have "do_handle_unpack m rx_cut_client rx_cut_store =
      unpack_loop m (finish_update (rx_cut_client\<lparr>unpack_list := [116], recv_list := []\<rparr>)) rx_cut_store"
    by (simp add: do_handle_unpack_def rx_cut_client_def rx_client_def new_client_def finish_update_def)
  ultimately show ?thesis
    by (subst (asm) unpack_loop.simps) (simp add: finish_update_def)
qed

theorem bad_length_then_data_witness:
  "\<exists>c2 s2. read_data 200 [Read_Bytes [1]]
       (force_close (close_read (finish_update (rx_cut_client\<lparr>recv_list := [], front_unpack := Some 116\<rparr>))))
       rx_bad_store = Inr (0, c2, s2) \<and> recv_list c2 = [124]
     \<and> do_handle_unpack 200 c2 s2 = Inl Use_After_Free"
proof -
  let ?c1 = "force_close (close_read (finish_update (rx_cut_client\<lparr>recv_list := [], front_unpack := Some 116\<rparr>)))"
  have k: "message_callback rx_cut_client = Some 0" "cur_unpack rx_cut_client \<noteq> None"
    by (simp_all add: rx_cut_client_def rx_client_def)
  have bad: "parse_packet (pend rx_cut_client rx_cut_store) = Bad_Length"
    unfolding rx_cut_pend by code_simp
  have sok: "store_ok rx_bad_store"
    using do_handle_unpack_ok [OF rx_cut_ok _ k(1), of 200] k(2) bad
    by (auto simp: rx_cut_run unpack_result_def pend_def cur_list_def finish_update_def)
  have m: "malloc_ok 200 (bpool rx_bad_store)"
    by (simp add: malloc_ok_def apart_def rx_bad_store_def)
  have env: "reads_ok [Read_Bytes [1]]"
    by (intro reads_ok_small) (simp_all add: vec_max_def)
  have pop: "pop_buffer 200 rx_bad_store = Inr (a, t) \<Longrightarrow> a = 124" for a t
    by (auto simp: pop_buffer_def pool_pop_def rx_bad_store_def)
  let ?rs = "[Read_Bytes [1]]"
  obtain a t c2 s2 where p: "pop_buffer 200 rx_bad_store = Inr (a, t)"
    and r: "read_data 200 ?rs ?c1 rx_bad_store = Inr (if stream_end ?rs = End_EAGAIN then 0 else -1, c2, s2)"
    and d: "kept_bytes ?rs = [] \<and> c2 = read_outcome ?rs ?c1 \<or>
     kept_bytes ?rs \<noteq> [] \<and> c2 = (read_outcome ?rs ?c1)\<lparr>recv_list := recv_list ?c1 @ [a]\<rparr> \<and>
       (\<exists>b. bufs s2 = (bufs rx_bad_store)(a \<mapsto> b) \<and> contents b = kept_bytes ?rs)"
    by (rule read_data_run [OF sok m env, of ?c1])
  have c1: "recv_list ?c1 = []"
    by (simp add: force_close_def close_read_def finish_update_def)
  have run: "read_data 200 ?rs ?c1 rx_bad_store = Inr (0, c2, s2)"
    using r by simp
  have "recv_list c2 = [124]" "\<exists>b. bufs s2 = (bufs rx_bad_store)(124 \<mapsto> b)"
    using d unfolding c1 pop [OF p] by (auto simp: kept_bytes_def)
  then have run: "read_data 200 ?rs ?c1 rx_bad_store = Inr (0, c2, s2)"
    "recv_list c2 = [124]" "116 \<notin> dom (bufs s2)"
    using r by (auto simp: rx_bad_store_def)
  have "front_unpack ?c1 = Some 116"
    by (simp add: force_close_def close_read_def finish_update_def)
  then have "do_handle_unpack 200 c2 s2 = Inl Use_After_Free"
    using bad_length_then_data [OF rx_cut_ok _ k(1) bad rx_cut_run m run(1), of 200 116 200] k(2) run
    by auto
  with run show ?thesis by blast
qed

section \<open>One call of \<open>read_data\<close>\<close>

text \<open>
  \<open>read_data\<close> drains the socket: every byte read until the socket is empty or closed is
  appended, in order, to what the connection has pending, and no other buffer changes.  At the end
  of the stream writing is given up and the call reports \<open>-1\<close>; so it does on an error, where the
  bytes read by the same call are lost.  The update mark is set when there is something to handle.
\<close>

theorem read_data_appends:
  assumes "client_ok c s" and "malloc_ok m (bpool s)" and "reads_ok rs"
  shows "\<exists>c' s'. read_data m rs c s = Inr (if stream_end rs = End_EAGAIN then 0 else -1, c', s')
    \<and> client_ok c' s' \<and> same_outside {} s s'
    \<and> pend c' s' = pend c s @ (if stream_end rs = End_Error then [] else stream_bytes rs)
    \<and> (can_write c' \<longleftrightarrow> can_write c \<and> stream_end rs = End_EAGAIN)
    \<and> (bit (read_flag c') 1 \<longleftrightarrow> bit (read_flag c) 1 \<or> stream_end rs \<noteq> End_EAGAIN \<or> stream_bytes rs \<noteq> [])"
proof -
  obtain c' s' as where r: "read_data m rs c s = Inr (if stream_end rs = End_EAGAIN then 0 else -1, c', s')"
      "client_ok c' s'" "pend c' s' = pend c s @ kept_bytes rs" "same_outside {} s s'"
      "c' = (read_outcome rs c)\<lparr>recv_list := recv_list c @ as\<rparr>"
    using read_data_ok [OF assms] by metis
  have "can_write c' \<longleftrightarrow> can_write c \<and> stream_end rs = End_EAGAIN"
    by (auto simp: r(5) read_outcome_def Let_def can_write_iff flag_bits)
  moreover have "bit (read_flag c') 1 \<longleftrightarrow>
      bit (read_flag c) 1 \<or> stream_end rs \<noteq> End_EAGAIN \<or> stream_bytes rs \<noteq> []"
    by (auto simp: r(5) read_outcome_def Let_def kept_bytes_def flag_bits)
  ultimately show ?thesis using r(1-4) by (auto simp: kept_bytes_def)
qed

theorem read_data_appends_witness:
  "\<exists>c' s'. read_data 200 [Read_Bytes [1], Read_EINTR, Read_Bytes [2, 3], Read_Bytes []]
      (rx_client [100]) rx_store = Inr (-1, c', s') \<and> pend c' s' = [0, 0, 0, 1, 2, 3] \<and> \<not> can_write c'"
proof -
  have "pend (rx_client [100]) rx_store = [0, 0, 0]"
    by (simp add: pend_def cur_list_def rx_client_def new_client_def view_def rx_store_def rx_buf_def
      contents_def)
  moreover have "reads_ok [Read_Bytes [1], Read_EINTR, Read_Bytes [2, 3], Read_Bytes []]"
    by (intro reads_ok_small) (auto simp: vec_max_def)
  ultimately show ?thesis
    using read_data_appends [of "rx_client [100]" rx_store 200
        "[Read_Bytes [1], Read_EINTR, Read_Bytes [2, 3], Read_Bytes []]"]
      rx_client_ok [of "[100]"] rx_malloc by auto
qed

end
