(* ===== verification/Client_Stream.thy ===== *)
theory Client_Stream
  imports Client_Receive
begin

text \<open>
  The receiving half over time: any interleaving of \<open>read_data\<close> by the event loop and of the
  unpack handler by the packer threads cuts the byte stream of the peer into its packets; and what
  the destructor gives back.
\<close>

section \<open>Runs\<close>

text \<open>
  \<open>rx_run c s rss ps c' s'\<close>: the steps lead from \<open>(c, s)\<close> to \<open>(c', s')\<close>, the calls of \<open>read_data\<close>
  got \<open>rss\<close> from the socket, whatever way each of them ended, the callback saw buffers with the contents
  \<open>ps\<close>.  \<open>handle_event\<close> reads only while no direction is closed.  The unpack handler can run in one go or
  in parts, its critical section and the rounds of its loop, with reading in between.  Anybody may change
  the store and the connection as long as the receiving half is left alone and nothing is reopened.
\<close>

definition plain_flags :: "client \<Rightarrow> bool" where
  "plain_flags c \<longleftrightarrow> close_flag c \<in> {0, 1, 2, 3}"

lemma plain_flags_close: "plain_flags c \<Longrightarrow> plain_flags (close_write c) \<and> ready_close (close_write c)"
  by (auto simp: plain_flags_def ready_close_def close_write_def FLAG_NOWRITE_def)

text \<open>What the receiving half relies on; the flag word of the closed directions has two bits.\<close>

definition rx_untouched :: "client \<Rightarrow> store \<Rightarrow> client \<Rightarrow> store \<Rightarrow> bool" where
  "rx_untouched c s c1 s1 \<longleftrightarrow>
     client_ok c1 s1 \<and> cur_unpack c1 = cur_unpack c \<and> unpack_list c1 = unpack_list c \<and> recv_list c1 = recv_list c \<and>
     fd_key c1 = fd_key c \<and> message_callback c1 = message_callback c \<and> (can_read c1 \<longrightarrow> can_read c) \<and>
     (plain_flags c \<longrightarrow> plain_flags c1 \<and> (ready_close c \<longrightarrow> ready_close c1)) \<and>
     (\<forall>a \<in> set (cur_list c @ unpack_list c @ recv_list c). bufs s1 a = bufs s a)"

definition take_received :: "client \<Rightarrow> client" where
  "take_received c = (finish_update c)\<lparr>unpack_list := unpack_list c @ recv_list c, recv_list := []\<rparr>"

fun messages :: "verdict \<Rightarrow> byte list list" where
  "messages (Delivered (k, b)) = [contents b]"
| "messages v = []"

inductive rx_run :: "client \<Rightarrow> store \<Rightarrow> read_result list list \<Rightarrow> byte list list \<Rightarrow> client \<Rightarrow> store \<Rightarrow> bool" where
  rx_done: "rx_run c s [] [] c s"
| rx_read: "malloc_ok m (bpool s) \<Longrightarrow> reads_ok rs \<Longrightarrow> \<not> ready_close c \<Longrightarrow>
    read_data m rs c s = Inr (r, c1, s1) \<Longrightarrow> rx_run c1 s1 rss ps c' s' \<Longrightarrow>
    rx_run c s (rs # rss) ps c' s'"
| rx_unpack: "malloc_ok m (bpool s) \<Longrightarrow> handle_unpack m c s = Inr (out, c1, s1) \<Longrightarrow>
    rx_run c1 s1 rss ps c' s' \<Longrightarrow> rx_run c s rss (map (contents \<circ> snd) out @ ps) c' s'"
| rx_take: "rx_run (take_received c) s rss ps c' s' \<Longrightarrow> rx_run c s rss ps c' s'"
| rx_round: "malloc_ok m (bpool s) \<Longrightarrow> unpack_list c \<noteq> [] \<Longrightarrow> unpack_step m c s = Inr (v, c1, s1) \<Longrightarrow>
    rx_run c1 s1 rss ps c' s' \<Longrightarrow> rx_run c s rss (messages v @ ps) c' s'"
| rx_others: "rx_untouched c s c1 s1 \<Longrightarrow> rx_run c1 s1 rss ps c' s' \<Longrightarrow> rx_run c s rss ps c' s'"

lemma rx_untouched_pend:
  assumes "rx_untouched c s c1 s1"
  shows "pend c1 s1 = pend c s"
proof -
  have "cur_list c1 @ unpack_list c1 @ recv_list c1 = cur_list c @ unpack_list c @ recv_list c"
    using assms by (simp add: rx_untouched_def cur_list_def)
  moreover have "map (view s1) (cur_list c @ unpack_list c @ recv_list c) = map (view s) (cur_list c @ unpack_list c @ recv_list c)"
    using assms by (intro map_cong refl) (auto simp: rx_untouched_def view_def)
  ultimately show ?thesis by (simp only: pend_def)
qed

section \<open>Reading stays forbidden\<close>

lemma clear_frame:
  "clear c s = Inr (c', s') \<Longrightarrow> close_flag c' = close_flag c \<and> closed c' = closed c"
  by (auto simp: clear_def bind_res_eq_Inr)

lemma absorb_front_close_flag: "absorb_front a f c s = Inr (c', s') \<Longrightarrow> close_flag c' = close_flag c"
  by (auto simp: absorb_front_def bind_res_eq_Inr)

lemma ensure_cur_close_flag: "ensure_cur m c s = Inr (a, c', s') \<Longrightarrow> close_flag c' = close_flag c"
  by (auto simp: ensure_cur_def bind_res_eq_Inr split: option.splits)

lemma unpack_body_can_read:
  assumes "unpack_body len a f c s = Inr (v, c', s')" and "\<not> can_read c"
  shows "\<not> can_read c'"
proof (cases "len \<le> 0")
  case True
  then show ?thesis
    using assms by (auto simp: unpack_body_def bind_res_eq_Inr flag_simps)
next
  case False
  then have "close_flag c' = close_flag c"
    using assms(1)
    by (auto simp: unpack_body_def Let_def set_update_def absorb_front_close_flag
        elim!: bind_resE split: if_split_asm prod.split_asm)
  with assms(2) show ?thesis by (simp add: can_read_def)
qed

lemma unpack_step_can_read:
  assumes "unpack_step m c s = Inr (v, c', s')" and "\<not> can_read c"
  shows "\<not> can_read c'"
proof -
  obtain a c1 s1 where c1: "ensure_cur m c s = Inr (a, c1, s1)"
    using assms(1) by (auto simp: unpack_step_def bind_res_eq_Inr)
  obtain f c2 where c2: "ensure_front c1 = (f, c2)"
    by (cases "ensure_front c1")
  have "close_flag c2 = close_flag c"
    using ensure_cur_close_flag [OF c1] c2 by (auto simp: ensure_front_def Let_def)
  then have no: "\<not> can_read c2"
    using assms(2) by (simp add: can_read_def)
  consider len s2 where "unpack_body len a f c2 s2 = Inr (v, c', s')"
    | s2 where "absorb_front a f c2 s2 = Inr (c', s')"
    using assms(1) c1 c2
    by (auto simp: unpack_step_def bind_res_eq_Inr Let_def split: if_splits)
  then show ?thesis
    using no unpack_body_can_read absorb_front_close_flag by cases (auto simp: can_read_def)
qed

lemma unpack_loop_can_read:
  assumes "unpack_loop m c s = Inr (out, c', s')" and "\<not> can_read c"
  shows "\<not> can_read c'"
  using assms
proof (induction m c s arbitrary: out c' s' rule: unpack_loop.induct)
  case (1 m c s)
  show ?case
  proof (cases "unpack_list c = []")
    case True
    with "1.prems" show ?thesis
      by (auto simp: unpack_loop.simps [of m c s] force_close_frame split: if_splits)
  next
    case False
    then obtain v c1 s1 where st: "unpack_step m c s = Inr (v, c1, s1)"
      using "1.prems"(1) by (auto simp: unpack_loop.simps [of m c s] bind_res_eq_Inr)
    then have "\<not> can_read c1"
      using unpack_step_can_read "1.prems"(2) by blast
    with False st "1.prems"(1) "1.IH" [OF False] show ?thesis
      by (cases v) (auto simp: unpack_loop.simps [of m c s])
  qed
qed

lemma handle_unpack_can_read:
  assumes "handle_unpack m c s = Inr (out, c', s')" and "\<not> can_read c"
  shows "\<not> can_read c'"
proof -
  have "\<not> can_read ((finish_update c)\<lparr>unpack_list := us, recv_list := []\<rparr>)" for us
    using assms(2) by (simp add: can_read_def finish_update_def)
  moreover have "\<not> can_read (finish_update c)"
    using assms(2) by (simp add: can_read_def finish_update_def)
  ultimately show ?thesis
    using assms unpack_loop_can_read
    by (auto simp: handle_unpack_def do_handle_unpack_def Let_def force_close_frame split: if_splits)
qed

lemma read_data_can_read:
  assumes "read_data m rs c s = Inr (r, c', s')" and "\<not> can_read c"
  shows "\<not> can_read c'"
  using read_data_frame [OF assms(1)] assms(2) by (auto simp: can_read_iff)

lemma rx_run_can_read: "rx_run c s rss ps c' s' \<Longrightarrow> can_read c' \<Longrightarrow> can_read c"
  by (induction rule: rx_run.induct)
    (auto dest: read_data_can_read handle_unpack_can_read unpack_step_can_read
      simp: rx_untouched_def take_received_def can_read_def finish_update_def)

section \<open>Integrity of the stream\<close>

lemma parse_Packet_iff:
  "parse_packet bs = Packet p rest \<longleftrightarrow>
     4 \<le> length bs \<and> 0 < packet_len bs \<and> bs = p @ rest \<and> int (length p) = 4 + packet_len bs"
  (is "_ \<longleftrightarrow> ?R")
proof
  assume "parse_packet bs = Packet p rest"
  then show ?R by (auto simp: parse_packet_def split: if_splits)
next
  assume r: ?R
  have len: "length p = 4 + nat (packet_len bs)" using r by (elim conjE) arith
  have eq: "bs = p @ rest" using r by blast
  have "take (length p) bs = p" "drop (length p) bs = rest" by (simp_all add: eq)
  then have "take (4 + nat (packet_len bs)) bs = p" "drop (4 + nat (packet_len bs)) bs = rest"
    by (simp_all only: len)
  moreover have "4 + packet_len bs \<le> int (length bs)"
    using r by auto
  moreover have "\<not> length bs < 4" "\<not> packet_len bs \<le> 0" using r by linarith+
  ultimately show "parse_packet bs = Packet p rest" by (simp only: parse_packet_def if_False) simp
qed

lemma parse_Packet_self: "parse_packet bs = Packet p rest \<Longrightarrow> parse_packet p = Packet p []"
proof -
  assume "parse_packet bs = Packet p rest"
  then have p: "0 < packet_len bs" "bs = p @ rest" "int (length p) = 4 + packet_len bs"
    unfolding parse_Packet_iff by blast+
  then have "4 \<le> length p" by linarith
  then have "packet_len bs = packet_len p" using p(2) by simp
  with p(1,3) \<open>4 \<le> length p\<close> show ?thesis by (simp add: parse_Packet_iff)
qed

text \<open>What the callback must see: the key of the connection and exactly one packet.\<close>

definition good_message :: "64 word \<Rightarrow> byte list \<Rightarrow> bool" where
  "good_message fdk m \<longleftrightarrow> take 8 m = be_bytes fdk \<and> parse_packet (drop 8 m) = Packet (drop 8 m) []"

lemma handle_unpack_stream:
  assumes ok: "client_ok c s" and m: "malloc_ok m (bpool s)" and k: "message_callback c = Some k"
    and run: "handle_unpack m c s = Inr (out, c1, s1)" and r: "can_read c1"
  shows "client_ok c1 s1 \<and> message_callback c1 = Some k \<and> fd_key c1 = fd_key c \<and> close_flag c1 = close_flag c \<and>
    concat (map (drop 8 \<circ> (contents \<circ> snd)) out) @ pend c1 s1 = pend c s \<and>
    (\<forall>x \<in> set out. good_message (fd_key c) (contents (snd x)))"
proof (cases "closed c")
  case True
  then show ?thesis using assms by (simp add: handle_unpack_def)
next
  case False
  let ?c = "(finish_update c)\<lparr>unpack_list := unpack_list c @ recv_list c, recv_list := []\<rparr>"
  have u: "unpack_result k ?c s out c1 s1"
    using do_handle_unpack_ok [OF ok _ k, of m] m run False by (auto simp: handle_unpack_def)
  have p: "pend ?c s = pend c s" and key: "fd_key ?c = fd_key c" and kc: "message_callback ?c = Some k"
    using k by (simp_all add: pend_def cur_list_def finish_update_def)
  have good: "drop 8 msg = q \<and> good_message (fd_key c) msg"
    if "msg = be_bytes (fd_key c) @ q" "parse_packet (pend c s) = Packet q rest" for msg q rest
    using that parse_Packet_self [OF that(2)] by (simp add: good_message_def)
  have cat: "parse_packet (pend c s) = Packet q rest \<Longrightarrow> q @ rest = pend c s" for q rest
    by (auto simp: parse_Packet_iff)
  note res = u [unfolded unpack_result_def p key]
  show ?thesis
  proof (cases "parse_packet (pend c s)")
    case Need_More
    with res obtain u where "out = []" "client_ok c1 s1" "pend c1 s1 = pend c s"
      and c1: "c1 = (let d = ?c\<lparr>cur_unpack := u, front_unpack := None, unpack_list := []\<rparr> in
        if ready_close ?c then force_close d else d)"
      by (simp only: parsed.case Let_def) blast
    moreover have "message_callback c1 = Some k \<and> fd_key c1 = fd_key c \<and> close_flag c1 = close_flag c"
      using kc key unfolding c1 Let_def by (simp add: force_close_def finish_update_def)
    ultimately show ?thesis by simp
  next
    case Bad_Length
    with res r show ?thesis by (auto simp: flag_simps)
  next
    case (Packet q rest)
    with res obtain msg f us where "out = [(k, msg)]" "contents msg = be_bytes (fd_key c) @ q"
      "client_ok c1 s1" "pend c1 s1 = rest"
      "c1 = set_update (?c\<lparr>cur_unpack := None, front_unpack := f, unpack_list := us\<rparr>)"
      by auto
    with Packet kc good cat show ?thesis by (auto simp: set_update_def finish_update_def)
  qed
qed

lemma unpack_step_stream:
  assumes ok: "client_ok c s" and m: "malloc_ok m (bpool s)" and k: "message_callback c = Some k"
    and ne: "unpack_list c \<noteq> []" and run: "unpack_step m c s = Inr (v, c1, s1)" and r: "can_read c1"
  shows "client_ok c1 s1 \<and> message_callback c1 = Some k \<and> fd_key c1 = fd_key c \<and> close_flag c1 = close_flag c \<and>
    concat (map (drop 8) (messages v)) @ pend c1 s1 = pend c s \<and> (\<forall>p \<in> set (messages v). good_message (fd_key c) p)"
proof -
  have round: "round_ok k c s v c1 s1" using unpack_step_ok [OF ok m ne k] run by auto
  show ?thesis
  proof (cases v)
    case Continue
    then have "client_ok c1 s1" "pend c1 s1 = pend c s"
      and c1: "c1 = c\<lparr>cur_unpack := cur_unpack c1, front_unpack := None, unpack_list := tl (unpack_list c)\<rparr>"
      using round by (simp_all add: round_ok_def)
    moreover have "message_callback c1 = Some k" "fd_key c1 = fd_key c" "close_flag c1 = close_flag c"
      using k by (subst c1, simp)+
    ultimately show ?thesis using Continue by simp
  next
    case (Delivered x)
    then obtain b q where x: "x = (k, b)" "client_ok c1 s1" "parse_packet (pend c s) = Packet q (pend c1 s1)"
      "contents b = be_bytes (fd_key c) @ q"
      and c1: "c1 = set_update (c\<lparr>cur_unpack := None, front_unpack := front_unpack c1, unpack_list := unpack_list c1\<rparr>)"
      using round by (cases x) (auto simp: round_ok_def)
    moreover have "message_callback c1 = Some k" "fd_key c1 = fd_key c" "close_flag c1 = close_flag c"
      using k by (subst c1, simp add: set_update_def)+
    moreover have "q @ pend c1 s1 = pend c s" using x(3) by (simp add: parse_Packet_iff)
    ultimately show ?thesis
      using Delivered parse_Packet_self [OF x(3)] by (simp add: good_message_def)
  next
    case Bad_Len
    then have "c1 = force_close (close_read (c\<lparr>cur_unpack := cur_unpack c1, front_unpack := front_unpack c1,
        unpack_list := [], recv_list := [], wait_pack_list := [], wait_write_list := []\<rparr>))"
      using round by (simp add: round_ok_def)
    then have "\<not> can_read c1" by (metis flag_simps)
    with r show ?thesis by blast
  qed
qed

lemma take_received_ok:
  assumes "client_ok c s"
  shows "client_ok (take_received c) s" "pend (take_received c) s = pend c s"
  using assms by (auto simp: take_received_def client_ok_def owned_def cur_list_def pend_def finish_update_def)

lemma rx_run_stream:
  assumes "rx_run c s rss ps c' s'" and "client_ok c s" and "message_callback c = Some k"
    and "can_read c'" and "plain_flags c"
  shows "client_ok c' s' \<and> concat (map (drop 8) ps) @ pend c' s' = pend c s @ kept_stream rss \<and>
    (\<forall>p \<in> set ps. good_message (fd_key c) p) \<and> (ready_close c \<longrightarrow> rss = [] \<and> ready_close c') \<and> last_call_ends rss \<and>
    (rss \<noteq> [] \<and> stream_end (last rss) \<noteq> End_EAGAIN \<longrightarrow> ready_close c')"
  using assms
proof (induction rule: rx_run.induct)
  case (rx_done c s)
  then show ?case by simp
next
  case (rx_read m s rs c r c1 s1 rss ps c' s')
  obtain c2 s2 as where "read_data m rs c s = Inr (if stream_end rs = End_EAGAIN then 0 else -1, c2, s2)"
      "client_ok c2 s2" "pend c2 s2 = pend c s @ kept_bytes rs"
      "c2 = (read_outcome rs c)\<lparr>recv_list := recv_list c @ as\<rparr>"
    using read_data_ok [OF rx_read.prems(1) rx_read.hyps(1,2)] by metis
  moreover from this have eq: "c1 = c2" "s1 = s2" using rx_read.hyps(4) by simp_all
  moreover have "message_callback c1 = Some k" "fd_key c1 = fd_key c"
    using calculation rx_read.prems(2)
    by (simp_all add: read_outcome_def set_update_def close_write_def Let_def)
  moreover have "close_flag c1 = (if stream_end rs = End_EAGAIN then close_flag c else close_flag (close_write c))"
    using calculation(4) eq by (simp add: read_outcome_def set_update_def close_write_def Let_def)
  then have "plain_flags c1 \<and> (stream_end rs \<noteq> End_EAGAIN \<longrightarrow> ready_close c1)"
    using plain_flags_close [OF rx_read.prems(4)] rx_read.prems(4) by (auto simp: plain_flags_def ready_close_def)
  ultimately show ?case
    using rx_read.IH rx_read.prems(3) rx_read.hyps(3) by (auto simp: last_call_ends_Cons)
next
  case (rx_unpack m s c out c1 s1 rss ps c' s')
  have "can_read c1"
    using rx_run_can_read [OF rx_unpack.hyps(3)] rx_unpack.prems(3) .
  then have "client_ok c1 s1 \<and> message_callback c1 = Some k \<and> fd_key c1 = fd_key c \<and> close_flag c1 = close_flag c \<and>
      concat (map (drop 8 \<circ> (contents \<circ> snd)) out) @ pend c1 s1 = pend c s \<and>
      (\<forall>x \<in> set out. good_message (fd_key c) (contents (snd x)))"
    using handle_unpack_stream [OF rx_unpack.prems(1) rx_unpack.hyps(1) rx_unpack.prems(2) rx_unpack.hyps(2)]
    by blast
  moreover from this have flags: "ready_close c1 \<longleftrightarrow> ready_close c" "plain_flags c1"
    using rx_unpack.prems(4) by (simp_all add: ready_close_def plain_flags_def)
  moreover from calculation have "client_ok c' s' \<and> concat (map (drop 8) ps) @ pend c' s' = pend c1 s1 @ kept_stream rss \<and>
      (\<forall>p \<in> set ps. good_message (fd_key c) p) \<and> (ready_close c1 \<longrightarrow> rss = [] \<and> ready_close c') \<and> last_call_ends rss \<and>
      (rss \<noteq> [] \<and> stream_end (last rss) \<noteq> End_EAGAIN \<longrightarrow> ready_close c')"
    using rx_unpack.IH rx_unpack.prems(3) by simp
  ultimately show ?case using flags by (auto simp: image_iff)
next
  case (rx_take c s rss ps c' s')
  have "message_callback (take_received c) = Some k" "fd_key (take_received c) = fd_key c"
    "close_flag (take_received c) = close_flag c"
    using rx_take.prems(2) by (simp_all add: take_received_def finish_update_def)
  then show ?case
    using rx_take.IH rx_take.prems(3,4) take_received_ok [OF rx_take.prems(1)]
    by (simp add: ready_close_def plain_flags_def)
next
  case (rx_round m s c v c1 s1 rss ps c' s')
  have "can_read c1" using rx_run_can_read [OF rx_round.hyps(4) rx_round.prems(3)] .
  then have r: "client_ok c1 s1" "message_callback c1 = Some k" "fd_key c1 = fd_key c" "close_flag c1 = close_flag c"
    "concat (map (drop 8) (messages v)) @ pend c1 s1 = pend c s" "\<forall>p \<in> set (messages v). good_message (fd_key c) p"
    using unpack_step_stream [OF rx_round.prems(1) rx_round.hyps(1) rx_round.prems(2) rx_round.hyps(2,3)] by blast+
  moreover have "ready_close c1 \<longleftrightarrow> ready_close c" "plain_flags c1"
    using r(4) rx_round.prems(4) by (simp_all add: ready_close_def plain_flags_def)
  ultimately show ?case
    using rx_round.IH [OF r(1,2) rx_round.prems(3)] by (auto simp: r(5) [symmetric])
next
  case (rx_others c s c1 s1 rss ps c' s')
  have "client_ok c1 s1" "message_callback c1 = Some k" "fd_key c1 = fd_key c" "ready_close c \<longrightarrow> ready_close c1"
      "plain_flags c1"
    using rx_others.hyps(1) rx_others.prems(2,4) by (simp_all add: rx_untouched_def)
  then show ?case
    using rx_others.IH rx_others.prems(3) rx_untouched_pend [OF rx_others.hyps(1)] by simp
qed

lemma received_stream:
  assumes "rx_run c s rss ps c' s'" and "client_ok c s" and "message_callback c = Some k"
    and "can_read c'" and "plain_flags c"
  shows "client_ok c' s' \<and> concat (map (drop 8) ps) @ pend c' s' @ lost_bytes rss = pend c s @ socket_bytes rss \<and>
    (\<forall>p \<in> set ps. good_message (fd_key c) p) \<and> last_call_ends rss \<and> (lost_bytes rss \<noteq> [] \<longrightarrow> ready_close c')"
  using rx_run_stream [OF assms] kept_and_lost [of rss]
  by (auto simp: lost_bytes_def split: if_splits)

text \<open>
  C6: However the peer's bytes are cut into \<open>read\<close> results, however each call of \<open>read_data\<close> ends, and
  however reading, the unpack handler and what others do to the store interleave, the packets handed to the
  message callback, put end to end, followed by what is still pending and by what a failing call had read, are
  exactly the bytes the socket gave: nothing else is lost, nothing duplicated or reordered.  Only the last
  call can fail or meet the end of the stream; from then on the connection is closing.  Each callback sees
  the key of this connection followed by exactly one well-formed packet.  A call of \<open>read_data\<close> may come
  between any two rounds of the handler's loop.  The statement is about connections that still read in the
  end, that is, that have not met a length that is not positive.
\<close>

theorem rx_stream_integrity:
  assumes "rx_run c s rss ps c' s'" and "client_ok c s" and "message_callback c = Some k"
    and "can_read c'" and "plain_flags c"
  shows "client_ok c' s' \<and> concat (map (drop 8) ps) @ pend c' s' @ lost_bytes rss = pend c s @ socket_bytes rss \<and>
    (\<forall>p \<in> set ps. good_message (fd_key c) p) \<and> (\<forall>rs \<in> set (butlast rss). stream_end rs = End_EAGAIN) \<and>
    (lost_bytes rss \<noteq> [] \<longrightarrow> ready_close c')"
  using received_stream [OF assms] unfolding last_call_ends_def by blast

theorem rx_stream_integrity_witness:
  "\<exists>c' s'. rx_run (rx_client [100, 108]) rx_store [] [[0, 0, 0, 0, 0, 0, 0, 9, 0, 0, 0, 2, 7, 8]] c' s'
     \<and> can_read c' \<and> concat (map (drop 8) [[0, 0, 0, 0, 0, 0, 0, 9, 0, 0, 0, 2, 7, 8]]) @ pend c' s' @ lost_bytes []
         = pend (rx_client [100, 108]) rx_store @ socket_bytes []"
proof -
  have key: "be_bytes (9 :: 64 word) = [0, 0, 0, 0, 0, 0, 0, 9]" by code_simp
  let ?c = "rx_client [100, 108]"
  have ok: "client_ok ?c rx_store" by (rule rx_client_ok) auto
  obtain out c1 s1 where run: "do_handle_unpack 200 ?c rx_store = Inr (out, c1, s1)"
    and r: "unpack_result 0 ((finish_update ?c)\<lparr>unpack_list := unpack_list ?c @ recv_list ?c, recv_list := []\<rparr>)
        rx_store out c1 s1"
    using do_handle_unpack_ok [OF ok, of 200 0] rx_malloc rx_pend(3) by blast
  have p: "pend ((finish_update ?c)\<lparr>unpack_list := unpack_list ?c @ recv_list ?c, recv_list := []\<rparr>) rx_store
      = pend ?c rx_store"
    by (simp add: pend_def cur_list_def finish_update_def)
  have out: "map (contents \<circ> snd) out = [[0, 0, 0, 0, 0, 0, 0, 9, 0, 0, 0, 2, 7, 8]]" "can_read c1"
    using r [unfolded unpack_result_def p rx_pend rx_parse parsed.case]
    by (auto simp: key rx_pend flag_frame can_read_def set_update_def finish_update_def)
      (auto simp: rx_client_def new_client_def)
  have "rx_run ?c rx_store [] (map (contents \<circ> snd) out @ []) c1 s1"
    using run by (intro rx_run.rx_unpack [OF rx_malloc _ rx_run.rx_done])
      (simp add: handle_unpack_def rx_pend)
  then have rx: "rx_run ?c rx_store [] [[0, 0, 0, 0, 0, 0, 0, 9, 0, 0, 0, 2, 7, 8]] c1 s1"
    by (simp add: out)
  have plain: "plain_flags ?c" by (simp add: plain_flags_def rx_client_def new_client_def)
  show ?thesis
    using rx out(2) rx_stream_integrity [OF rx ok rx_pend(3) out(2) plain] by blast
qed

section \<open>Destruction\<close>

lemma destroy_client_ok:
  assumes "client_ok c s"
  shows "\<exists>c' s'. destroy_client c s = Inr (fd c, c', s') \<and> store_ok s' \<and> owned c' = []
    \<and> bufs s' = bufs s |` (- set (lists c)) \<and> set (cur_list c) \<subseteq> live (bpool s')"
proof -
  have sok: "store_ok s" and d: "distinct (owned c)" and sub: "set (owned c) \<subseteq> dom (bufs s)"
    using assms by (auto simp: client_ok_def)
  obtain s' where s': "clear c s = Inr (c\<lparr>unpack_list := [], recv_list := [], wait_pack_list := [],
      wait_write_list := []\<rparr>, s')" "store_ok s'" "bufs s' = bufs s |` (- set (lists c))"
    by (rule clear_ok [OF sok]) (use d sub in \<open>auto simp: owned_lists\<close>)
  have "set (cur_list c) \<subseteq> dom (bufs s')"
    using d sub by (auto simp: owned_lists s'(3))
  then show ?thesis
    using s' by (auto simp: destroy_client_def owned_def cur_list_def store_ok_def)
qed

text \<open>
  Destroying a connection closes its descriptor and gives back every buffer of its four lists,
  and only those; the half-built packet in \<open>cur_unpcak_\<close> is forgotten without being given back, so
  a connection that ends in the middle of a packet costs the pool one buffer.
\<close>

theorem destroy_client_leaks_current:
  assumes "client_ok c s"
  shows "\<exists>c' s'. destroy_client c s = Inr (fd c, c', s') \<and> store_ok s' \<and> owned c' = []
    \<and> bufs s' = bufs s |` (- set (lists c)) \<and> set (cur_list c) \<subseteq> live (bpool s')"
  by (rule destroy_client_ok [OF assms])

theorem destroy_client_leaks_current_witness:
  "\<exists>c' s'. destroy_client rx_cut_client rx_cut_store = Inr (5, c', s') \<and> owned c' = []
    \<and> 108 \<in> live (bpool s') \<and> 116 \<notin> dom (bufs s')"
  using destroy_client_leaks_current [OF rx_cut_ok]
  by (auto simp: rx_cut_client_def rx_client_def cur_list_def lists_def)

end
