(* ===== verification/Client_Send.thy ===== *)
theory Client_Send
  imports Client_Stream
begin

text \<open>
  The sending half of a connection: \<open>push_send_pack\<close> queues copies, \<open>do_write_data\<close> hands the
  queue to \<open>writev\<close> and drops exactly what was accepted.
\<close>

section \<open>The outgoing queue\<close>

text \<open>The bytes accepted for sending and not yet written, in order.\<close>

definition unsent :: "client \<Rightarrow> store \<Rightarrow> byte list" where
  "unsent c s = concat (map (view s) (wait_write_list c @ wait_pack_list c))"

text \<open>Every queued packet fits an \<open>int32_t\<close>.\<close>

definition small_packs :: "client \<Rightarrow> store \<Rightarrow> bool" where
  "small_packs c s \<longleftrightarrow> (\<forall>a \<in> set (wait_write_list c @ wait_pack_list c). length (view s a) < 2 ^ 31)"

lemma client_ok_out:
  assumes ok: "client_ok c s" and s': "store_ok s'"
    and same: "\<forall>x \<in> set (cur_list c @ unpack_list c @ recv_list c). bufs s' x = bufs s x"
    and new: "distinct (ps @ ws)" "set (ps @ ws) \<subseteq> dom (bufs s')"
      "set (ps @ ws) \<inter> set (cur_list c @ unpack_list c @ recv_list c) = {}"
  shows "client_ok (c\<lparr>wait_pack_list := ps, wait_write_list := ws\<rparr>) s'"
    and "pend (c\<lparr>wait_pack_list := ps, wait_write_list := ws\<rparr>) s' = pend c s"
proof -
  let ?c = "c\<lparr>wait_pack_list := ps, wait_write_list := ws\<rparr>"
  have frame: "cur_list ?c = cur_list c" by (simp add: cur_list_def)
  have d: "distinct (cur_list c @ unpack_list c @ recv_list c)"
    and sub: "set (cur_list c @ unpack_list c @ recv_list c) \<subseteq> dom (bufs s)"
    using ok by (auto simp: client_ok_def owned_def)
  have "owned ?c = (cur_list c @ unpack_list c @ recv_list c) @ ps @ ws"
    by (simp add: owned_def cur_list_def)
  then have "distinct (owned ?c)" using d new by (simp only: distinct_append) blast
  moreover have "set (cur_list c @ unpack_list c @ recv_list c) \<subseteq> dom (bufs s')"
    using sub same by (auto simp: domIff)
  then have "set (owned ?c) \<subseteq> dom (bufs s')"
    using new(2) by (auto simp: owned_def frame)
  moreover have "bufs s' a = bufs s a" if "cur_unpack c = Some a" for a
    using same that by (simp add: cur_list_def)
  ultimately show "client_ok ?c s'"
    using ok s' by (auto simp: client_ok_def)
  have "map (view s') (cur_list c @ unpack_list c @ recv_list c)
      = map (view s) (cur_list c @ unpack_list c @ recv_list c)"
    using same by (intro map_cong) (auto simp: view_def)
  moreover have "unpack_list ?c = unpack_list c" "recv_list ?c = recv_list c" by simp_all
  ultimately show "pend ?c s' = pend c s" by (simp only: pend_def frame)
qed

section \<open>Queueing a packet\<close>

lemma push_send_pack_copies:
  assumes sok: "store_ok s" and m: "malloc_ok m (bpool s)" and src: "bufs s src = Some b"
    and opn: "\<not> ready_close c"
  obtains a s' where
    "push_send_pack m src c s = Inr (0, set_write_update (c\<lparr>wait_pack_list := wait_pack_list c @ [a]\<rparr>), s')"
    "store_ok s'" "dom (bufs s') = insert a (dom (bufs s))"
    "a \<notin> dom (bufs s)" "view s' a = contents b" "\<forall>x \<in> dom (bufs s). bufs s' x = bufs s x"
proof -
  obtain a P where pop: "pop_buffer m s = Inr (a, s\<lparr>bpool := P, bufs := (bufs s)(a \<mapsto> default_buffer)\<rparr>)"
    and a: "a \<notin> dom (bufs s)"
    and sok1: "store_ok (s\<lparr>bpool := P, bufs := (bufs s)(a \<mapsto> default_buffer)\<rparr>)"
    by (rule pop_buffer_ok [OF sok m])
  let ?s1 = "s\<lparr>bpool := P, bufs := (bufs s)(a \<mapsto> default_buffer)\<rparr>"
  have ne: "src \<noteq> a" using src a by blast
  have bok: "buffer_ok b" using sok src by (rule store_ok_buffer)
  have fit: "write_index default_buffer + length (contents b) \<le> vec_max"
    using bok length_contents [OF bok] by (simp add: buffer_ok_def) linarith
  obtain b' where app: "append_from a src (length (contents b)) ?s1
        = Inr (?s1\<lparr>bufs := (bufs ?s1)(a \<mapsto> b')\<rparr>)"
      and sok2: "store_ok (?s1\<lparr>bufs := (bufs ?s1)(a \<mapsto> b')\<rparr>)"
      and b': "contents b' = contents default_buffer @ take (length (contents b)) (contents b)"
    by (rule append_from_ok [OF sok1, of src b a default_buffer "length (contents b)"])
      (use src ne fit in auto)
  let ?s2 = "s\<lparr>bpool := P, bufs := (bufs s)(a \<mapsto> b')\<rparr>"
  have run: "push_send_pack m src c s =
      Inr (0, set_write_update (c\<lparr>wait_pack_list := wait_pack_list c @ [a]\<rparr>), ?s2)"
    using opn pop app src ne bok by (simp add: push_send_pack_def readable_eq)
  show thesis
    by (rule that [OF run]) (use sok2 a b' in auto)
qed

lemma push_send_pack_ok:
  assumes ok: "client_ok c s" and m: "malloc_ok m (bpool s)" and src: "bufs s src = Some b"
    and opn: "\<not> ready_close c"
  obtains a s' where
    "push_send_pack m src c s = Inr (0, set_write_update (c\<lparr>wait_pack_list := wait_pack_list c @ [a]\<rparr>), s')"
    "client_ok (c\<lparr>wait_pack_list := wait_pack_list c @ [a]\<rparr>) s'"
    "pend (c\<lparr>wait_pack_list := wait_pack_list c @ [a]\<rparr>) s' = pend c s"
    "a \<notin> dom (bufs s)" "view s' a = contents b" "\<forall>x \<in> dom (bufs s). bufs s' x = bufs s x"
proof -
  have sok: "store_ok s" using ok by (simp add: client_ok_def)
  obtain a s' where run: "push_send_pack m src c s =
        Inr (0, set_write_update (c\<lparr>wait_pack_list := wait_pack_list c @ [a]\<rparr>), s')"
      and s': "store_ok s'" "dom (bufs s') = insert a (dom (bufs s))"
      and a: "a \<notin> dom (bufs s)" "view s' a = contents b" "\<forall>x \<in> dom (bufs s). bufs s' x = bufs s x"
    by (rule push_send_pack_copies [OF sok m src opn])
  have "a \<notin> set (owned c)" using ok a(1) by (auto simp: client_ok_def)
  then have new: "a \<notin> set (cur_list c @ unpack_list c @ recv_list c)"
      "a \<notin> set (wait_pack_list c @ wait_write_list c)"
    by (auto simp: owned_def)
  have d: "distinct (wait_pack_list c @ wait_write_list c)"
      "set (wait_pack_list c @ wait_write_list c) \<subseteq> dom (bufs s)"
      "set (wait_pack_list c @ wait_write_list c) \<inter> set (cur_list c @ unpack_list c @ recv_list c) = {}"
    using ok by (auto simp: client_ok_def owned_def)
  have "set (cur_list c @ unpack_list c @ recv_list c) \<subseteq> dom (bufs s)"
    using ok by (auto simp: client_ok_def owned_def)
  then have same: "\<forall>x \<in> set (cur_list c @ unpack_list c @ recv_list c). bufs s' x = bufs s x"
    using a(3) by blast
  have "client_ok (c\<lparr>wait_pack_list := wait_pack_list c @ [a], wait_write_list := wait_write_list c\<rparr>) s' \<and>
      pend (c\<lparr>wait_pack_list := wait_pack_list c @ [a], wait_write_list := wait_write_list c\<rparr>) s' = pend c s"
    by (intro conjI client_ok_out [OF ok s'(1) same]) (use d new s'(2) in auto)
  then show thesis
    using that [OF run] a by simp
qed

section \<open>Writing\<close>

lemma int32_add: "int32 (int32 x + y) = int32 (x + y)"
  by (metis int32_def signed_take_bit_add signed_take_bit_signed_take_bit min.idem)

lemma iov_vec_ok:
  assumes "store_ok s" and "set as \<subseteq> dom (bufs s)"
  obtains v where "iov_vec as s = Inr v" "iov_bytes v s = Inr (concat (map (view s) as))"
    "\<And>k. fold (\<lambda>d n. int32 (n + int (iov_len d))) v (int32 k) = int32 (k + int (length (concat (map (view s) as))))"
proof -
  have "\<exists>v. iov_vec as s = Inr v \<and> iov_bytes v s = Inr (concat (map (view s) as))
      \<and> (\<forall>k. fold (\<lambda>d n. int32 (n + int (iov_len d))) v (int32 k) = int32 (k + int (length (concat (map (view s) as)))))"
    using assms(2)
  proof (induction as)
    case (Cons a as)
    obtain b where b: "bufs s a = Some b" using Cons.prems by auto
    then have bok: "buffer_ok b" by (rule store_ok_buffer [OF assms(1)])
    obtain v where v: "iov_vec as s = Inr v" "iov_bytes v s = Inr (concat (map (view s) as))"
        "\<And>k. fold (\<lambda>d n. int32 (n + int (iov_len d))) v (int32 k) = int32 (k + int (length (concat (map (view s) as))))"
      using Cons by auto
    have "mem_read (read_index b) (length (contents b)) (buff b) = Inr (contents b)"
      using mem_read_contents [OF bok, of 0 "length (contents b)"] bok by (simp add: buffer_ok_def)
    moreover have "int32 (int32 k + int (readableBytes b)) = int32 (k + int (length (contents b)))" for k
      using bok by (simp add: int32_add readable_eq)
    ultimately show ?case
      using b v bok by (simp add: readable_eq add.assoc)
  qed simp
  then show thesis using that by blast
qed

text \<open>The array points at exactly the bytes that are to be sent, in order.\<close>

lemma begin_write_ok:
  assumes sok: "store_ok s" and sub: "set (wait_write_list c @ wait_pack_list c) \<subseteq> dom (bufs s)"
  obtains v where
    "begin_write c s = Inr (v, (finish_write_update c)\<lparr>wait_write_list := wait_write_list c @ wait_pack_list c, wait_pack_list := []\<rparr>)"
    "iov_bytes v s = Inr (unsent c s)" "total_bytes v = int32 (int (length (unsent c s)))"
proof -
  obtain v where v: "iov_vec (wait_write_list c @ wait_pack_list c) s = Inr v" "iov_bytes v s = Inr (unsent c s)"
      "fold (\<lambda>d n. int32 (n + int (iov_len d))) v (int32 0) = int32 (0 + int (length (unsent c s)))"
    by (rule iov_vec_ok [OF sok sub]) (simp only: unsent_def)
  have "total_bytes v = int32 (int (length (unsent c s)))"
    using v(3) by (simp only: total_bytes_def) (simp add: int32_def)
  then show thesis using that [of v] v(1,2) by (simp add: begin_write_def finish_write_update_def)
qed

lemma view_frame:
  "(\<forall>x \<in> set as. bufs s' x = bufs s x) \<Longrightarrow> concat (map (view s') as) = concat (map (view s) as)"
  by (intro arg_cong [where f = concat] map_cong) (auto simp: view_def)

lemma consume_sent_ok:
  assumes "store_ok s" and "distinct as" and "set as \<subseteq> dom (bufs s)"
    and "\<forall>a \<in> set as. length (view s a) < 2 ^ 31" and "n \<le> length (concat (map (view s) as))"
  shows "\<exists>as' s'. consume_sent (int n) as s = Inr (as', s') \<and> store_ok s' \<and>
    concat (map (view s') as') = drop n (concat (map (view s) as)) \<and>
    (\<exists>sent. as = sent @ as' \<and> dom (bufs s') = dom (bufs s) - set sent) \<and> same_outside (set as) s s' \<and>
    (\<forall>x \<in> set as'. length (view s' x) \<le> length (view s x))"
  using assms
proof (induction as arbitrary: n s)
  case Nil
  then show ?case by simp
next
  case (Cons a as)
  obtain b where b: "bufs s a = Some b" using Cons.prems by auto
  have bok: "buffer_ok b" using Cons.prems(1) b by (rule store_ok_buffer)
  have small: "length (contents b) < 2 ^ 31" using Cons.prems(4) b by simp
  have r: "int32 (int (readableBytes b)) = int (length (contents b))"
    using small bok by (simp add: readable_eq size_arith)
  consider "n = 0" | "0 < n" "length (contents b) \<le> n" | "0 < n" "n < length (contents b)" by linarith
  then show ?case
  proof cases
    case 1
    then show ?thesis using Cons.prems(1) by auto
  next
    case 2
    obtain t where t: "push_buffer a s = Inr t" "store_ok t" "bufs t = (bufs s)(a := None)"
      using push_buffer_ok [OF Cons.prems(1), of a] b by auto
    have same: "\<forall>x \<in> set as. bufs t x = bufs s x" using t(3) Cons.prems(2) by auto
    have v: "concat (map (view t) as) = concat (map (view s) as)"
      using same by (rule view_frame)
    let ?n = "n - length (contents b)"
    have pre: "distinct as" "set as \<subseteq> dom (bufs t)" "\<forall>x \<in> set as. length (view t x) < 2 ^ 31"
      using same Cons.prems b by (auto simp: view_def domIff)
    have le: "?n \<le> length (concat (map (view t) as))"
      using Cons.prems(5) b unfolding v by simp
    obtain as' s' where IH: "consume_sent (int ?n) as t = Inr (as', s')" "store_ok s'"
        "concat (map (view s') as') = drop ?n (concat (map (view s) as))"
        "\<exists>sent. as = sent @ as' \<and> dom (bufs s') = dom (bufs t) - set sent" "same_outside (set as) t s'"
        "\<forall>x \<in> set as'. length (view s' x) \<le> length (view t x)"
      using Cons.IH [OF t(2) pre le] unfolding v by blast
    have "consume_sent (int n) (a # as) s = Inr (as', s')"
      using 2 b t(1) IH(1) by (simp add: r Let_def of_nat_diff)
    moreover obtain sent where "as = sent @ as'" "dom (bufs s') = dom (bufs t) - set sent"
      using IH(4) by blast
    then have "a # as = (a # sent) @ as' \<and> dom (bufs s') = dom (bufs s) - set (a # sent)"
      using t(3) by auto
    then have "\<exists>sent. a # as = sent @ as' \<and> dom (bufs s') = dom (bufs s) - set sent" by blast
    moreover have "same_outside (set (a # as)) s s'"
      using IH(5) t(3) by (auto simp: same_outside_def)
    moreover have "\<forall>x \<in> set as'. length (view s' x) \<le> length (view s x)"
      using IH(6) same \<open>as = sent @ as'\<close> by (simp add: view_def)
    ultimately show ?thesis
      using IH(2,3) 2 b by (intro exI [of _ as'] exI [of _ s']) simp
  next
    case 3
    then have le: "n \<le> length (contents b)" by simp
    have n: "size_of_int (int n) = n" using 3 small by (simp add: size_arith)
    have set: "set_read_index (size_add (read_index b) n) b = Inr (skip n b)"
      using set_read_index_ok [OF bok le] skip_ok(5) [OF bok le] by simp
    let ?t = "s\<lparr>bufs := (bufs s)(a \<mapsto> skip n b)\<rparr>"
    have t: "upd_buf a (\<lambda>b. set_read_index (size_add (read_index b) n) b) s = Inr ?t" "store_ok ?t"
      using upd_buf_ok [OF Cons.prems(1) b, of "\<lambda>b. set_read_index (size_add (read_index b) n) b" "skip n b"]
        set skip_ok(1) [OF bok le] by blast+
    have "concat (map (view ?t) as) = concat (map (view s) as)"
      using Cons.prems(2) by (intro view_frame) auto
    then have "concat (map (view ?t) (a # as)) = drop n (concat (map (view s) (a # as)))"
      using b 3 skip_ok(2) [OF bok le] by simp
    moreover have "consume_sent (int n) (a # as) s = Inr (a # as, ?t)"
      using 3 b t(1) n by (simp add: r Let_def)
    moreover have "a # as = [] @ a # as \<and> dom (bufs ?t) = dom (bufs s) - set []" using b by auto
    moreover have "same_outside (set (a # as)) s ?t" by (auto simp: same_outside_def)
    moreover have "\<forall>x \<in> set (a # as). length (view ?t x) \<le> length (view s x)"
      using b skip_ok(2) [OF bok le] by (auto simp: view_def)
    ultimately show ?thesis using t(2) by blast
  qed
qed

text \<open>The state at the call of \<open>writev\<close>.\<close>

definition spliced :: "client \<Rightarrow> client" where
  "spliced c = (finish_write_update c)\<lparr>wait_pack_list := [],
     wait_write_list := wait_write_list c @ wait_pack_list c\<rparr>"

lemma spliced_ok:
  assumes "client_ok c s"
  shows "client_ok (spliced c) s" "unsent (spliced c) s = unsent c s" "pend (spliced c) s = pend c s"
  using assms
  by (auto simp: spliced_def client_ok_def owned_def cur_list_def unsent_def pend_def
      finish_write_update_def)

text \<open>What \<open>writev\<close> reads through its array are the first of the queued bytes.\<close>

lemma begin_write_spliced:
  assumes "client_ok c s"
  obtains v where "begin_write c s = Inr (v, spliced c)" "iov_vec (wait_write_list c @ wait_pack_list c) s = Inr v"
    "total_bytes v = int32 (int (length (unsent c s)))"
    "\<forall>n \<le> 0x7ffff000. writev (Wrote n) v s = Inr (take n (unsent c s))"
proof -
  have sub: "store_ok s" "set (wait_write_list c @ wait_pack_list c) \<subseteq> dom (bufs s)"
    using assms by (auto simp: client_ok_def owned_def)
  obtain v where v: "begin_write c s = Inr (v, spliced c)" "iov_bytes v s = Inr (unsent c s)"
      "total_bytes v = int32 (int (length (unsent c s)))"
    by (rule begin_write_ok [OF sub]) (simp add: spliced_def finish_write_update_def)
  from v(1) have "iov_vec (wait_write_list c @ wait_pack_list c) s = Inr v"
    by (auto simp: begin_write_def bind_res_eq_Inr finish_write_update_def)
  then show thesis using that [OF v(1)] v(2,3) by (simp add: writev_def check_def)
qed

lemma spliced_idle: "wait_write_list c = [] \<Longrightarrow> wait_pack_list c = [] \<Longrightarrow> spliced c = finish_write_update c"
  by (simp add: spliced_def finish_write_update_def)

lemma do_write_data_queue:
  assumes ok: "client_ok c s" and ne: "wait_write_list c @ wait_pack_list c \<noteq> []"
  shows "do_write_data w c s l =
    (case w of
       Write_EINTR \<Rightarrow> Inr (0, spliced c, s, l)
     | Write_EAGAIN \<Rightarrow> Inr (0, spliced c, s, l)
     | Write_Error \<Rightarrow> Inr (0, set_update (close_write (spliced c)), s, l)
     | Wrote n \<Rightarrow>
         bind_res (check (n \<le> 0x7ffff000) Bad_Environment) (\<lambda>_.
         let (c', l') = (if int n < int32 (int (length (unsent c s))) then watch_write 1 (spliced c) l
                         else (spliced c, l)) in
         bind_res (consume_sent (int n) (wait_write_list c') s) (\<lambda>(as, s).
         let c' = c'\<lparr>wait_write_list := as\<rparr> in
         Inr (0, if ready_close c' then force_close c' else c', s, l'))))"
proof -
  have sub: "set (wait_write_list c @ wait_pack_list c) \<subseteq> dom (bufs s)" and sok: "store_ok s"
    using ok by (auto simp: client_ok_def owned_def)
  obtain v where v: "begin_write c s = Inr (v, spliced c)" "iov_bytes v s = Inr (unsent c s)"
      "total_bytes v = int32 (int (length (unsent c s)))"
    by (rule begin_write_ok [OF sok sub]) (simp add: spliced_def finish_write_update_def)
  have n: "n \<le> 2147479552 \<Longrightarrow> int32 (int n) = int n" for n by (simp add: size_arith)
  have eq: "(finish_write_update c)\<lparr>wait_write_list := wait_write_list c @ wait_pack_list c, wait_pack_list := []\<rparr>
      = spliced c" "wait_write_list (finish_write_update c) = wait_write_list c"
      "wait_pack_list (finish_write_update c) = wait_pack_list c"
      "wait_write_list (spliced c) = wait_write_list c @ wait_pack_list c"
    by (simp_all add: spliced_def finish_write_update_def)
  show ?thesis
    using ne by (cases w) (auto simp: do_write_data_def end_write_def writev_def Let_def eq v n check_def split: if_splits)
qed

lemma watch_write_on:
  "fst (watch_write 1 c l) = c\<lparr>wait_write := wait_write c \<or> handle_flags l (fd c) \<noteq> None\<rparr>"
  by (cases "handle_flags l (fd c)") (simp_all add: watch_write_def Let_def)

lemma do_write_data_ok:
  assumes ok: "client_ok c s" and small: "small_packs c s" and ne: "wait_write_list c @ wait_pack_list c \<noteq> []"
    and n: "n \<le> length (unsent c s)" "n \<le> 0x7ffff000"
  obtains c' s' as where
    "do_write_data (Wrote n) c s l = Inr (0, if ready_close c then force_close c' else c', s',
       if int n < int32 (int (length (unsent c s))) then snd (watch_write 1 c l) else l)"
    "client_ok c' s'" "pend c' s' = pend c s" "unsent c' s' = drop n (unsent c s)"
    "same_outside (set (wait_write_list c @ wait_pack_list c)) s s'"
    "\<exists>x. c' = (spliced c)\<lparr>wait_write := x, wait_write_list := as\<rparr>" "small_packs c' s'"
proof -
  let ?ws = "wait_write_list c @ wait_pack_list c"
  have sok: "store_ok s" and d: "distinct ?ws" "set ?ws \<subseteq> dom (bufs s)"
      and dis: "set ?ws \<inter> set (cur_list c @ unpack_list c @ recv_list c) = {}"
    using ok by (auto simp: client_ok_def owned_def)
  have pre: "\<forall>a \<in> set ?ws. length (view s a) < 2 ^ 31" "n \<le> length (concat (map (view s) ?ws))"
    using small n(1) by (simp_all only: small_packs_def unsent_def)
  obtain as s' sent where cons: "consume_sent (int n) ?ws s = Inr (as, s')" "store_ok s'"
      "concat (map (view s') as) = drop n (unsent c s)" "same_outside (set ?ws) s s'"
      and shorter: "\<forall>x \<in> set as. length (view s' x) \<le> length (view s x)"
      and sent: "?ws = sent @ as" "dom (bufs s') = dom (bufs s) - set sent"
    using consume_sent_ok [OF sok d pre] unfolding unsent_def by blast
  let ?w = "if int n < int32 (int (length (unsent c s))) then watch_write 1 (spliced c) l else (spliced c, l)"
  have "\<exists>x. fst ?w = (spliced c)\<lparr>wait_write := x\<rparr>"
  proof (cases "int n < int32 (int (length (unsent c s)))")
    case True
    show ?thesis unfolding if_P [OF True] watch_write_on by blast
  next
    case False
    show ?thesis unfolding if_not_P [OF False] by (intro exI [of _ "wait_write (spliced c)"]) simp
  qed
  then obtain x where x: "fst ?w = (spliced c)\<lparr>wait_write := x\<rparr>" ..
  have w: "?w = ((spliced c)\<lparr>wait_write := x\<rparr>, snd ?w)"
    by (rule prod_eqI) (simp_all only: x fst_conv snd_conv)
  have l: "snd ?w = (if int n < int32 (int (length (unsent c s))) then snd (watch_write 1 c l) else l)"
    by (cases "handle_flags l (fd c)")
      (simp_all add: watch_write_def spliced_def finish_write_update_def Let_def)
  let ?c = "(spliced c)\<lparr>wait_write := x, wait_write_list := as\<rparr>"
  have rc: "ready_close ?c = ready_close c" and wl: "wait_write_list (spliced c) = ?ws"
    by (simp_all add: ready_close_def spliced_def finish_write_update_def)
  have run: "do_write_data (Wrote n) c s l = Inr (0, if ready_close c then force_close ?c else ?c, s',
       if int n < int32 (int (length (unsent c s))) then snd (watch_write 1 c l) else l)"
    unfolding do_write_data_queue [OF ok ne] write_result.case
    by (subst w) (simp add: n(2) wl cons(1) rc l Let_def)
  have same: "\<forall>x \<in> set (cur_list c @ unpack_list c @ recv_list c). bufs s' x = bufs s x"
    using cons(4) dis ok by (auto simp: same_outside_def client_ok_def owned_def)
  have "client_ok (c\<lparr>wait_pack_list := [], wait_write_list := as\<rparr>) s' \<and>
      pend (c\<lparr>wait_pack_list := [], wait_write_list := as\<rparr>) s' = pend c s"
    using d dis sent by (intro conjI client_ok_out [OF ok cons(2) same]) auto
  moreover have "client_ok ?c s' = client_ok (c\<lparr>wait_pack_list := [], wait_write_list := as\<rparr>) s'"
    "pend ?c s' = pend (c\<lparr>wait_pack_list := [], wait_write_list := as\<rparr>) s'"
    by (simp_all add: client_ok_def pend_def owned_def cur_list_def spliced_def finish_write_update_def)
  moreover have "unsent ?c s' = drop n (unsent c s)"
    using cons(3) by (simp add: unsent_def spliced_def)
  ultimately have res: "client_ok ?c s'" "pend ?c s' = pend c s" "unsent ?c s' = drop n (unsent c s)"
    by simp_all
  have "small_packs ?c s'"
    using small shorter sent(1) unfolding small_packs_def
    by (auto simp: spliced_def dest!: bspec intro: le_less_trans)
  then show thesis
    by (intro that [OF run res cons(4), of as] exI [of _ x] refl)
qed

section \<open>Properties\<close>

lemma finish_write_bits:
  "\<not> is_write_update (finish_write_update c)" "is_write_update (set_write_update (finish_write_update c))"
  by (auto simp: is_write_update_iff flag_bits)

text \<open>
  A packet for an open connection is copied: the bytes the caller's buffer still holds are queued
  behind everything accepted before, in a buffer of their own, the caller's buffer is unchanged and the
  connection is marked for writing.  Once either direction is closed it is refused.
\<close>

theorem push_send_pack_queues:
  assumes "client_ok c s" and "malloc_ok m (bpool s)" and "bufs s src = Some b"
  shows "\<exists>r c' s'. push_send_pack m src c s = Inr (r, c', s') \<and> client_ok c' s' \<and> pend c' s' = pend c s \<and>
    (\<forall>x \<in> dom (bufs s). bufs s' x = bufs s x) \<and>
    (if ready_close c then r = -1 \<and> c' = c \<and> unsent c' s' = unsent c s
     else r = 0 \<and> unsent c' s' = unsent c s @ contents b \<and> bit (write_flag c') 1)"
proof (cases "ready_close c")
  case True
  then show ?thesis using assms by (simp add: push_send_pack_def)
next
  case False
  obtain a s' where run: "push_send_pack m src c s =
      Inr (0, set_write_update (c\<lparr>wait_pack_list := wait_pack_list c @ [a]\<rparr>), s')"
    and r: "client_ok (c\<lparr>wait_pack_list := wait_pack_list c @ [a]\<rparr>) s'"
    "pend (c\<lparr>wait_pack_list := wait_pack_list c @ [a]\<rparr>) s' = pend c s"
    "a \<notin> dom (bufs s)" "view s' a = contents b" "\<forall>x \<in> dom (bufs s). bufs s' x = bufs s x"
    by (rule push_send_pack_ok [OF assms False])
  let ?c = "set_write_update (c\<lparr>wait_pack_list := wait_pack_list c @ [a]\<rparr>)"
  have "client_ok ?c s'" "pend ?c s' = pend c s"
    using r(1,2) by (simp_all add: set_write_update_def client_ok_frame)
  moreover have "set (wait_write_list c @ wait_pack_list c) \<subseteq> dom (bufs s)"
    using assms(1) by (auto simp: client_ok_def owned_def)
  then have "concat (map (view s') (wait_write_list c @ wait_pack_list c)) = unsent c s"
    unfolding unsent_def using r(5) by (intro view_frame) blast
  then have "unsent ?c s' = unsent c s @ contents b"
    using r(4) by (simp add: unsent_def set_write_update_def)
  moreover have "bit (write_flag ?c) 1" by (simp add: flag_bits)
  ultimately show ?thesis using run r(5) False by auto
qed

theorem push_send_pack_queues_witness:
  "\<exists>c' s'. push_send_pack 200 116 (rx_client [100]) rx_store = Inr (0, c', s')
     \<and> unsent c' s' = [0, 0, 0, 0]"
proof -
  have "bufs rx_store 116 = Some (rx_buf [0, 0, 0, 0])" by (simp add: rx_store_def)
  then show ?thesis
    using push_send_pack_queues [OF rx_client_ok rx_malloc, of "[100]" 116]
    by (auto simp: rx_buf_def contents_def unsent_def rx_client_def new_client_def ready_close_def)
qed

text \<open>
  C20: A \<open>writev\<close> of \<open>n\<close> bytes reads the first \<open>n\<close> queued bytes through its array, and when it is
  successful \<open>do_write_data\<close> removes exactly the first \<open>n\<close> queued bytes and keeps
  the rest in order, whatever the packet boundaries; the received data is untouched, the write mark is
  withdrawn, a closing connection is released for removal, and the socket is watched for writability
  exactly when \<open>n\<close> is below the number of queued bytes, computed as an \<open>int32_t\<close>.
\<close>

theorem do_write_data_consumes:
  assumes "client_ok c s" and "small_packs c s" and "wait_write_list c @ wait_pack_list c \<noteq> []"
    and "n \<le> length (unsent c s)" and "n \<le> 0x7ffff000" and "handle_flags l (fd c) = Some fl"
  shows "\<exists>c' s'. do_write_data (Wrote n) c s l = Inr (0, c', s',
       if int n < int32 (int (length (unsent c s)))
       then \<lparr>handle_flags = (handle_flags l)(fd c \<mapsto> fl OR EPOLLOUT), update_queue = update_queue l @ [fd c]\<rparr>
       else l)
    \<and> client_ok c' s' \<and> unsent c' s' = drop n (unsent c s) \<and> pend c' s' = pend c s
    \<and> \<not> is_write_update c' \<and> (ready_close c \<longrightarrow> can_close c' \<or> closed c)
    \<and> same_outside (set (wait_write_list c @ wait_pack_list c)) s s'
    \<and> (\<exists>v c1. begin_write c s = Inr (v, c1) \<and> writev (Wrote n) v s = Inr (take n (unsent c s)))"
proof -
  obtain v where arr: "begin_write c s = Inr (v, spliced c)" "writev (Wrote n) v s = Inr (take n (unsent c s))"
    by (rule begin_write_spliced [OF assms(1)]) (use assms(5) in blast)
  obtain c1 s' as where run: "do_write_data (Wrote n) c s l = Inr (0, if ready_close c then force_close c1 else c1, s',
       if int n < int32 (int (length (unsent c s))) then snd (watch_write 1 c l) else l)"
    and r: "client_ok c1 s'" "pend c1 s' = pend c s" "unsent c1 s' = drop n (unsent c s)"
      "same_outside (set (wait_write_list c @ wait_pack_list c)) s s'"
    and c1: "\<exists>x. c1 = (spliced c)\<lparr>wait_write := x, wait_write_list := as\<rparr>"
    by (rule do_write_data_ok [OF assms(1-5)])
  let ?c = "if ready_close c then force_close c1 else c1"
  have l: "snd (watch_write 1 c l)
      = \<lparr>handle_flags = (handle_flags l)(fd c \<mapsto> fl OR EPOLLOUT), update_queue = update_queue l @ [fd c]\<rparr>"
    using assms(6) by (simp add: watch_write_def)
  have "client_ok ?c s'" "pend ?c s' = pend c s" "unsent ?c s' = drop n (unsent c s)"
    using r by (simp_all add: force_close_def client_ok_frame unsent_def)
  moreover have "\<not> is_write_update c1" "closed c1 = closed c"
    using c1 finish_write_bits(1) [of c]
    by (auto simp: spliced_def is_write_update_def finish_write_update_def)
  then have "\<not> is_write_update ?c \<and> (ready_close c \<longrightarrow> can_close ?c \<or> closed c)"
    using can_close_force [of c1] by (auto simp: is_write_update_def force_close_def)
  ultimately show ?thesis using run r(4) arr unfolding l by blast
qed

definition tx_client :: client where
  "tx_client = (rx_client [])\<lparr>wait_write_list := [116], wait_pack_list := [108], write_flag := 2\<rparr>"

definition tx_loop :: loop_view where
  "tx_loop = \<lparr>handle_flags = [5 \<mapsto> 1], update_queue = []\<rparr>"

lemma tx_client_ok: "client_ok tx_client rx_store" "unsent tx_client rx_store = [0, 0, 0, 0, 2, 7, 8, 0, 0]"
    "small_packs tx_client rx_store"
  using rx_store_ok
  by (auto simp: client_ok_def owned_def cur_list_def tx_client_def rx_client_def new_client_def
      unsent_def small_packs_def view_def rx_store_def rx_buf_def contents_def)

theorem do_write_data_consumes_witness:
  "\<exists>c' s' l'. do_write_data (Wrote 5) tx_client rx_store tx_loop = Inr (0, c', s', l')
     \<and> unsent c' s' = [7, 8, 0, 0] \<and> handle_flags l' 5 = Some 5 \<and> update_queue l' = [5]"
proof -
  have "int32 9 = 9" "(1 :: 32 word) OR EPOLLOUT = 5"
    by (simp_all add: size_arith EPOLLOUT_def)
  then show ?thesis
    using do_write_data_consumes [OF tx_client_ok(1,3), of 5 tx_loop 1]
    by (simp add: tx_client_ok(2)) (auto simp: tx_client_def tx_loop_def rx_client_def)
qed

text \<open>
  When the socket buffer is full, \<open>writev\<close> fails with \<open>EAGAIN\<close>; nothing is lost, but nothing
  will ever send the data either: the write mark has been withdrawn and the socket is not watched for
  writability, so neither the timer nor the event loop comes back until the application sends again.
\<close>

theorem write_EAGAIN_stalls:
  assumes "client_ok c s" and "wait_write_list c @ wait_pack_list c \<noteq> []"
    and "w = Write_EAGAIN \<or> w = Write_EINTR"
  shows "\<exists>c'. do_write_data w c s l = Inr (0, c', s, l) \<and> unsent c' s = unsent c s
    \<and> \<not> is_write_update c' \<and> wait_write c' = wait_write c"
proof -
  have "do_write_data w c s l = Inr (0, spliced c, s, l)"
    using assms(3) by (auto simp: do_write_data_queue [OF assms(1,2)])
  moreover have "\<not> is_write_update (spliced c)"
    using finish_write_bits(1) [of c] by (simp add: is_write_update_def spliced_def finish_write_update_def)
  ultimately show ?thesis
    using spliced_ok(2) [OF assms(1)] by (simp add: spliced_def finish_write_update_def)
qed

theorem write_EAGAIN_stalls_witness:
  "\<exists>c'. do_write_data Write_EAGAIN tx_client rx_store tx_loop = Inr (0, c', rx_store, tx_loop)
     \<and> unsent c' rx_store = [0, 0, 0, 0, 2, 7, 8, 0, 0] \<and> \<not> is_write_update c'"
  using write_EAGAIN_stalls [OF tx_client_ok(1), of Write_EAGAIN tx_loop]
  by (simp add: tx_client_ok(2)) (auto simp: tx_client_def)

section \<open>Events\<close>

lemma handle_event_closing:
  "ready_close c \<Longrightarrow> handle_event m rs free w (fd c) events c s l = Inr (c, s, l)"
  by (simp add: handle_event_def)

lemma handle_event_wrong_fd:
  "ev_fd \<noteq> fd c \<Longrightarrow> handle_event m rs free w ev_fd events c s l = Inl Assert_Fail"
  by (simp add: handle_event_def)

text \<open>
  When the peer closes or the read fails, the event handler stops watching for input and does not
  try to write, even if the socket is writable too; what was read before the end of the stream stays
  pending, writing is given up, the output queue is kept and the connection is marked for a last round
  of unpacking.
\<close>

theorem handle_event_end_of_stream:
  assumes "client_ok c s" and "malloc_ok m (bpool s)" and "reads_ok rs" and "stream_end rs \<noteq> End_EAGAIN"
    and "EPOLLIN AND events \<noteq> 0" and "\<not> ready_close c" and "handle_flags l (fd c) = Some fl"
  shows "\<exists>c' s'. handle_event m rs free w (fd c) events c s l = Inr (c', s',
      \<lparr>handle_flags = (handle_flags l)(fd c \<mapsto> fl AND NOT EPOLLIN), update_queue = update_queue l @ [fd c]\<rparr>)
    \<and> client_ok c' s' \<and> pend c' s' = pend c s @ kept_bytes rs \<and> unsent c' s' = unsent c s
    \<and> \<not> can_write c' \<and> bit (read_flag c') 1"
proof -
  obtain c' s' where r: "read_data m rs c s = Inr (if stream_end rs = End_EAGAIN then 0 else -1, c', s')"
      "client_ok c' s'" "pend c' s' = pend c s @ kept_bytes rs" "same_outside {} s s'"
    and ex: "\<exists>as. c' = (read_outcome rs c)\<lparr>recv_list := recv_list c @ as\<rparr>"
    by (rule read_data_ok [OF assms(1-3)])
  from ex obtain as where c': "c' = (read_outcome rs c)\<lparr>recv_list := recv_list c @ as\<rparr>" ..
  have fd: "fd c' = fd c" by (simp add: c' read_outcome_def set_update_def close_write_def Let_def)
  have "set (wait_write_list c @ wait_pack_list c) \<subseteq> dom (bufs s)"
    using assms(1) by (auto simp: client_ok_def owned_def)
  then have "concat (map (view s') (wait_write_list c @ wait_pack_list c)) = unsent c s"
    unfolding unsent_def using r(4) by (intro view_frame) (auto simp: same_outside_def)
  then have "unsent c' s' = unsent c s"
    by (simp add: unsent_def c' read_outcome_def set_update_def close_write_def Let_def)
  moreover have "\<not> can_write c' \<and> bit (read_flag c') 1"
    using assms(4) by (auto simp: c' read_outcome_def Let_def can_write_iff flag_bits)
  moreover have "handle_event m rs free w (fd c) events c s l = Inr (c', s', watch_read 0 c' l)"
    using assms(4,5,6) r(1) by (simp add: handle_event_def)
  ultimately show ?thesis
    using r(2,3) assms(7) by (simp add: watch_read_def fd)
qed

theorem handle_event_end_of_stream_witness:
  "\<exists>c' s' l'. handle_event 200 [Read_Bytes [1], Read_Bytes []] True Write_EAGAIN 5 5 tx_client rx_store tx_loop
      = Inr (c', s', l') \<and> pend c' s' = [1] \<and> handle_flags l' 5 = Some 0 \<and> \<not> can_write c'"
proof -
  have "reads_ok [Read_Bytes [1], Read_Bytes []]"
    by (intro reads_ok_small) (auto simp: vec_max_def)
  moreover have "EPOLLIN AND 5 \<noteq> 0" "(1 :: 32 word) AND NOT EPOLLIN = 0" by code_simp+
  moreover have "\<not> ready_close tx_client" "fd tx_client = 5" "pend tx_client rx_store = []"
    by (simp_all add: ready_close_def tx_client_def rx_client_def new_client_def pend_def cur_list_def)
  moreover have "handle_flags tx_loop 5 = Some 1" by (simp add: tx_loop_def)
  ultimately obtain c' s' where "handle_event 200 [Read_Bytes [1], Read_Bytes []] True Write_EAGAIN 5 5 tx_client
      rx_store tx_loop = Inr (c', s', \<lparr>handle_flags = (handle_flags tx_loop)(5 \<mapsto> 0),
        update_queue = update_queue tx_loop @ [5]\<rparr>)" "pend c' s' = [1]" "\<not> can_write c'"
    using handle_event_end_of_stream [OF tx_client_ok(1) rx_malloc, of "[Read_Bytes [1], Read_Bytes []]" 5
        tx_loop 1 True Write_EAGAIN]
    by (auto simp: kept_bytes_def)
  then show ?thesis by - (intro exI conjI, assumption, assumption, simp, assumption)
qed

end
