(* ===== verification/End_To_End.thy ===== *)
theory End_To_End
  imports Client_Stream Client_Send "HOL-Library.Sublist"
begin

text \<open>
  Two connections: one whose packets are queued and written, and one that reads the bytes written and
  delivers packets.  Between them is only the byte stream of the socket.
\<close>

section \<open>The sending half over time\<close>

text \<open>
  The bytes a \<open>writev\<close> with this result has passed to the socket: those its array leads to
  (\<open>writev_emits\<close> below).
\<close>

fun emitted :: "write_result \<Rightarrow> byte list \<Rightarrow> byte list" where
  "emitted (Wrote n) bs = take n bs"
| "emitted _ bs = []"

text \<open>The kernel takes at most what is offered.\<close>

fun accepts_at_most :: "nat \<Rightarrow> write_result \<Rightarrow> bool" where
  "accepts_at_most k (Wrote n) = (n \<le> k \<and> n \<le> 0x7ffff000)"
| "accepts_at_most k _ = True"

lemma writev_emits:
  assumes "client_ok c s" and "accepts_at_most (length (unsent c s)) w"
  shows "\<exists>v. begin_write c s = Inr (v, spliced c) \<and> writev w v s = Inr (emitted w (unsent c s))"
proof -
  obtain v where v: "begin_write c s = Inr (v, spliced c)"
      "\<forall>n \<le> 0x7ffff000. writev (Wrote n) v s = Inr (take n (unsent c s))"
    by (rule begin_write_spliced [OF assms(1)])
  show ?thesis using v assms(2) by (cases w) (auto simp: writev_def)
qed

text \<open>
  \<open>tx_run c s ps bs c' s'\<close>: the steps lead from \<open>(c, s)\<close> to \<open>(c', s')\<close>, packets with the contents
  \<open>ps\<close> were accepted for sending and the bytes \<open>bs\<close> were written.  In between, anybody may change
  buffers and the connection as long as its queued packets are left alone.
\<close>

inductive tx_run :: "client \<Rightarrow> store \<Rightarrow> byte list list \<Rightarrow> byte list \<Rightarrow> client \<Rightarrow> store \<Rightarrow> bool" where
  tx_done: "tx_run c s [] [] c s"
| tx_push: "malloc_ok m (bpool s) \<Longrightarrow> bufs s src = Some b \<Longrightarrow> length (contents b) < 2 ^ 31 \<Longrightarrow>
    push_send_pack m src c s = Inr (r, c1, s1) \<Longrightarrow> tx_run c1 s1 ps bs c' s' \<Longrightarrow>
    tx_run c s ((if r = 0 then [contents b] else []) @ ps) bs c' s'"
| tx_write: "accepts_at_most (length (unsent c s)) w \<Longrightarrow>
    write_data free w c s l = Inr (r, c1, s1, l1) \<Longrightarrow> tx_run c1 s1 ps bs c' s' \<Longrightarrow>
    tx_run c s ps ((if free then emitted w (unsent c s) else []) @ bs) c' s'"
| tx_others: "client_ok c1 s1 \<Longrightarrow> wait_write_list c1 = wait_write_list c \<Longrightarrow>
    wait_pack_list c1 = wait_pack_list c \<Longrightarrow>
    (\<forall>a \<in> set (wait_write_list c @ wait_pack_list c). bufs s1 a = bufs s a) \<Longrightarrow>
    tx_run c1 s1 ps bs c' s' \<Longrightarrow> tx_run c s ps bs c' s'"

lemma push_send_pack_small:
  assumes ok: "client_ok c s" and small: "small_packs c s" and m: "malloc_ok m (bpool s)"
    and src: "bufs s src = Some b" "length (contents b) < 2 ^ 31"
    and run: "push_send_pack m src c s = Inr (r, c1, s1)"
  shows "client_ok c1 s1 \<and> small_packs c1 s1 \<and> unsent c1 s1 = unsent c s @ (if r = 0 then contents b else [])"
proof (cases "ready_close c")
  case True
  then show ?thesis using assms by (auto simp: push_send_pack_def)
next
  case False
  obtain a s' where p: "push_send_pack m src c s =
      Inr (0, set_write_update (c\<lparr>wait_pack_list := wait_pack_list c @ [a]\<rparr>), s')"
      "client_ok (c\<lparr>wait_pack_list := wait_pack_list c @ [a]\<rparr>) s'"
      "a \<notin> dom (bufs s)" "view s' a = contents b" "\<forall>x \<in> dom (bufs s). bufs s' x = bufs s x"
    by (rule push_send_pack_ok [OF ok m src(1) False])
  have sub: "set (wait_write_list c @ wait_pack_list c) \<subseteq> dom (bufs s)"
    using ok by (auto simp: client_ok_def owned_def)
  then have same: "\<forall>x \<in> set (wait_write_list c @ wait_pack_list c). bufs s' x = bufs s x"
    using p(5) by blast
  have v: "concat (map (view s') (wait_write_list c @ wait_pack_list c)) = unsent c s"
    unfolding unsent_def by (rule view_frame [OF same])
  have l: "view s' x = view s x" if "x \<in> set (wait_write_list c @ wait_pack_list c)" for x
    using same that by (simp add: view_def)
  have r: "r = 0" "c1 = set_write_update (c\<lparr>wait_pack_list := wait_pack_list c @ [a]\<rparr>)" "s1 = s'"
    using run p(1) by simp_all
  have "client_ok c1 s1" using p(2) by (simp add: r set_write_update_def client_ok_frame)
  moreover have "unsent c1 s1 = unsent c s @ contents b"
    using v p(4) by (simp add: r unsent_def set_write_update_def)
  moreover have "small_packs c1 s1"
    using small l src(2) p(4) by (auto simp: r small_packs_def set_write_update_def)
  ultimately show ?thesis using r(1) by simp
qed

lemma write_data_small:
  assumes ok: "client_ok c s" and small: "small_packs c s" and w: "accepts_at_most (length (unsent c s)) w"
    and run: "write_data free w c s l = Inr (r, c1, s1, l1)"
  shows "client_ok c1 s1 \<and> small_packs c1 s1
    \<and> (if free then emitted w (unsent c s) else []) @ unsent c1 s1 = unsent c s"
proof (cases "free \<and> wait_write_list c @ wait_pack_list c \<noteq> []")
  case False
  then show ?thesis
    using assms
    by (cases w) (auto simp: write_data_def do_write_data_defs Let_def unsent_def small_packs_def force_close_def
      finish_write_update_def client_ok_frame split: if_splits)
next
  case True
  then have ne: "wait_write_list c @ wait_pack_list c \<noteq> []" and free: free by auto
  note sp = spliced_ok [OF ok]
  have sps: "small_packs (spliced c) s"
    using small by (auto simp: small_packs_def spliced_def)
  consider n where "w = Wrote n" | "w = Write_EINTR \<or> w = Write_EAGAIN" | "w = Write_Error" by (cases w) auto
  then show ?thesis
  proof cases
    case (1 n)
    then have n: "n \<le> length (unsent c s)" "n \<le> 0x7ffff000" using w by simp_all
    obtain c2 s2 as where d: "do_write_data (Wrote n) c s l = Inr (0, if ready_close c then force_close c2 else c2, s2,
         if int n < int32 (int (length (unsent c s))) then snd (watch_write 1 c l) else l)"
        "client_ok c2 s2" "unsent c2 s2 = drop n (unsent c s)" "small_packs c2 s2"
      using do_write_data_ok [OF ok small ne n] by metis
    have c1: "c1 = (if ready_close c then force_close c2 else c2)" "s1 = s2"
      using run free d(1) 1 by (auto simp: write_data_def)
    have "client_ok c1 s1" "small_packs c1 s1" "unsent c1 s1 = drop n (unsent c s)"
      using d(2-4) by (simp_all add: c1 force_close_def client_ok_frame small_packs_def unsent_def)
    then show ?thesis using 1 free by simp
  next
    case 2
    then have "c1 = spliced c" "s1 = s"
      using run free by (auto simp: write_data_def do_write_data_queue [OF ok ne])
    then show ?thesis using 2 sp(1,2) sps by auto
  next
    case 3
    then have "c1 = set_update (close_write (spliced c))" "s1 = s"
      using run free by (auto simp: write_data_def do_write_data_queue [OF ok ne])
    then show ?thesis
      using 3 sp(1,2) sps by (simp add: client_ok_frame set_update_def close_write_def unsent_def small_packs_def)
  qed
qed

lemma tx_run_stream:
  assumes "tx_run c s ps bs c' s'" and "client_ok c s" and "small_packs c s"
  shows "client_ok c' s' \<and> small_packs c' s' \<and> bs @ unsent c' s' = unsent c s @ concat ps"
  using assms
proof (induction rule: tx_run.induct)
  case (tx_push m s src b c r c1 s1 ps bs c' s')
  then show ?case using push_send_pack_small [OF tx_push.prems tx_push.hyps(1-4)] by simp
next
  case (tx_write c s w free l r c1 s1 l1 ps bs c' s')
  have "client_ok c1 s1" "small_packs c1 s1"
      "(if free then emitted w (unsent c s) else []) @ unsent c1 s1 = unsent c s"
    using write_data_small [OF tx_write.prems tx_write.hyps(1,2)] by blast+
  then show ?case using tx_write.IH by (metis append.assoc)
next
  case (tx_others c1 s1 c s ps bs c' s')
  have v: "view s1 x = view s x" if "x \<in> set (wait_write_list c @ wait_pack_list c)" for x
    using tx_others.hyps(4) that by (simp add: view_def)
  have "small_packs c1 s1" using tx_others.prems(2) v by (simp add: small_packs_def tx_others.hyps(2,3))
  moreover have "unsent c1 s1 = unsent c s"
    unfolding unsent_def tx_others.hyps(2,3) by (rule view_frame [OF tx_others.hyps(4)])
  ultimately show ?case using tx_others.IH tx_others.hyps(1) by simp
qed simp

section \<open>Framing is uniquely decodable\<close>

text \<open>A well-formed packet: its length field and that many bytes.\<close>

definition frame :: "byte list \<Rightarrow> bool" where
  "frame p \<longleftrightarrow> parse_packet p = Packet p []"

lemma frame_parse: "frame p \<Longrightarrow> parse_packet (p @ bs) = Packet p bs"
  by (auto simp: frame_def parse_Packet_iff)

text \<open>A stream of frames of which a prefix was cut into frames: the same frames.\<close>

lemma frames_prefix:
  assumes "\<forall>p \<in> set ps. frame p" and "\<forall>q \<in> set qs. frame q" and "concat qs @ r = concat ps"
  shows "prefix qs ps"
  using assms
proof (induction qs arbitrary: ps)
  case Nil
  then show ?case by simp
next
  case (Cons q qs)
  have q: "q \<noteq> []" using Cons.prems(2) by (auto simp: frame_def)
  then obtain p ps' where ps: "ps = p # ps'" using Cons.prems(3) by (cases ps) auto
  have "Packet q (concat qs @ r) = Packet p (concat ps')"
  proof -
    have "q @ (concat qs @ r) = p @ concat ps'" using Cons.prems(3) by (simp add: ps)
    moreover have "frame q" "frame p" using Cons.prems(1,2) by (simp_all add: ps)
    ultimately show ?thesis using frame_parse [of q "concat qs @ r"] frame_parse [of p "concat ps'"] by metis
  qed
  then have "p = q" "concat qs @ r = concat ps'" by simp_all
  moreover have "prefix qs ps'" by (rule Cons.IH) (use Cons.prems calculation in \<open>simp_all add: ps\<close>)
  ultimately show ?case by (simp add: ps)
qed

section \<open>End to end\<close>

text \<open>
  Two connections of which one reads a prefix of what the other has written: as long as what is queued
  are well-formed packets, the messages delivered so far are the first of the packets accepted so far,
  whatever is done to other buffers.
\<close>

lemma arrive_in_order:
  assumes send: "tx_run a s ps sent a' s'" and a: "client_ok a s" "small_packs a s" "unsent a s = []"
    and frames: "\<forall>p \<in> set ps. frame p"
    and recv: "rx_run c t rss ms c' t'" and c: "client_ok c t" "message_callback c = Some k" "pend c t = []" "can_read c'"
      "plain_flags c"
    and socket: "prefix (kept_stream rss) sent"
  shows "prefix (map (drop 8) ms) ps \<and> (\<forall>m \<in> set ms. take 8 m = be_bytes (fd_key c))
    \<and> (pend c' t' = [] \<and> unsent a' s' = [] \<and> kept_stream rss = sent \<longrightarrow> map (drop 8) ms = ps)"
proof -
  have tx: "sent @ unsent a' s' = concat ps"
    using tx_run_stream [OF send a(1,2)] a(3) by simp
  have rx: "concat (map (drop 8) ms) @ pend c' t' = kept_stream rss" "\<forall>m \<in> set ms. good_message (fd_key c) m"
    using rx_run_stream [OF recv c(1,2,4,5)] c(3) by simp_all
  have ms: "\<forall>q \<in> set (map (drop 8) ms). frame q" and key: "\<forall>m \<in> set ms. take 8 m = be_bytes (fd_key c)"
    using rx(2) by (auto simp: good_message_def frame_def)
  obtain rest where "sent = kept_stream rss @ rest" using socket by (auto simp: prefix_def)
  then have "concat (map (drop 8) ms) @ (pend c' t' @ rest @ unsent a' s') = concat ps"
    using tx rx(1) by (metis append.assoc)
  then have pre: "prefix (map (drop 8) ms) ps" by (rule frames_prefix [OF frames ms])
  moreover have "map (drop 8) ms = ps" if "pend c' t' = []" "unsent a' s' = []" "kept_stream rss = sent"
  proof -
    have "concat ps @ [] = concat (map (drop 8) ms)" using tx rx(1) that by simp
    then have "prefix ps (map (drop 8) ms)" by (rule frames_prefix [OF ms frames])
    with pre show ?thesis by (rule prefix_order.antisym)
  qed
  ultimately show ?thesis using key by blast
qed

end
