(* ===== verification/Connection_Frame.thy ===== *)
theory Connection_Frame
  imports End_To_End
begin

text \<open>
  One connection among many: which buffers its operations may come to own, the invariant a connection
  keeps even when its peer misbehaves, and how changes elsewhere appear to it.
\<close>

section \<open>Which buffers an operation may come to own\<close>

definition pops :: "nat \<Rightarrow> store \<Rightarrow> nat set" where
  "pops m s = {a. \<exists>t. pop_buffer m s = Inr (a, t)}"

lemma pops_fresh:
  assumes "store_ok s" and "malloc_ok m (bpool s)"
  shows "pops m s \<subseteq> - dom (bufs s)"
proof -
  obtain a P where "pop_buffer m s = Inr (a, s\<lparr>bpool := P, bufs := (bufs s)(a \<mapsto> default_buffer)\<rparr>)" "a \<notin> dom (bufs s)"
    by (rule pop_buffer_ok [OF assms])
  then show ?thesis by (auto simp: pops_def)
qed

lemma pops_popped: "pop_buffer m s = Inr (a, t) \<Longrightarrow> a \<in> pops m s"
  by (auto simp: pops_def)

text \<open>What identifies a connection to the manager.\<close>

definition same_ids :: "client \<Rightarrow> client \<Rightarrow> bool" where
  "same_ids c c' \<longleftrightarrow> fd c' = fd c \<and> event_loop c' = event_loop c \<and> closed c' = closed c"

text \<open>The lists of a client only lose buffers while it unpacks; the current buffer is the old one or popped.\<close>

definition unpack_owns :: "nat \<Rightarrow> client \<Rightarrow> store \<Rightarrow> client \<Rightarrow> bool" where
  "unpack_owns m c s c' \<longleftrightarrow>
     message_callback c' = message_callback c \<and> fd_key c' = fd_key c \<and> same_ids c c' \<and>
     set (unpack_list c') \<subseteq> set (unpack_list c) \<and> set (recv_list c') \<subseteq> set (recv_list c) \<and>
     set (wait_pack_list c') \<subseteq> set (wait_pack_list c) \<and> set (wait_write_list c') \<subseteq> set (wait_write_list c) \<and>
     (cur_unpack c' = None \<or> cur_unpack c' = cur_unpack c
        \<or> cur_unpack c = None \<and> (\<exists>a \<in> pops m s. cur_unpack c' = Some a))"

lemma absorb_front_owns: "absorb_front a f c s = Inr (c', s') \<Longrightarrow>
    c' = c\<lparr>unpack_list := tl (unpack_list c), front_unpack := None\<rparr>"
  by (auto simp: absorb_front_def bind_res_eq_Inr)

lemma clear_owns: "clear c s = Inr (c', s') \<Longrightarrow>
    c' = c\<lparr>unpack_list := [], recv_list := [], wait_pack_list := [], wait_write_list := []\<rparr>"
  by (auto simp: clear_def bind_res_eq_Inr)

lemma set_tl: "x \<in> set (tl xs) \<Longrightarrow> x \<in> set xs"
  by (cases xs) auto

lemma unpack_body_owns:
  assumes "unpack_body len a f c s = Inr (v, c', s')"
  shows "unpack_owns m c s c' \<and> (cur_unpack c' = None \<longrightarrow> v \<noteq> Continue \<or> cur_unpack c = None)"
proof (cases "len \<le> 0")
  case True
  then show ?thesis
    using assms
    by (auto simp: unpack_body_def unpack_owns_def same_ids_def force_close_def close_read_def dest!: clear_owns elim!: bind_resE)
next
  case False
  then show ?thesis
    using assms
    by (auto simp: unpack_body_def unpack_owns_def same_ids_def Let_def set_update_def dest!: absorb_front_owns set_tl
        elim!: bind_resE split: if_split_asm prod.split_asm)
qed

lemma unpack_step_owns:
  assumes "unpack_step m c s = Inr (v, c', s')"
  shows "unpack_owns m c s c' \<and> (v = Continue \<longrightarrow> cur_unpack c' \<noteq> None)"
proof -
  obtain a c1 s1 where c1: "ensure_cur m c s = Inr (a, c1, s1)"
    using assms by (auto simp: unpack_step_def bind_res_eq_Inr)
  have cur: "c1 = c\<lparr>cur_unpack := Some a\<rparr> \<and> (cur_unpack c = Some a \<or> cur_unpack c = None \<and> a \<in> pops m s)"
    using c1 by (auto simp: ensure_cur_def bind_res_eq_Inr pops_popped split: option.splits)
  obtain f c2 where c2: "ensure_front c1 = (f, c2)" by (cases "ensure_front c1")
  then have c2': "c2 = c1\<lparr>front_unpack := Some f\<rparr>" by (auto simp: ensure_front_def Let_def)
  consider len s2 where "unpack_body len a f c2 s2 = Inr (v, c', s')"
    | s2 where "absorb_front a f c2 s2 = Inr (c', s')" "v = Continue"
    using assms c1 c2 by (auto simp: unpack_step_def bind_res_eq_Inr Let_def split: if_splits)
  then show ?thesis
  proof cases
    case 1
    then show ?thesis
      using unpack_body_owns [OF 1, of m] cur by (auto simp: unpack_owns_def same_ids_def c2')
  next
    case 2
    then show ?thesis
      using absorb_front_owns [OF 2(1)] cur by (auto simp: unpack_owns_def same_ids_def c2' dest: set_tl)
  qed
qed

lemma unpack_loop_owns:
  assumes "unpack_loop m c s = Inr (out, c', s')"
  shows "unpack_owns m c s c'"
  using assms
proof (induction m c s arbitrary: out c' s' rule: unpack_loop.induct)
  case (1 m c s)
  show ?case
  proof (cases "unpack_list c = []")
    case True
    with "1.prems" show ?thesis
      by (auto simp: unpack_loop.simps [of m c s] unpack_owns_def same_ids_def force_close_def split: if_splits)
  next
    case False
    then obtain v c1 s1 where st: "unpack_step m c s = Inr (v, c1, s1)"
      using "1.prems"(1) by (auto simp: unpack_loop.simps [of m c s] bind_res_eq_Inr)
    note owns = unpack_step_owns [OF st]
    show ?thesis
    proof (cases v)
      case Continue
      then have "unpack_loop m c1 s1 = Inr (out, c', s')"
        using "1.prems" False st by (simp add: unpack_loop.simps [of m c s])
      then have "unpack_owns m c1 s1 c'" using "1.IH" [OF False st] Continue by simp
      then show ?thesis using owns Continue by (auto simp: unpack_owns_def same_ids_def)
    qed (use "1.prems" False st owns in \<open>simp_all add: unpack_loop.simps [of m c s]\<close>)
  qed
qed

lemma handle_unpack_owned:
  assumes "handle_unpack m c s = Inr (out, c', s')"
  shows "set (owned c') \<subseteq> set (owned c) \<union> pops m s"
    and "message_callback c' = message_callback c \<and> fd_key c' = fd_key c" and "same_ids c c'"
proof -
  have "set (owned c') \<subseteq> set (owned c) \<union> pops m s \<and> message_callback c' = message_callback c \<and> fd_key c' = fd_key c
    \<and> same_ids c c'"
  proof (cases "closed c \<or> recv_list c = [] \<and> unpack_list c = []")
    case True
    then show ?thesis
      using assms by (auto simp: handle_unpack_def do_handle_unpack_def Let_def finish_update_def force_close_def
          owned_def cur_list_def same_ids_def split: if_splits)
  next
    case False
    let ?c = "(finish_update c)\<lparr>unpack_list := unpack_list c @ recv_list c, recv_list := []\<rparr>"
    have "unpack_loop m ?c s = Inr (out, c', s')"
      using assms False by (auto simp: handle_unpack_def do_handle_unpack_def Let_def finish_update_def)
    then have "unpack_owns m ?c s c'" by (rule unpack_loop_owns)
    then show ?thesis
      by (auto simp: unpack_owns_def same_ids_def owned_def cur_list_def finish_update_def split: option.splits)
  qed
  then show "set (owned c') \<subseteq> set (owned c) \<union> pops m s"
      "message_callback c' = message_callback c \<and> fd_key c' = fd_key c" "same_ids c c'" by blast+
qed

lemma consume_sent_owned: "consume_sent n as s = Inr (as', s') \<Longrightarrow> set as' \<subseteq> set as"
proof (induction n as s arbitrary: as' s' rule: consume_sent.induct)
  case (2 n a as s)
  show ?case
  proof (cases "n \<le> 0")
    case False
    then obtain b where b: "get_buf a s = Inr b" using "2.prems" by (auto simp: bind_res_eq_Inr)
    let ?r = "int32 (int (readableBytes b))"
    show ?thesis
    proof (cases "?r \<le> n")
      case True
      then obtain t where "push_buffer a s = Inr t" "consume_sent (n - ?r) as t = Inr (as', s')"
        using "2.prems" False b by (auto simp: bind_res_eq_Inr Let_def)
      then show ?thesis using "2.IH" [OF False b refl True, of t as' s'] by auto
    qed (use "2.prems" False b in \<open>auto simp: bind_res_eq_Inr Let_def\<close>)
  qed (use "2.prems" in simp)
qed simp

lemma write_data_owned:
  assumes "write_data free w c s l = Inr (r, c', s', l')"
  shows "set (owned c') \<subseteq> set (owned c)"
proof -
  have "set (wait_write_list c') \<union> set (wait_pack_list c') \<subseteq> set (wait_write_list c) \<union> set (wait_pack_list c)
      \<and> cur_unpack c' = cur_unpack c \<and> unpack_list c' = unpack_list c \<and> recv_list c' = recv_list c"
    using assms
    by (cases w; auto simp: write_data_def do_write_data_defs Let_def finish_write_update_def force_close_def
        set_update_def close_write_def watch_write_def dest!: consume_sent_owned elim!: bind_resE split: if_splits
        option.splits; blast)
  then show ?thesis by (auto simp: owned_def cur_list_def)
qed

section \<open>One connection\<close>

text \<open>The flags that close a direction only grow.\<close>

definition flags_grow :: "client \<Rightarrow> client \<Rightarrow> bool" where
  "flags_grow c c' \<longleftrightarrow> (\<exists>x \<in> {0, 1, 2, 3}. close_flag c' = close_flag c OR x)"

lemma flags_grow_refl: "close_flag c' = close_flag c \<Longrightarrow> flags_grow c c'"
  by (auto simp: flags_grow_def intro!: bexI [of _ 0])

lemma flags_grow_close [simp]: "flags_grow c (close_read c)" "flags_grow c (close_write c)"
  by (auto simp: flags_grow_def close_read_def close_write_def FLAG_NOREAD_def FLAG_NOWRITE_def)

lemma or_closed:
  assumes "x \<in> {0, 1, 2, 3 :: 32 word}" and "y \<in> {0, 1, 2, 3}"
  shows "x OR y \<in> {0, 1, 2, 3}"
  using assms by auto

lemma flags_grow_trans:
  assumes "flags_grow c d" and "flags_grow d e"
  shows "flags_grow c e"
proof -
  obtain x where x: "x \<in> {0, 1, 2, 3}" "close_flag d = close_flag c OR x"
    using assms(1) unfolding flags_grow_def by blast
  obtain y where y: "y \<in> {0, 1, 2, 3}" "close_flag e = close_flag d OR y"
    using assms(2) unfolding flags_grow_def by blast
  then have "close_flag e = close_flag c OR (x OR y)" using x(2) by (simp only: or.assoc)
  then show ?thesis using or_closed [OF x(1) y(1)] unfolding flags_grow_def by blast
qed

lemma flags_grow_plain:
  assumes "flags_grow c d" and "plain_flags c"
  shows "plain_flags d"
proof -
  obtain x where "x \<in> {0, 1, 2, 3}" "close_flag d = close_flag c OR x"
    using assms(1) unfolding flags_grow_def by blast
  then show ?thesis using or_closed [OF assms(2) [unfolded plain_flags_def]] by (simp only: plain_flags_def)
qed

lemma flags_grow_can_read: "flags_grow c d \<Longrightarrow> can_read d \<Longrightarrow> can_read c"
  by (auto simp only: flags_grow_def can_read_iff bit_or_iff)

lemma flags_grow_ready_close:
  assumes "flags_grow c d" and "plain_flags c" and "ready_close c"
  shows "ready_close d"
proof -
  obtain x where "x \<in> {0, 1, 2, 3}" "close_flag d = close_flag c OR x"
    using assms(1) unfolding flags_grow_def by blast
  then show ?thesis using assms(2,3) by (auto simp: plain_flags_def ready_close_def)
qed

lemma plain_ready_close: "plain_flags c \<Longrightarrow> \<not> can_read c \<Longrightarrow> ready_close c"
  by (auto simp: plain_flags_def can_read_def ready_close_def FLAG_NOREAD_def)

text \<open>
  A connection that met a length that is not positive has given up reading; all its lists are empty.
\<close>

definition spent :: "client \<Rightarrow> store \<Rightarrow> bool" where
  "spent c s \<longleftrightarrow> \<not> can_read c \<and> lists c = [] \<and> set (cur_list c) \<subseteq> dom (bufs s)"

definition conn_ok :: "client \<Rightarrow> store \<Rightarrow> bool" where
  "conn_ok c s \<longleftrightarrow> store_ok s \<and> plain_flags c \<and> (client_ok c s \<and> small_packs c s \<or> spent c s)"

lemma conn_okD:
  assumes "conn_ok c s"
  shows "store_ok s" "distinct (owned c)" "set (owned c) \<subseteq> dom (bufs s)" "plain_flags c"
    "can_read c \<Longrightarrow> client_ok c s" "can_read c \<Longrightarrow> small_packs c s" "\<not> ready_close c \<Longrightarrow> can_read c"
proof -
  show "distinct (owned c)"
    using assms by (auto simp: conn_ok_def client_ok_def spent_def owned_lists cur_list_def split: option.splits)
  show "set (owned c) \<subseteq> dom (bufs s)"
    using assms by (auto simp: conn_ok_def client_ok_def spent_def owned_lists)
qed (use assms plain_ready_close in \<open>auto simp: conn_ok_def spent_def\<close>)

lemma client_ok_frame_bufs:
  assumes "client_ok c s" and "store_ok s'" and "\<forall>x \<in> set (owned c). bufs s' x = bufs s x"
  shows "client_ok c s'"
proof -
  have "cur_unpack c = Some a \<Longrightarrow> bufs s' a = bufs s a" for a
    using assms(3) by (simp add: owned_def cur_list_def)
  moreover have "set (owned c) \<subseteq> dom (bufs s')"
    using assms(1,3) by (auto simp: client_ok_def domIff)
  ultimately show ?thesis using assms(1,2) unfolding client_ok_def by simp
qed

text \<open>The same connection, up to flags, after others have changed the store.\<close>

definition conn_same :: "client \<Rightarrow> client \<Rightarrow> bool" where
  "conn_same c c' \<longleftrightarrow> cur_unpack c' = cur_unpack c \<and> front_unpack c' = front_unpack c \<and> lists c' = lists c
     \<and> unpack_list c' = unpack_list c \<and> recv_list c' = recv_list c \<and> wait_pack_list c' = wait_pack_list c
     \<and> wait_write_list c' = wait_write_list c \<and> fd_key c' = fd_key c \<and> message_callback c' = message_callback c"

lemma conn_same_owned: "conn_same c c' \<Longrightarrow> owned c' = owned c"
  by (simp add: conn_same_def owned_def cur_list_def)

lemma conn_ok_same:
  assumes "conn_ok c s" and "store_ok s'" and "\<forall>x \<in> set (owned c). bufs s' x = bufs s x"
    and c': "conn_same c c'" "flags_grow c c'"
  shows "conn_ok c' s'"
proof -
  have own: "owned c' = owned c" and cur: "cur_list c' = cur_list c"
    using c'(1) by (simp_all add: conn_same_def owned_def cur_list_def)
  have "plain_flags c'" using flags_grow_plain [OF c'(2)] conn_okD(4) [OF assms(1)] .
  moreover have "client_ok c' s' \<and> small_packs c' s'" if "client_ok c s" "small_packs c s"
  proof -
    have "client_ok c s'" using that(1) assms(2,3) by (rule client_ok_frame_bufs)
    then have "client_ok c' s'" using c'(1) own by (simp add: client_ok_def conn_same_def)
    moreover have "small_packs c' s'"
      using that(2) assms(3) c'(1) by (auto simp: small_packs_def view_def owned_def conn_same_def)
    ultimately show ?thesis ..
  qed
  moreover have "spent c' s'" if "spent c s"
  proof -
    have "\<not> can_read c'" using that flags_grow_can_read [OF c'(2)] by (auto simp: spent_def)
    moreover have "set (cur_list c) \<subseteq> dom (bufs s')"
      using that assms(3) by (auto simp: spent_def owned_lists domIff)
    ultimately show ?thesis using that c'(1) cur by (simp add: spent_def conn_same_def)
  qed
  ultimately show ?thesis using assms(1,2) by (auto simp: conn_ok_def)
qed

section \<open>What a step means for one connection\<close>

text \<open>
  As long as the connection still reads: what its socket has given each call, and what it has delivered,
  queued and written, in terms of the runs of its two halves.
\<close>

definition seen :: "client \<Rightarrow> store \<Rightarrow> read_result list list \<Rightarrow> byte list list \<Rightarrow> byte list list \<Rightarrow> byte list \<Rightarrow> client \<Rightarrow> store \<Rightarrow> bool" where
  "seen c s got gave queued written c' s' \<longleftrightarrow>
     (can_read c' \<longrightarrow> can_read c \<and> rx_run c s got gave c' s' \<and> tx_run c s queued written c' s')"

lemma rx_run_trans:
  "rx_run c s rss ps c1 s1 \<Longrightarrow> rx_run c1 s1 rss' ps' c' s' \<Longrightarrow> rx_run c s (rss @ rss') (ps @ ps') c' s'"
  by (induction rule: rx_run.induct) (auto intro: rx_run.intros)

lemma tx_run_trans:
  assumes "tx_run c s ps bs c1 s1" and "tx_run c1 s1 ps' bs' c' s'"
  shows "tx_run c s (ps @ ps') (bs @ bs') c' s'"
  using assms
proof (induction rule: tx_run.induct)
  case (tx_push m s src b c r c1 s1 ps bs c2 s2)
  then show ?case using tx_run.tx_push [OF tx_push.hyps(1-4) tx_push.IH [OF tx_push.prems]] by (simp only: append_assoc)
next
  case (tx_write c s w free l r c1 s1 l1 ps bs c2 s2)
  then show ?case using tx_run.tx_write [OF tx_write.hyps(1,2) tx_write.IH [OF tx_write.prems]] by (simp only: append_assoc)
qed (auto intro: tx_others)

lemma seen_trans:
  assumes "seen c s g m q w c1 s1" and "seen c1 s1 g' m' q' w' c' s'"
  shows "seen c s (g @ g') (m @ m') (q @ q') (w @ w') c' s'"
  using assms rx_run_trans tx_run_trans unfolding seen_def by blast

lemma seen_same:
  assumes "conn_ok c s" and "conn_ok c' s'" and "\<forall>x \<in> set (owned c). bufs s' x = bufs s x"
    and c': "conn_same c c'" "flags_grow c c'"
  shows "seen c s [] [] [] [] c' s'"
  unfolding seen_def
proof
  assume r: "can_read c'"
  then have ok: "client_ok c' s'" using conn_okD(5) [OF assms(2)] by blast
  have "rx_untouched c s c' s'"
    using ok c' assms(3) flags_grow_can_read [OF c'(2)] flags_grow_plain [OF c'(2)] flags_grow_ready_close [OF c'(2)]
    by (auto simp: rx_untouched_def conn_same_def owned_def)
  then have "rx_run c s [] [] c' s'" by (rule rx_others [OF _ rx_done])
  moreover have "tx_run c s [] [] c' s'"
    using c'(1) assms(3) by (intro tx_others [OF ok _ _ _ tx_done]) (auto simp: conn_same_def owned_def)
  ultimately show "can_read c \<and> rx_run c s [] [] c' s' \<and> tx_run c s [] [] c' s'"
    using flags_grow_can_read [OF c'(2) r] by blast
qed

end
