(* ===== verification/Connection_Steps.thy ===== *)
theory Connection_Steps
  imports Connection_Frame
begin

text \<open>
  The operations of one connection -- reading, writing, unpacking, queueing, and the event handler and
  jobs made of them -- keep its invariant, touch no buffer of anybody else, and appear to the connection
  as steps of the runs of its two halves.
\<close>

section \<open>Reading\<close>

definition local_step :: "client \<Rightarrow> store \<Rightarrow> client \<Rightarrow> store \<Rightarrow> bool" where
  "local_step c s c' s' \<longleftrightarrow>
     conn_ok c' s' \<and> same_outside (set (owned c)) s s' \<and> set (owned c') \<subseteq> set (owned c) \<union> - dom (bufs s)"

lemma local_step_refl: "conn_ok c s \<Longrightarrow> local_step c s c s"
  by (simp add: local_step_def)

lemma local_step_trans:
  assumes "local_step c s c1 s1" and "local_step c1 s1 c' s'" and "set (owned c) \<subseteq> dom (bufs s)"
  shows "local_step c s c' s'"
proof -
  have s1: "same_outside (set (owned c)) s s1" "set (owned c1) \<subseteq> set (owned c) \<union> - dom (bufs s)"
      and s': "same_outside (set (owned c1)) s1 s'" "set (owned c') \<subseteq> set (owned c1) \<union> - dom (bufs s1)"
    using assms(1,2) by (simp_all add: local_step_def)
  have "same_outside (set (owned c)) s s'"
    by (rule same_outside_step [OF s1(1) s'(1) s1(2)])
  moreover have "- dom (bufs s1) \<subseteq> set (owned c) \<union> - dom (bufs s)"
    using s1(1) by (auto simp: same_outside_def domIff) 
  ultimately show ?thesis using assms(2) s1(2) s'(2) by (auto simp: local_step_def)
qed

lemma local_step_flags:
  assumes "conn_ok c s" and "conn_same c c'" and "flags_grow c c'"
  shows "local_step c s c' s" and "seen c s [] [] [] [] c' s"
proof -
  have "conn_ok c' s" using conn_ok_same [OF assms(1) conn_okD(1) [OF assms(1)] _ assms(2,3)] by simp
  then show "local_step c s c' s" "seen c s [] [] [] [] c' s"
    using seen_same [OF assms(1) _ _ assms(2,3)] conn_same_owned [OF assms(2)] by (simp_all add: local_step_def)
qed

lemma flags_grow_close_flag:
  "close_flag c' = close_flag c \<or> close_flag c' = close_flag (close_read c) \<or> close_flag c' = close_flag (close_write c)
    \<Longrightarrow> flags_grow c c'"
  using flags_grow_close [of c] by (auto simp: flags_grow_def intro: flags_grow_refl [unfolded flags_grow_def])

lemma read_outcome_flags: "flags_grow c ((read_outcome rs c)\<lparr>recv_list := us\<rparr>)"
  by (rule flags_grow_close_flag) (auto simp: read_outcome_def set_update_def close_write_def Let_def)

lemma read_outcome_same: "conn_same c (read_outcome rs c)" "flags_grow c (read_outcome rs c)"
proof -
  show "conn_same c (read_outcome rs c)"
    by (simp add: conn_same_def lists_def read_outcome_def set_update_def close_write_def Let_def)
  then have "(read_outcome rs c)\<lparr>recv_list := recv_list (read_outcome rs c)\<rparr> = read_outcome rs c" by simp
  then show "flags_grow c (read_outcome rs c)" using read_outcome_flags by metis
qed

lemma read_data_step:
  assumes ok: "client_ok c s" "small_packs c s" "plain_flags c" and m: "malloc_ok m (bpool s)" and rs: "reads_ok rs"
    and opn: "\<not> ready_close c" and run: "read_data m rs c s = Inr (r, c', s')"
  shows "local_step c s c' s' \<and> seen c s [rs] [] [] [] c' s' \<and> unsent c' s' = unsent c s
    \<and> (r < 0 \<longleftrightarrow> stream_end rs \<noteq> End_EAGAIN)"
proof -
  have sok: "store_ok s" using ok(1) by (simp add: client_ok_def)
  obtain a t c2 s2 where a: "a \<notin> dom (bufs s)"
    and r: "read_data m rs c s = Inr (if stream_end rs = End_EAGAIN then 0 else -1, c2, s2)" "store_ok s2"
      "\<forall>x \<in> dom (bufs s). bufs s2 x = bufs s x"
    and c2: "kept_bytes rs = [] \<and> c2 = read_outcome rs c \<or>
     kept_bytes rs \<noteq> [] \<and> c2 = (read_outcome rs c)\<lparr>recv_list := recv_list c @ [a]\<rparr> \<and>
       (\<exists>b. bufs s2 = (bufs s)(a \<mapsto> b) \<and> contents b = kept_bytes rs)"
    by (rule read_data_run [OF sok m rs])
  have eq: "r = (if stream_end rs = End_EAGAIN then 0 else -1)" "c' = c2" "s' = s2" using r(1) run by simp_all
  have sub: "set (owned c) \<subseteq> dom (bufs s)" using ok(1) by (simp add: client_ok_def)
  then have same: "\<forall>x \<in> set (owned c). bufs s' x = bufs s x" using r(3) eq(3) by blast
  have conn: "conn_ok c s" using ok sok by (simp add: conn_ok_def)
  have cok: "client_ok c' s'"
    using read_data_ok [OF ok(1) m rs] run by (metis Inr_inject Pair_inject)
  have so: "same_outside (set (owned c)) s s'" using r(3) eq(3) by (auto simp: same_outside_def)
  have fg: "flags_grow c c'" and w: "wait_write_list c' = wait_write_list c" "wait_pack_list c' = wait_pack_list c"
    using c2 eq(2) read_outcome_flags read_outcome_same [where c = c and rs = rs] by (auto simp: conn_same_def)
  have wait: "\<forall>x \<in> set (wait_write_list c @ wait_pack_list c). bufs s' x = bufs s x"
    using same by (auto simp: owned_def)
  have seen: "seen c s [rs] [] [] [] c' s'"
    unfolding seen_def
  proof (intro impI conjI)
    assume cr: "can_read c'"
    show "can_read c" using flags_grow_can_read [OF fg cr] .
    show "tx_run c s [] [] c' s'" by (rule tx_others [OF cok w wait tx_done])
    show "rx_run c s [rs] [] c' s'" by (rule rx_read [OF m rs opn run rx_done])
  qed
  show ?thesis
  proof (cases "kept_bytes rs = []")
    case True
    then have c': "c' = read_outcome rs c" using c2 eq(2) by simp
    have "conn_ok c' s'"
      unfolding c' using conn_ok_same [OF conn _ same read_outcome_same] r(2) eq(3) by simp
    moreover have "unsent c' s' = unsent c s"
      using same read_outcome_same(1) [of c rs] unfolding c' unsent_def
      by (simp only: conn_same_def) (rule view_frame, auto simp: owned_def)
    moreover have "owned c' = owned c" unfolding c' by (rule conn_same_owned [OF read_outcome_same(1)])
    ultimately show ?thesis using seen so eq(1) by (simp add: local_step_def)
  next
    case False
    then have c': "c' = (read_outcome rs c)\<lparr>recv_list := recv_list c @ [a]\<rparr>"
      using c2 eq(2) by (auto simp: kept_bytes_def)
    have "small_packs c' s'" unfolding small_packs_def w using ok(2) wait by (simp add: small_packs_def view_def)
    then have "conn_ok c' s'" using cok flags_grow_plain [OF fg ok(3)] by (simp add: conn_ok_def client_ok_def)
    moreover have "set (owned c') \<subseteq> insert a (set (owned c))"
      using read_outcome_same(1) [of c rs] by (auto simp: c' conn_same_def owned_def cur_list_def)
    moreover have "unsent c' s' = unsent c s" using view_frame [OF wait] by (simp add: unsent_def w)
    ultimately show ?thesis using seen a so eq(1) by (auto simp: local_step_def)
  qed
qed

section \<open>Writing\<close>

lemma write_data_frame:
  assumes "write_data free w c s l = Inr (r, c', s', l')"
  shows "cur_unpack c' = cur_unpack c \<and> front_unpack c' = front_unpack c \<and> unpack_list c' = unpack_list c
    \<and> recv_list c' = recv_list c \<and> fd_key c' = fd_key c \<and> message_callback c' = message_callback c \<and> same_ids c c'
    \<and> (close_flag c' = close_flag c \<or> close_flag c' = close_flag (close_write c))"
  using assms
  by (cases w; auto simp: write_data_def do_write_data_defs Let_def finish_write_update_def force_close_def
      set_update_def close_write_def watch_write_def same_ids_def elim!: bind_resE split: if_splits option.splits)

lemma idle_write:
  assumes "wait_write_list c = []" and "wait_pack_list c = []"
    and "write_data free w c s l = Inr (r, c', s', l')"
  shows "s' = s \<and> conn_same c c' \<and> close_flag c' = close_flag c"
  using assms
  by (auto simp: write_data_def do_write_data_defs Let_def finish_write_update_def force_close_def conn_same_def
      lists_def split: if_splits)

lemma write_data_step:
  assumes conn: "conn_ok c s" and w: "accepts_at_most (length (unsent c s)) w"
    and run: "write_data free w c s l = Inr (r, c', s', l')"
  shows "local_step c s c' s' \<and> seen c s [] [] [] (if free then emitted w (unsent c s) else []) c' s'"
proof (cases "free \<and> wait_write_list c @ wait_pack_list c \<noteq> []")
  case False
  have none_sent: "(if free then emitted w (unsent c s) else []) = []"
    using False by (cases w) (auto simp: unsent_def)
  have "s' = s \<and> conn_same c c' \<and> close_flag c' = close_flag c"
  proof (cases free)
    case True
    then show ?thesis using idle_write [OF _ _ run] False by simp
  next
    case not: False
    then have "c' = c" "s' = s" using run by (simp_all add: write_data_def)
    then show ?thesis by (simp add: conn_same_def)
  qed
  then have c': "s' = s" "conn_same c c'" "flags_grow c c'" by (simp_all add: flags_grow_refl)
  show ?thesis using local_step_flags [OF conn c'(2,3)] by (simp only: none_sent c'(1) simp_thms)
next
  case True
  then have ne: "wait_write_list c @ wait_pack_list c \<noteq> []" and free: free by auto
  then have ok: "client_ok c s" "small_packs c s" "plain_flags c"
    using conn by (auto simp: conn_ok_def spent_def lists_def)
  let ?ws = "wait_write_list c @ wait_pack_list c"
  have res: "client_ok c' s'" "small_packs c' s'"
    using write_data_small [OF ok(1,2) w run] by blast+
  have frame: "cur_unpack c' = cur_unpack c" "front_unpack c' = front_unpack c" "unpack_list c' = unpack_list c"
      "recv_list c' = recv_list c" "fd_key c' = fd_key c" "message_callback c' = message_callback c"
    and fg: "flags_grow c c'"
    using write_data_frame [OF run] by (auto intro: flags_grow_close_flag)
  have so: "same_outside (set ?ws) s s'"
  proof (cases w)
    case (Wrote n)
    then have n: "n \<le> length (unsent c s)" "n \<le> 0x7ffff000" using w by simp_all
    obtain c2 s2 where "do_write_data (Wrote n) c s l = Inr (0, if ready_close c then force_close c2 else c2, s2,
         if int n < int32 (int (length (unsent c s))) then snd (watch_write 1 c l) else l)"
        "same_outside (set ?ws) s s2"
      using do_write_data_ok [OF ok(1,2) ne n] by metis
    then show ?thesis using run free Wrote by (simp add: write_data_def)
  qed (use run free do_write_data_queue [OF ok(1) ne] in \<open>auto simp: write_data_def\<close>)
  have sub: "set ?ws \<subseteq> set (owned c)" by (auto simp: owned_def)
  have "set (owned c) \<subseteq> dom (bufs s)" "distinct (owned c)" using ok(1) by (simp_all add: client_ok_def)
  then have rx: "\<forall>x \<in> set (cur_list c @ unpack_list c @ recv_list c). bufs s' x = bufs s x"
    using so unfolding same_outside_def owned_def by (auto 0 4)
  have "conn_ok c' s'" using res flags_grow_plain [OF fg ok(3)] by (simp add: conn_ok_def client_ok_def)
  then have "local_step c s c' s'"
    using write_data_owned [OF run] same_outside_mono [OF so sub] by (auto simp: local_step_def)
  moreover have "seen c s [] [] [] (if free then emitted w (unsent c s) else []) c' s'"
    unfolding seen_def
  proof (intro impI conjI)
    assume cr: "can_read c'"
    show "can_read c" using flags_grow_can_read [OF fg cr] .
    have "rx_untouched c s c' s'"
      using res(1) frame rx \<open>can_read c\<close> flags_grow_plain [OF fg] flags_grow_ready_close [OF fg]
      by (simp add: rx_untouched_def)
    then show "rx_run c s [] [] c' s'" by (rule rx_others [OF _ rx_done])
    show "tx_run c s [] (if free then emitted w (unsent c s) else []) c' s'"
      using tx_write [OF w run tx_done] by simp
  qed
  ultimately show ?thesis ..
qed

section \<open>Unpacking\<close>

text \<open>As long as it does not end in a bad length, unpacking does not look at what is to be sent.\<close>

definition bare :: "client \<Rightarrow> client" where
  "bare c = c\<lparr>wait_pack_list := [], wait_write_list := []\<rparr>"

lemma bare_simps [simp]:
  "cur_unpack (bare c) = cur_unpack c" "front_unpack (bare c) = front_unpack c" "unpack_list (bare c) = unpack_list c"
  "recv_list (bare c) = recv_list c" "fd_key (bare c) = fd_key c" "message_callback (bare c) = message_callback c"
  "ready_close (bare c) = ready_close c" "closed (bare c) = closed c" "can_read (bare c) = can_read c"
  by (simp_all add: bare_def ready_close_def can_read_def)

lemma bare_upd [simp]:
  "bare (c\<lparr>cur_unpack := x\<rparr>) = (bare c)\<lparr>cur_unpack := x\<rparr>" "bare (c\<lparr>front_unpack := x\<rparr>) = (bare c)\<lparr>front_unpack := x\<rparr>"
  "bare (c\<lparr>unpack_list := xs\<rparr>) = (bare c)\<lparr>unpack_list := xs\<rparr>" "bare (c\<lparr>recv_list := xs\<rparr>) = (bare c)\<lparr>recv_list := xs\<rparr>"
  "bare (set_update c) = set_update (bare c)" "bare (force_close c) = force_close (bare c)"
  "bare (finish_update c) = finish_update (bare c)"
  by (cases c, simp add: bare_def set_update_def force_close_def finish_update_def)+

lemma ensure_cur_bare: "ensure_cur m c s = Inr (a, c', s') \<Longrightarrow> ensure_cur m (bare c) s = Inr (a, bare c', s')"
  by (auto simp: ensure_cur_def bind_res_eq_Inr split: option.splits)

lemma ensure_front_bare: "ensure_front c = (f, c') \<Longrightarrow> ensure_front (bare c) = (f, bare c')"
  by (auto simp: ensure_front_def Let_def split: option.splits)

lemma absorb_front_bare: "absorb_front a f c s = Inr (c', s') \<Longrightarrow> absorb_front a f (bare c) s = Inr (bare c', s')"
  by (auto simp: absorb_front_def bind_res_eq_Inr)

lemma finish_unpack_bare: "finish_unpack a (bare c) s = finish_unpack a c s"
  by (simp add: finish_unpack_def)

lemma unpack_body_bare:
  assumes "unpack_body len a f c s = Inr (v, c', s')" and "v \<noteq> Bad_Len"
  shows "unpack_body len a f (bare c) s = Inr (v, bare c', s')"
proof -
  have len: "\<not> len \<le> 0" using assms by (auto simp: unpack_body_def elim!: bind_resE)
  obtain cur front where g: "get_buf a s = Inr cur" "get_buf f s = Inr front"
    using assms(1) len by (auto simp: unpack_body_def bind_res_eq_Inr)
  let ?need = "int32 (int (size_sub (size_of_int len) (size_sub (readableBytes cur) 4)))"
  show ?thesis
  proof (cases "size_of_int ?need \<le> readableBytes front")
    case False
    then obtain d where "absorb_front a f c s = Inr (d, s')" "v = Continue" "c' = d"
      using assms(1) len g by (auto simp: unpack_body_def Let_def bind_res_eq_Inr)
    then show ?thesis using len g False absorb_front_bare by (simp add: unpack_body_def Let_def)
  next
    case True
    obtain s1 s2 msg s3 fr where st: "move_bytes a f ?need s = Inr s1" "upd_buf a (set_read_index 0) s1 = Inr s2"
        "finish_unpack a c s2 = Inr (msg, s3)" "get_buf f s3 = Inr fr"
      using assms(1) len g True by (auto simp: unpack_body_def Let_def bind_res_eq_Inr)
    let ?run = "\<lambda>c. unpack_body len a f c s"
    have eq: "?run d = bind_res (if readableBytes fr = 0 then bind_res (push_buffer f s3)
        (\<lambda>s. Inr (d\<lparr>cur_unpack := None, unpack_list := tl (unpack_list d), front_unpack := None\<rparr>, s))
        else Inr (d\<lparr>cur_unpack := None\<rparr>, s3)) (\<lambda>(c, s). Inr (Delivered msg, set_update c, s))"
      if "finish_unpack a d s2 = Inr (msg, s3)" for d
      using that len g True st by (simp add: unpack_body_def Let_def)
    show ?thesis
      using assms(1) eq [OF st(3)] eq [of "bare c"] st(3)
      by (cases "readableBytes fr = 0") (auto simp: finish_unpack_bare bind_res_eq_Inr)
  qed
qed

lemma unpack_step_bare:
  assumes "unpack_step m c s = Inr (v, c', s')" and "v \<noteq> Bad_Len"
  shows "unpack_step m (bare c) s = Inr (v, bare c', s')"
proof -
  obtain a c1 s1 where c1: "ensure_cur m c s = Inr (a, c1, s1)"
    using assms by (auto simp: unpack_step_def bind_res_eq_Inr)
  obtain f c2 where c2: "ensure_front c1 = (f, c2)" by (cases "ensure_front c1")
  show ?thesis
    using assms c1 c2 ensure_cur_bare [OF c1] ensure_front_bare [OF c2] unpack_body_bare absorb_front_bare
    by (simp add: unpack_step_def bind_res_eq_Inr Let_def split: if_split_asm) blast+
qed

lemma unpack_step_bad:
  assumes "unpack_step m c s = Inr (v, c', s')" and "v = Bad_Len"
  shows "wait_write_list c' @ wait_pack_list c' = []"
proof -
  have body: "wait_write_list c' @ wait_pack_list c' = []" if "unpack_body len a f d t = Inr (Bad_Len, c', s')" for len a f d t
  proof (cases "len \<le> 0")
    case True
    then show ?thesis
      using that by (auto simp: unpack_body_def force_close_def close_read_def dest!: clear_owns elim!: bind_resE)
  next
    case False
    then show ?thesis
      using that by (auto simp: unpack_body_def Let_def elim!: bind_resE split: if_splits prod.splits)
  qed
  show ?thesis
    using assms body by (auto simp: unpack_step_def Let_def elim!: bind_resE split: if_splits prod.splits)
qed

lemma unpack_loop_bare:
  assumes "unpack_loop m c s = Inr (out, c', s')" and "wait_write_list c' @ wait_pack_list c' \<noteq> []"
  shows "unpack_loop m (bare c) s = Inr (out, bare c', s')"
  using assms
proof (induction m c s arbitrary: out c' s' rule: unpack_loop.induct)
  case (1 m c s)
  show ?case
  proof (cases "unpack_list c = []")
    case True
    with "1.prems" show ?thesis
      by (subst unpack_loop.simps) (auto simp: unpack_loop.simps [of m c s] split: if_splits)
  next
    case False
    then obtain v c1 s1 where st: "unpack_step m c s = Inr (v, c1, s1)"
      using "1.prems"(1) by (auto simp: unpack_loop.simps [of m c s] bind_res_eq_Inr)
    show ?thesis
    proof (cases "v = Bad_Len")
      case True
      then have "c' = c1" using "1.prems"(1) False st by (simp add: unpack_loop.simps [of m c s])
      then show ?thesis using unpack_step_bad [OF st] True "1.prems"(2) by simp
    next
      case good: False
      have b: "unpack_step m (bare c) s = Inr (v, bare c1, s1)" by (rule unpack_step_bare [OF st good])
      show ?thesis
        using "1.prems" "1.IH" [OF False st] False st b good
        by (cases v) (auto simp: unpack_loop.simps [of m c s] unpack_loop.simps [of m "bare c" s])
    qed
  qed
qed


lemma handle_unpack_bare:
  assumes "handle_unpack m c s = Inr (out, c', s')" and "wait_write_list c' @ wait_pack_list c' \<noteq> []"
  shows "handle_unpack m (bare c) s = Inr (out, bare c', s')"
proof (cases "closed c \<or> recv_list c = [] \<and> unpack_list c = []")
  case True
  then show ?thesis
    using assms(1) by (auto simp: handle_unpack_def do_handle_unpack_def Let_def finish_update_def ready_close_def
        split: if_splits) (simp_all add: bare_def force_close_def)
next
  case False
  let ?c = "(finish_update c)\<lparr>unpack_list := unpack_list c @ recv_list c, recv_list := []\<rparr>"
  have "unpack_loop m ?c s = Inr (out, c', s')"
    using assms(1) False by (auto simp: handle_unpack_def do_handle_unpack_def Let_def finish_update_def)
  then have "unpack_loop m (bare ?c) s = Inr (out, bare c', s')" using assms(2) by (rule unpack_loop_bare)
  then show ?thesis
    using False by (auto simp: handle_unpack_def do_handle_unpack_def Let_def) (simp_all add: finish_update_def)
qed

lemma client_ok_bare: "client_ok c s \<Longrightarrow> client_ok (bare c) s"
  by (auto simp: client_ok_def owned_def cur_list_def bare_def)

lemma unpack_result_frame:
  assumes "unpack_result k c s out c' s'"
  shows "close_flag c' = close_flag c \<or> close_flag c' = close_flag (close_read c)"
    and "fd_key c' = fd_key c \<and> message_callback c' = message_callback c"
    and "parse_packet (pend c s) \<noteq> Bad_Length \<Longrightarrow>
       client_ok c' s' \<and> wait_pack_list c' = wait_pack_list c \<and> wait_write_list c' = wait_write_list c"
    and "parse_packet (pend c s) = Bad_Length \<Longrightarrow> store_ok s' \<and> dangling c' s' \<and> lists c' = [] \<and> \<not> can_read c'"
  using assms
  by (cases "parse_packet (pend c s)";
      auto simp: unpack_result_def Let_def force_close_def close_read_def set_update_def lists_def can_read_iff
        FLAG_NOREAD_def bit_or_iff)+

lemma handle_unpack_step:
  assumes conn: "conn_ok c s" and m: "malloc_ok m (bpool s)" and k: "message_callback c = Some k"
    and run: "handle_unpack m c s = Inr (out, c', s')"
  shows "local_step c s c' s' \<and> seen c s [] (map (contents \<circ> snd) out) [] [] c' s'"
proof (cases "closed c \<or> recv_list c = [] \<and> unpack_list c = []")
  case True
  then have "s' = s \<and> out = [] \<and> conn_same c c' \<and> close_flag c' = close_flag c"
    using run by (auto simp: handle_unpack_def do_handle_unpack_def Let_def finish_update_def force_close_def
        conn_same_def lists_def split: if_splits)
  then have c': "s' = s" "out = []" "conn_same c c'" "flags_grow c c'" by (simp_all add: flags_grow_refl)
  show ?thesis using local_step_flags [OF conn c'(3,4)] by (simp add: c'(1,2))
next
  case False
  then have ok: "client_ok c s" "small_packs c s" "plain_flags c" and run': "do_handle_unpack m c s = Inr (out, c', s')"
    using conn run by (auto simp: conn_ok_def spent_def lists_def handle_unpack_def)
  have sok: "store_ok s" using ok(1) by (simp add: client_ok_def)
  let ?c = "(finish_update c)\<lparr>unpack_list := unpack_list c @ recv_list c, recv_list := []\<rparr>"
  have u: "unpack_result k ?c s out c' s'" and so: "same_outside (set (owned c)) s s'"
    using do_handle_unpack_ok [OF ok(1) _ k, of m] m run' by auto
  have fg: "flags_grow c c'"
    using unpack_result_frame(1) [OF u]
    by (intro flags_grow_close_flag) (auto simp: finish_update_def close_read_def)
  have plain: "plain_flags c'" using flags_grow_plain [OF fg ok(3)] .
  have good: "client_ok c' s' \<and> small_packs c' s' \<and> wait_pack_list c' = wait_pack_list c
      \<and> wait_write_list c' = wait_write_list c
      \<and> (\<forall>x \<in> set (wait_write_list c @ wait_pack_list c). bufs s' x = bufs s x)"
    if p: "parse_packet (pend ?c s) \<noteq> Bad_Length"
  proof -
    have w: "client_ok c' s'" "wait_pack_list c' = wait_pack_list c" "wait_write_list c' = wait_write_list c"
      using unpack_result_frame(3) [OF u p] by (simp_all add: finish_update_def)
    have "same_outside (set (owned (bare c))) s s'"
    proof (cases "wait_write_list c' @ wait_pack_list c' = []")
      case True
      then have "bare c = c" by (simp add: bare_def w)
      then show ?thesis using so by simp
    next
      case ne: False
      show ?thesis
        using do_handle_unpack_ok [OF client_ok_bare [OF ok(1)], of m k] m k handle_unpack_bare [OF run ne] False
        by (auto simp: handle_unpack_def)
    qed
    moreover have "set (wait_write_list c @ wait_pack_list c) \<inter> set (owned (bare c)) = {}"
      using ok(1) by (auto simp: client_ok_def owned_def cur_list_def bare_def)
    moreover have "set (wait_write_list c @ wait_pack_list c) \<subseteq> dom (bufs s)"
      using ok(1) by (auto simp: client_ok_def owned_def)
    ultimately have same: "\<forall>x \<in> set (wait_write_list c @ wait_pack_list c). bufs s' x = bufs s x"
      unfolding same_outside_def by blast
    moreover have "small_packs c' s'" using ok(2) same by (auto simp: small_packs_def w view_def)
    ultimately show ?thesis using w by blast
  qed
  have cok: "conn_ok c' s'"
  proof (cases "parse_packet (pend ?c s) = Bad_Length")
    case True
    then have "spent c' s' \<and> store_ok s'"
      using unpack_result_frame(4) [OF u] by (auto simp: spent_def dangling_def cur_list_def)
    then show ?thesis using plain by (simp add: conn_ok_def)
  next
    case False
    then show ?thesis using good plain by (simp add: conn_ok_def client_ok_def)
  qed
  moreover have "set (owned c') \<subseteq> set (owned c) \<union> - dom (bufs s)"
    using handle_unpack_owned(1) [OF run] pops_fresh [OF sok m] by blast
  ultimately have "local_step c s c' s'" using so by (simp add: local_step_def)
  moreover have "seen c s [] (map (contents \<circ> snd) out) [] [] c' s'"
    unfolding seen_def
  proof (intro impI conjI)
    assume cr: "can_read c'"
    show "can_read c" using flags_grow_can_read [OF fg cr] .
    have "parse_packet (pend ?c s) \<noteq> Bad_Length" using unpack_result_frame(4) [OF u] cr by blast
    from good [OF this] show "tx_run c s [] [] c' s'" by (intro tx_others [OF _ _ _ _ tx_done]) auto
    show "rx_run c s [] (map (contents \<circ> snd) out) c' s'" using rx_unpack [OF m run rx_done] by simp
  qed
  ultimately show ?thesis ..
qed

section \<open>Queueing\<close>

lemma push_send_pack_step:
  assumes conn: "conn_ok c s" and m: "malloc_ok m (bpool s)"
    and src: "bufs s src = Some b" "length (contents b) < 2 ^ 31"
    and run: "push_send_pack m src c s = Inr (r, c', s')"
  shows "local_step c s c' s' \<and> seen c s [] [] (if r = 0 then [contents b] else []) [] c' s'"
proof (cases "ready_close c")
  case True
  then have "c' = c" "s' = s" "r = -1" using run by (simp_all add: push_send_pack_def)
  moreover have "conn_same c c" "flags_grow c c" by (simp_all add: conn_same_def flags_grow_refl)
  ultimately show ?thesis using local_step_flags [OF conn] by simp
next
  case False
  then have ok: "client_ok c s" "small_packs c s" using conn_okD [OF conn] by blast+
  obtain a s1 where p: "push_send_pack m src c s =
      Inr (0, set_write_update (c\<lparr>wait_pack_list := wait_pack_list c @ [a]\<rparr>), s1)"
      "a \<notin> dom (bufs s)" "\<forall>x \<in> dom (bufs s). bufs s1 x = bufs s x"
    by (rule push_send_pack_ok [OF ok(1) m src(1) False]) (rule that; assumption)
  then have r: "r = 0" "c' = set_write_update (c\<lparr>wait_pack_list := wait_pack_list c @ [a]\<rparr>)" "s' = s1"
    using run by simp_all
  have res: "client_ok c' s'" "small_packs c' s'"
    using push_send_pack_small [OF ok m src run] by blast+
  have fg: "flags_grow c c'" by (rule flags_grow_refl) (simp add: r set_write_update_def)
  have sub: "set (owned c) \<subseteq> dom (bufs s)" using ok(1) by (simp add: client_ok_def)
  have "conn_ok c' s'"
    using res flags_grow_plain [OF fg conn_okD(4) [OF conn]] by (simp add: conn_ok_def client_ok_def)
  then have "local_step c s c' s'"
    using p(2,3) r(3) by (auto simp: local_step_def same_outside_def r(2) owned_def cur_list_def set_write_update_def)
  moreover have "seen c s [] [] (if r = 0 then [contents b] else []) [] c' s'"
    unfolding seen_def
  proof (intro impI conjI)
    show "can_read c" using conn_okD(7) [OF conn False] .
    have "\<forall>x \<in> set (owned c). bufs s' x = bufs s x" using p(3) r(3) sub by blast
    then have "rx_untouched c s c' s'"
      using res(1) \<open>can_read c\<close> flags_grow_plain [OF fg] flags_grow_ready_close [OF fg]
      by (auto simp: rx_untouched_def r(2) set_write_update_def owned_def)
    then show "rx_run c s [] [] c' s'" by (rule rx_others [OF _ rx_done])
    show "tx_run c s (if r = 0 then [contents b] else []) [] c' s'"
      using tx_push [OF m src run tx_done] by simp
  qed
  ultimately show ?thesis ..
qed

section \<open>Events and jobs\<close>

definition event_reads :: "client \<Rightarrow> 32 word \<Rightarrow> bool" where
  "event_reads c ev \<longleftrightarrow> \<not> ready_close c \<and> EPOLLIN AND ev \<noteq> 0"

definition event_writes :: "client \<Rightarrow> read_result list \<Rightarrow> bool \<Rightarrow> 32 word \<Rightarrow> bool" where
  "event_writes c rs free ev \<longleftrightarrow> \<not> ready_close c \<and> EPOLLOUT AND ev \<noteq> 0 \<and> free
     \<and> (EPOLLIN AND ev \<noteq> 0 \<longrightarrow> stream_end rs = End_EAGAIN)"

lemma watch_write_same:
  "conn_same c (fst (watch_write k c l))" "close_flag (fst (watch_write k c l)) = close_flag c"
  "unsent (fst (watch_write k c l)) s = unsent c s" "owned (fst (watch_write k c l)) = owned c"
  by (auto simp: watch_write_def conn_same_def lists_def unsent_def owned_def cur_list_def Let_def split: option.splits)

lemma handle_event_step:
  assumes conn: "conn_ok c s" and m: "malloc_ok m (bpool s)" and rs: "reads_ok rs"
    and w: "accepts_at_most (length (unsent c s)) w"
    and run: "handle_event m rs free w n ev c s l = Inr (c', s', l')"
  shows "local_step c s c' s' \<and> seen c s (if event_reads c ev then [rs] else []) [] []
    (if event_writes c rs free ev then emitted w (unsent c s) else []) c' s'"
proof (cases "ready_close c")
  case True
  then have "c' = c" "s' = s" using run by (simp_all add: handle_event_def bind_res_eq_Inr)
  moreover have "conn_same c c" "flags_grow c c" by (simp_all add: conn_same_def flags_grow_refl)
  ultimately show ?thesis
    using local_step_flags [OF conn] True by (simp add: event_reads_def event_writes_def)
next
  case False
  then have ok: "client_ok c s" "small_packs c s" "plain_flags c" using conn_okD [OF conn] by blast+
  let ?in = "EPOLLIN AND ev \<noteq> 0" and ?out = "EPOLLOUT AND ev \<noteq> 0"
  obtain r c1 s1 where rd: "(if ?in then read_data m rs c s else Inr (0, c, s)) = Inr (r, c1, s1)"
    and rest: "(if r < 0 then Inr (c1, s1, watch_read 0 c1 l)
       else if ?out then
         let (c, l) = watch_write 0 c1 l in bind_res (write_data free w c s1 l) (\<lambda>(_, c, s, l). Inr (c, s, l))
       else Inr (c1, s1, l)) = Inr (c', s', l')"
    using run False by (auto simp: handle_event_def elim!: bind_resE)
  have read: "local_step c s c1 s1 \<and> seen c s (if ?in then [rs] else []) [] [] [] c1 s1
      \<and> unsent c1 s1 = unsent c s \<and> (r < 0 \<longleftrightarrow> ?in \<and> stream_end rs \<noteq> End_EAGAIN)"
  proof (cases ?in)
    case True
    then show ?thesis using read_data_step [OF ok m rs \<open>\<not> ready_close c\<close>, of r c1 s1] rd by simp
  next
    case no: False
    then have "c1 = c" "s1 = s" "r = 0" using rd by simp_all
    moreover have "conn_same c c" "flags_grow c c" by (simp_all add: conn_same_def flags_grow_refl)
    ultimately show ?thesis using local_step_flags [OF conn] no by simp
  qed
  have reads: "event_reads c ev = ?in" using False by (simp add: event_reads_def)
  show ?thesis
  proof (cases "0 \<le> r \<and> ?out")
    case False
    then have "c' = c1" "s' = s1" "\<not> event_writes c rs free ev"
      using rest read by (auto simp: event_writes_def split: if_splits)
    then show ?thesis using read by (simp add: reads)
  next
    case True
    obtain c2 l2 where c2: "watch_write 0 c1 l = (c2, l2)" by fastforce
    obtain x where wr: "write_data free w c2 s1 l2 = Inr (x, c', s', l')"
      using rest True c2 by (auto elim!: bind_resE)
    have conn1: "conn_ok c1 s1" using read by (simp add: local_step_def)
    have same: "conn_same c1 c2" "flags_grow c1 c2" "unsent c2 s1 = unsent c s"
      using watch_write_same [where c = c1 and k = 0 and l = l] c2 read by (auto intro: flags_grow_refl)
    note two = local_step_flags [OF conn1 same(1,2)]
    have conn2: "conn_ok c2 s1" using two by (simp add: local_step_def)
    have three: "local_step c2 s1 c' s' \<and> seen c2 s1 [] [] [] (if free then emitted w (unsent c s) else []) c' s'"
      using write_data_step [OF conn2 _ wr] w unfolding same(3) by blast
    have ew: "event_writes c rs free ev = free"
      using True read \<open>\<not> ready_close c\<close> by (auto simp: event_writes_def)
    have "local_step c s c' s'"
      using read two(1) three conn_okD(3) [OF conn] conn_okD(3) [OF conn1] local_step_trans by metis
    moreover have "seen c s ((if ?in then [rs] else []) @ [] @ []) ([] @ [] @ []) ([] @ [] @ [])
        ([] @ [] @ (if free then emitted w (unsent c s) else [])) c' s'"
      using read three by (intro seen_trans [OF _ seen_trans [OF two(2)]]) blast+
    ultimately show ?thesis by (simp add: reads ew)
  qed
qed

lemma timeout_send_step:
  assumes conn: "conn_ok c s" and w: "accepts_at_most (length (unsent c s)) w"
    and run: "timeout_send free w c s l = Inr (c', s', l')"
  shows "local_step c s c' s' \<and> seen c s [] [] [] (if \<not> wait_write c \<and> free then emitted w (unsent c s) else []) c' s'"
proof (cases "wait_write c")
  case True
  then have "c' = c" "s' = s" using run by (simp_all add: timeout_send_def)
  moreover have "conn_same c c" "flags_grow c c" by (simp_all add: conn_same_def flags_grow_refl)
  ultimately show ?thesis using local_step_flags [OF conn] True by simp
next
  case False
  then obtain r where "write_data free w c s l = Inr (r, c', s', l')"
    using run by (auto simp: timeout_send_def elim!: bind_resE)
  from write_data_step [OF conn w this] show ?thesis using False by simp
qed

end
