(* ===== verification/Thread_Core.thy ===== *)
theory Thread_Core
  imports Sc_Prelude "HOL-Library.Signed_Division"
begin

text \<open>
  \<open>Thread\<close> (include/Thread.h, src/Thread.cpp): a handle on one POSIX thread.  Functions are
  values of an arbitrary type; what \<open>pthread_create\<close> and \<open>pthread_join\<close> return is an argument,
  and calling a function is recorded.
\<close>

section \<open>State and operations\<close>

record 'f thread =
  t_init :: bool
  func :: "'f option"
  exit_func :: "'f option"
  tname :: string
  tid :: nat
  rtid :: int

definition new_thread :: "'f thread" where
  "new_thread = \<lparr>t_init = True, func = None, exit_func = None, tname = [], tid = 0, rtid = 0\<rparr>"

definition new_thread_func :: "'f \<Rightarrow> string \<Rightarrow> 'f thread" where
  "new_thread_func f name =
     \<lparr>t_init = True, func = Some f, exit_func = None, tname = name, tid = 0, rtid = 0\<rparr>"

definition init_func :: "'f \<Rightarrow> string \<Rightarrow> 'f thread \<Rightarrow> 'f thread" where
  "init_func f name t =
     t\<lparr>func := Some f, exit_func := None, tname := name, tid := 0, rtid := 0, t_init := True\<rparr>"

definition bind_exit_func :: "'f \<Rightarrow> 'f thread \<Rightarrow> 'f thread" where
  "bind_exit_func f t = t\<lparr>exit_func := Some f\<rparr>"

text \<open>The result of \<open>start\<close>, and whether a thread was created.\<close>

definition thread_start :: "nat \<Rightarrow> int \<Rightarrow> 'f thread \<Rightarrow> int \<times> bool \<times> 'f thread" where
  "thread_start new_tid ret t =
     (if \<not> t_init t \<or> tid t \<noteq> 0 then (-1, False, t)
      else if ret \<noteq> 0 then (ret, False, t)
      else (0, True, t\<lparr>tid := new_tid\<rparr>))"

text \<open>The result of \<open>stop\<close>, and the thread it joins.\<close>

definition thread_stop :: "int \<Rightarrow> 'f thread \<Rightarrow> int \<times> nat option \<times> 'f thread" where
  "thread_stop ret t = (if tid t = 0 then (0, None, t) else (ret, Some (tid t), t\<lparr>tid := 0\<rparr>))"

definition handle_exit :: "'f thread \<Rightarrow> 'f list" where
  "handle_exit t = (case exit_func t of None \<Rightarrow> [] | Some f \<Rightarrow> [f])"

definition start_func :: "'f thread \<Rightarrow> fault + 'f list" where
  "start_func t = (case func t of None \<Rightarrow> Inl Bad_Function_Call | Some f \<Rightarrow> Inr [f])"

text \<open>What the new thread does: note its kernel id, run the function, then the exit function.\<close>

definition inner_start :: "int \<Rightarrow> 'f thread \<Rightarrow> fault + ('f list \<times> 'f thread)" where
  "inner_start kernel_id t =
     (let t = t\<lparr>rtid := kernel_id\<rparr> in
      bind_res (start_func t) (\<lambda>calls. Inr (calls @ handle_exit t, t)))"

definition sleep_usec :: "int \<Rightarrow> int \<times> int" where
  "sleep_usec usec = (usec sdiv 1000000, usec smod 1000000 * 1000)"

section \<open>Life of a thread\<close>

datatype 'f thread_event = T_Start nat int | T_Stop int | T_Init 'f string | T_Bind_Exit 'f

text \<open>The object together with the threads that were created and not joined.\<close>

fun thread_step :: "'f thread_event \<Rightarrow> 'f thread \<times> nat list \<Rightarrow> 'f thread \<times> nat list" where
  "thread_step (T_Start new_tid ret) (t, ls) =
     (let (_, created, t') = thread_start new_tid ret t in (t', if created then new_tid # ls else ls))"
| "thread_step (T_Stop ret) (t, ls) =
     (let (_, joined, t') = thread_stop ret t in
      (t', case joined of None \<Rightarrow> ls | Some k \<Rightarrow> remove1 k ls))"
| "thread_step (T_Init f name) (t, ls) = (init_func f name t, ls)"
| "thread_step (T_Bind_Exit f) (t, ls) = (bind_exit_func f t, ls)"

definition thread_run :: "'f thread_event list \<Rightarrow> 'f thread \<times> nat list \<Rightarrow> 'f thread \<times> nat list" where
  "thread_run es s = fold thread_step es s"

text \<open>\<open>pthread_create\<close> never yields the id 0 the class uses for no thread.\<close>

fun proper_event :: "'f thread_event \<Rightarrow> bool" where
  "proper_event (T_Start new_tid ret) = (new_tid \<noteq> 0)"
| "proper_event (T_Init f name) = False"
| "proper_event _ = True"

definition one_thread :: "'f thread \<times> nat list \<Rightarrow> bool" where
  "one_thread = (\<lambda>(t, ls). t_init t \<and> ls = (if tid t = 0 then [] else [tid t]))"

lemma one_thread_step: "one_thread s \<Longrightarrow> proper_event e \<Longrightarrow> one_thread (thread_step e s)"
  by (cases "(e, s)" rule: thread_step.cases)
    (auto simp: one_thread_def thread_start_def thread_stop_def bind_exit_func_def split: if_splits)

text \<open>
  Between two calls of \<open>init_func\<close>, an object stands for at most one thread: after any sequence
  of starts, failed ones included, and stops, the threads created and not joined are exactly the one
  its \<open>tid_\<close> names, or none when that is 0.
\<close>

theorem thread_at_most_one:
  assumes "list_all proper_event es" and "s = (new_thread_func f name, [])"
  shows "one_thread (thread_run es s)"
proof -
  have "one_thread (fold thread_step es s)" if "one_thread s" "list_all proper_event es" for s
    using that by (induction es arbitrary: s) (auto simp: one_thread_step)
  then show ?thesis
    using assms by (simp add: thread_run_def one_thread_def new_thread_func_def)
qed

theorem thread_at_most_one_witness:
  "one_thread (thread_run [T_Start 3 11, T_Start 4 0, T_Start 5 0, T_Stop 0, T_Start 6 0]
     (new_thread_func () ''t'', []))
   \<and> snd (thread_run [T_Start 3 11, T_Start 4 0, T_Start 5 0, T_Stop 0, T_Start 6 0]
     (new_thread_func () ''t'', [])) = [6]"
proof
  show "one_thread (thread_run [T_Start 3 11, T_Start 4 0, T_Start 5 0, T_Stop 0, T_Start 6 0]
     (new_thread_func () ''t'', []))"
    by (rule thread_at_most_one) (simp, rule refl)
qed (simp add: thread_run_def thread_start_def thread_stop_def new_thread_func_def)

text \<open>
  \<open>init_func\<close> on an object whose thread runs forgets the thread: the object can be started again
  beside it, and \<open>stop\<close> will never join the first one.
\<close>

theorem init_func_forgets_thread:
  assumes "one_thread (t, [k])" and "k \<noteq> 0" and "new_tid \<noteq> 0" and "new_tid \<noteq> k"
  shows "thread_run [T_Init f name, T_Start new_tid 0] (t, [k]) =
      ((init_func f name t)\<lparr>tid := new_tid\<rparr>, [new_tid, k]) \<and>
    snd (thread_run [T_Init f name, T_Start new_tid 0, T_Stop 0, T_Stop 0] (t, [k])) = [k]"
  using assms by (auto simp: thread_run_def thread_start_def thread_stop_def init_func_def)

theorem init_func_forgets_thread_witness:
  "snd (thread_run [T_Init () ''b'', T_Start 4 0, T_Stop 0, T_Stop 0]
     ((new_thread_func () ''a'')\<lparr>tid := 3\<rparr>, [3])) = [3]"
  using init_func_forgets_thread [of "(new_thread_func () ''a'')\<lparr>tid := 3\<rparr>" 3 4 "()" "''b''"]
  by (simp add: one_thread_def new_thread_func_def)

text \<open>The sleeping time of a duration that is not negative is split into a proper \<open>timespec\<close>.\<close>

lemma sleep_usec_proper:
  assumes "0 \<le> usec"
  shows "case sleep_usec usec of (sec, nsec) \<Rightarrow>
    0 \<le> sec \<and> 0 \<le> nsec \<and> nsec < 1000000000 \<and> sec * 1000000000 + nsec = usec * 1000"
proof -
  have eq: "usec sdiv 1000000 = usec div 1000000" "usec smod 1000000 = usec mod 1000000"
    using assms by (simp_all add: signed_divide_int_def signed_modulo_int_def sgn_if)
  have "usec div 1000000 * 1000000 + usec mod 1000000 = usec"
    and "0 \<le> usec mod 1000000" "usec mod 1000000 < 1000000" "0 \<le> usec div 1000000"
    using assms by simp_all
  then show ?thesis
    unfolding sleep_usec_def eq prod.case by (intro conjI; linarith)
qed

end
