(* ===== verification/Task_Queue.thy ===== *)
theory Task_Queue
  imports Sc_Prelude
begin

text \<open>
  The contract shared by the work queues of the library: the function lists of \<open>EventManager\<close> and
  \<open>TaskThread\<close>, the task list of \<open>ThreadPool\<close> and the line lists of \<open>Log\<close>.  A producer puts
  one item at the end; a consumer takes some items from the front.  Whatever the order of the two,
  what was taken followed by what is still queued is what was put.
\<close>

datatype 't queue_event = Put 't | Take

fun puts :: "'t queue_event list \<Rightarrow> 't list" where
  "puts [] = []"
| "puts (Put t # es) = t # puts es"
| "puts (Take # es) = puts es"

locale task_queue =
  fixes put :: "'t \<Rightarrow> 's \<Rightarrow> 's"
    and take_some :: "'s \<Rightarrow> 't list \<times> 's"
    and queued :: "'s \<Rightarrow> 't list"
  assumes queued_put: "queued (put t s) = queued s @ [t]"
    and take_front: "fst (take_some s) @ queued (snd (take_some s)) = queued s"
begin

fun queue_run :: "'t queue_event list \<Rightarrow> 's \<Rightarrow> 't list \<times> 's" where
  "queue_run [] s = ([], s)"
| "queue_run (Put t # es) s = queue_run es (put t s)"
| "queue_run (Take # es) s =
     (let (ts, s') = take_some s; (us, s'') = queue_run es s' in (ts @ us, s''))"

lemma queue_run_fifo:
  "fst (queue_run es s) @ queued (snd (queue_run es s)) = queued s @ puts es"
proof (induction es s rule: queue_run.induct)
  case (3 es s)
  obtain ts s' where ts: "take_some s = (ts, s')" by fastforce
  have "ts @ queued s' = queued s" using take_front [of s] ts by simp
  moreover have "fst (queue_run es s') @ queued (snd (queue_run es s')) = queued s' @ puts es"
    using 3 [OF ts [symmetric]] by simp
  ultimately show ?case by (simp add: ts split_beta)
qed (simp_all add: queued_put)

end

text \<open>A consumer that always empties the queue leaves only what was put after its last visit.\<close>

locale draining_queue = task_queue +
  assumes take_all: "queued (snd (take_some s)) = []"
begin

lemma take_everything: "fst (take_some s) = queued s"
  using take_front [of s] take_all [of s] by simp

lemma queue_run_snoc_take:
  "queued (snd (queue_run (es @ [Take]) s)) = []"
proof (induction es s rule: queue_run.induct)
  case (3 es s)
  then show ?case by (cases "take_some s") (simp add: split_beta)
qed (simp_all add: take_all split_beta)

lemma drained_run: "fst (queue_run (es @ [Take]) s) = queued s @ puts es"
proof -
  have "puts (es @ [Take]) = puts es" by (induction es rule: puts.induct) auto
  then show ?thesis
    using queue_run_fifo [of "es @ [Take]" s] queue_run_snoc_take [of es s] by simp
qed

end

end
