(* ===== verification/Event_Manager.thy ===== *)
theory Event_Manager
  imports Event_Handle Thread_Core Task_Queue
begin

text \<open>
  \<open>EventManager\<close> (include/EventManager.h, src/EventManager.cpp): an epoll loop in a thread of its
  own.  Handles are addresses; the state holds the manager's fields, the handle objects, and the
  interest list the kernel keeps for \<open>epoll_fd_\<close>.
\<close>

section \<open>State\<close>

datatype loop_call = Do_Add nat | Do_Update int | Do_Remove int | Other nat

text \<open>
  \<open>recycled\<close> records the handles given to their recycle functions, \<open>others\<close> the foreign functions
  that were run.
\<close>

record event_manager =
  em_tid :: nat
  handler_map :: "int \<rightharpoonup> nat"
  loop_functions_read :: "loop_call list"
  loop_functions_write :: "loop_call list"
  events_size :: nat
  em_quit :: bool
  loop_thread :: "nat thread"
  handles :: "nat \<rightharpoonup> event_handle"
  interest :: "int \<rightharpoonup> nat \<times> 32 word"
  recycled :: "nat list"
  others :: "nat list"

definition MAX_EVENT :: nat where "MAX_EVENT = 1024"

definition new_event_manager :: event_manager where
  "new_event_manager = \<lparr>em_tid = 0, handler_map = Map.empty, loop_functions_read = [],
     loop_functions_write = [], events_size = MAX_EVENT, em_quit = False, loop_thread = new_thread,
     handles = Map.empty, interest = Map.empty, recycled = [], others = []\<rparr>"

section \<open>The kernel\<close>

text \<open>
  \<open>epoll_ctl\<close>: adding fails for a descriptor that is registered already or that the kernel does not
  accept; changing and deleting fail for one that is not registered.  Closing a descriptor deletes it.
\<close>

definition ctl_add :: "bool \<Rightarrow> int \<Rightarrow> nat \<Rightarrow> 32 word \<Rightarrow> event_manager \<Rightarrow> event_manager option" where
  "ctl_add accepted fd p flags w =
     (if accepted \<and> interest w fd = None then Some (w\<lparr>interest := (interest w)(fd \<mapsto> (p, flags))\<rparr>) else None)"

definition ctl_mod :: "int \<Rightarrow> nat \<Rightarrow> 32 word \<Rightarrow> event_manager \<Rightarrow> event_manager option" where
  "ctl_mod fd p flags w =
     (if interest w fd = None then None else Some (w\<lparr>interest := (interest w)(fd \<mapsto> (p, flags))\<rparr>))"

definition ctl_del :: "int \<Rightarrow> event_manager \<Rightarrow> event_manager option" where
  "ctl_del fd w =
     (if interest w fd = None then None else Some (w\<lparr>interest := (interest w)(fd := None)\<rparr>))"

section \<open>Requests from any thread\<close>

definition get_handle :: "int \<Rightarrow> event_manager \<Rightarrow> nat option" where
  "get_handle fd w = handler_map w fd"

definition run_in_handle_loop :: "loop_call \<Rightarrow> event_manager \<Rightarrow> event_manager" where
  "run_in_handle_loop f w = w\<lparr>loop_functions_write := loop_functions_write w @ [f]\<rparr>"

definition update_handle :: "int \<Rightarrow> event_manager \<Rightarrow> event_manager" where
  "update_handle fd w = run_in_handle_loop (Do_Update fd) w"

definition add_handle :: "nat \<Rightarrow> event_manager \<Rightarrow> fault + (int \<times> event_manager)" where
  "add_handle h w =
     (if em_quit w then Inr (-1, w)
      else case handles w h of
        None \<Rightarrow> Inl Use_After_Free
      | Some e \<Rightarrow>
          if h_fd e \<le> 0 then Inr (-2, w) else Inr (0, run_in_handle_loop (Do_Add h) w))"

definition remove_handle :: "int \<Rightarrow> event_manager \<Rightarrow> int \<times> event_manager" where
  "remove_handle fd w =
     (if em_quit w then (-1, w) else if fd \<le> 0 then (-2, w)
      else (0, run_in_handle_loop (Do_Remove fd) w))"

section \<open>The loop thread\<close>

text \<open>\<open>me\<close> is the running thread.\<close>

definition assert_in_thread :: "nat \<Rightarrow> event_manager \<Rightarrow> fault + unit" where
  "assert_in_thread me w = check (em_tid w = me) Assert_Fail"

definition do_update_handle :: "int \<Rightarrow> event_manager \<Rightarrow> fault + (int \<times> event_manager)" where
  "do_update_handle fd w =
     (case get_handle fd w of
        None \<Rightarrow> Inr (-1, w)
      | Some h \<Rightarrow>
          (case handles w h of
             None \<Rightarrow> Inl Use_After_Free
           | Some e \<Rightarrow>
               (case ctl_mod fd h (event_flags e) w of None \<Rightarrow> Inr (-1, w) | Some w \<Rightarrow> Inr (0, w))))"

text \<open>The map is changed first and changed back when the kernel refuses.\<close>

definition do_add_handle :: "nat \<Rightarrow> bool \<Rightarrow> nat \<Rightarrow> event_manager \<Rightarrow> fault + event_manager" where
  "do_add_handle me accepted h w =
     bind_res (assert_in_thread me w) (\<lambda>_.
     case handles w h of
       None \<Rightarrow> Inl Use_After_Free
     | Some e \<Rightarrow>
         (if handler_map w (h_fd e) \<noteq> None then Inr w
          else
            let w = w\<lparr>handler_map := (handler_map w)(h_fd e \<mapsto> h)\<rparr> in
            (case ctl_add accepted (h_fd e) h (event_flags e) w of
               None \<Rightarrow> Inr (w\<lparr>handler_map := (handler_map w)(h_fd e := None)\<rparr>)
             | Some w \<Rightarrow> Inr w)))"

text \<open>
  The recycle function is the pool's \<open>push_handle\<close> throughout the library: it destroys the handle,
  which closes a timer's descriptor.
\<close>

definition recycle :: "nat \<Rightarrow> event_manager \<Rightarrow> fault + event_manager" where
  "recycle h w =
     (case handles w h of
        None \<Rightarrow> Inl Use_After_Free
      | Some e \<Rightarrow>
          (case recycle_self e of
             None \<Rightarrow> Inr w
           | Some _ \<Rightarrow> Inr (w\<lparr>recycled := recycled w @ [h], handles := (handles w)(h := None)\<rparr>)))"

definition do_remove_handle :: "nat \<Rightarrow> int \<Rightarrow> event_manager \<Rightarrow> fault + event_manager" where
  "do_remove_handle me fd w =
     bind_res (assert_in_thread me w) (\<lambda>_.
     case handler_map w fd of
       None \<Rightarrow> Inr w
     | Some h \<Rightarrow>
         let w = w\<lparr>handler_map := (handler_map w)(fd := None)\<rparr> in
         (case ctl_del fd w of None \<Rightarrow> Inr w | Some w \<Rightarrow> recycle h w))"

text \<open>\<open>accepts\<close>: the descriptors the kernel takes.\<close>

fun run_call :: "nat \<Rightarrow> (int \<Rightarrow> bool) \<Rightarrow> loop_call \<Rightarrow> event_manager \<Rightarrow> fault + event_manager" where
  "run_call me accepts (Do_Add h) w =
     do_add_handle me (case handles w h of None \<Rightarrow> False | Some e \<Rightarrow> accepts (h_fd e)) h w"
| "run_call me accepts (Do_Update fd) w = bind_res (do_update_handle fd w) (\<lambda>(_, w). Inr w)"
| "run_call me accepts (Do_Remove fd) w = do_remove_handle me fd w"
| "run_call me accepts (Other k) w = Inr (w\<lparr>others := others w @ [k]\<rparr>)"

definition splice_calls :: "event_manager \<Rightarrow> loop_call list \<times> event_manager" where
  "splice_calls w =
     (loop_functions_read w @ loop_functions_write w,
      w\<lparr>loop_functions_read := [], loop_functions_write := []\<rparr>)"

text \<open>
  The functions run outside the mutex on the read list, which is emptied afterwards; what they post
  goes to the write list.
\<close>

definition loop_func :: "nat \<Rightarrow> (int \<Rightarrow> bool) \<Rightarrow> event_manager \<Rightarrow> fault + event_manager" where
  "loop_func me accepts w =
     (if loop_functions_read w = [] \<and> loop_functions_write w = [] then Inr w
      else
        let (fs, w) = splice_calls w in
        bind_res (each (run_call me accepts) fs (w\<lparr>loop_functions_read := fs\<rparr>)) (\<lambda>w.
        Inr (w\<lparr>loop_functions_read := []\<rparr>)))"

text \<open>The result of \<open>epoll_wait\<close>: at most as many events as asked for.\<close>

datatype wait_result = Ready "(nat \<times> 32 word) list" | Wait_EINTR | Wait_Error

definition loop_io :: "wait_result \<Rightarrow> int \<Rightarrow> event_manager \<Rightarrow> fault + (callback list \<times> event_manager)" where
  "loop_io r now w =
     (case r of
        Wait_EINTR \<Rightarrow> Inr ([], w)
      | Wait_Error \<Rightarrow> Inr ([], w)
      | Ready evs \<Rightarrow>
          bind_res (check (length evs \<le> events_size w) Bad_Environment) (\<lambda>_.
          if evs = [] \<or> em_quit w then Inr ([], w)
          else
            let w = (if length evs = events_size w then w\<lparr>events_size := events_size w * 2\<rparr> else w) in
            gather (\<lambda>(p, flags) w.
              case handles w p of
                None \<Rightarrow> Inl Use_After_Free
              | Some e \<Rightarrow> bind_res (run_func now flags e) (\<lambda>c. Inr (c, w))) evs w))"

definition loop_enter :: "nat \<Rightarrow> event_manager \<Rightarrow> event_manager" where
  "loop_enter me w = w\<lparr>em_tid := me\<rparr>"

text \<open>\<open>start_loop\<close> re-initialises the thread object and starts it; \<open>0\<close> names the loop function.\<close>

definition start_loop :: "nat \<Rightarrow> int \<Rightarrow> event_manager \<Rightarrow> event_manager" where
  "start_loop new_tid ret w =
     (let t = init_func 0 ''event_loop_thread'' (loop_thread w);
          (_, _, t) = thread_start new_tid ret t in
      w\<lparr>em_quit := False, loop_thread := t\<rparr>)"

definition ready_quit :: "event_manager \<Rightarrow> event_manager" where
  "ready_quit w = w\<lparr>em_quit := True, loop_thread := snd (snd (thread_stop 0 (loop_thread w)))\<rparr>"

text \<open>The registered handles are deleted and recycled in the order of the map.\<close>

definition stop_loop :: "event_manager \<Rightarrow> fault + event_manager" where
  "stop_loop w =
     (let w = (if em_quit w then w else ready_quit w) in
      bind_res
        (each (\<lambda>fd w'.
           let w' = (case ctl_del fd w' of None \<Rightarrow> w' | Some w' \<Rightarrow> w') in
           (case handler_map w fd of None \<Rightarrow> Inr w' | Some h \<Rightarrow> recycle h w'))
         (sorted_list_of_set (dom (handler_map w))) w) (\<lambda>w.
      Inr (w\<lparr>handler_map := Map.empty, loop_functions_read := [], loop_functions_write := [],
              events_size := 0\<rparr>)))"

text \<open>The function lists are a queue in the sense of the contract.\<close>

interpretation emq: draining_queue run_in_handle_loop splice_calls
    "\<lambda>w. loop_functions_read w @ loop_functions_write w"
  by unfold_locales (auto simp: run_in_handle_loop_def splice_calls_def)

section \<open>Invariant\<close>

text \<open>A handle that can be registered and called.\<close>

definition bound :: "event_handle \<Rightarrow> bool" where
  "bound e \<longleftrightarrow> 0 < h_fd e \<and> recycle_func e \<noteq> None \<and>
     (if event_type e = IO_EVENT then io_func e \<noteq> None else timer_func e \<noteq> None)"

fun adds :: "loop_call list \<Rightarrow> nat list" where
  "adds [] = []"
| "adds (Do_Add h # fs) = h # adds fs"
| "adds (_ # fs) = adds fs"

text \<open>
  The handler map and the kernel's interest list name the same handles, each under its own
  descriptor; they are alive and bound.  \<open>ps\<close> are the handles about to be registered, each once and
  none of them registered yet.
\<close>

definition table_ok :: "nat list \<Rightarrow> event_manager \<Rightarrow> bool" where
  "table_ok ps w \<longleftrightarrow>
     finite (dom (handler_map w)) \<and>
     (\<forall>fd. map_option fst (interest w fd) = handler_map w fd) \<and>
     (\<forall>fd h. handler_map w fd = Some h \<longrightarrow> (\<exists>e. handles w h = Some e \<and> h_fd e = fd \<and> bound e)) \<and>
     distinct ps \<and> (\<forall>h \<in> set ps. h \<notin> ran (handler_map w) \<and> (\<exists>e. handles w h = Some e \<and> bound e))"

definition em_ok :: "event_manager \<Rightarrow> bool" where
  "em_ok w \<longleftrightarrow> table_ok (adds (loop_functions_read w @ loop_functions_write w)) w"

lemma adds_append: "adds (fs @ gs) = adds fs @ adds gs"
  by (induction fs rule: adds.induct) auto

lemma table_okD:
  assumes "table_ok ps w"
  shows "interest w fd = None \<longleftrightarrow> handler_map w fd = None"
    and "handler_map w fd = Some h \<Longrightarrow> \<exists>e. handles w h = Some e \<and> h_fd e = fd \<and> bound e"
    and "handler_map w fd = Some h \<Longrightarrow> handler_map w fd' = Some h \<Longrightarrow> fd' = fd"
    and "interest w fd = Some (h, x) \<Longrightarrow> handler_map w fd = Some h"
proof -
  have i: "map_option fst (interest w fd) = handler_map w fd" for fd
    using assms by (simp add: table_ok_def)
  show "interest w fd = None \<longleftrightarrow> handler_map w fd = None"
    using i [of fd] by (metis map_option_is_None)
  show "handler_map w fd = Some h \<Longrightarrow> \<exists>e. handles w h = Some e \<and> h_fd e = fd \<and> bound e"
    using assms by (simp add: table_ok_def)
  show "interest w fd = Some (h, x) \<Longrightarrow> handler_map w fd = Some h"
    using i [of fd] by simp
  assume "handler_map w fd = Some h" "handler_map w fd' = Some h"
  with assms show "fd' = fd" unfolding table_ok_def by (metis option.inject)
qed

section \<open>The loop functions keep the table\<close>

text \<open>What a loop function never touches.\<close>

definition same_loop :: "event_manager \<Rightarrow> event_manager \<Rightarrow> bool" where
  "same_loop w w' \<longleftrightarrow> em_tid w' = em_tid w \<and> loop_functions_read w' = loop_functions_read w \<and>
     loop_functions_write w' = loop_functions_write w \<and> events_size w' = events_size w \<and>
     em_quit w' = em_quit w"

lemma same_loop_refl [simp]: "same_loop w w"
  by (simp add: same_loop_def)

lemma same_loop_trans: "same_loop u v \<Longrightarrow> same_loop v w \<Longrightarrow> same_loop u w"
  by (simp add: same_loop_def)

lemma do_add_handle_ok:
  assumes ok: "table_ok (h # ps) w" and me: "em_tid w = me" and e: "handles w h = Some e"
  shows "\<exists>w'. do_add_handle me accepted h w = Inr w' \<and> table_ok ps w' \<and> same_loop w w' \<and>
    handles w' = handles w \<and>
    handler_map w' = (if handler_map w (h_fd e) = None \<and> accepted
                      then (handler_map w)(h_fd e \<mapsto> h) else handler_map w)"
proof (cases "handler_map w (h_fd e) = None \<and> accepted")
  case True
  let ?w = "w\<lparr>handler_map := (handler_map w)(h_fd e \<mapsto> h),
     interest := (interest w)(h_fd e \<mapsto> (h, event_flags e))\<rparr>"
  have "interest w (h_fd e) = None"
    using True table_okD(1) [OF ok, of "h_fd e"] by simp
  then have "do_add_handle me accepted h w = Inr ?w"
    using True me e by (simp add: do_add_handle_def assert_in_thread_def ctl_add_def Let_def)
  moreover have "table_ok ps ?w"
    using ok True e by (auto simp: table_ok_def ran_def)
  ultimately show ?thesis using True by (auto simp: same_loop_def)
next
  case False
  have "do_add_handle me accepted h w = Inr w"
    using False me e table_okD(1) [OF ok, of "h_fd e"]
    by (auto simp: do_add_handle_def assert_in_thread_def ctl_add_def Let_def fun_upd_idem)
  moreover have "table_ok ps w" using ok by (simp add: table_ok_def)
  ultimately show ?thesis using False by (auto simp: same_loop_def)
qed

lemma do_update_handle_ok:
  assumes ok: "table_ok ps w"
  shows "\<exists>r w'. do_update_handle fd w = Inr (r, w') \<and> table_ok ps w' \<and> same_loop w w' \<and>
    handles w' = handles w \<and> handler_map w' = handler_map w \<and>
    (\<forall>h e. handler_map w fd = Some h \<longrightarrow> handles w h = Some e \<longrightarrow>
       r = 0 \<and> interest w' = (interest w)(fd \<mapsto> (h, event_flags e)))"
proof (cases "handler_map w fd")
  case None
  then show ?thesis using ok by (simp add: do_update_handle_def get_handle_def)
next
  case (Some h)
  then obtain e where e: "handles w h = Some e" using table_okD(2) [OF ok] by blast
  have "interest w fd \<noteq> None" using Some table_okD(1) [OF ok, of fd] by simp
  then have "do_update_handle fd w = Inr (0, w\<lparr>interest := (interest w)(fd \<mapsto> (h, event_flags e))\<rparr>)"
    using Some e by (simp add: do_update_handle_def get_handle_def ctl_mod_def)
  moreover have "table_ok ps (w\<lparr>interest := (interest w)(fd \<mapsto> (h, event_flags e))\<rparr>)"
    using ok Some by (auto simp: table_ok_def)
  ultimately show ?thesis using Some e by (auto simp: same_loop_def)
qed

lemma do_remove_handle_ok:
  assumes ok: "table_ok ps w" and me: "em_tid w = me"
  shows "\<exists>w'. do_remove_handle me fd w = Inr w' \<and> table_ok ps w' \<and> same_loop w w' \<and>
    handler_map w' = (handler_map w)(fd := None) \<and>
    (case handler_map w fd of
       None \<Rightarrow> w' = w
     | Some h \<Rightarrow> recycled w' = recycled w @ [h] \<and> handles w' = (handles w)(h := None))"
proof (cases "handler_map w fd")
  case None
  then show ?thesis
    using ok me by (auto simp: do_remove_handle_def assert_in_thread_def fun_upd_idem)
next
  case (Some h)
  obtain e where e: "handles w h = Some e" "h_fd e = fd" "bound e"
    using table_okD(2) [OF ok Some] by blast
  then obtain k where k: "recycle_func e = Some k" by (auto simp: bound_def)
  let ?w = "w\<lparr>handler_map := (handler_map w)(fd := None), interest := (interest w)(fd := None),
     recycled := recycled w @ [h], handles := (handles w)(h := None)\<rparr>"
  obtain x where "interest w fd = Some x" using Some table_okD(1) [OF ok, of fd] by fastforce
  then have "do_remove_handle me fd w = Inr ?w"
    using Some me e k by (simp add: do_remove_handle_def assert_in_thread_def ctl_del_def recycle_def
        recycle_self_def Let_def)
  moreover have "table_ok ps ?w"
  proof -
    have alive: "x \<noteq> h" if "handler_map w fd' = Some x" "fd' \<noteq> fd" for x fd'
      using that Some table_okD(3) [OF ok] by metis
    have "h \<notin> set ps" using ok Some by (auto simp: table_ok_def ran_def)
    then show ?thesis
      using ok alive unfolding table_ok_def by (auto simp: ran_def)
  qed
  ultimately show ?thesis using Some by (auto simp: same_loop_def)
qed

lemma run_call_ok:
  assumes "table_ok (adds [f] @ ps) w" and "em_tid w = me"
  shows "\<exists>w'. run_call me accepts f w = Inr w' \<and> table_ok ps w' \<and> same_loop w w'"
proof (cases f)
  case (Do_Add h)
  with assms(1) obtain e where "handles w h = Some e" by (auto simp: table_ok_def)
  with do_add_handle_ok [of h ps w me e] assms Do_Add show ?thesis by auto
next
  case (Do_Update fd)
  with do_update_handle_ok [of ps w fd] assms show ?thesis by auto
next
  case (Do_Remove fd)
  with do_remove_handle_ok [of ps w me fd] assms show ?thesis by auto
next
  case (Other k)
  with assms show ?thesis by (simp add: table_ok_def same_loop_def)
qed

lemma run_calls_ok:
  assumes "table_ok (adds fs @ ps) w" and "em_tid w = me"
  shows "\<exists>w'. each (run_call me accepts) fs w = Inr w' \<and> table_ok ps w' \<and> same_loop w w'"
  using assms
proof (induction fs arbitrary: w)
  case (Cons f fs)
  have "table_ok (adds [f] @ adds fs @ ps) w"
    using Cons.prems(1) adds_append [of "[f]" fs] by simp
  then obtain w1 where w1: "run_call me accepts f w = Inr w1" "table_ok (adds fs @ ps) w1" "same_loop w w1"
    using run_call_ok Cons.prems(2) by blast
  moreover have "em_tid w1 = me" using w1(3) Cons.prems(2) by (simp add: same_loop_def)
  ultimately obtain w' where "each (run_call me accepts) fs w1 = Inr w'" "table_ok ps w'" "same_loop w1 w'"
    using Cons.IH by blast
  with w1 show ?case using same_loop_trans by fastforce
qed simp

lemma loop_func_ok:
  assumes "em_ok w" and "em_tid w = me"
  shows "\<exists>w'. loop_func me accepts w = Inr w' \<and> em_ok w' \<and> em_tid w' = me \<and>
    loop_functions_read w' = [] \<and> loop_functions_write w' = [] \<and> events_size w' = events_size w
    \<and> em_quit w' = em_quit w"
proof (cases "loop_functions_read w = [] \<and> loop_functions_write w = []")
  case True
  with assms show ?thesis by (simp add: loop_func_def)
next
  case False
  let ?fs = "loop_functions_read w @ loop_functions_write w"
  let ?w = "w\<lparr>loop_functions_write := [], loop_functions_read := ?fs\<rparr>"
  have "table_ok (adds ?fs @ []) ?w" using assms(1) by (simp add: em_ok_def table_ok_def)
  then obtain w1 where w1: "each (run_call me accepts) ?fs ?w = Inr w1" "table_ok [] w1" "same_loop ?w w1"
    using run_calls_ok [of ?fs "[]" ?w me] assms(2) by auto
  then have "loop_func me accepts w = Inr (w1\<lparr>loop_functions_read := []\<rparr>)"
    using False by (auto simp: loop_func_def splice_calls_def)
  moreover have "em_ok (w1\<lparr>loop_functions_read := []\<rparr>)"
    using w1(2,3) by (simp add: em_ok_def table_ok_def same_loop_def)
  ultimately show ?thesis using w1(3) assms(2) by (simp add: same_loop_def)
qed

section \<open>Histories\<close>

text \<open>
  Everything that happens to a manager: a handle is created and bound, posted for registration once
  while it is not registered, its flags change, updates and removals are requested from any thread,
  and the loop thread \<open>me\<close> runs its functions or dispatches events.
\<close>

inductive em_step :: "nat \<Rightarrow> event_manager \<Rightarrow> event_manager \<Rightarrow> bool" for me where
  em_create: "em_step me w (w\<lparr>handles := (handles w)(h \<mapsto> e)\<rparr>)" if "handles w h = None" and "bound e"
| em_add: "em_step me w w'" if "handles w h \<noteq> None" and "\<forall>e. handles w h = Some e \<longrightarrow> bound e"
    and "h \<notin> ran (handler_map w)" and "h \<notin> set (adds (loop_functions_read w @ loop_functions_write w))"
    and "add_handle h w = Inr (r, w')"
| em_flags: "em_step me w (w\<lparr>handles := (handles w)(h \<mapsto> set_event_flag fl e)\<rparr>)" if "handles w h = Some e"
| em_update: "em_step me w (update_handle fd w)"
| em_remove: "em_step me w (snd (remove_handle fd w))"
| em_other: "em_step me w (run_in_handle_loop (Other k) w)"
| em_loop: "em_step me w w'" if "loop_func me accepts w = Inr w'"
| em_io: "em_step me w w'" if "loop_io r now w = Inr (cs, w')"

inductive em_run :: "nat \<Rightarrow> event_manager \<Rightarrow> event_manager \<Rightarrow> bool" for me where
  em_refl: "em_run me w w"
| em_trans: "em_run me u v \<Longrightarrow> em_step me v w \<Longrightarrow> em_run me u w"

fun run_event :: "int \<Rightarrow> event_manager \<Rightarrow> nat \<times> 32 word \<Rightarrow> fault + callback" where
  "run_event now w (p, flags) =
     (case handles w p of None \<Rightarrow> Inl Use_After_Free | Some e \<Rightarrow> run_func now flags e)"

lemma gather_events:
  "gather (\<lambda>(p, flags) w'. case handles w' p of None \<Rightarrow> Inl Use_After_Free
     | Some e \<Rightarrow> bind_res (run_func now flags e) (\<lambda>c. Inr (c, w'))) evs w = Inr (cs, w') \<longleftrightarrow>
   w' = w \<and> list_all2 (\<lambda>ev c. run_event now w ev = Inr c) evs cs"
proof (induction evs arbitrary: cs)
  case (Cons ev evs)
  obtain p flags where ev: "ev = (p, flags)" by (cases ev)
  show ?case
  proof (cases "handles w p")
    case (Some e)
    then show ?thesis
      unfolding gather.simps(2) ev by (auto simp: bind_res_eq_Inr Cons.IH list_all2_Cons1)
  qed (simp add: ev list_all2_Cons1)
qed auto

lemma loop_io_frame:
  assumes "loop_io r now w = Inr (cs, w')"
  shows "w' = w\<lparr>events_size := events_size w'\<rparr>"
  using assms
  by (auto simp: loop_io_def gather_events bind_res_eq_Inr Let_def split: wait_result.splits if_splits)

lemma em_step_ok:
  assumes "em_step me w w'" and "em_ok w" and "em_tid w = me"
  shows "em_ok w' \<and> em_tid w' = me"
  using assms
proof (cases rule: em_step.cases)
  case (em_create h e)
  then show ?thesis using assms(2,3) by (fastforce simp: em_ok_def table_ok_def)
next
  case (em_add h r)
  then show ?thesis
    using assms(2,3)
    by (auto simp: add_handle_def em_ok_def table_ok_def run_in_handle_loop_def adds_append
        split: if_splits option.splits)
next
  case (em_flags h e fl)
  have "bound (set_event_flag fl e) = bound e" "h_fd (set_event_flag fl e) = h_fd e" for e
    by (simp_all add: bound_def set_event_flag_def)
  then show ?thesis using em_flags assms(2,3) by (fastforce simp: em_ok_def table_ok_def)
next
  case (em_loop accepts)
  then show ?thesis using loop_func_ok [OF assms(2,3), of accepts] by auto
next
  case (em_io r now cs)
  then have w': "w' = w\<lparr>events_size := events_size w'\<rparr>" using loop_io_frame by blast
  show ?thesis using assms(2,3) by (subst w', subst (2) w') (simp add: em_ok_def table_ok_def)
qed (use assms(2,3) in \<open>auto simp: update_handle_def remove_handle_def run_in_handle_loop_def em_ok_def
      table_ok_def adds_append\<close>)

lemma em_run_ok: "em_run me w w' \<Longrightarrow> em_ok w \<Longrightarrow> em_tid w = me \<Longrightarrow> em_ok w' \<and> em_tid w' = me"
  by (induction rule: em_run.induct) (auto dest: em_step_ok)

lemma new_event_manager_ok: "em_ok (loop_enter me new_event_manager)" "em_tid (loop_enter me w) = me"
  by (simp_all add: em_ok_def table_ok_def loop_enter_def new_event_manager_def)

section \<open>Properties\<close>

text \<open>
  C11: In every history of a manager the handler map and the kernel's interest list name the same
  handles, each alive, callable and under its own descriptor; the functions posted to the loop never
  fault, whatever the kernel refuses, and after a round of them both lists are empty.
\<close>

theorem event_table_consistent:
  assumes "em_run me (loop_enter me new_event_manager) w"
  shows "(\<forall>fd. map_option fst (interest w fd) = handler_map w fd)
    \<and> (\<forall>fd h. handler_map w fd = Some h \<longrightarrow> (\<exists>e. handles w h = Some e \<and> h_fd e = fd \<and> bound e))
    \<and> (\<forall>accepts. \<exists>w'. loop_func me accepts w = Inr w' \<and> loop_functions_read w' = []
         \<and> loop_functions_write w' = [])"
proof -
  have ok: "em_ok w" "em_tid w = me"
    using em_run_ok [OF assms new_event_manager_ok] by blast+
  moreover have "\<exists>w'. loop_func me accepts w = Inr w' \<and> loop_functions_read w' = []
      \<and> loop_functions_write w' = []" for accepts
    using loop_func_ok [OF ok, of accepts] by blast
  ultimately show ?thesis by (simp add: em_ok_def table_ok_def)
qed

definition sample_handle :: event_handle where
  "sample_handle = set_recycle_func 1 (snd (bind_io 2 5 ''client'' new_handle))"

definition sample_manager :: event_manager where
  "sample_manager = (loop_enter 9 new_event_manager)\<lparr>handles := [100 \<mapsto> sample_handle],
     loop_functions_write := [Do_Add 100]\<rparr>"

lemma sample_handle_bound: "bound sample_handle" "h_fd sample_handle = 5"
    "event_flags sample_handle = EPOLLIN OR EPOLLET" "run_func now fl sample_handle = Inr (IO_Call 2 5 fl)"
  by (simp_all add: sample_handle_def bound_def set_recycle_func_def bind_io_def run_func_def)

lemma sample_manager_run: "em_run 9 (loop_enter 9 new_event_manager) sample_manager"
proof -
  let ?w0 = "loop_enter 9 new_event_manager"
  have "em_step 9 ?w0 (?w0\<lparr>handles := (handles ?w0)(100 \<mapsto> sample_handle)\<rparr>)"
    by (rule em_create) (simp_all add: loop_enter_def new_event_manager_def sample_handle_bound)
  moreover have "em_step 9 (?w0\<lparr>handles := (handles ?w0)(100 \<mapsto> sample_handle)\<rparr>) sample_manager"
    by (rule em_add [where h = 100 and r = 0])
      (simp_all add: sample_manager_def loop_enter_def new_event_manager_def sample_handle_bound
        add_handle_def run_in_handle_loop_def)
  ultimately show ?thesis by (blast intro: em_run.intros)
qed

theorem event_table_consistent_witness:
  "\<exists>w'. loop_func 9 (\<lambda>_. True) sample_manager = Inr w' \<and> loop_functions_write w' = []"
  using event_table_consistent [OF sample_manager_run] by blast

text \<open>
  What one request does.  Once the loop has run a registration posted alone, the handle is in
  the map exactly when its descriptor was free and the kernel accepted it; a refusal leaves the table
  as it was.  A removal takes the descriptor out of the map and recycles its handle exactly once.
\<close>

theorem add_and_remove_effect:
  assumes "em_ok w" and "em_tid w = me" and "loop_functions_read w = []" and "loop_functions_write w = []"
    and "handles w h = Some e" and "bound e" and "h \<notin> ran (handler_map w)" and "\<not> em_quit w"
  shows "\<exists>w1 w2. add_handle h w = Inr (0, w1) \<and> loop_func me accepts w1 = Inr w2
      \<and> handler_map w2 = (if handler_map w (h_fd e) = None \<and> accepts (h_fd e)
                          then (handler_map w)(h_fd e \<mapsto> h) else handler_map w)
    \<and> (\<exists>w3 w4. remove_handle (h_fd e) w2 = (0, w3) \<and> loop_func me accepts w3 = Inr w4
         \<and> handler_map w4 = (handler_map w2)(h_fd e := None)
         \<and> recycled w4 = recycled w2 @ (case handler_map w2 (h_fd e) of None \<Rightarrow> [] | Some g \<Rightarrow> [g]))"
proof -
  let ?w1 = "w\<lparr>loop_functions_write := [Do_Add h]\<rparr>"
  let ?v1 = "w\<lparr>loop_functions_write := [], loop_functions_read := [Do_Add h]\<rparr>"
  have pos: "0 < h_fd e" using assms(6) by (simp add: bound_def)
  have add: "add_handle h w = Inr (0, ?w1)"
    using assms pos by (simp add: add_handle_def run_in_handle_loop_def)
  have "table_ok [h] ?v1"
    using assms by (auto simp: em_ok_def table_ok_def)
  then obtain v2 where v2: "do_add_handle me (accepts (h_fd e)) h ?v1 = Inr v2" "table_ok [] v2" "same_loop ?v1 v2"
      "handler_map v2 = (if handler_map w (h_fd e) = None \<and> accepts (h_fd e)
                         then (handler_map w)(h_fd e \<mapsto> h) else handler_map w)"
    using do_add_handle_ok [of h "[]" ?v1 me e "accepts (h_fd e)"] assms by auto
  let ?w2 = "v2\<lparr>loop_functions_read := []\<rparr>"
  have loop1: "loop_func me accepts ?w1 = Inr ?w2"
    using v2(1) assms(3-5) by (simp add: loop_func_def splice_calls_def)
  have frame2: "em_tid ?w2 = me" "loop_functions_write ?w2 = []" "\<not> em_quit ?w2" "table_ok [] ?w2"
    using v2(2,3) assms(2,8) by (auto simp: same_loop_def table_ok_def)
  let ?w3 = "?w2\<lparr>loop_functions_write := [Do_Remove (h_fd e)]\<rparr>"
  let ?v3 = "?w2\<lparr>loop_functions_write := [], loop_functions_read := [Do_Remove (h_fd e)]\<rparr>"
  have rem: "remove_handle (h_fd e) ?w2 = (0, ?w3)"
    using frame2 pos by (simp add: remove_handle_def run_in_handle_loop_def)
  have "table_ok [] ?v3" "em_tid ?v3 = me"
    using frame2 by (auto simp: table_ok_def)
  then obtain v4 where v4: "do_remove_handle me (h_fd e) ?v3 = Inr v4"
      "handler_map v4 = (handler_map ?v3)(h_fd e := None)"
      "case handler_map ?v3 (h_fd e) of None \<Rightarrow> v4 = ?v3
         | Some g \<Rightarrow> recycled v4 = recycled ?v3 @ [g] \<and> handles v4 = (handles ?v3)(g := None)"
    using do_remove_handle_ok [of "[]" ?v3 me "h_fd e"] by blast
  have loop2: "loop_func me accepts ?w3 = Inr (v4\<lparr>loop_functions_read := []\<rparr>)"
    using v4(1) by (simp add: loop_func_def splice_calls_def)
  have "recycled v4 = recycled ?w2 @ (case handler_map ?w2 (h_fd e) of None \<Rightarrow> [] | Some g \<Rightarrow> [g])"
    using v4(3) by (auto split: option.splits)
  then have second: "\<exists>w3 w4. remove_handle (h_fd e) ?w2 = (0, w3) \<and> loop_func me accepts w3 = Inr w4
         \<and> handler_map w4 = (handler_map ?w2)(h_fd e := None)
         \<and> recycled w4 = recycled ?w2 @ (case handler_map ?w2 (h_fd e) of None \<Rightarrow> [] | Some g \<Rightarrow> [g])"
    using rem loop2 v4(2) by (intro exI [of _ ?w3] exI [of _ "v4\<lparr>loop_functions_read := []\<rparr>"]) simp
  have "handler_map ?w2 = (if handler_map w (h_fd e) = None \<and> accepts (h_fd e)
                         then (handler_map w)(h_fd e \<mapsto> h) else handler_map w)"
    using v2(4) by simp
  with add loop1 second show ?thesis by blast
qed

theorem add_and_remove_effect_witness:
  "\<exists>w1 w2 w3 w4. add_handle 100 (sample_manager\<lparr>loop_functions_write := []\<rparr>) = Inr (0, w1)
     \<and> loop_func 9 (\<lambda>_. True) w1 = Inr w2 \<and> handler_map w2 = [5 \<mapsto> 100]
     \<and> remove_handle 5 w2 = (0, w3) \<and> loop_func 9 (\<lambda>_. True) w3 = Inr w4
     \<and> handler_map w4 = Map.empty \<and> recycled w4 = recycled w2 @ [100]"
proof -
  let ?w = "sample_manager\<lparr>loop_functions_write := []\<rparr>"
  have ok: "em_ok ?w" "em_tid ?w = 9"
    using em_run_ok [OF sample_manager_run new_event_manager_ok]
    by (auto simp: em_ok_def table_ok_def sample_manager_def loop_enter_def new_event_manager_def)
  have w: "loop_functions_read ?w = []" "loop_functions_write ?w = []" "handles ?w 100 = Some sample_handle"
      "100 \<notin> ran (handler_map ?w)" "\<not> em_quit ?w" "handler_map ?w = Map.empty"
    by (simp_all add: sample_manager_def loop_enter_def new_event_manager_def)
  obtain w1 w2 w3 w4 where r: "add_handle 100 ?w = Inr (0, w1)" "loop_func 9 (\<lambda>_. True) w1 = Inr w2"
      "handler_map w2 = [5 \<mapsto> 100]" "remove_handle 5 w2 = (0, w3)" "loop_func 9 (\<lambda>_. True) w3 = Inr w4"
      "handler_map w4 = (handler_map w2)(5 := None)"
      "recycled w4 = recycled w2 @ (case handler_map w2 5 of None \<Rightarrow> [] | Some g \<Rightarrow> [g])"
    using add_and_remove_effect [OF ok w(1-3) sample_handle_bound(1) w(4,5), of "\<lambda>_. True"]
    unfolding sample_handle_bound w(6) by auto
  then show ?thesis by (intro exI [of _ w1] exI [of _ w2] exI [of _ w3] exI [of _ w4]) auto
qed

end
