(* ===== verification/Event_Dispatch.thy ===== *)
theory Event_Dispatch
  imports Event_Manager
begin

text \<open>
  Dispatching and stopping an \<open>EventManager\<close>: which handler an event of the kernel reaches, what
  \<open>stop_loop\<close> gives back, and what is left of a loop that is started again afterwards.
\<close>

section \<open>Dispatch\<close>

text \<open>The call a bound handle makes.\<close>

definition callback_of :: "int \<Rightarrow> event_handle \<Rightarrow> 32 word \<Rightarrow> callback" where
  "callback_of now e flags =
     (if event_type e = IO_EVENT then IO_Call (the (io_func e)) (h_fd e) flags
      else Timer_Call (the (timer_func e)) now)"

lemma bound_run_func: "bound e \<Longrightarrow> run_func now flags e = Inr (callback_of now e flags)"
  by (auto simp: bound_def run_func_def callback_of_def split: if_splits)

text \<open>The kernel reports the pointers it was given with the descriptors, and no others.\<close>

definition reported :: "event_manager \<Rightarrow> nat \<times> 32 word \<Rightarrow> bool" where
  "reported w = (\<lambda>(p, flags). \<exists>fd. map_option fst (interest w fd) = Some p)"

lemma reported_run:
  assumes "table_ok ps w" and "reported w ev"
  shows "run_event now w ev = Inr (callback_of now (the (handles w (fst ev))) (snd ev))"
proof -
  obtain p flags where ev: "ev = (p, flags)" by (cases ev)
  obtain fd x where "interest w fd = Some (p, x)" using assms(2) by (auto simp: reported_def ev)
  then obtain e where "handles w p = Some e" "bound e"
    using table_okD(2) [OF assms(1) table_okD(4) [OF assms(1)]] by blast
  then show ?thesis by (simp add: ev bound_run_func)
qed

text \<open>
  C27: Events that concern registered descriptors are dispatched without a fault: each one, in the
  order of the kernel, calls the function bound in its own handle, with the handle's descriptor and
  the reported flags, and the event vector doubles exactly when it was filled.
\<close>

theorem dispatch_reaches_handlers:
  assumes "em_ok w" and "length evs \<le> events_size w" and "\<not> em_quit w" and "list_all (reported w) evs"
  shows "\<exists>w'. loop_io (Ready evs) now w
      = Inr (map (\<lambda>(p, flags). callback_of now (the (handles w p)) flags) evs, w')
    \<and> em_ok w' \<and> handler_map w' = handler_map w
    \<and> events_size w' = (if evs \<noteq> [] \<and> length evs = events_size w then 2 * events_size w else events_size w)"
proof -
  let ?cs = "map (\<lambda>(p, flags). callback_of now (the (handles w p)) flags) evs"
  let ?w = "if evs \<noteq> [] \<and> length evs = events_size w then w\<lparr>events_size := events_size w * 2\<rparr> else w"
  have t: "table_ok (adds (loop_functions_read w @ loop_functions_write w)) w"
    using assms(1) by (simp add: em_ok_def)
  have same: "run_event now ?w ev = run_event now w ev" for ev
    by (cases ev) simp
  have "list_all2 (\<lambda>ev c. run_event now ?w ev = Inr c) evs ?cs"
    unfolding same using assms(4) reported_run [OF t, of _ now]
    by (auto simp: list_all2_conv_all_nth list_all_length split_beta)
  then have "loop_io (Ready evs) now w = Inr (?cs, ?w)"
    using assms(2,3) by (auto simp: loop_io_def Let_def gather_events)
  moreover have "em_ok ?w" using assms(1) by (simp add: em_ok_def table_ok_def)
  ultimately show ?thesis by (intro exI [of _ ?w]) simp
qed

definition registered_manager :: event_manager where
  "registered_manager = (loop_enter 9 new_event_manager)\<lparr>handles := [100 \<mapsto> sample_handle],
     handler_map := [5 \<mapsto> 100], interest := [5 \<mapsto> (100, EPOLLIN OR EPOLLET)]\<rparr>"

lemma registered_manager_ok: "em_ok registered_manager"
  by (auto simp: registered_manager_def em_ok_def table_ok_def loop_enter_def new_event_manager_def
      sample_handle_bound)

theorem dispatch_reaches_handlers_witness:
  "\<exists>w'. loop_io (Ready [(100, EPOLLIN)]) 7 registered_manager = Inr ([IO_Call 2 5 EPOLLIN], w')"
proof -
  have e: "callback_of 7 sample_handle EPOLLIN = IO_Call 2 5 EPOLLIN"
    using bound_run_func [OF sample_handle_bound(1), of 7 EPOLLIN] sample_handle_bound(4) by simp
  have w: "events_size registered_manager = 1024" "\<not> em_quit registered_manager"
      "reported registered_manager (100, EPOLLIN)" "handles registered_manager 100 = Some sample_handle"
    by (auto simp: registered_manager_def loop_enter_def new_event_manager_def MAX_EVENT_def reported_def)
  show ?thesis
    using dispatch_reaches_handlers [OF registered_manager_ok, of "[(100, EPOLLIN)]" 7] w by (auto simp: e)
qed

section \<open>Stopping\<close>

lemma stop_recycles:
  assumes "table_ok [] w" and "distinct fds" and "set fds \<subseteq> dom (handler_map w)"
    and "\<forall>fd \<in> set fds. \<exists>h e. handler_map w fd = Some h \<and> handles v h = Some e \<and> bound e"
  shows "\<exists>v'. each (\<lambda>fd w'.
      let w' = (case ctl_del fd w' of None \<Rightarrow> w' | Some w' \<Rightarrow> w') in
      (case handler_map w fd of None \<Rightarrow> Inr w' | Some h \<Rightarrow> recycle h w')) fds v = Inr v'
    \<and> recycled v' = recycled v @ map (\<lambda>fd. the (handler_map w fd)) fds
    \<and> em_quit v' = em_quit v \<and> interest v' = (interest v) |` (- set fds) \<and> loop_thread v' = loop_thread v
    \<and> (\<forall>h. handles v' h = (if h \<in> (\<lambda>fd. the (handler_map w fd)) ` set fds then None else handles v h))"
  using assms(2-)
proof (induction fds arbitrary: v)
  case Nil
  then show ?case by (auto simp: restrict_map_def)
next
  case (Cons fd fds)
  obtain h e where h: "handler_map w fd = Some h" "handles v h = Some e" "bound e"
    using Cons.prems(3) by auto
  obtain k where k: "recycle_func e = Some k" using h(3) by (auto simp: bound_def)
  let ?v = "v\<lparr>interest := (interest v)(fd := None), recycled := recycled v @ [h],
     handles := (handles v)(h := None)\<rparr>"
  have step: "(let w' = (case ctl_del fd v of None \<Rightarrow> v | Some w' \<Rightarrow> w') in
      (case handler_map w fd of None \<Rightarrow> Inr w' | Some h \<Rightarrow> recycle h w')) = Inr ?v"
    using h k by (auto simp: ctl_del_def recycle_def recycle_self_def fun_upd_idem)
  have alive: "\<forall>fd' \<in> set fds. \<exists>h e. handler_map w fd' = Some h \<and> handles ?v h = Some e \<and> bound e"
  proof
    fix fd' assume fd': "fd' \<in> set fds"
    then obtain g e' where g: "handler_map w fd' = Some g" "handles v g = Some e'" "bound e'"
      using Cons.prems(3) by auto
    have "g \<noteq> h" using table_okD(3) [OF assms(1), of fd h fd'] h(1) g(1) Cons.prems(1) fd' by auto
    with g show "\<exists>h e. handler_map w fd' = Some h \<and> handles ?v h = Some e \<and> bound e" by auto
  qed
  show ?case
    using Cons.IH [of ?v, OF _ _ alive] Cons.prems step h(1)
    by (auto simp: restrict_map_def fun_eq_iff)
qed


lemma stop_loop_ok:
  assumes "em_ok w"
  shows "\<exists>w'. stop_loop w = Inr w' \<and> em_quit w' \<and> events_size w' = 0 \<and> handler_map w' = Map.empty
    \<and> interest w' = Map.empty \<and> loop_functions_read w' = [] \<and> loop_functions_write w' = []
    \<and> recycled w' = recycled w @ map (\<lambda>fd. the (handler_map w fd)) (sorted_list_of_set (dom (handler_map w)))
    \<and> (\<forall>h. handles w' h = (if h \<in> ran (handler_map w) then None else handles w h))"
proof -
  let ?v = "if em_quit w then w else ready_quit w"
  let ?fds = "sorted_list_of_set (dom (handler_map w))"
  have v: "handler_map ?v = handler_map w" "handles ?v = handles w" "recycled ?v = recycled w"
      "interest ?v = interest w" "em_quit ?v"
    by (simp_all add: ready_quit_def)
  have t: "table_ok [] w" using assms by (auto simp: em_ok_def table_ok_def)
  then have fds: "set ?fds = dom (handler_map w)" by (simp add: table_ok_def)
  have tv: "table_ok [] ?v" using t by (simp add: table_ok_def v)
  have "\<forall>fd \<in> set ?fds. \<exists>h e. handler_map ?v fd = Some h \<and> handles ?v h = Some e \<and> bound e"
    unfolding fds v using table_okD(2) [OF t] by blast
  then obtain v' where v': "each (\<lambda>fd w'.
      let w' = (case ctl_del fd w' of None \<Rightarrow> w' | Some w' \<Rightarrow> w') in
      (case handler_map ?v fd of None \<Rightarrow> Inr w' | Some h \<Rightarrow> recycle h w')) ?fds ?v = Inr v'"
      "recycled v' = recycled w @ map (\<lambda>fd. the (handler_map w fd)) ?fds"
      "em_quit v'" "interest v' = (interest w) |` (- set ?fds)"
      "\<And>h. handles v' h = (if h \<in> (\<lambda>fd. the (handler_map w fd)) ` set ?fds then None else handles w h)"
    using stop_recycles [OF tv, of ?fds ?v] v fds by auto
  have ran: "(\<lambda>fd. the (handler_map w fd)) ` set ?fds = ran (handler_map w)"
    unfolding fds by (force simp: ran_def image_iff)
  have int: "(interest w) |` (- set ?fds) = Map.empty"
    unfolding fds using table_okD(1) [OF t] by (auto simp: restrict_map_def fun_eq_iff domIff)
  show ?thesis
    unfolding stop_loop_def Let_def v using v' v by (simp add: Let_def ran int)
qed

lemma em_step_deaf:
  assumes "em_step me w w'" and "events_size w = 0" and "em_ok w" and "em_tid w = me"
  shows "events_size w' = 0"
  using assms
proof (cases rule: em_step.cases)
  case (em_loop accepts)
  then show ?thesis using loop_func_ok [OF assms(3,4), of accepts] assms(2) by auto
next
  case (em_io r now cs)
  then show ?thesis
    using assms(2)
    by (auto simp: loop_io_def gather_events bind_res_eq_Inr check_eq_Inr Let_def split: wait_result.splits if_splits)
qed (use assms(2) in \<open>auto simp: add_handle_def remove_handle_def update_handle_def run_in_handle_loop_def
    split: if_splits option.splits\<close>)

lemma em_run_deaf:
  "em_run me w w' \<Longrightarrow> events_size w = 0 \<Longrightarrow> em_ok w \<Longrightarrow> em_tid w = me \<Longrightarrow> events_size w' = 0"
  by (induction rule: em_run.induct) (auto dest: em_step_deaf em_run_ok)

section \<open>Properties\<close>

text \<open>
  \<open>stop_loop\<close> takes every registered descriptor out of the map and out of the kernel's list, and
  gives every registered handle to its recycle function exactly once, in the order of the
  descriptors; handles that are not registered are left alone.
\<close>

theorem stop_loop_recycles:
  assumes "em_ok w"
  shows "\<exists>w'. stop_loop w = Inr w' \<and> em_quit w' \<and> handler_map w' = Map.empty \<and> interest w' = Map.empty
    \<and> recycled w' = recycled w @ map (\<lambda>fd. the (handler_map w fd)) (sorted_list_of_set (dom (handler_map w)))
    \<and> (\<forall>h. handles w' h = (if h \<in> ran (handler_map w) then None else handles w h))"
  using stop_loop_ok [OF assms] by blast

theorem stop_loop_recycles_witness:
  "\<exists>w'. stop_loop registered_manager = Inr w' \<and> recycled w' = [100] \<and> handles w' = Map.empty"
proof -
  have "dom (handler_map registered_manager) = {5}" "recycled registered_manager = []"
      "handler_map registered_manager 5 = Some 100" "ran (handler_map registered_manager) = {100}"
      "handles registered_manager = [100 \<mapsto> sample_handle]"
    by (auto simp: registered_manager_def loop_enter_def new_event_manager_def ran_def)
  then show ?thesis
    using stop_loop_recycles [OF registered_manager_ok] by (auto simp: fun_eq_iff)
qed

text \<open>
  A loop that was stopped and started again never dispatches an event: \<open>stop_loop\<close> leaves the
  event vector empty and nothing makes it grow again, so the kernel is always asked for no events,
  whatever is registered afterwards.
\<close>

theorem restarted_loop_is_deaf:
  assumes "em_ok w" and "stop_loop w = Inr w1"
    and "em_run me (loop_enter me (start_loop new_tid ret w1)) w2" and "loop_io r now w2 = Inr (cs, w3)"
  shows "cs = []"
proof -
  let ?w = "loop_enter me (start_loop new_tid ret w1)"
  have w1: "events_size w1 = 0" "handler_map w1 = Map.empty" "interest w1 = Map.empty"
      "loop_functions_read w1 = []" "loop_functions_write w1 = []"
    using stop_loop_ok [OF assms(1)] assms(2) by auto
  have "em_ok ?w" "events_size ?w = 0" "em_tid ?w = me"
    by (simp_all add: em_ok_def table_ok_def loop_enter_def start_loop_def w1 split_beta Let_def)
  then have "events_size w2 = 0" using em_run_deaf [OF assms(3)] by simp
  then show ?thesis
    using assms(4)
    by (auto simp: loop_io_def gather_events bind_res_eq_Inr check_eq_Inr Let_def split: wait_result.splits if_splits)
qed

theorem restarted_loop_is_deaf_witness:
  "\<exists>w1. stop_loop registered_manager = Inr w1 \<and>
     (\<forall>r cs w3. loop_io r 7 (loop_enter 8 (start_loop 4 0 w1)) \<noteq> Inr (IO_Call 2 5 EPOLLIN # cs, w3))"
proof -
  obtain w1 where w1: "stop_loop registered_manager = Inr w1"
    using stop_loop_ok [OF registered_manager_ok] by blast
  show ?thesis
    using restarted_loop_is_deaf [OF registered_manager_ok w1 em_refl, where now = 7] w1 by blast
qed

end
