(* ===== verification/Task_Thread.thy ===== *)
theory Task_Thread
  imports Task_Queue
begin

text \<open>
  \<open>TaskThread\<close> (include/TaskThread.h, src/TaskThread.cpp): one worker thread with a double
  buffered list of functions.  The steps below are the stretches of code that run without another
  thread being able to interfere: a critical section of \<open>func_mutex_\<close>, a test of \<open>running_\<close>, one
  task.
\<close>

section \<open>State and steps\<close>

text \<open>
  Where the worker is: before \<open>while(running_)\<close>, holding the mutex just before \<open>wait\<close>, waiting,
  woken and about to splice, running the tasks of the read list (so many done), or gone.  \<open>None\<close>
  is the phase without a thread.  \<open>ran_tasks\<close> records the tasks that were run.
\<close>

datatype worker_phase = Checking | Locked | Waiting | Woken | Executing nat | Exited

record 't task_thread =
  t_running :: bool
  read_list :: "'t list"
  write_list :: "'t list"
  t_phase :: "worker_phase option"
  ran_tasks :: "'t list"

definition new_task_thread :: "'t task_thread" where
  "new_task_thread = \<lparr>t_running = False, read_list = [], write_list = [], t_phase = None, ran_tasks = []\<rparr>"

definition wakeup :: "'t task_thread \<Rightarrow> 't task_thread" where
  "wakeup s = (if t_phase s = Some Waiting then s\<lparr>t_phase := Some Woken\<rparr> else s)"

definition tt_start :: "'t task_thread \<Rightarrow> 't task_thread" where
  "tt_start s = (if t_running s then s else s\<lparr>t_running := True, t_phase := Some Checking\<rparr>)"

definition run_in_thread :: "'t \<Rightarrow> 't task_thread \<Rightarrow> 't task_thread" where
  "run_in_thread f s = wakeup (s\<lparr>write_list := write_list s @ [f]\<rparr>)"

text \<open>
  \<open>stop\<close> up to the join, and the join, which returns once the worker has gone.
\<close>

definition stop_request :: "'t task_thread \<Rightarrow> 't task_thread" where
  "stop_request s = (if \<not> t_running s then s else wakeup (s\<lparr>t_running := False\<rparr>))"

definition stop_join :: "'t task_thread \<Rightarrow> 't task_thread option" where
  "stop_join s = (if t_phase s = Some Exited then Some (s\<lparr>t_phase := None\<rparr>) else None)"

text \<open>One step of \<open>loop\<close>; none when the worker waits or has gone.\<close>

definition loop_step :: "'t task_thread \<Rightarrow> 't task_thread option" where
  "loop_step s =
     (case t_phase s of
        Some Checking \<Rightarrow> Some (s\<lparr>t_phase := Some (if t_running s then Locked else Exited)\<rparr>)
      | Some Locked \<Rightarrow> Some (s\<lparr>t_phase := Some Waiting\<rparr>)
      | Some Woken \<Rightarrow>
          let fs = read_list s @ write_list s in
          Some (s\<lparr>read_list := fs, write_list := [],
                  t_phase := Some (if t_running s \<and> fs \<noteq> [] then Executing 0 else Checking)\<rparr>)
      | Some (Executing n) \<Rightarrow>
          if n < length (read_list s)
          then Some (s\<lparr>ran_tasks := ran_tasks s @ [read_list s ! n], t_phase := Some (Executing (n + 1))\<rparr>)
          else Some (s\<lparr>read_list := [], t_phase := Some Checking\<rparr>)
      | _ \<Rightarrow> None)"

datatype 't tt_event = Start | Post 't | Stop | Join | Spurious | Loop

text \<open>
  A producer needs the mutex, which the worker holds only between its lock and its wait.  A wait may
  return without a notification.
\<close>

inductive tt_step :: "'t task_thread \<Rightarrow> 't tt_event \<Rightarrow> 't task_thread \<Rightarrow> bool" where
  step_start: "tt_step s Start (tt_start s)" if "t_running s \<or> t_phase s = None"
| step_post: "tt_step s (Post f) (run_in_thread f s)" if "t_phase s \<noteq> Some Locked"
| step_stop: "tt_step s Stop (stop_request s)"
| step_join: "tt_step s Join s'" if "\<not> t_running s" and "stop_join s = Some s'"
| step_spurious: "tt_step s Spurious (s\<lparr>t_phase := Some Woken\<rparr>)" if "t_phase s = Some Waiting"
| step_loop: "tt_step s Loop s'" if "loop_step s = Some s'"

inductive tt_run :: "'t task_thread \<Rightarrow> 't tt_event list \<Rightarrow> 't task_thread \<Rightarrow> bool" where
  run_nil: "tt_run s [] s"
| run_cons: "tt_step s e s1 \<Longrightarrow> tt_run s1 es s' \<Longrightarrow> tt_run s (e # es) s'"

inductive_cases tt_stepE: "tt_step s e s'"

fun posted :: "'t tt_event list \<Rightarrow> 't list" where
  "posted [] = []"
| "posted (Post f # es) = f # posted es"
| "posted (_ # es) = posted es"

section \<open>Every task at most once, in order\<close>

text \<open>What was posted and not yet run.\<close>

definition backlog :: "'t task_thread \<Rightarrow> 't list" where
  "backlog s =
     (case t_phase s of Some (Executing n) \<Rightarrow> drop n (read_list s) | _ \<Rightarrow> read_list s) @ write_list s"

lemma backlog_wakeup [simp]:
  "backlog (wakeup s) = backlog s" "ran_tasks (wakeup s) = ran_tasks s" "t_running (wakeup s) = t_running s"
  by (simp_all add: wakeup_def backlog_def)

lemma backlog_run_in_thread: "backlog (run_in_thread f s) = backlog s @ [f]"
  by (simp add: run_in_thread_def) (simp add: backlog_def split: option.split worker_phase.split)

lemma loop_step_backlog:
  "loop_step s = Some s' \<Longrightarrow> ran_tasks s' @ backlog s' = ran_tasks s @ backlog s"
  by (auto simp: loop_step_def backlog_def Let_def Cons_nth_drop_Suc split: option.splits worker_phase.splits if_splits)

lemma tt_step_backlog:
  assumes "tt_step s e s'"
  shows "ran_tasks s' @ backlog s' = ran_tasks s @ backlog s @ posted [e]"
  using assms
  by (cases rule: tt_step.cases)
    (auto simp: backlog_run_in_thread run_in_thread_def tt_start_def stop_request_def stop_join_def
      loop_step_backlog split: if_splits, auto simp: backlog_def split: option.split worker_phase.split)

lemma posted_append: "posted (es @ fs) = posted es @ posted fs"
  by (induction es rule: posted.induct) auto

lemma tt_run_backlog:
  "tt_run s es s' \<Longrightarrow> ran_tasks s' @ backlog s' = ran_tasks s @ backlog s @ posted es"
proof (induction rule: tt_run.induct)
  case (run_cons s e s1 es s')
  then show ?case
    using tt_step_backlog [OF run_cons.hyps(1)] posted_append [of "[e]" es] by simp
qed simp

text \<open>The two lists as a queue: posting, and the splice that empties the write list.\<close>

definition splice_lists :: "'t task_thread \<Rightarrow> 't list \<times> 't task_thread" where
  "splice_lists s = (read_list s @ write_list s, s\<lparr>read_list := [], write_list := []\<rparr>)"

interpretation ttq: draining_queue run_in_thread splice_lists "\<lambda>s. read_list s @ write_list s"
  by unfold_locales (auto simp: run_in_thread_def wakeup_def splice_lists_def)

section \<open>Wake-ups\<close>

text \<open>The worker alone, as far as it gets without anybody else.\<close>

inductive alone :: "'t task_thread \<Rightarrow> 't task_thread \<Rightarrow> bool" where
  alone_refl: "alone s s"
| alone_step: "loop_step s = Some s1 \<Longrightarrow> alone s1 s' \<Longrightarrow> alone s s'"

lemma alone_trans: "alone s t \<Longrightarrow> alone t u \<Longrightarrow> alone s u"
  by (induction rule: alone.induct) (auto intro: alone.intros)

text \<open>Running a batch.\<close>

lemma alone_batch:
  assumes "t_phase s = Some (Executing n)" and "n \<le> length (read_list s)"
  shows "alone s (s\<lparr>ran_tasks := ran_tasks s @ drop n (read_list s), read_list := [], t_phase := Some Checking\<rparr>)"
  using assms
proof (induction "length (read_list s) - n" arbitrary: s n)
  case 0
  then show ?case
    by (intro alone_step [OF _ alone_refl]) (simp add: loop_step_def)
next
  case (Suc k)
  then have n: "n < length (read_list s)" by linarith
  let ?s1 = "s\<lparr>ran_tasks := ran_tasks s @ [read_list s ! n], t_phase := Some (Executing (n + 1))\<rparr>"
  have st: "loop_step s = Some ?s1" using Suc.prems(1) n by (simp add: loop_step_def)
  have "alone ?s1 (?s1\<lparr>ran_tasks := ran_tasks ?s1 @ drop (n + 1) (read_list ?s1), read_list := [], t_phase := Some Checking\<rparr>)"
    using Suc.hyps(2) n by (intro Suc.hyps(1)) simp_all
  moreover have "ran_tasks ?s1 @ drop (n + 1) (read_list ?s1) = ran_tasks s @ drop n (read_list s)"
    using n by (simp add: Cons_nth_drop_Suc)
  ultimately show ?case
    using alone_step [OF st] by simp
qed

lemma alone_woken:
  assumes "t_phase s = Some Woken" and "t_running s"
  shows "alone s (s\<lparr>ran_tasks := ran_tasks s @ read_list s @ write_list s, read_list := [], write_list := [],
     t_phase := Some Waiting\<rparr>)"
proof -
  let ?fs = "read_list s @ write_list s"
  let ?done = "s\<lparr>ran_tasks := ran_tasks s @ ?fs, read_list := [], write_list := [], t_phase := Some Checking\<rparr>"
  have "alone s ?done"
  proof (cases "?fs = []")
    case True
    then show ?thesis
      using assms by (intro alone_step [OF _ alone_refl]) (simp add: loop_step_def)
  next
    case False
    let ?s1 = "s\<lparr>read_list := ?fs, write_list := [], t_phase := Some (Executing 0)\<rparr>"
    have "loop_step s = Some ?s1" using assms False by (auto simp: loop_step_def Let_def)
    moreover have "alone ?s1 (?s1\<lparr>ran_tasks := ran_tasks ?s1 @ drop 0 (read_list ?s1), read_list := [], t_phase := Some Checking\<rparr>)"
      by (intro alone_batch) simp_all
    ultimately have "alone s (?s1\<lparr>ran_tasks := ran_tasks ?s1 @ drop 0 (read_list ?s1), read_list := [],
        t_phase := Some Checking\<rparr>)"
      by (rule alone_step)
    moreover have "?s1\<lparr>ran_tasks := ran_tasks ?s1 @ drop 0 (read_list ?s1), read_list := [],
        t_phase := Some Checking\<rparr> = ?done"
      by simp
    ultimately show ?thesis by (simp only:)
  qed
  moreover have "alone ?done (?done\<lparr>t_phase := Some Waiting\<rparr>)"
    using assms(2)
    by (intro alone_step [of ?done "?done\<lparr>t_phase := Some Locked\<rparr>"] alone_step [OF _ alone_refl])
      (simp_all add: loop_step_def)
  ultimately have "alone s (?done\<lparr>t_phase := Some Waiting\<rparr>)" by (rule alone_trans)
  then show ?thesis by simp
qed

section \<open>Properties\<close>

text \<open>
  C23: In every run of a task thread, whatever the interleaving of producers, worker, stop and restart
  and however often a wait returns for no reason, the tasks run so far are a prefix of the tasks
  posted, in the order of posting and each once, and the rest is exactly the backlog of the two lists.
\<close>

theorem task_thread_fifo:
  assumes "tt_run new_task_thread es s"
  shows "ran_tasks s @ backlog s = posted es"
  using tt_run_backlog [OF assms] by (simp add: new_task_thread_def backlog_def)

theorem task_thread_fifo_witness:
  "\<exists>s. tt_run new_task_thread [Start, Post 1, Loop, Loop, Post 2, Loop, Loop, Post 3] s
     \<and> ran_tasks s = [1] \<and> ran_tasks s @ backlog s = [1, 2, 3 :: nat]"
proof -
  have run: "tt_run new_task_thread [Start, Post 1, Loop, Loop, Post 2, Loop, Loop, Post 3]
    \<lparr>t_running = True, read_list = [1, 2], write_list = [3], t_phase = Some (Executing 1), ran_tasks = [1 :: nat]\<rparr>"
    apply (rule run_cons, rule step_start, simp add: new_task_thread_def)
    apply (rule run_cons, rule step_post, simp add: tt_start_def new_task_thread_def)
    apply (rule run_cons, rule step_loop, simp add: loop_step_def run_in_thread_def wakeup_def tt_start_def
        new_task_thread_def)
    apply (rule run_cons, rule step_loop, simp add: loop_step_def run_in_thread_def wakeup_def)
    apply (rule run_cons, rule step_post, simp)
    apply (rule run_cons, rule step_loop, simp add: loop_step_def run_in_thread_def wakeup_def)
    apply (rule run_cons, rule step_loop, simp add: loop_step_def)
    apply (rule run_cons, rule step_post, simp)
    apply (simp add: run_in_thread_def wakeup_def run_nil)
    done
  show ?thesis using task_thread_fifo [OF run] run by (intro exI conjI) auto
qed

text \<open>
  \<open>loop\<close> waits without looking at the lists.  A task posted while the worker is not waiting, for
  example while it is still starting, is not noticed: left to itself the worker goes to sleep with
  the task in the list, and no further step of its own will run it.
\<close>

theorem post_before_wait_is_missed:
  assumes "t_phase s = Some Checking" and "t_running s"
  shows "\<exists>s'. alone (run_in_thread f s) s' \<and> loop_step s' = None \<and> ran_tasks s' = ran_tasks s \<and> f \<in> set (backlog s')"
proof -
  let ?s1 = "s\<lparr>write_list := write_list s @ [f]\<rparr>"
  let ?s2 = "?s1\<lparr>t_phase := Some Waiting\<rparr>"
  have "run_in_thread f s = ?s1" using assms by (simp add: run_in_thread_def wakeup_def)
  moreover have "alone ?s1 ?s2"
    using assms
    by (intro alone_step [of ?s1 "?s1\<lparr>t_phase := Some Locked\<rparr>"] alone_step [OF _ alone_refl])
      (simp_all add: loop_step_def)
  ultimately show ?thesis
    by (intro exI [of _ ?s2]) (simp add: loop_step_def backlog_def)
qed

theorem post_before_wait_is_missed_witness:
  "\<exists>s'. alone (run_in_thread 7 (tt_start new_task_thread)) s' \<and> loop_step s' = None \<and> 7 \<in> set (backlog s')
     \<and> ran_tasks s' = ([] :: nat list)"
  using post_before_wait_is_missed [of "tt_start new_task_thread :: nat task_thread" 7]
  by (auto simp: tt_start_def new_task_thread_def)

text \<open>
  A task posted to a waiting worker wakes it, and the worker alone then runs everything that is
  queued, missed tasks included, before it waits again with empty lists.
\<close>

theorem post_while_waiting_runs_all:
  assumes "t_phase s = Some Waiting" and "t_running s"
  shows "\<exists>s'. alone (run_in_thread f s) s' \<and> t_phase s' = Some Waiting \<and> t_running s' \<and> backlog s' = []
     \<and> ran_tasks s' = ran_tasks s @ backlog s @ [f]"
proof -
  let ?s = "s\<lparr>write_list := write_list s @ [f], t_phase := Some Woken\<rparr>"
  have "run_in_thread f s = ?s" using assms by (simp add: run_in_thread_def wakeup_def)
  then show ?thesis
    using alone_woken [of ?s] assms
    by (intro exI [of _ "?s\<lparr>ran_tasks := ran_tasks ?s @ read_list ?s @ write_list ?s, read_list := [], write_list := [],
       t_phase := Some Waiting\<rparr>"]) (simp add: backlog_def)
qed

theorem post_while_waiting_runs_all_witness:
  "\<exists>s'. alone (run_in_thread 8 \<lparr>t_running = True, read_list = [], write_list = [7 :: nat], t_phase = Some Waiting,
       ran_tasks = []\<rparr>) s' \<and> ran_tasks s' = [7, 8] \<and> backlog s' = []"
  using post_while_waiting_runs_all [of "\<lparr>t_running = True, read_list = [], write_list = [7 :: nat],
     t_phase = Some Waiting, ran_tasks = []\<rparr>" 8]
  by (auto simp: backlog_def)

text \<open>
  \<open>stop\<close> notifies without holding the mutex.  When the worker has passed its test of
  \<open>running_\<close> but does not wait yet, the notification is lost: the worker goes to sleep, and neither
  it nor the join of \<open>stop\<close> can proceed.
\<close>

theorem stop_can_hang:
  assumes "t_phase s = Some Locked" and "t_running s"
  shows "\<exists>s'. alone (stop_request s) s' \<and> \<not> t_running s' \<and> loop_step s' = None \<and> stop_join s' = None"
proof -
  let ?s = "s\<lparr>t_running := False, t_phase := Some Waiting\<rparr>"
  have "alone (stop_request s) ?s"
    using assms by (intro alone_step [OF _ alone_refl])
      (simp add: stop_request_def wakeup_def loop_step_def)
  then show ?thesis
    by (intro exI [of _ ?s]) (simp add: loop_step_def stop_join_def)
qed

theorem stop_can_hang_witness:
  "\<exists>s s'. tt_run new_task_thread [Start, Loop] s \<and> alone (stop_request s) s' \<and> loop_step s' = None
     \<and> stop_join (s' :: nat task_thread) = None"
proof -
  let ?s = "\<lparr>t_running = True, read_list = [], write_list = [], t_phase = Some Locked, ran_tasks = []\<rparr> :: nat task_thread"
  have "tt_run new_task_thread [Start, Loop] ?s"
    apply (rule run_cons, rule step_start, simp add: new_task_thread_def)
    apply (rule run_cons, rule step_loop, simp add: loop_step_def tt_start_def new_task_thread_def)
    apply (simp add: run_nil)
    done
  then show ?thesis using stop_can_hang [of ?s] by fastforce
qed

end
