(* ===== verification/Thread_Pool.thy ===== *)
theory Thread_Pool
  imports Task_Queue
begin

text \<open>
  \<open>ThreadPool\<close> (include/ThreadPool.h, src/ThreadPool.cpp): several workers on one task list.  As
  for \<open>TaskThread\<close>, a step is a stretch of code no other thread can interrupt.
\<close>

section \<open>State\<close>

text \<open>
  A worker tests \<open>running_\<close>, enters \<open>require_task\<close>, sleeps in it, has been notified, holds what
  \<open>require_task\<close> returned, or has left its loop.
\<close>

datatype 't pool_worker = Testing | Asking | Sleeping | Notified | Has "'t option" | Finished

text \<open>
  \<open>taken\<close> records the tasks \<open>require_task\<close> gave out, \<open>in_flight\<close> counts the producers between
  their critical section and their \<open>notify_all\<close>.
\<close>

record 't thread_pool =
  tp_running :: bool
  task_list :: "'t list"
  workers :: "'t pool_worker list"
  taken :: "'t list"
  in_flight :: nat

definition new_thread_pool :: "'t thread_pool" where
  "new_thread_pool = \<lparr>tp_running = False, task_list = [], workers = [], taken = [], in_flight = 0\<rparr>"

section \<open>Operations\<close>

definition tp_start :: "nat \<Rightarrow> 't thread_pool \<Rightarrow> 't thread_pool" where
  "tp_start n s =
     (if tp_running s then s
      else s\<lparr>tp_running := True, workers := workers s @ replicate n Testing\<rparr>)"

definition notify :: "'t pool_worker \<Rightarrow> 't pool_worker" where
  "notify w = (if w = Sleeping then Notified else w)"

definition notify_all :: "'t thread_pool \<Rightarrow> 't thread_pool" where
  "notify_all s = s\<lparr>workers := map notify (workers s)\<rparr>"

definition tp_stop_request :: "'t thread_pool \<Rightarrow> 't thread_pool" where
  "tp_stop_request s = notify_all (s\<lparr>tp_running := False, task_list := []\<rparr>)"

definition tp_stop_join :: "'t thread_pool \<Rightarrow> 't thread_pool option" where
  "tp_stop_join s = (if \<forall>w \<in> set (workers s). w = Finished then Some (s\<lparr>workers := []\<rparr>) else None)"

definition tp_put :: "'t \<Rightarrow> 't thread_pool \<Rightarrow> 't thread_pool" where
  "tp_put t s = s\<lparr>task_list := task_list s @ [t]\<rparr>"

definition tp_take :: "'t thread_pool \<Rightarrow> 't list \<times> 't thread_pool" where
  "tp_take s = (take 1 (task_list s), s\<lparr>task_list := drop 1 (task_list s)\<rparr>)"

text \<open>
  Without threads the caller runs the tasks itself (the first component); otherwise they are queued
  under the mutex, and the workers are notified afterwards.
\<close>

definition accept_task_list :: "'t list \<Rightarrow> 't thread_pool \<Rightarrow> 't list \<times> 't thread_pool" where
  "accept_task_list ts s =
     (if workers s = [] then (ts, s)
      else ([], s\<lparr>task_list := task_list s @ ts, in_flight := in_flight s + 1\<rparr>))"

definition accept_task :: "'t \<Rightarrow> 't thread_pool \<Rightarrow> 't list \<times> 't thread_pool" where
  "accept_task t s =
     (if workers s = [] then ([t], s)
      else ([], (tp_put t s)\<lparr>in_flight := in_flight s + 1\<rparr>))"

definition accept_notify :: "'t thread_pool \<Rightarrow> 't thread_pool" where
  "accept_notify s = (notify_all s)\<lparr>in_flight := in_flight s - 1\<rparr>"

text \<open>\<open>require_task\<close> from its lock, or from its return from \<open>wait\<close>, to its next release.\<close>

definition require_task :: "nat \<Rightarrow> 't thread_pool \<Rightarrow> 't thread_pool" where
  "require_task i s =
     (if tp_running s \<and> task_list s = [] then s\<lparr>workers := (workers s)[i := Sleeping]\<rparr>
      else case task_list s of
        t # ts \<Rightarrow> s\<lparr>task_list := ts, taken := taken s @ [t], workers := (workers s)[i := Has (Some t)]\<rparr>
      | [] \<Rightarrow> s\<lparr>workers := (workers s)[i := Has None]\<rparr>)"

text \<open>How a task ends: a standard exception is logged, any other one leaves the thread function.\<close>

datatype task_outcome = Returns | Throws_Std | Throws_Other

definition can_step :: "nat \<Rightarrow> 't thread_pool \<Rightarrow> bool" where
  "can_step i s \<longleftrightarrow> i < length (workers s) \<and> workers s ! i \<noteq> Sleeping \<and> workers s ! i \<noteq> Finished"

definition worker_step :: "nat \<Rightarrow> task_outcome \<Rightarrow> 't thread_pool \<Rightarrow> fault + 't thread_pool" where
  "worker_step i out s =
     (case workers s ! i of
        Testing \<Rightarrow> Inr (s\<lparr>workers := (workers s)[i := if tp_running s then Asking else Finished]\<rparr>)
      | Asking \<Rightarrow> Inr (require_task i s)
      | Notified \<Rightarrow> Inr (require_task i s)
      | Has None \<Rightarrow> Inr (s\<lparr>workers := (workers s)[i := Testing]\<rparr>)
      | Has (Some t) \<Rightarrow>
          (if out = Throws_Other then Inl Process_Abort
           else Inr (s\<lparr>workers := (workers s)[i := Testing]\<rparr>))
      | Sleeping \<Rightarrow> Inr s
      | Finished \<Rightarrow> Inr s)"

datatype 't tp_event = TP_Start nat | TP_Accept "'t list" | TP_Notify | TP_Stop | TP_Join
  | TP_Spurious nat | TP_Worker nat task_outcome

text \<open>The worker threads may be started only when no old ones are left (\<open>stop\<close> has joined them).\<close>

inductive tp_step :: "'t thread_pool \<Rightarrow> 't tp_event \<Rightarrow> 't thread_pool \<Rightarrow> bool" where
  tp_start: "tp_step s (TP_Start n) (tp_start n s)" if "tp_running s \<or> workers s = []"
| tp_accept: "tp_step s (TP_Accept ts) (snd (accept_task_list ts s))"
| tp_notify: "tp_step s TP_Notify (accept_notify s)" if "0 < in_flight s"
| tp_stop: "tp_step s TP_Stop (tp_stop_request s)"
| tp_join: "tp_step s TP_Join s'" if "\<not> tp_running s" and "tp_stop_join s = Some s'"
| tp_spurious: "tp_step s (TP_Spurious i) (s\<lparr>workers := (workers s)[i := Notified]\<rparr>)"
    if "i < length (workers s)" and "workers s ! i = Sleeping"
| tp_worker: "tp_step s (TP_Worker i out) s'" if "can_step i s" and "worker_step i out s = Inr s'"

inductive tp_run :: "'t thread_pool \<Rightarrow> 't tp_event list \<Rightarrow> 't thread_pool \<Rightarrow> bool" where
  tp_nil: "tp_run s [] s"
| tp_cons: "tp_step s e s1 \<Longrightarrow> tp_run s1 es s' \<Longrightarrow> tp_run s (e # es) s'"

section \<open>No lost wake-up\<close>

text \<open>A worker sleeps only while the pool runs and either nothing is queued or a notification is due.\<close>

definition pool_inv :: "'t thread_pool \<Rightarrow> bool" where
  "pool_inv s \<longleftrightarrow> (Sleeping \<in> set (workers s) \<longrightarrow> tp_running s \<and> (task_list s = [] \<or> 0 < in_flight s))"

lemma notify_not_Sleeping [simp]: "Sleeping \<notin> notify ` W"
  by (auto simp: notify_def split: if_splits)

lemma in_update: "x \<in> set (xs[i := y]) \<Longrightarrow> x \<noteq> y \<Longrightarrow> x \<in> set xs"
  using set_update_subset_insert [of xs i y] by blast

lemma require_task_inv: "pool_inv s \<Longrightarrow> pool_inv (require_task i s)"
  by (auto simp: pool_inv_def require_task_def dest!: in_update split: list.splits)

lemma worker_step_inv:
  assumes "pool_inv s" and "worker_step i out s = Inr s'"
  shows "pool_inv s'"
  using assms require_task_inv [OF assms(1), of i]
  by (auto simp: worker_step_def split: pool_worker.splits option.splits if_splits)
    (auto simp: pool_inv_def dest!: in_update)

lemma tp_step_inv:
  assumes "tp_step s e s'" and "pool_inv s"
  shows "pool_inv s'"
  using assms
proof (cases rule: tp_step.cases)
  case (tp_worker i out)
  then show ?thesis using worker_step_inv assms(2) by blast
qed (auto simp: pool_inv_def tp_start_def accept_task_list_def accept_notify_def notify_all_def
    tp_stop_request_def tp_stop_join_def dest: in_update split: if_splits)

lemma tp_run_inv: "tp_run s es s' \<Longrightarrow> pool_inv s \<Longrightarrow> pool_inv s'"
  by (induction rule: tp_run.induct) (auto dest: tp_step_inv)

section \<open>The task list as a queue\<close>

interpretation tpq: task_queue tp_put tp_take task_list
  by unfold_locales (auto simp: tp_put_def tp_take_def)

fun accepted :: "'t tp_event list \<Rightarrow> 't list" where
  "accepted [] = []"
| "accepted (TP_Accept ts # es) = ts @ accepted es"
| "accepted (_ # es) = accepted es"

lemma require_task_fifo: "taken (require_task i s) @ task_list (require_task i s) = taken s @ task_list s"
  by (simp add: require_task_def split: list.split)

lemma tp_step_fifo:
  assumes "tp_step s e s'" and "e \<noteq> TP_Stop" and "e \<noteq> TP_Join" and "workers s \<noteq> []"
  shows "taken s' @ task_list s' = taken s @ task_list s @ accepted [e] \<and> workers s' \<noteq> []"
  using assms
proof (cases rule: tp_step.cases)
  case (tp_worker i out)
  have "workers (require_task i s) \<noteq> []"
    using assms(4) by (simp add: require_task_def split: list.split)
  with tp_worker assms(4) show ?thesis
    using require_task_fifo [of i s]
    by (auto simp: worker_step_def split: pool_worker.splits option.splits if_splits)
qed (auto simp: tp_start_def accept_task_list_def accept_notify_def notify_all_def)

lemma accepted_append: "accepted (es @ fs) = accepted es @ accepted fs"
  by (induction es rule: accepted.induct) auto

lemma tp_run_fifo:
  assumes "tp_run s es s'" and "TP_Stop \<notin> set es" and "TP_Join \<notin> set es" and "workers s \<noteq> []"
  shows "taken s' @ task_list s' = taken s @ task_list s @ accepted es"
  using assms
proof (induction rule: tp_run.induct)
  case (tp_cons s e s1 es s')
  have "taken s1 @ task_list s1 = taken s @ task_list s @ accepted [e] \<and> workers s1 \<noteq> []"
    using tp_cons.prems by (intro tp_step_fifo [OF tp_cons.hyps(1)]) auto
  with tp_cons show ?case
    using accepted_append [of "[e]" es] by simp
qed simp

section \<open>Stopping\<close>

text \<open>How many steps a worker still has to make once the pool is stopping.\<close>

fun rank :: "'t pool_worker \<Rightarrow> nat" where
  "rank Finished = 0"
| "rank Testing = 1"
| "rank (Has _) = 2"
| "rank Asking = 3"
| "rank Notified = 3"
| "rank Sleeping = 4"

definition total_rank :: "'t thread_pool \<Rightarrow> nat" where
  "total_rank s = sum_list (map rank (workers s))"

lemma total_rank_update:
  assumes "i < length (workers s)" and "rank w < rank (workers s ! i)"
    and "workers s' = (workers s)[i := w]"
  shows "total_rank s' < total_rank s"
proof -
  have "total_rank s' = total_rank s + rank w - rank (workers s ! i)"
    using assms by (simp add: total_rank_def map_update sum_list_update)
  moreover have "rank (workers s ! i) \<le> total_rank s"
    using assms(1) elem_le_sum_list [of i "map rank (workers s)"] by (simp add: total_rank_def)
  ultimately show ?thesis using assms(2) by linarith
qed

lemma worker_step_rank:
  assumes "\<not> tp_running s" and "can_step i s" and "worker_step i out s = Inr s'"
  shows "total_rank s' < total_rank s \<and> \<not> tp_running s'"
proof -
  have i: "i < length (workers s)" using assms(2) by (simp add: can_step_def)
  have "\<exists>w. workers s' = (workers s)[i := w] \<and> rank w < rank (workers s ! i)"
    using assms by (auto simp: worker_step_def can_step_def require_task_def
        split: pool_worker.splits option.splits list.splits if_splits)
  then have "total_rank s' < total_rank s" using total_rank_update [OF i] by blast
  moreover have "\<not> tp_running s'"
    using assms by (auto simp: worker_step_def require_task_def
        split: pool_worker.splits option.splits list.splits if_splits)
  ultimately show ?thesis ..
qed

text \<open>
  A task that throws a standard exception costs nothing but itself; any other exception leaves the
  thread function and ends the process.
\<close>

lemma worker_exceptions:
  assumes "workers s ! i = Has (Some t)"
  shows "worker_step i Throws_Std s = worker_step i Returns s" "worker_step i Throws_Other s = Inl Process_Abort"
  using assms by (simp_all add: worker_step_def)

section \<open>Properties\<close>

lemma new_pool_inv [simp]: "pool_inv new_thread_pool"
  by (simp add: pool_inv_def new_thread_pool_def)

text \<open>
  C18: No task is forgotten.  In every reachable state in which tasks are queued and no producer is
  about to notify, no worker sleeps: each one that has not left its loop can make its next step.
\<close>

theorem pool_no_lost_wakeup:
  assumes "tp_run new_thread_pool es s" and "task_list s \<noteq> []" and "in_flight s = 0"
    and "i < length (workers s)" and "workers s ! i \<noteq> Finished"
  shows "can_step i s"
proof -
  have "pool_inv s" using tp_run_inv [OF assms(1)] by simp
  with assms(2,3) have "Sleeping \<notin> set (workers s)" by (auto simp: pool_inv_def)
  then have "workers s ! i \<noteq> Sleeping" using assms(4) by (metis nth_mem)
  with assms(4,5) show ?thesis by (simp add: can_step_def)
qed

definition busy_pool :: "nat thread_pool" where
  "busy_pool = \<lparr>tp_running = True, task_list = [7], workers = [Notified], taken = [], in_flight = 0\<rparr>"

lemma busy_pool_run:
  "tp_run new_thread_pool
     [TP_Start 1, TP_Worker 0 Returns, TP_Worker 0 Returns, TP_Accept [7], TP_Notify] busy_pool"
  apply (rule tp_cons, rule tp_start, simp add: new_thread_pool_def)
  apply (rule tp_cons, rule tp_worker, simp add: can_step_def tp_start_def new_thread_pool_def,
      simp add: worker_step_def tp_start_def new_thread_pool_def)
  apply (rule tp_cons, rule tp_worker, simp add: can_step_def, simp add: worker_step_def require_task_def)
  apply (rule tp_cons, rule tp_accept, rule tp_cons, rule tp_notify, simp add: accept_task_list_def)
  apply (simp add: accept_task_list_def accept_notify_def notify_all_def notify_def busy_pool_def tp_nil)
  done

theorem pool_no_lost_wakeup_witness: "can_step 0 busy_pool"
  by (rule pool_no_lost_wakeup [OF busy_pool_run]) (simp_all add: busy_pool_def)

text \<open>
  C24: The tasks given to the workers are, in order and each once, a prefix of the tasks accepted, and
  the rest is still queued, for every interleaving of producers and workers between a start with
  threads and the next stop.
\<close>

theorem pool_fifo:
  assumes "tp_run (tp_start n new_thread_pool) es s" and "0 < n" and "TP_Stop \<notin> set es" and "TP_Join \<notin> set es"
  shows "taken s @ task_list s = accepted es"
proof -
  have "workers (tp_start n (new_thread_pool :: 'a thread_pool)) \<noteq> []"
    using assms(2) by (simp add: tp_start_def new_thread_pool_def)
  then show ?thesis
    using tp_run_fifo [OF assms(1,3,4)] by (simp add: tp_start_def new_thread_pool_def)
qed

theorem pool_fifo_witness:
  "\<exists>s. tp_run (tp_start 1 new_thread_pool) [TP_Accept [7, 8 :: nat], TP_Worker 0 Returns, TP_Worker 0 Returns] s
     \<and> taken s = [7] \<and> taken s @ task_list s = [7, 8]"
proof -
  let ?s = "\<lparr>tp_running = True, task_list = [8], workers = [Has (Some 7)], taken = [7], in_flight = 1\<rparr> :: nat thread_pool"
  have run: "tp_run (tp_start 1 new_thread_pool)
      [TP_Accept [7, 8], TP_Worker 0 Returns, TP_Worker 0 Returns] ?s"
    apply (rule tp_cons, rule tp_accept)
    apply (rule tp_cons, rule tp_worker, simp add: can_step_def accept_task_list_def tp_start_def
        new_thread_pool_def, simp add: worker_step_def accept_task_list_def tp_start_def new_thread_pool_def)
    apply (rule tp_cons, rule tp_worker, simp add: can_step_def, simp add: worker_step_def require_task_def)
    apply (simp add: tp_nil)
    done
  show ?thesis using pool_fifo [OF run] run by (intro exI [of _ ?s]) simp
qed

text \<open>
  C19: Stopping terminates.  Once \<open>stop\<close> has cleared \<open>running_\<close> and notified, in every state reached
  afterwards either all workers have left their loops and the join returns, or some worker can
  step; and every step of a worker, in whatever order they come and whichever tasks they still
  hold, brings the total nearer to the end, unless a task throws something that is not a standard
  exception.
\<close>

theorem pool_stop_terminates:
  assumes "tp_run new_thread_pool es s" and "\<not> tp_running s"
  shows "(tp_stop_join s \<noteq> None \<or> (\<exists>i. can_step i s)) \<and>
    (\<forall>i out s'. can_step i s \<longrightarrow> worker_step i out s = Inr s' \<longrightarrow>
       total_rank s' < total_rank s \<and> \<not> tp_running s')"
proof (intro conjI allI impI)
  have inv: "pool_inv s" using tp_run_inv [OF assms(1)] by simp
  with assms(2) have no: "Sleeping \<notin> set (workers s)" by (auto simp: pool_inv_def)
  show "tp_stop_join s \<noteq> None \<or> (\<exists>i. can_step i s)"
  proof (cases "\<forall>w \<in> set (workers s). w = Finished")
    case False
    then obtain i where "i < length (workers s)" "workers s ! i \<noteq> Finished"
      by (metis in_set_conv_nth)
    moreover from this no have "workers s ! i \<noteq> Sleeping" by (metis nth_mem)
    ultimately show ?thesis by (auto simp: can_step_def)
  qed (simp add: tp_stop_join_def)
qed (use worker_step_rank [OF assms(2)] in blast)+

theorem pool_stop_terminates_witness: "\<exists>i. can_step i (tp_stop_request busy_pool)"
proof -
  have snoc: "tp_run s es s1 \<Longrightarrow> tp_step s1 e s2 \<Longrightarrow> tp_run s (es @ [e]) s2"
    for s s1 s2 :: "nat thread_pool" and es e
    by (induction rule: tp_run.induct) (auto intro: tp_run.intros)
  have "\<not> tp_running (tp_stop_request busy_pool)" "tp_stop_join (tp_stop_request busy_pool) = None"
    by (simp_all add: tp_stop_request_def notify_all_def tp_stop_join_def busy_pool_def notify_def)
  then show ?thesis
    using pool_stop_terminates [OF snoc [OF busy_pool_run tp_stop]] by blast
qed

end
