(* ===== verification/Tcp_Manager.thy ===== *)
theory Tcp_Manager
  imports Client_Entity Event_Dispatch Task_Thread Thread_Pool
begin

text \<open>
  \<open>TcpManager\<close> (include/TcpManager.h, src/TcpManager.cpp): the connections of a process, their keys,
  the loops they are spread over, the thread that owns the table of clients and the pool of threads
  that works for them.  Every method is a definition on the record; what the threads of the other
  components run later is queued in those components' own states.  The assertion at the head of
  \<open>do_add_client\<close>, \<open>do_remove_client\<close> and \<open>do_send_timeout\<close> that they run in the main thread is no branch
  here: all three are reached only through the list of that thread (\<open>main_task\<close>), whose functions only
  its own loop calls.
\<close>

section \<open>State\<close>

text \<open>
  What is handed to the pool and to the main thread: the bound member functions.  In a socket loop
  the function number of a handle is the address of its client, and the foreign function number of a
  queued call is the address of the client whose \<open>close\<close> it is.
\<close>

datatype job = Req_Close nat | Handle_Unpack nat | Timeout_Send nat

datatype main_task = Add_Client nat | Remove_Client int | Send_Timeout

text \<open>
  Clients are addresses in the client pool.  Handle objects live in the loop they were given to.
  \<open>announced\<close> records the established callbacks made, \<open>closed_fds\<close> the descriptors closed.
\<close>

record tcp_manager =
  m_init :: bool
  m_running :: bool
  event_size :: nat
  buffer_pool :: store
  client_pool :: pool
  clients :: "nat \<rightharpoonup> client"
  handle_pool :: pool
  m_callback :: "nat option"
  client_map :: "int \<rightharpoonup> nat"
  acceptor_index :: "32 word"
  acceptor_loop :: event_manager
  socket_loop :: "event_manager list"
  packer_thread :: "job thread_pool"
  main_thread :: "main_task task_thread"
  last_key :: "64 word"
  connect_map :: "64 word \<rightharpoonup> int"
  announced :: "(nat \<times> 64 word) list"
  closed_fds :: "int list"

definition empty_pool :: "nat \<Rightarrow> pool" where
  "empty_pool sz = \<lparr>block_list = [], block_size = 1024, elem_size = sz\<rparr>"

text \<open>The constructor empties the pools; the arguments are the sizes of the pooled classes.\<close>

definition new_tcp_manager :: "nat \<Rightarrow> nat \<Rightarrow> nat \<Rightarrow> tcp_manager" where
  "new_tcp_manager buffer_sz client_sz handle_sz =
     \<lparr>m_init = False, m_running = False, event_size = 0,
      buffer_pool = \<lparr>bpool = empty_pool buffer_sz, bufs = Map.empty\<rparr>,
      client_pool = empty_pool client_sz, clients = Map.empty, handle_pool = empty_pool handle_sz,
      m_callback = None, client_map = Map.empty, acceptor_index = 0,
      acceptor_loop = new_event_manager, socket_loop = [], packer_thread = new_thread_pool,
      main_thread = new_task_thread, last_key = 0, connect_map = Map.empty, announced = [], closed_fds = []\<rparr>"

section \<open>Pools\<close>

definition pop_client :: "nat \<Rightarrow> tcp_manager \<Rightarrow> fault + (nat \<times> tcp_manager)" where
  "pop_client m s =
     bind_res (pool_pop m (client_pool s)) (\<lambda>(a, P).
     Inr (a, s\<lparr>client_pool := P, clients := (clients s)(a \<mapsto> new_client)\<rparr>))"

definition get_object :: "nat \<Rightarrow> tcp_manager \<Rightarrow> fault + client" where
  "get_object a s = (case clients s a of None \<Rightarrow> Inl Use_After_Free | Some c \<Rightarrow> Inr c)"

definition put_object :: "nat \<Rightarrow> client \<Rightarrow> tcp_manager \<Rightarrow> tcp_manager" where
  "put_object a c s = s\<lparr>clients := (clients s)(a \<mapsto> c)\<rparr>"

text \<open>\<open>push\<close> destroys the client, which closes its descriptor.\<close>

definition push_client :: "nat \<Rightarrow> tcp_manager \<Rightarrow> fault + tcp_manager" where
  "push_client a s =
     bind_res (get_object a s) (\<lambda>c.
     bind_res (destroy_client c (buffer_pool s)) (\<lambda>(closed_fd, _, bs).
     Inr (s\<lparr>buffer_pool := bs, client_pool := pool_push a (client_pool s),
            clients := (clients s)(a := None), closed_fds := closed_fds s @ [closed_fd]\<rparr>)))"

definition pop_handle :: "nat \<Rightarrow> tcp_manager \<Rightarrow> fault + (nat \<times> tcp_manager)" where
  "pop_handle m s = bind_res (pool_pop m (handle_pool s)) (\<lambda>(h, P). Inr (h, s\<lparr>handle_pool := P\<rparr>))"

definition push_handle :: "nat \<Rightarrow> tcp_manager \<Rightarrow> tcp_manager" where
  "push_handle h s = s\<lparr>handle_pool := pool_push h (handle_pool s)\<rparr>"

section \<open>Loops\<close>

text \<open>
  Every handle's recycle function is \<open>push_handle\<close>, so the handles a loop has recycled go back to
  the pool.
\<close>

definition hand_back :: "event_manager \<Rightarrow> tcp_manager \<Rightarrow> event_manager \<times> tcp_manager" where
  "hand_back w s = (w\<lparr>recycled := []\<rparr>, fold push_handle (recycled w) s)"

definition loop_at :: "nat \<Rightarrow> tcp_manager \<Rightarrow> fault + event_manager" where
  "loop_at i s = (if i < length (socket_loop s) then Inr (socket_loop s ! i) else Inl Out_Of_Bounds)"

definition put_loop :: "nat \<Rightarrow> event_manager \<Rightarrow> tcp_manager \<Rightarrow> tcp_manager" where
  "put_loop i w s = (let (w, s) = hand_back w s in s\<lparr>socket_loop := (socket_loop s)[i := w]\<rparr>)"

definition put_acceptor :: "event_manager \<Rightarrow> tcp_manager \<Rightarrow> tcp_manager" where
  "put_acceptor w s = (let (w, s) = hand_back w s in s\<lparr>acceptor_loop := w\<rparr>)"

text \<open>A bound handle object is given to a loop.\<close>

definition offer :: "nat \<Rightarrow> event_handle \<Rightarrow> event_manager \<Rightarrow> fault + (int \<times> event_manager)" where
  "offer h e w = add_handle h (w\<lparr>handles := (handles w)(h \<mapsto> e)\<rparr>)"

definition add_acceptor :: "nat \<Rightarrow> event_handle \<Rightarrow> tcp_manager \<Rightarrow> fault + (int \<times> tcp_manager)" where
  "add_acceptor h e s =
     bind_res (check (m_init s) Null_Pointer) (\<lambda>_.
     bind_res (offer h e (acceptor_loop s)) (\<lambda>(r, w). Inr (r, put_acceptor w s)))"

text \<open>The next loop, round robin; the counter is an \<open>uint32_t\<close>, the size a \<open>size_t\<close>.\<close>

definition event_index :: "tcp_manager \<Rightarrow> nat \<times> tcp_manager" where
  "event_index s =
     (let i = word_of_nat (unat (acceptor_index s + 1) mod event_size s) in
      (unat i, s\<lparr>acceptor_index := i\<rparr>))"

section \<open>Keys\<close>

definition get_fd :: "64 word \<Rightarrow> tcp_manager \<Rightarrow> int" where
  "get_fd k s = (case connect_map s k of None \<Rightarrow> 0 | Some n \<Rightarrow> n)"

definition insert_fd :: "int \<Rightarrow> tcp_manager \<Rightarrow> 64 word \<times> tcp_manager" where
  "insert_fd n s =
     (let k = last_key s + 1 in
      (k, s\<lparr>last_key := k, connect_map := (connect_map s)(k \<mapsto> n)\<rparr>))"

definition remove_fd :: "64 word \<Rightarrow> tcp_manager \<Rightarrow> tcp_manager" where
  "remove_fd k s = s\<lparr>connect_map := (connect_map s)(k := None)\<rparr>"

section \<open>Clients\<close>

definition get_client :: "int \<Rightarrow> tcp_manager \<Rightarrow> nat option" where
  "get_client n s = client_map s n"

definition set_msg_callback :: "nat \<Rightarrow> tcp_manager \<Rightarrow> tcp_manager" where
  "set_msg_callback k s = s\<lparr>m_callback := Some k\<rparr>"

definition post :: "main_task \<Rightarrow> tcp_manager \<Rightarrow> tcp_manager" where
  "post t s = s\<lparr>main_thread := run_in_thread t (main_thread s)\<rparr>"

definition add_client :: "nat \<Rightarrow> tcp_manager \<Rightarrow> tcp_manager" where
  "add_client a s = post (Add_Client a) s"

definition client_handle :: "nat \<Rightarrow> int \<Rightarrow> event_handle" where
  "client_handle a n = snd (bind_io a n ''client'' (set_recycle_func 0 new_handle))"

definition do_add_client :: "nat \<Rightarrow> nat \<Rightarrow> tcp_manager \<Rightarrow> fault + tcp_manager" where
  "do_add_client m a s =
     (let (index, s) = event_index s in
      bind_res (get_object a s) (\<lambda>c.
      bind_res (loop_at index s) (\<lambda>_.
      let c = c\<lparr>loop_index := index, event_loop := Some index\<rparr>;
          c = (case m_callback s of None \<Rightarrow> c | Some k \<Rightarrow> c\<lparr>message_callback := Some k\<rparr>);
          s = put_object a c s;
          s = s\<lparr>client_map := (client_map s)(fd c \<mapsto> a)\<rparr> in
      bind_res (pop_handle m s) (\<lambda>(h, s).
      bind_res (loop_at index s) (\<lambda>w.
      bind_res (offer h (client_handle a (fd c)) w) (\<lambda>(_, w).
      let s = put_loop index w s in
      Inr (case established_callback c of
             None \<Rightarrow> s
           | Some k \<Rightarrow> s\<lparr>announced := announced s @ [(k, fd_key c)]\<rparr>)))))))"

text \<open>The tables are locked for each lookup alone: what follows uses the pointer that was found.\<close>

definition close_found :: "nat \<Rightarrow> tcp_manager \<Rightarrow> fault + tcp_manager" where
  "close_found a s = bind_res (get_object a s) (\<lambda>c. Inr (put_object a (close_read c) s))"

definition close_client :: "64 word \<Rightarrow> tcp_manager \<Rightarrow> fault + tcp_manager" where
  "close_client k s =
     (let n = get_fd k s in
      if n = 0 then Inr s
      else
        bind_res
          (case get_client n s of
             None \<Rightarrow> Inr s
           | Some a \<Rightarrow> close_found a s)
          (\<lambda>s. Inr (remove_fd k s)))"

definition remove_client :: "int \<Rightarrow> tcp_manager \<Rightarrow> tcp_manager" where
  "remove_client n s = post (Remove_Client n) s"

definition do_remove_client :: "int \<Rightarrow> tcp_manager \<Rightarrow> fault + tcp_manager" where
  "do_remove_client n s =
     (case client_map s n of
        None \<Rightarrow> Inr s
      | Some a \<Rightarrow> push_client a (s\<lparr>client_map := (client_map s)(n := None)\<rparr>))"

text \<open>
  Copying a packet to the connection its first eight bytes name: finding the client, and queueing the rest of
  the buffer with it.
\<close>

definition push_target :: "nat \<Rightarrow> tcp_manager \<Rightarrow> fault + (nat option \<times> tcp_manager)" where
  "push_target src s =
     bind_res (get_buf src (buffer_pool s)) (\<lambda>b.
     bind_res (readInt64 b) (\<lambda>(k, b).
     let bs = buffer_pool s; s = s\<lparr>buffer_pool := bs\<lparr>bufs := (bufs bs)(src \<mapsto> b)\<rparr>\<rparr>; n = get_fd k s in
     Inr (if n = 0 then None else get_client n s, s)))"

definition push_found :: "nat \<Rightarrow> nat \<Rightarrow> nat \<Rightarrow> tcp_manager \<Rightarrow> fault + (int \<times> tcp_manager)" where
  "push_found m src a s =
     bind_res (get_object a s) (\<lambda>c.
     bind_res (push_send_pack m src c (buffer_pool s)) (\<lambda>(r, c, bs).
     Inr (r, (put_object a c s)\<lparr>buffer_pool := bs\<rparr>)))"

definition tm_push_send_pack :: "nat \<Rightarrow> nat \<Rightarrow> tcp_manager \<Rightarrow> fault + (int \<times> tcp_manager)" where
  "tm_push_send_pack m src s =
     bind_res (push_target src s) (\<lambda>(found, s).
     case found of None \<Rightarrow> Inr (-1, s) | Some a \<Rightarrow> push_found m src a s)"

lemmas close_client_defs = close_client_def close_found_def

lemma tm_push_send_pack_eq:
  "tm_push_send_pack m src s =
     bind_res (get_buf src (buffer_pool s)) (\<lambda>b.
     bind_res (readInt64 b) (\<lambda>(k, b).
     let bs = buffer_pool s; s = s\<lparr>buffer_pool := bs\<lparr>bufs := (bufs bs)(src \<mapsto> b)\<rparr>\<rparr>; n = get_fd k s in
     if n = 0 then Inr (-1, s)
     else case get_client n s of None \<Rightarrow> Inr (-1, s) | Some a \<Rightarrow> push_found m src a s))"
proof (cases "bind_res (get_buf src (buffer_pool s)) readInt64")
  case (Inl e)
  then show ?thesis
    by (cases "get_buf src (buffer_pool s)") (simp_all add: tm_push_send_pack_def push_target_def)
next
  case (Inr r)
  then obtain b where "get_buf src (buffer_pool s) = Inr b" "readInt64 b = Inr r" by (auto elim: bind_resE)
  then show ?thesis
    by (cases r) (simp add: tm_push_send_pack_def push_target_def Let_def split: option.split)
qed

lemmas tm_push_defs = tm_push_send_pack_eq push_found_def

section \<open>The send timer\<close>

text \<open>
  What one visit of a client asks for, and the client afterwards.
\<close>

definition visit :: "nat \<Rightarrow> client \<Rightarrow> job list \<times> client" where
  "visit a c =
     (if closed c then ([], c)
      else if can_close c then ([Req_Close a], set_close c)
      else
        let (js, c) = (if is_update c \<and> can_read c then ([Handle_Unpack a], handle_update c) else ([], c));
            (ks, c) = (if is_write_update c \<and> can_write c then ([Timeout_Send a], handle_write_update c)
                       else ([], c)) in
        (js @ ks, c))"

definition visit_entry :: "int \<Rightarrow> tcp_manager \<Rightarrow> fault + (job list \<times> tcp_manager)" where
  "visit_entry n s =
     (case client_map s n of
        None \<Rightarrow> Inl Bad_Environment
      | Some a \<Rightarrow>
          bind_res (get_object a s) (\<lambda>c. let (js, c) = visit a c in Inr (js, put_object a c s)))"

text \<open>
  The table is visited in the order \<open>fds\<close> the hash map happens to have.  The first component are the
  jobs the caller runs itself, which are none while the pool has threads.
\<close>

definition do_send_timeout :: "int list \<Rightarrow> tcp_manager \<Rightarrow> fault + (job list \<times> tcp_manager)" where
  "do_send_timeout fds s =
     bind_res (check (distinct fds \<and> set fds = dom (client_map s)) Bad_Environment) (\<lambda>_.
     bind_res (gather visit_entry fds s) (\<lambda>(jss, s).
     if concat jss = [] then Inr ([], s)
     else
       let (inline, p) = accept_task_list (concat jss) (packer_thread s) in
       Inr (inline, s\<lparr>packer_thread := p\<rparr>)))"

definition send_timeout :: "tcp_manager \<Rightarrow> tcp_manager" where
  "send_timeout s = post Send_Timeout s"

text \<open>
  The timer is set to the current time and a period of a millisecond.  \<open>timer_ret\<close>, \<open>errno\<close> and
  \<open>settime\<close> are what \<open>timerfd_create\<close> and \<open>timerfd_settime\<close> return.
\<close>

record start_env =
  timer_malloc :: nat
  timer_ret :: int
  timer_errno :: int
  settime :: int
  clock :: int
  loop_tids :: "nat list"

definition start_send_timer :: "start_env \<Rightarrow> tcp_manager \<Rightarrow> fault + tcp_manager" where
  "start_send_timer env s =
     bind_res (pop_handle (timer_malloc env) s) (\<lambda>(h, s).
     let (_, _, e) = bind_timer 0 (clock env) 1000 ''send_timer'' (timer_ret env) (timer_errno env)
                       (settime env) new_handle in
     if 0 < h_fd e then
       bind_res (offer h (set_recycle_func 0 e) (acceptor_loop s)) (\<lambda>(_, w). Inr (put_acceptor w s))
     else Inr (push_handle h s))"

section \<open>Life cycle\<close>

definition tm_init :: "nat \<Rightarrow> tcp_manager \<Rightarrow> int \<times> tcp_manager" where
  "tm_init n s =
     (if m_init s then (-1, s)
      else
        let n = (if 0 < n then n else 1) in
        (0, s\<lparr>m_init := True, event_size := n, acceptor_loop := new_event_manager,
              socket_loop := replicate n new_event_manager, main_thread := new_task_thread,
              packer_thread := new_thread_pool\<rparr>))"

text \<open>\<open>loop_tids\<close>: the ids of the threads of the acceptor loop and of the socket loops.\<close>

definition tm_start :: "start_env \<Rightarrow> tcp_manager \<Rightarrow> fault + (int \<times> tcp_manager)" where
  "tm_start env s =
     (if \<not> m_init s then Inl Process_Abort
      else if m_running s then Inr (-1, s)
      else
        bind_res (start_send_timer env (s\<lparr>m_running := True, last_key := 0\<rparr>)) (\<lambda>s.
        bind_res (check (length (loop_tids env) = event_size s + 1) Bad_Environment) (\<lambda>_.
        Inr (0, s\<lparr>acceptor_loop := start_loop (hd (loop_tids env)) 0 (acceptor_loop s),
                  socket_loop := map2 (\<lambda>t w. start_loop t 0 w) (tl (loop_tids env)) (socket_loop s),
                  packer_thread := tp_start 8 (packer_thread s),
                  main_thread := tt_start (main_thread s)\<rparr>))))"

text \<open>
  \<open>stop\<close>, once every thread it joins has ended.  The function lists of the main thread survive,
  and the pools give their memory back without running destructors.
\<close>

definition joined_main :: "main_task task_thread \<Rightarrow> main_task task_thread" where
  "joined_main t = (if t_running t then (stop_request t)\<lparr>t_phase := None\<rparr> else t)"

definition joined_pool :: "job thread_pool \<Rightarrow> job thread_pool" where
  "joined_pool p = (tp_stop_request p)\<lparr>workers := []\<rparr>"

definition tm_stop :: "tcp_manager \<Rightarrow> fault + tcp_manager" where
  "tm_stop s =
     (if \<not> m_running s then Inr s
      else
        let s = s\<lparr>m_running := False, main_thread := joined_main (main_thread s)\<rparr> in
        bind_res (stop_loop (acceptor_loop s)) (\<lambda>w.
        let s = put_acceptor w s in
        bind_res
          (each (\<lambda>i s. bind_res (loop_at i s) (\<lambda>w. bind_res (stop_loop w) (\<lambda>w. Inr (put_loop i w s))))
             [0 ..< event_size s] s) (\<lambda>s.
        let bs = buffer_pool s in
        Inr (s\<lparr>acceptor_index := 0, packer_thread := joined_pool (packer_thread s),
               client_map := Map.empty, connect_map := Map.empty,
               buffer_pool := bs\<lparr>bpool := snd (free_all (bpool bs)), bufs := Map.empty\<rparr>,
               client_pool := snd (free_all (client_pool s)), clients := Map.empty,
               handle_pool := snd (free_all (handle_pool s))\<rparr>))))"

text \<open>
  The destructor deletes the loops, which stop once more, and the threads.  The addresses of the
  memory blocks the pools hold were given back by \<open>stop\<close>.
\<close>

definition tm_destroy :: "tcp_manager \<Rightarrow> fault + tcp_manager" where
  "tm_destroy s =
     bind_res (tm_stop s) (\<lambda>s.
     if \<not> m_init s then Inr s
     else
       bind_res (stop_loop (acceptor_loop s)) (\<lambda>w.
       let s = put_acceptor w s in
       bind_res
         (each (\<lambda>i s. bind_res (loop_at i s) (\<lambda>w. bind_res (stop_loop w) (\<lambda>w. Inr (put_loop i w s))))
            [0 ..< event_size s] s) (\<lambda>s.
       Inr (s\<lparr>m_init := False, socket_loop := [], main_thread := (main_thread s)\<lparr>t_phase := None\<rparr>\<rparr>))))"

text \<open>\<open>pool_dump\<close>: what each pool logs.\<close>

definition tm_pool_dump ::
    "tcp_manager \<Rightarrow> ((nat \<times> nat \<times> nat) \<times> (nat \<times> nat \<times> nat) list) list" where
  "tm_pool_dump s = [dump_info (bpool (buffer_pool s)), dump_info (client_pool s), dump_info (handle_pool s)]"

section \<open>A new connection\<close>

text \<open>
  What the server and the client do with a connected socket: a key, a client object, and the request
  to add it.  \<open>callback\<close> and \<open>estab\<close> are the callbacks the client side sets.
\<close>

definition register_socket ::
    "nat \<Rightarrow> int \<Rightarrow> byte list \<Rightarrow> 16 word \<Rightarrow> nat option \<Rightarrow> nat option \<Rightarrow> tcp_manager
       \<Rightarrow> fault + (64 word \<times> nat \<times> tcp_manager)" where
  "register_socket m n ip port callback estab s =
     (let (k, s) = insert_fd n s in
      bind_res (pop_client m s) (\<lambda>(a, s).
      bind_res (get_object a s) (\<lambda>c.
      let c = c\<lparr>message_callback := callback, established_callback := estab, fd_key := k\<rparr>;
          s = put_object a (init_client n ip port c) s in
      Inr (k, a, add_client a s))))"

end
