(* ===== verification/Connection_Table.thy ===== *)
theory Connection_Table
  imports Tcp_Manager Client_Send
begin

text \<open>
  The table of connections of a \<open>TcpManager\<close>: the keys handed to the user, the choice of a loop for a
  new connection, and what adding and removing a client do to the table and to the loops.
\<close>

section \<open>Keys\<close>

text \<open>The keys that a sequence of insertions and removals gives out.\<close>

datatype key_event = Insert int | Erase "64 word"

fun key_run :: "key_event list \<Rightarrow> tcp_manager \<Rightarrow> 64 word list \<times> tcp_manager" where
  "key_run [] s = ([], s)"
| "key_run (Insert n # es) s =
     (let (k, s) = insert_fd n s; (ks, s) = key_run es s in (k # ks, s))"
| "key_run (Erase k # es) s = key_run es (remove_fd k s)"

lemma key_run_keys:
  assumes "key_run es s = (ks, s')"
  shows "ks = map (\<lambda>i. last_key s + word_of_nat (Suc i)) [0 ..< length ks]
    \<and> last_key s' = last_key s + word_of_nat (length ks)
    \<and> dom (connect_map s') \<subseteq> dom (connect_map s) \<union> set ks"
  using assms
proof (induction es s arbitrary: ks s' rule: key_run.induct)
  case (2 n es s)
  obtain k s1 where k: "insert_fd n s = (k, s1)" by fastforce
  then have k': "k = last_key s + 1" "last_key s1 = last_key s + 1"
      "dom (connect_map s1) = insert k (dom (connect_map s))"
    by (auto simp: insert_fd_def Let_def)
  obtain ls s2 where ls: "key_run es s1 = (ls, s2)" by fastforce
  have eq: "ks = k # ls" "s' = s2" using 2(2) by (auto simp: k ls)
  have ih: "ls = map (\<lambda>i. last_key s1 + word_of_nat (Suc i)) [0 ..< length ls]"
      "last_key s2 = last_key s1 + word_of_nat (length ls)"
      "dom (connect_map s2) \<subseteq> dom (connect_map s1) \<union> set ls"
    using 2(1) [OF k [symmetric] refl ls] by blast+
  have "map (\<lambda>i. last_key s + word_of_nat (Suc i)) [0 ..< length ks] = k # ls"
    unfolding eq list.size add_0_right add_Suc_right
    by (subst (2) ih(1), subst map_upt_Suc) (simp add: k' algebra_simps)
  then show ?case
    using ih(2,3) k' eq by (auto simp: algebra_simps)
qed (auto simp: remove_fd_def)

section \<open>Round robin\<close>

fun indices :: "nat \<Rightarrow> tcp_manager \<Rightarrow> nat list" where
  "indices 0 s = []"
| "indices (Suc k) s = (let (i, s) = event_index s in i # indices k s)"

lemma event_index_next:
  assumes "unat (acceptor_index s) < event_size s" and "event_size s < 2 ^ 32"
    and "i = (unat (acceptor_index s) + 1) mod event_size s"
  shows "event_index s = (i, s\<lparr>acceptor_index := word_of_nat i\<rparr>)" and "unat (word_of_nat i :: 32 word) = i"
    and "i < event_size s"
proof -
  have n: "unat (acceptor_index s + 1) = unat (acceptor_index s) + 1"
    using assms(1,2) by (simp add: unat_word_ariths(1))
  show "i < event_size s" using assms by (simp only: mod_less_divisor)
  then show "unat (word_of_nat i :: 32 word) = i"
    using assms(2) by (simp add: unat_of_nat take_bit_nat_eq_self)
  then show "event_index s = (i, s\<lparr>acceptor_index := word_of_nat i\<rparr>)"
    unfolding event_index_def Let_def n assms(3) [symmetric] by simp
qed

lemma indices_eq:
  assumes "unat (acceptor_index s) < event_size s" and "event_size s < 2 ^ 32"
  shows "indices k s = map (\<lambda>j. (unat (acceptor_index s) + 1 + j) mod event_size s) [0 ..< k]"
  using assms
proof (induction k arbitrary: s)
  case (Suc k)
  let ?a = "unat (acceptor_index s)" and ?n = "event_size s"
  let ?s = "s\<lparr>acceptor_index := word_of_nat ((?a + 1) mod ?n)\<rparr>"
  note s' = event_index_next [OF Suc.prems refl]
  have "(?a + 1) mod ?n < ?n" using Suc.prems by (intro mod_less_divisor) simp
  then have "indices k ?s = map (\<lambda>j. ((?a + 1) mod ?n + 1 + j) mod ?n) [0 ..< k]"
    using Suc.IH [of ?s] s'(2) Suc.prems(2) by simp
  also have "\<dots> = map (\<lambda>j. (?a + 1 + Suc j) mod ?n) [0 ..< k]"
  proof -
    have "((?a + 1) mod ?n + 1 + j) mod ?n = (?a + 1 + Suc j) mod ?n" for j
      using mod_add_left_eq [of "?a + 1" ?n "1 + j"] by (simp add: add.assoc)
    then show ?thesis by simp
  qed
  finally show ?case
    using map_upt_Suc [of "\<lambda>j. (?a + 1 + j) mod ?n" k] by (simp add: s'(1))
qed simp

lemma mod_window:
  fixes a n :: nat
  assumes "0 < n"
  shows "bij_betw (\<lambda>j. (a + j) mod n) {0 ..< n} {0 ..< n}"
proof (rule bij_betw_byWitness [where f' = "\<lambda>i. (i + (n - a mod n)) mod n"])
  have r: "a mod n \<le> n" using assms by (simp add: less_imp_le)
  have left: "((a + j) mod n + (n - a mod n)) mod n = j mod n" for j
  proof -
    have "((a + j) mod n + (n - a mod n)) mod n = (a mod n + j + (n - a mod n)) mod n"
      by (metis mod_add_left_eq)
    also have "a mod n + j + (n - a mod n) = j + n" using r by simp
    finally show ?thesis by simp
  qed
  show "\<forall>j \<in> {0 ..< n}. ((a + j) mod n + (n - a mod n)) mod n = j"
    unfolding left by simp
  have right: "(a + (j + (n - a mod n)) mod n) mod n = j mod n" for j
  proof -
    have "(a + (j + (n - a mod n)) mod n) mod n = (a mod n + (j + (n - a mod n))) mod n"
      by (metis mod_add_left_eq mod_add_right_eq)
    also have "a mod n + (j + (n - a mod n)) = j + n" using r by simp
    finally show ?thesis by simp
  qed
  show "\<forall>j \<in> {0 ..< n}. (a + (j + (n - a mod n)) mod n) mod n = j"
    unfolding right by simp
qed (use assms in auto)

section \<open>Adding a client\<close>

text \<open>
  Every socket loop is consistent, has given back what it recycled, and its handles are live objects
  of the handle pool.
\<close>

definition loops_ok :: "tcp_manager \<Rightarrow> bool" where
  "loops_ok s \<longleftrightarrow> event_size s = length (socket_loop s) \<and> pool_ok (handle_pool s) \<and>
     (\<forall>w \<in> set (socket_loop s). em_ok w \<and> recycled w = [] \<and> dom (handles w) \<subseteq> live (handle_pool s))"

lemma client_handle_bound: "0 < n \<Longrightarrow> bound (client_handle a n)" "h_fd (client_handle a n) = n"
    "run_func now fl (client_handle a n) = Inr (IO_Call a n fl)"
  by (simp_all add: client_handle_def bound_def set_recycle_func_def bind_io_def run_func_def)

lemma offer_ok:
  assumes "em_ok w" and "\<not> em_quit w" and "bound e" and "handles w h = None"
  shows "offer h e w = Inr (0, w\<lparr>handles := (handles w)(h \<mapsto> e),
      loop_functions_write := loop_functions_write w @ [Do_Add h]\<rparr>)"
    and "em_ok (w\<lparr>handles := (handles w)(h \<mapsto> e), loop_functions_write := loop_functions_write w @ [Do_Add h]\<rparr>)"
proof -
  have pos: "0 < h_fd e" using assms(3) by (simp add: bound_def)
  then show "offer h e w = Inr (0, w\<lparr>handles := (handles w)(h \<mapsto> e),
      loop_functions_write := loop_functions_write w @ [Do_Add h]\<rparr>)"
    using assms(2) by (simp add: offer_def add_handle_def run_in_handle_loop_def)
  have no: "handler_map w n \<noteq> Some h" for n
    using table_okD(2) [OF assms(1) [unfolded em_ok_def], of n h] assms(4) by auto
  moreover have "h \<notin> set (adds (loop_functions_read w @ loop_functions_write w))"
    using assms(1,4) by (auto simp: em_ok_def table_ok_def)
  ultimately show "em_ok (w\<lparr>handles := (handles w)(h \<mapsto> e), loop_functions_write := loop_functions_write w @ [Do_Add h]\<rparr>)"
    using assms(1,3,4) by (fastforce simp: em_ok_def table_ok_def adds_append ran_def)
qed

lemma put_loop_plain:
  assumes "recycled w = []"
  shows "put_loop i w s = s\<lparr>socket_loop := (socket_loop s)[i := w]\<rparr>"
proof -
  have w: "w\<lparr>recycled := []\<rparr> = w" using assms by (cases w) simp
  show ?thesis unfolding put_loop_def hand_back_def w assms by simp
qed

lemma do_add_client_ok:
  assumes ok: "loops_ok s" and idx: "unat (acceptor_index s) < event_size s" "event_size s < 2 ^ 32"
    and run: "\<forall>w \<in> set (socket_loop s). \<not> em_quit w"
    and m: "malloc_ok m (handle_pool s)" and c: "clients s a = Some c" "0 < fd c"
  shows "\<exists>h s'. do_add_client m a s = Inr s' \<and> loops_ok s' \<and> h \<notin> live (handle_pool s) \<and>
    (let i = (unat (acceptor_index s) + 1) mod event_size s; w = socket_loop s ! i in
     client_map s' = (client_map s)(fd c \<mapsto> a)
     \<and> clients s' = (clients s)(a \<mapsto> c\<lparr>loop_index := i, event_loop := Some i,
          message_callback := (case m_callback s of None \<Rightarrow> message_callback c | Some k \<Rightarrow> Some k)\<rparr>)
     \<and> socket_loop s' = (socket_loop s)[i := w\<lparr>handles := (handles w)(h \<mapsto> client_handle a (fd c)),
          loop_functions_write := loop_functions_write w @ [Do_Add h]\<rparr>]
     \<and> announced s' = announced s @ (case established_callback c of None \<Rightarrow> [] | Some k \<Rightarrow> [(k, fd_key c)]))"
proof -
  let ?i = "(unat (acceptor_index s) + 1) mod event_size s"
  define i where "i = (unat (acceptor_index s) + 1) mod event_size s"
  define w where "w = socket_loop s ! i"
  note idx' = event_index_next [OF idx i_def]
  let ?cb = "case m_callback s of None \<Rightarrow> message_callback c | Some k \<Rightarrow> Some k"
  let ?c = "c\<lparr>loop_index := i, event_loop := Some i, message_callback := ?cb\<rparr>"
  have i: "i < length (socket_loop s)" using ok idx'(3) by (simp add: loops_ok_def)
  then have w: "em_ok w" "recycled w = []" "dom (handles w) \<subseteq> live (handle_pool s)" "\<not> em_quit w"
    using ok run by (auto simp: loops_ok_def w_def)
  obtain h P where h: "pool_pop m (handle_pool s) = Inr (h, P)" "pool_ok P" "h \<notin> live (handle_pool s)"
      "live P = insert h (live (handle_pool s))"
    using opool.take_ok [OF _ m] ok by (auto simp: loops_ok_def)
  have fresh: "handles w h = None" using w(3) h(3) by (auto simp: domIff)
  define w' where "w' = w\<lparr>handles := (handles w)(h \<mapsto> client_handle a (fd c)),
     loop_functions_write := loop_functions_write w @ [Do_Add h]\<rparr>"
  have off: "offer h (client_handle a (fd c)) w = Inr (0, w')" "em_ok w'" "recycled w' = []"
    using offer_ok [OF w(1,4) client_handle_bound(1) [OF c(2)] fresh] w(2) by (simp_all add: w'_def)
  let ?s = "s\<lparr>acceptor_index := word_of_nat i, clients := (clients s)(a \<mapsto> ?c),
     client_map := (client_map s)(fd c \<mapsto> a), handle_pool := P, socket_loop := (socket_loop s)[i := w']\<rparr>"
  define s' where "s' = (case established_callback c of None \<Rightarrow> ?s
     | Some k \<Rightarrow> ?s\<lparr>announced := announced s @ [(k, fd_key c)]\<rparr>)"
  have "do_add_client m a s = Inr s'"
    using i c(1) h(1) off
    by (cases c, cases "m_callback s"; cases "established_callback c")
      (simp_all add: do_add_client_def idx'(1) get_object_def loop_at_def put_object_def pop_handle_def
        put_loop_plain s'_def flip: w_def)
  moreover have "\<forall>v \<in> set ((socket_loop s)[i := w']). em_ok v \<and> recycled v = [] \<and> dom (handles v) \<subseteq> live P"
  proof
    fix v assume "v \<in> set ((socket_loop s)[i := w'])"
    then consider "v = w'" | "v \<in> set (socket_loop s)"
      using set_update_subset_insert [of "socket_loop s" i w'] by blast
    then show "em_ok v \<and> recycled v = [] \<and> dom (handles v) \<subseteq> live P"
    proof cases
      case 1
      then show ?thesis using off(2,3) w(3) h(4) by (auto simp: w'_def)
    next
      case 2
      then show ?thesis using ok h(4) by (auto simp: loops_ok_def)
    qed
  qed
  then have "loops_ok ?s" using ok h(2) by (simp add: loops_ok_def)
  then have "loops_ok s'" by (simp add: loops_ok_def s'_def split: option.split)
  moreover have "client_map s' = (client_map s)(fd c \<mapsto> a)" "clients s' = (clients s)(a \<mapsto> ?c)"
      "socket_loop s' = (socket_loop s)[i := w']"
      "announced s' = announced s @ (case established_callback c of None \<Rightarrow> [] | Some k \<Rightarrow> [(k, fd_key c)])"
    by (simp_all add: s'_def split: option.split)
  ultimately show ?thesis
    using h(3) i unfolding i_def [symmetric] Let_def w_def [symmetric]
    by (intro exI [of _ h] exI [of _ s']) (simp add: w'_def)
qed

lemma fold_push_handle: "fold push_handle hs s = s\<lparr>handle_pool := fold pool_push hs (handle_pool s)\<rparr>"
  by (induction hs arbitrary: s) (simp_all add: push_handle_def)

lemma put_loop_eq: "put_loop i w s = s\<lparr>handle_pool := fold pool_push (recycled w) (handle_pool s),
    socket_loop := (socket_loop s)[i := w\<lparr>recycled := []\<rparr>]\<rparr>"
  by (simp add: put_loop_def hand_back_def fold_push_handle)

lemma put_acceptor_eq: "put_acceptor w s = s\<lparr>handle_pool := fold pool_push (recycled w) (handle_pool s),
    acceptor_loop := w\<lparr>recycled := []\<rparr>\<rparr>"
  by (simp add: put_acceptor_def hand_back_def fold_push_handle)

lemma do_add_client_frame:
  assumes "do_add_client m a s = Inr s'" and c: "clients s a = Some c"
  shows "\<exists>c'. clients s' = (clients s)(a \<mapsto> c') \<and> fd c' = fd c \<and> fd_key c' = fd_key c
    \<and> client_map s' = (client_map s)(fd c \<mapsto> a) \<and> connect_map s' = connect_map s \<and> buffer_pool s' = buffer_pool s"
proof -
  obtain i s1 where i: "event_index s = (i, s1)" by fastforce
  then have s1: "clients s1 = clients s" "client_map s1 = client_map s" "connect_map s1 = connect_map s"
      "buffer_pool s1 = buffer_pool s"
    by (auto simp: event_index_def Let_def)
  show ?thesis
    using assms(1) c s1 unfolding do_add_client_def i
    by (auto simp: Let_def get_object_def put_object_def pop_handle_def put_loop_eq elim!: bind_resE
        split: option.splits prod.splits)
qed

lemma do_remove_client_frame:
  assumes "do_remove_client n s = Inr s'"
  shows "connect_map s' = connect_map s \<and> client_map s' = (client_map s)(n := None)
    \<and> socket_loop s' = socket_loop s \<and> handle_pool s' = handle_pool s \<and> event_size s' = event_size s
    \<and> acceptor_index s' = acceptor_index s"
  using assms
  by (auto simp: do_remove_client_def push_client_def fun_upd_idem elim!: bind_resE split: option.splits)

section \<open>A new socket\<close>

text \<open>The client object of a new connection.\<close>

definition registered_client :: "64 word \<Rightarrow> int \<Rightarrow> byte list \<Rightarrow> 16 word \<Rightarrow> nat option \<Rightarrow> nat option \<Rightarrow> client" where
  "registered_client k n ip port callback estab = init_client n ip port
     (new_client\<lparr>message_callback := callback, established_callback := estab, fd_key := k\<rparr>)"

lemma registered_client_simps [simp]:
  "fd (registered_client k n ip port cb est) = n" "fd_key (registered_client k n ip port cb est) = k"
  "message_callback (registered_client k n ip port cb est) = cb"
  "established_callback (registered_client k n ip port cb est) = est"
  by (simp_all add: registered_client_def init_client_def Let_def)

lemma register_socket_ok:
  assumes "pool_pop m (client_pool s) = Inr (a, P)"
  shows "register_socket m n ip port cb est s = Inr (last_key s + 1, a,
    s\<lparr>last_key := last_key s + 1, connect_map := (connect_map s)(last_key s + 1 \<mapsto> n), client_pool := P,
      clients := (clients s)(a \<mapsto> registered_client (last_key s + 1) n ip port cb est),
      main_thread := run_in_thread (Add_Client a) (main_thread s)\<rparr>)"
  using assms
  by (simp add: register_socket_def insert_fd_def pop_client_def get_object_def put_object_def add_client_def
      post_def Let_def registered_client_def)

lemma pool_pop_idle:
  assumes "pool_ok P" and "0 < length (idle_list (block_list P))"
  obtains a P' where "pool_pop m P = Inr (a, P')" "pool_ok P'" "a \<notin> live P" "live P' = insert a (live P)"
    "length (idle_list (block_list P)) = Suc (length (idle_list (block_list P')))"
proof -
  obtain a bs where pop: "pop_blocks (block_list P) = Some (a, bs)"
    using assms(2) pop_blocks_None [of "block_list P"] by (cases "pop_blocks (block_list P)") auto
  then have "pool_pop m P = Inr (a, P\<lparr>block_list := bs\<rparr>)" by (simp add: pool_pop_def)
  then show thesis
    using pool_pop_reuse [OF assms(1) pop] pop_blocks_Some(1) [OF pop]
    by (intro that [of a "P\<lparr>block_list := bs\<rparr>"]) simp_all
qed

section \<open>A sample manager\<close>

text \<open>One loop and one connection with unpacking due.\<close>

definition tm_client :: client where
  "tm_client = new_client\<lparr>fd := 5, fd_key := 1, read_flag := 2\<rparr>"

definition tm_sample :: tcp_manager where
  "tm_sample = (snd (tm_init 1 (new_tcp_manager 48 640 96)))\<lparr>m_running := True,
     packer_thread := tp_start 1 new_thread_pool, clients := [300 \<mapsto> tm_client], client_map := [5 \<mapsto> 300],
     connect_map := [1 \<mapsto> 5], last_key := 1\<rparr>"

lemma tm_sample_simps [simp]:
  "clients tm_sample = [300 \<mapsto> tm_client]" "client_map tm_sample = [5 \<mapsto> 300]" "connect_map tm_sample = [1 \<mapsto> 5]"
  "event_size tm_sample = 1" "socket_loop tm_sample = [new_event_manager]" "acceptor_index tm_sample = 0"
  "handle_pool tm_sample = empty_pool 96" "workers (packer_thread tm_sample) = [Testing]"
  "task_list (packer_thread tm_sample) = []" "m_running tm_sample" "m_init tm_sample"
  "acceptor_loop tm_sample = new_event_manager" "buffer_pool tm_sample = \<lparr>bpool = empty_pool 48, bufs = Map.empty\<rparr>"
  "closed_fds tm_sample = []" "m_callback tm_sample = None" "main_thread tm_sample = new_task_thread"
  by (simp_all add: tm_sample_def tm_init_def new_tcp_manager_def tp_start_def new_thread_pool_def)

lemma empty_pool_ok: "0 < sz \<Longrightarrow> pool_ok (empty_pool sz)" "p \<noteq> 0 \<Longrightarrow> malloc_ok p (empty_pool sz)"
  by (simp_all add: pool_ok_def empty_pool_def malloc_ok_def)

lemma new_event_manager_em_ok: "em_ok new_event_manager"
  by (simp add: em_ok_def table_ok_def new_event_manager_def)

section \<open>Properties\<close>

text \<open>
  C25: Keys are never reused: after any sequence of insertions and removals on a started manager,
  fewer than 2 ^ 64 - 1 of them insertions, all keys given out are different and not 0, the next one
  is new and leads to its descriptor, and the other keys lead where they led.
\<close>

theorem keys_fresh:
  assumes "last_key s = 0" and "connect_map s = Map.empty" and "key_run es s = (ks, s1)"
    and "length ks < 2 ^ 64 - 1" and "insert_fd n s1 = (k, s2)"
  shows "k \<noteq> 0 \<and> k \<notin> set ks \<and> k \<notin> dom (connect_map s1) \<and> distinct ks \<and> get_fd k s2 = n
    \<and> (\<forall>k'. k' \<noteq> k \<longrightarrow> get_fd k' s2 = get_fd k' s1)"
proof -
  have r: "ks = map (\<lambda>i. word_of_nat (Suc i)) [0 ..< length ks]" "last_key s1 = word_of_nat (length ks)"
      "dom (connect_map s1) \<subseteq> set ks"
    using key_run_keys [OF assms(3)] assms(1,2) by auto
  have k: "k = word_of_nat (Suc (length ks))"
      "s2 = s1\<lparr>last_key := k, connect_map := (connect_map s1)(k \<mapsto> n)\<rparr>"
    using assms(5) r(2) by (auto simp: insert_fd_def Let_def)
  have inj: "word_of_nat i = (word_of_nat j :: 64 word) \<longleftrightarrow> i = j" if "i < 2 ^ 64" "j < 2 ^ 64" for i j
    using that by (simp add: word_of_nat_eq_iff take_bit_nat_eq_self)
  have "k \<noteq> word_of_nat (Suc i)" if "i < length ks" for i
    unfolding k(1) using inj [of "Suc i" "Suc (length ks)"] assms(4) that by simp
  then have "k \<notin> (\<lambda>i. word_of_nat (Suc i)) ` {0 ..< length ks}" by (simp add: image_iff)
  then have "k \<notin> set ks" by (subst r(1)) (simp only: set_map set_upt not_False_eq_True)
  moreover have "k \<noteq> 0" using inj [of "Suc (length ks)" 0] assms(4) by (simp add: k(1))
  moreover have "inj_on (\<lambda>i. word_of_nat (Suc i) :: 64 word) {0 ..< length ks}"
  proof (rule inj_onI)
    fix i j assume "i \<in> {0 ..< length ks}" "j \<in> {0 ..< length ks}"
      and eq: "word_of_nat (Suc i) = (word_of_nat (Suc j) :: 64 word)"
    then have "Suc i < 2 ^ 64" "Suc j < 2 ^ 64" using assms(4) by auto
    then show "i = j" using inj eq by blast
  qed
  then have "distinct ks" by (subst r(1)) (simp add: distinct_map)
  ultimately show ?thesis using r(3) by (auto simp: k(2) get_fd_def)
qed

theorem keys_fresh_witness:
  "\<exists>s1 s2. key_run [Insert 5, Erase 1, Insert 5] (new_tcp_manager 48 640 96) = ([1, 2], s1)
     \<and> insert_fd 7 s1 = (3, s2) \<and> get_fd 3 s2 = 7 \<and> get_fd 2 s2 = 5 \<and> get_fd 1 s2 = 0"
proof -
  let ?s = "new_tcp_manager 48 640 96"
  obtain s1 where s1: "key_run [Insert 5, Erase 1, Insert 5] ?s = ([1, 2], s1)"
      "last_key s1 = 2" "connect_map s1 = [2 \<mapsto> 5]"
    by (simp add: insert_fd_def remove_fd_def new_tcp_manager_def fun_upd_idem)
  obtain s2 where s2: "insert_fd 7 s1 = (3, s2)" by (simp add: insert_fd_def s1)
  have "get_fd 3 s2 = 7 \<and> (\<forall>k'. k' \<noteq> 3 \<longrightarrow> get_fd k' s2 = get_fd k' s1)"
    using keys_fresh [OF _ _ s1(1) _ s2] by (simp add: new_tcp_manager_def)
  then show ?thesis
    using s1 s2 by (intro exI [of _ s1] exI [of _ s2]) (simp add: get_fd_def)
qed

text \<open>
  C26: Connections are spread over the loops round robin: as many calls of \<open>event_index\<close> as there are
  loops name every loop exactly once, from any state of the counter, and no call names a loop that
  does not exist.
\<close>

theorem round_robin_fair:
  assumes "unat (acceptor_index s) < event_size s" and "event_size s < 2 ^ 32"
  shows "distinct (indices (event_size s) s) \<and> set (indices (event_size s) s) = {0 ..< event_size s}
    \<and> set (indices k s) \<subseteq> {0 ..< event_size s}"
proof -
  have b: "bij_betw (\<lambda>j. (unat (acceptor_index s) + 1 + j) mod event_size s)
      {0 ..< event_size s} {0 ..< event_size s}"
    using assms(1) by (intro mod_window) simp
  have "event_size s > 0" using assms(1) by simp
  then show ?thesis
    using b unfolding indices_eq [OF assms] bij_betw_def by (auto simp: distinct_map)
qed

theorem round_robin_fair_witness:
  "set (indices 3 (new_tcp_manager 48 640 96\<lparr>event_size := 3\<rparr>)) = {0 ..< 3}"
  using round_robin_fair [of "new_tcp_manager 48 640 96\<lparr>event_size := 3\<rparr>"] by (simp add: new_tcp_manager_def)

text \<open>
  C14: What adding a client does: it enters the table under its descriptor, is tied to the next loop and
  takes over the manager's message callback if there is one, and its established callback is called
  once with its key; once the loop has run its functions and the kernel has accepted the descriptor,
  the descriptor is registered with a fresh handle, and an event of it calls this client's handler.
\<close>

theorem added_client_gets_events:
  assumes ok: "loops_ok s" and idx: "unat (acceptor_index s) < event_size s" "event_size s < 2 ^ 32"
    and run: "\<forall>w \<in> set (socket_loop s). \<not> em_quit w"
    and m: "malloc_ok m (handle_pool s)" and c: "clients s a = Some c" "0 < fd c"
    and i: "i = (unat (acceptor_index s) + 1) mod event_size s" and w: "w = socket_loop s ! i"
    and quiet: "loop_functions_read w = []" "loop_functions_write w = []" "em_tid w = me" "0 < events_size w"
    and free: "handler_map w (fd c) = None" "accepts (fd c)"
  shows "\<exists>h s' w2. do_add_client m a s = Inr s' \<and> client_map s' = (client_map s)(fd c \<mapsto> a)
    \<and> clients s' = (clients s)(a \<mapsto> c\<lparr>loop_index := i, event_loop := Some i,
          message_callback := (case m_callback s of None \<Rightarrow> message_callback c | Some k \<Rightarrow> Some k)\<rparr>)
    \<and> announced s' = announced s @ (case established_callback c of None \<Rightarrow> [] | Some k \<Rightarrow> [(k, fd_key c)])
    \<and> loop_func me accepts (socket_loop s' ! i) = Inr w2 \<and> h \<notin> live (handle_pool s)
    \<and> handler_map w2 = (handler_map w)(fd c \<mapsto> h)
    \<and> (\<forall>now fl. \<exists>w3. loop_io (Ready [(h, fl)]) now w2 = Inr ([IO_Call a (fd c) fl], w3))"
proof -
  let ?e = "client_handle a (fd c)"
  obtain h s' where s': "do_add_client m a s = Inr s'" "loops_ok s'" "h \<notin> live (handle_pool s)"
      "client_map s' = (client_map s)(fd c \<mapsto> a)"
      "clients s' = (clients s)(a \<mapsto> c\<lparr>loop_index := i, event_loop := Some i,
          message_callback := (case m_callback s of None \<Rightarrow> message_callback c | Some k \<Rightarrow> Some k)\<rparr>)"
      "socket_loop s' = (socket_loop s)[i := w\<lparr>handles := (handles w)(h \<mapsto> ?e), loop_functions_write := [Do_Add h]\<rparr>]"
      "announced s' = announced s @ (case established_callback c of None \<Rightarrow> [] | Some k \<Rightarrow> [(k, fd_key c)])"
    using do_add_client_ok [OF ok idx run m c] quiet(2) unfolding Let_def i [symmetric] w [symmetric] by auto
  let ?w = "w\<lparr>handles := (handles w)(h \<mapsto> ?e), loop_functions_write := [Do_Add h]\<rparr>"
  let ?v = "?w\<lparr>loop_functions_write := [], loop_functions_read := [Do_Add h]\<rparr>"
  have "i < length (socket_loop s)" using ok event_index_next(3) [OF idx i] by (simp add: loops_ok_def)
  then have at: "socket_loop s' ! i = ?w" and "em_ok ?w"
    using s'(2) unfolding loops_ok_def s'(6) by (simp, metis length_list_update nth_list_update_eq nth_mem)
  then have "table_ok [h] ?v" using quiet(1) by (simp add: em_ok_def table_ok_def)
  then obtain v2 where v2: "do_add_handle me True h ?v = Inr v2" "table_ok [] v2" "same_loop ?v v2"
      "handles v2 = handles ?v" "handler_map v2 = (handler_map w)(fd c \<mapsto> h)"
    using do_add_handle_ok [of h "[]" ?v me ?e True] quiet(3) free client_handle_bound(2) by auto
  let ?w2 = "v2\<lparr>loop_functions_read := []\<rparr>"
  have "loop_func me accepts ?w = Inr ?w2"
    using v2(1) quiet(1) free(2) client_handle_bound(2) by (simp add: loop_func_def splice_calls_def)
  moreover have "\<exists>w3. loop_io (Ready [(h, fl)]) now ?w2 = Inr ([IO_Call a (fd c) fl], w3)" if "\<not> em_quit w" for now fl
    using v2(3,4) quiet(4) that client_handle_bound(3) [of now fl a "fd c"]
    by (auto simp: loop_io_def same_loop_def Let_def check_def)
  moreover have "\<not> em_quit w" using run w \<open>i < length (socket_loop s)\<close> by simp
  ultimately show ?thesis
    using s' at v2(5) by (intro exI [of _ h] exI [of _ s'] exI [of _ ?w2]) simp
qed

theorem added_client_gets_events_witness:
  "\<exists>h s' w2 w3. do_add_client 1000 300 (tm_sample\<lparr>client_map := Map.empty\<rparr>) = Inr s' \<and> client_map s' = [5 \<mapsto> 300]
     \<and> loop_func 0 (\<lambda>_. True) (socket_loop s' ! 0) = Inr w2
     \<and> loop_io (Ready [(h, EPOLLIN)]) 7 w2 = Inr ([IO_Call 300 5 EPOLLIN], w3)"
proof -
  let ?s = "tm_sample\<lparr>client_map := Map.empty\<rparr>"
  have "loops_ok ?s"
    using new_event_manager_em_ok by (simp add: loops_ok_def empty_pool_ok) (simp add: new_event_manager_def)
  then obtain h s' w2 where r: "do_add_client 1000 300 ?s = Inr s'" "client_map s' = (client_map ?s)(fd tm_client \<mapsto> 300)"
      "loop_func 0 (\<lambda>_. True) (socket_loop s' ! 0) = Inr w2"
      "\<forall>now fl. \<exists>w3. loop_io (Ready [(h, fl)]) now w2 = Inr ([IO_Call 300 (fd tm_client) fl], w3)"
    using added_client_gets_events [where s = ?s and m = 1000 and a = 300 and c = tm_client and i = 0
        and w = new_event_manager and me = 0 and accepts = "\<lambda>_. True"] empty_pool_ok(2) [of 1000 96]
    by (auto simp: tm_client_def new_event_manager_def MAX_EVENT_def)
  have n: "fd tm_client = 5" by (simp add: tm_client_def)
  have "client_map s' = [5 \<mapsto> 300]" using r(2) n by simp
  then show ?thesis using r(1,3,4) unfolding n by blast
qed

text \<open>
  A key outlives its connection: removing a client leaves its key in the table of connections, so
  that, when the descriptor is given to the next client, a packet sent to the old key is queued for
  the new connection.
\<close>

theorem stale_key_reaches_next_client:
  assumes "get_fd k s = n" and "do_remove_client n s = Inr s1"
    and "clients s2 a = Some c" and "fd c = n" and "n \<noteq> 0"
    and "connect_map s2 = connect_map s1" and "do_add_client m a s2 = Inr s3"
    and "bufs (buffer_pool s3) src = Some b" and "readInt64 b = Inr (k, b')"
  shows "\<exists>c' bs. clients s3 a = Some c' \<and> fd_key c' = fd_key c
    \<and> bs = (buffer_pool s3)\<lparr>bufs := (bufs (buffer_pool s3))(src \<mapsto> b')\<rparr>
    \<and> tm_push_send_pack m' src s3 =
        bind_res (push_send_pack m' src c' bs) (\<lambda>(r, c', bs). Inr (r, (put_object a c' s3)\<lparr>buffer_pool := bs\<rparr>))"
proof -
  obtain c' where c': "clients s3 = (clients s2)(a \<mapsto> c')" "fd_key c' = fd_key c"
      "client_map s3 = (client_map s2)(fd c \<mapsto> a)" "connect_map s3 = connect_map s2"
    using do_add_client_frame [OF assms(7,3)] by blast
  have "get_fd k s3 = n"
    using do_remove_client_frame [OF assms(2)] assms(1,6) c'(4) by (simp add: get_fd_def)
  then show ?thesis
    using c' assms(4,5,8,9)
    by (intro exI [of _ c']) (simp add: tm_push_defs get_fd_def get_client_def get_object_def
        put_object_def Let_def)
qed

theorem stale_key_reaches_next_client_witness:
  "\<exists>s1 s3. do_remove_client 5 tm_sample = Inr s1
     \<and> do_add_client 1000 400 (s1\<lparr>clients := [400 \<mapsto> tm_client\<lparr>fd_key := 2\<rparr>],
         buffer_pool := \<lparr>bpool = empty_pool 48, bufs = [700 \<mapsto> rx_buf (be_bytes (1 :: 64 word))]\<rparr>\<rparr>) = Inr s3
     \<and> (\<exists>c' bs. clients s3 400 = Some c' \<and> fd_key c' = 2 \<and>
          tm_push_send_pack 800 700 s3 =
            bind_res (push_send_pack 800 700 c' bs) (\<lambda>(r, c', bs). Inr (r, (put_object 400 c' s3)\<lparr>buffer_pool := bs\<rparr>)))"
proof -
  let ?b = "rx_buf (be_bytes (1 :: 64 word))"
  have b: "buffer_ok ?b" "contents ?b = be_bytes (1 :: 64 word)"
    by (simp_all add: rx_buf_def buffer_ok_def contents_def vec_max_def)
  have r: "readInt64 ?b = Inr (1, skip 8 ?b)"
    using read_skips(4) [OF b(1)] from_be_be_bytes [of "1 :: 64 word"] by (simp add: b(2))
  obtain s1 where s1: "do_remove_client 5 tm_sample = Inr s1"
    by (simp add: do_remove_client_def push_client_def get_object_def destroy_client_def clear_def tm_client_def
        new_client_def)
  let ?s2 = "s1\<lparr>clients := [400 \<mapsto> tm_client\<lparr>fd_key := 2\<rparr>],
      buffer_pool := \<lparr>bpool = empty_pool 48, bufs = [700 \<mapsto> ?b]\<rparr>\<rparr>"
  have frame: "socket_loop s1 = [new_event_manager]" "handle_pool s1 = empty_pool 96" "event_size s1 = 1"
      "acceptor_index s1 = 0"
    using do_remove_client_frame [OF s1] by simp_all
  have "loops_ok ?s2"
    using new_event_manager_em_ok by (simp add: loops_ok_def empty_pool_ok frame) (simp add: new_event_manager_def)
  then obtain s3 where s3: "do_add_client 1000 400 ?s2 = Inr s3"
    using do_add_client_ok [of ?s2 1000 400 "tm_client\<lparr>fd_key := 2\<rparr>"] empty_pool_ok(2) [of 1000 96]
    by (auto simp: frame tm_client_def new_event_manager_def)
  have bufs3: "bufs (buffer_pool s3) 700 = Some ?b"
    using do_add_client_frame [OF s3, of "tm_client\<lparr>fd_key := 2\<rparr>"] by auto
  have "get_fd 1 tm_sample = 5" by (simp add: get_fd_def)
  then have "\<exists>c' bs. clients s3 400 = Some c' \<and> fd_key c' = 2 \<and>
      tm_push_send_pack 800 700 s3 =
        bind_res (push_send_pack 800 700 c' bs) (\<lambda>(r, c', bs). Inr (r, (put_object 400 c' s3)\<lparr>buffer_pool := bs\<rparr>))"
    using stale_key_reaches_next_client [OF _ s1 _ _ _ _ s3 bufs3 r, of "tm_client\<lparr>fd_key := 2\<rparr>" 800]
    by (auto simp: tm_client_def)
  then show ?thesis using s1 s3 by blast
qed

end
