(* ===== verification/Connection_Schedule.thy ===== *)
theory Connection_Schedule
  imports Connection_Table
begin

text \<open>
  The send timer of a \<open>TcpManager\<close>: which work a visit of the table hands to the pool, and the
  connections that no visit ever touches again.
\<close>

section \<open>Scheduling\<close>

text \<open>The table holds live clients under their own descriptors.\<close>

definition table_alive :: "tcp_manager \<Rightarrow> bool" where
  "table_alive s \<longleftrightarrow> (\<forall>n a. client_map s n = Some a \<longrightarrow> (\<exists>c. clients s a = Some c \<and> fd c = n))"

lemma table_alive_inj:
  assumes "table_alive s" and "client_map s n = Some a" and "client_map s n' = Some a"
  shows "n' = n"
  using assms unfolding table_alive_def by (metis option.inject)

lemma visit_again: "visit a (snd (visit a c)) = ([], snd (visit a c))"
  by (auto simp: visit_def is_update_iff is_write_update_iff can_close_iff can_read_iff can_write_iff
      flag_bits split: prod.splits if_splits)

lemma visit_fd [simp]: "fd (snd (visit a c)) = fd c"
  by (simp add: visit_def flag_ops split: prod.split)

lemma visit_jobs:
  "distinct (fst (visit a c))" "set (fst (visit a c)) \<subseteq> {Req_Close a, Handle_Unpack a, Timeout_Send a}"
  "Req_Close a \<in> set (fst (visit a c)) \<longleftrightarrow> can_close c"
  by (auto simp: visit_def can_close_def split: prod.splits if_splits)

text \<open>The clients after a visit of those in \<open>A\<close>, and the jobs asked for.\<close>

definition visited :: "nat set \<Rightarrow> tcp_manager \<Rightarrow> tcp_manager" where
  "visited A s = s\<lparr>clients := (\<lambda>a. if a \<in> A then map_option (\<lambda>c. snd (visit a c)) (clients s a) else clients s a)\<rparr>"

definition jobs_of :: "tcp_manager \<Rightarrow> int \<Rightarrow> job list" where
  "jobs_of s n = (let a = the (client_map s n) in fst (visit a (the (clients s a))))"

lemma gather_visits:
  assumes "table_alive s" and "distinct fds" and "set fds \<subseteq> dom (client_map s)"
  shows "gather visit_entry fds s
    = Inr (map (jobs_of s) fds, visited ((\<lambda>n. the (client_map s n)) ` set fds) s)"
  using assms
proof (induction fds arbitrary: s)
  case Nil
  then show ?case by (simp add: visited_def)
next
  case (Cons n fds)
  obtain a where a: "client_map s n = Some a" using Cons.prems(3) by auto
  obtain c where c: "clients s a = Some c" "fd c = n" using Cons.prems(1) a by (auto simp: table_alive_def)
  let ?s = "put_object a (snd (visit a c)) s"
  have step: "visit_entry n s = Inr (jobs_of s n, ?s)"
    using a c(1) by (simp add: visit_entry_def get_object_def jobs_of_def split: prod.split)
  have alive: "table_alive ?s"
    unfolding table_alive_def
  proof (intro allI impI)
    fix n' a' assume n': "client_map ?s n' = Some a'"
    then obtain c' where "clients s a' = Some c'" "fd c' = n'"
      using Cons.prems(1) by (auto simp: table_alive_def put_object_def)
    then show "\<exists>c. clients ?s a' = Some c \<and> fd c = n'"
      using c by (cases "a' = a") (auto simp: put_object_def)
  qed
  have neq: "the (client_map s n') \<noteq> a" if mem: "n' \<in> set fds" for n'
  proof -
    obtain a' where a': "client_map s n' = Some a'" using subsetD [OF Cons.prems(3), of n'] mem by auto
    have "n' \<noteq> n" using Cons.prems(2) mem by auto
    then show ?thesis using table_alive_inj [OF Cons.prems(1), of n a n'] a a' by auto
  qed
  have jobs: "map (jobs_of ?s) fds = map (jobs_of s) fds"
    using neq by (simp add: jobs_of_def put_object_def Let_def)
  have "visited ((\<lambda>n. the (client_map ?s n)) ` set fds) ?s
      = visited ((\<lambda>n. the (client_map s n)) ` set (n # fds)) s"
    unfolding visited_def put_object_def using neq a c(1)
    by (simp, intro arg_cong [of _ _ "\<lambda>f. s\<lparr>clients := f\<rparr>"] ext) (auto simp: image_iff)
  then show ?case
    using Cons.IH [of ?s] alive Cons.prems(2,3) step jobs by (simp add: put_object_def)
qed

lemma distinct_concat_jobs:
  assumes "table_alive s" and "distinct fds" and "set fds \<subseteq> dom (client_map s)"
  shows "distinct (concat (map (jobs_of s) fds))"
  using assms(2,3)
proof (induction fds)
  case (Cons n fds)
  have "set (jobs_of s n) \<inter> set (jobs_of s n') = {}" if mem: "n' \<in> set fds" for n'
  proof -
    obtain a where a: "client_map s n = Some a" using Cons.prems by auto
    obtain a' where a': "client_map s n' = Some a'" using subsetD [OF Cons.prems(2), of n'] mem by auto
    have "n' \<noteq> n" using Cons.prems mem by auto
    then have "a' \<noteq> a" using table_alive_inj [OF assms(1) a, of n'] a' by auto
    then show ?thesis
      using visit_jobs(2) [of a "the (clients s a)"] visit_jobs(2) [of a' "the (clients s a')"] a a'
      by (auto simp: jobs_of_def Let_def)
  qed
  moreover have "distinct (jobs_of s n)" by (simp add: jobs_of_def visit_jobs Let_def)
  ultimately show ?case using Cons by auto
qed simp

lemma table_aliveD:
  assumes "table_alive s" and "client_map s n = Some a" and "clients s a = Some c"
  shows "fd c = n"
  using assms by (fastforce simp: table_alive_def)

lemma send_timeout_ok:
  assumes "table_alive s" and "distinct fds" and "set fds = dom (client_map s)"
    and "workers (packer_thread s) \<noteq> []"
  obtains p where "do_send_timeout fds s
      = Inr ([], s\<lparr>clients := clients (visited (ran (client_map s)) s), packer_thread := p\<rparr>)"
    "workers p = workers (packer_thread s)"
    "task_list p = task_list (packer_thread s) @ concat (map (jobs_of s) fds)"
    "table_alive (s\<lparr>clients := clients (visited (ran (client_map s)) s), packer_thread := p\<rparr>)"
proof -
  let ?v = "visited (ran (client_map s)) s" and ?js = "concat (map (jobs_of s) fds)"
  let ?p = "if ?js = [] then packer_thread s else snd (accept_task_list ?js (packer_thread s))"
  have ran: "(\<lambda>n. the (client_map s n)) ` dom (client_map s) = ran (client_map s)"
    by (force simp: ran_def image_iff)
  have g: "gather visit_entry fds s = Inr (map (jobs_of s) fds, ?v)"
    using gather_visits [OF assms(1,2)] assms(3) by (simp add: ran)
  have v: "?v = s\<lparr>clients := clients ?v, packer_thread := packer_thread s\<rparr>"
    by (simp add: visited_def)
  show thesis
  proof (rule that [of ?p])
    show "do_send_timeout fds s = Inr ([], s\<lparr>clients := clients ?v, packer_thread := ?p\<rparr>)"
      using assms(2-4) by (simp add: do_send_timeout_def g accept_task_list_def) (simp add: visited_def)
    show "table_alive (s\<lparr>clients := clients ?v, packer_thread := ?p\<rparr>)"
      unfolding table_alive_def
    proof (intro allI impI)
      fix n a assume "client_map (s\<lparr>clients := clients ?v, packer_thread := ?p\<rparr>) n = Some a"
      then have m: "client_map s n = Some a" by simp
      then obtain c where "clients s a = Some c" "fd c = n" using assms(1) by (auto simp: table_alive_def)
      with m show "\<exists>c. clients (s\<lparr>clients := clients ?v, packer_thread := ?p\<rparr>) a = Some c \<and> fd c = n"
        by (auto simp: visited_def ran_def)
    qed
  qed (use assms(4) in \<open>auto simp: accept_task_list_def\<close>)
qed

lemma ready_close_close_read: "close_flag c \<in> {0, 1, 2, 3} \<Longrightarrow> ready_close (close_read c)"
  by (auto simp: ready_close_def close_read_def FLAG_NOREAD_def)

text \<open>
  When a job is due, and what a tick makes of a client's flags: these say what the timer has to do,
  whatever way \<open>visit\<close> does it.
\<close>

fun due :: "client \<Rightarrow> job \<Rightarrow> bool" where
  "due c (Req_Close a) \<longleftrightarrow> \<not> closed c \<and> can_close c"
| "due c (Handle_Unpack a) \<longleftrightarrow> \<not> closed c \<and> \<not> can_close c \<and> is_update c \<and> can_read c"
| "due c (Timeout_Send a) \<longleftrightarrow> \<not> closed c \<and> \<not> can_close c \<and> is_write_update c \<and> can_write c"

definition marked :: "client \<Rightarrow> client" where
  "marked c = c
     \<lparr>closed := closed c \<or> can_close c,
      read_flag := (if due c (Handle_Unpack 0) then read_flag c OR FLAG_HANDLE else read_flag c),
      write_flag := (if due c (Timeout_Send 0) then write_flag c OR FLAG_HANDLE else write_flag c)\<rparr>"

lemma visit_due: "visit a c = (filter (due c) [Req_Close a, Handle_Unpack a, Timeout_Send a], marked c)"
  by (cases "closed c"; cases "can_close c"; cases "is_update c"; cases "can_read c"; cases "is_write_update c";
      cases "can_write c")
    (simp_all add: visit_def marked_def can_close_def flag_ops is_write_update_def can_write_def)

definition due_jobs :: "tcp_manager \<Rightarrow> int \<Rightarrow> job list" where
  "due_jobs s n =
     (case client_map s n of
        None \<Rightarrow> []
      | Some a \<Rightarrow>
          (case clients s a of
             None \<Rightarrow> []
           | Some c \<Rightarrow> filter (due c) [Req_Close a, Handle_Unpack a, Timeout_Send a]))"

definition marked_clients :: "tcp_manager \<Rightarrow> nat \<Rightarrow> client option" where
  "marked_clients s a = (if a \<in> ran (client_map s) then map_option marked (clients s a) else clients s a)"

lemma jobs_of_due:
  assumes "table_alive s" and "set fds = dom (client_map s)"
  shows "map (jobs_of s) fds = map (due_jobs s) fds"
proof (rule map_cong [OF refl])
  fix n assume "n \<in> set fds"
  then obtain a c where "client_map s n = Some a" "clients s a = Some c"
    using assms unfolding table_alive_def by (metis domD)
  then show "jobs_of s n = due_jobs s n" by (simp add: jobs_of_def due_jobs_def visit_due)
qed

lemma visited_marked: "clients (visited (ran (client_map s)) s) = marked_clients s"
  by (simp add: visited_def visit_due marked_clients_def fun_eq_iff)

section \<open>Properties\<close>

text \<open>
  C15: What a tick of the send timer schedules, whatever the order of the table.  A closing is due for
  an open client whose close bit is set, and then nothing else; an unpacking for one with data to
  unpack that nobody unpacks yet and that has not given up reading, a sending for one with packets
  that nobody sends yet and that has not given up writing (\<open>due\<close>).  Exactly the jobs that are due are
  appended to the pool's list, as one batch, in the order of the table and none twice; the
  clients of the table are marked, closed or with the unpacking or the sending taken, where such a
  job is due and unchanged elsewhere (\<open>marked\<close>), so that an immediate second tick schedules nothing.
\<close>

theorem send_timeout_schedules:
  assumes "table_alive s" and "distinct fds" and "set fds = dom (client_map s)"
    and "workers (packer_thread s) \<noteq> []"
  shows "\<exists>s'. do_send_timeout fds s = Inr ([], s')
    \<and> task_list (packer_thread s') = task_list (packer_thread s) @ concat (map (due_jobs s) fds)
    \<and> distinct (concat (map (due_jobs s) fds))
    \<and> clients s' = marked_clients s \<and> client_map s' = client_map s
    \<and> (\<exists>s2. do_send_timeout fds s' = Inr ([], s2)
         \<and> task_list (packer_thread s2) = task_list (packer_thread s') \<and> clients s2 = clients s')"
proof -
  let ?v = "visited (ran (client_map s)) s"
  obtain p where p: "do_send_timeout fds s = Inr ([], s\<lparr>clients := clients ?v, packer_thread := p\<rparr>)"
      "workers p = workers (packer_thread s)" "task_list p = task_list (packer_thread s) @ concat (map (jobs_of s) fds)"
      "table_alive (s\<lparr>clients := clients ?v, packer_thread := p\<rparr>)"
    by (rule send_timeout_ok [OF assms])
  let ?s1 = "s\<lparr>clients := clients ?v, packer_thread := p\<rparr>"
  have none: "jobs_of ?s1 n = []" if mem: "n \<in> set fds" for n
  proof -
    obtain a where a: "client_map s n = Some a" using mem unfolding assms(3) by auto
    moreover obtain c where "clients s a = Some c" using assms(1) a by (auto simp: table_alive_def)
    ultimately show ?thesis by (auto simp: jobs_of_def visited_def ran_def visit_again Let_def)
  qed
  obtain q where q: "do_send_timeout fds ?s1 = Inr ([], ?s1\<lparr>clients := clients (visited (ran (client_map ?s1)) ?s1),
      packer_thread := q\<rparr>)" "task_list q = task_list p @ concat (map (jobs_of ?s1) fds)"
    by (rule send_timeout_ok [OF p(4) assms(2)]) (use assms(3,4) p(2) in simp_all)
  have "clients (visited (ran (client_map ?s1)) ?s1) = clients ?s1"
    by (auto simp: visited_def fun_eq_iff visit_again map_option_case split: option.split)
  moreover have "concat (map (jobs_of ?s1) fds) = []" using none by simp
  ultimately show ?thesis
    using p q distinct_concat_jobs [OF assms(1,2)] assms(3)
    by (intro exI [of _ ?s1]) (simp add: jobs_of_due [OF assms(1,3), symmetric] visited_marked [symmetric])
qed

theorem send_timeout_schedules_witness:
  "\<exists>s'. do_send_timeout [5] tm_sample = Inr ([], s') \<and> task_list (packer_thread s') = [Handle_Unpack 300]"
proof -
  have "table_alive tm_sample" by (auto simp: table_alive_def tm_client_def)
  moreover have "due_jobs tm_sample 5 = [Handle_Unpack 300]"
    by (simp add: due_jobs_def tm_client_def new_client_def can_close_def is_update_def can_read_def
        is_write_update_def flag_bits)
  ultimately show ?thesis
    using send_timeout_schedules [of tm_sample "[5]"] by auto
qed

text \<open>
  \<open>close_client\<close> on a connection with nothing to send takes its key away and forbids reading,
  and then nothing closes it: no tick schedules a job for it, no event of its socket, not even the
  end of the stream, and no packet sent to it changes it any more, so it stays in the table.
\<close>

theorem closed_idle_client_stays:
  assumes "get_fd k s = n" and "n \<noteq> 0" and "client_map s n = Some a" and "clients s a = Some c"
    and "\<not> closed c" and "\<not> can_close c" and "\<not> is_write_update c" and "close_flag c \<in> {0, 1, 2, 3}"
  shows "\<exists>s'. close_client k s = Inr s' \<and> get_fd k s' = 0 \<and> client_map s' = client_map s
      \<and> clients s' = (clients s)(a \<mapsto> close_read c)
      \<and> visit a (close_read c) = ([], close_read c)
      \<and> handle_event m rs free w (fd c) events (close_read c) bs l = Inr (close_read c, bs, l)
      \<and> push_send_pack m src (close_read c) bs = Inr (-1, close_read c, bs)"
proof -
  have "\<exists>s'. close_client k s = Inr s' \<and> get_fd k s' = 0 \<and> client_map s' = client_map s
      \<and> clients s' = (clients s)(a \<mapsto> close_read c)"
    using assms(1-4) by (simp add: close_client_defs Let_def get_client_def get_object_def put_object_def
        remove_fd_def get_fd_def)
  moreover have f: "closed (close_read c) = closed c" "fd (close_read c) = fd c"
      "read_flag (close_read c) = read_flag c" "write_flag (close_read c) = write_flag c" "\<not> can_read (close_read c)"
    by (simp_all add: flag_bits can_read_iff)
  then have "\<not> can_close (close_read c)" "\<not> is_write_update (close_read c)"
    using assms(6,7) by (simp_all add: can_close_def is_write_update_def)
  then have "visit a (close_read c) = ([], close_read c)
      \<and> handle_event m rs free w (fd c) events (close_read c) bs l = Inr (close_read c, bs, l)
      \<and> push_send_pack m src (close_read c) bs = Inr (-1, close_read c, bs)"
    using f assms(5) ready_close_close_read [OF assms(8)]
    by (simp add: visit_def handle_event_def push_send_pack_def)
  ultimately show ?thesis by blast
qed

theorem closed_idle_client_stays_witness:
  "\<exists>s'. close_client 1 (tm_sample) = Inr s' \<and> client_map s' = [5 \<mapsto> 300] \<and> get_fd 1 s' = 0
     \<and> visit 300 (close_read tm_client) = ([], close_read tm_client)"
proof -
  have c: "\<not> closed tm_client" "\<not> can_close tm_client" "\<not> is_write_update tm_client" "close_flag tm_client = 0"
    by (simp_all add: tm_client_def new_client_def can_close_def is_write_update_def FLAG_CLOSE_def)
  have k: "get_fd 1 tm_sample = 5" by (simp add: get_fd_def)
  show ?thesis
    using closed_idle_client_stays [where k = 1 and s = tm_sample and n = 5 and a = 300 and c = tm_client
        and m = 0 and rs = "[]" and free = True and w = Write_EAGAIN and events = 0 and src = 0
        and bs = "buffer_pool tm_sample" and l = "\<lparr>handle_flags = Map.empty, update_queue = []\<rparr>"] c k
    by auto
qed

end
