(* ===== verification/Tcp_Session.thy ===== *)
theory Tcp_Session
  imports Connection_Schedule Client_Stream
begin

text \<open>
  The composition of \<open>TcpManager\<close>, its loops, its main thread and its pool: what the queued jobs,
  tasks and loop functions do when the threads get to them.  A step of one thread is one job, one
  task or one function.
\<close>

section \<open>A loop as its clients see it\<close>

fun updates :: "loop_call list \<Rightarrow> int list" where
  "updates [] = []"
| "updates (Do_Update n # fs) = n # updates fs"
| "updates (_ # fs) = updates fs"

definition loop_view_of :: "event_manager \<Rightarrow> loop_view" where
  "loop_view_of w =
     \<lparr>handle_flags = (\<lambda>n. case handler_map w n of None \<Rightarrow> None | Some h \<Rightarrow> map_option event_flags (handles w h)),
      update_queue = updates (loop_functions_write w)\<rparr>"

text \<open>A client's changes to its view, carried out on the loop.\<close>

definition commit_view :: "int \<Rightarrow> loop_view \<Rightarrow> event_manager \<Rightarrow> event_manager" where
  "commit_view n l w =
     (let new = drop (length (updates (loop_functions_write w))) (update_queue l);
          w = (case (handler_map w n, handle_flags l n) of
                 (Some h, Some fl) \<Rightarrow> w\<lparr>handles := (handles w)(h := map_option (set_event_flag fl) (handles w h))\<rparr>
               | _ \<Rightarrow> w) in
      fold update_handle new w)"

section \<open>Jobs of the pool\<close>

definition req_close :: "nat \<Rightarrow> tcp_manager \<Rightarrow> fault + tcp_manager" where
  "req_close a s =
     bind_res (get_object a s) (\<lambda>c.
     case event_loop c of
       None \<Rightarrow> Inl Null_Pointer
     | Some i \<Rightarrow> bind_res (loop_at i s) (\<lambda>w. Inr (put_loop i (run_in_handle_loop (Other a) w) s)))"

text \<open>
  \<open>m\<close> is what \<open>malloc\<close> returns, \<open>free\<close> and \<open>w\<close> the outcomes of \<open>try_lock\<close> and \<open>writev\<close>.  The first
  component are the packets handed to the message callback.
\<close>

fun run_job :: "nat \<Rightarrow> bool \<Rightarrow> write_result \<Rightarrow> job \<Rightarrow> tcp_manager \<Rightarrow> fault + ((nat \<times> buffer) list \<times> tcp_manager)" where
  "run_job m free w (Req_Close a) s = bind_res (req_close a s) (\<lambda>s. Inr ([], s))"
| "run_job m free w (Handle_Unpack a) s =
     bind_res (get_object a s) (\<lambda>c.
     bind_res (handle_unpack m c (buffer_pool s)) (\<lambda>(msgs, c, bs).
     Inr (msgs, (put_object a c s)\<lparr>buffer_pool := bs\<rparr>)))"
| "run_job m free w (Timeout_Send a) s =
     bind_res (get_object a s) (\<lambda>c.
     case event_loop c of
       None \<Rightarrow> Inl Null_Pointer
     | Some i \<Rightarrow>
         bind_res (loop_at i s) (\<lambda>em.
         bind_res (timeout_send free w c (buffer_pool s) (loop_view_of em)) (\<lambda>(c', bs, l).
         Inr ([], put_loop i (commit_view (fd c) l em) ((put_object a c' s)\<lparr>buffer_pool := bs\<rparr>)))))"

section \<open>Functions of a socket loop\<close>

text \<open>\<open>close\<close> runs in the loop thread \<open>me\<close> of the client's own loop.\<close>

definition close_entity :: "nat \<Rightarrow> nat \<Rightarrow> tcp_manager \<Rightarrow> fault + tcp_manager" where
  "close_entity me a s =
     bind_res (get_object a s) (\<lambda>c.
     case event_loop c of
       None \<Rightarrow> Inl Null_Pointer
     | Some i \<Rightarrow>
         bind_res (loop_at i s) (\<lambda>w.
         bind_res (do_remove_handle me (fd c) w) (\<lambda>w. Inr (remove_client (fd c) (put_loop i w s)))))"

fun run_loop_call :: "nat \<Rightarrow> (int \<Rightarrow> bool) \<Rightarrow> nat \<Rightarrow> loop_call \<Rightarrow> tcp_manager \<Rightarrow> fault + tcp_manager" where
  "run_loop_call me accepts i (Other a) s = close_entity me a s"
| "run_loop_call me accepts i f s =
     bind_res (loop_at i s) (\<lambda>w. bind_res (run_call me accepts f w) (\<lambda>w. Inr (put_loop i w s)))"

definition session_loop_func :: "nat \<Rightarrow> (int \<Rightarrow> bool) \<Rightarrow> nat \<Rightarrow> tcp_manager \<Rightarrow> fault + tcp_manager" where
  "session_loop_func me accepts i s =
     bind_res (loop_at i s) (\<lambda>w.
     if loop_functions_read w = [] \<and> loop_functions_write w = [] then Inr s
     else
       let (fs, w) = splice_calls w in
       bind_res (each (run_loop_call me accepts i) fs (put_loop i (w\<lparr>loop_functions_read := fs\<rparr>) s)) (\<lambda>s.
       bind_res (loop_at i s) (\<lambda>w. Inr (put_loop i (w\<lparr>loop_functions_read := []\<rparr>) s))))"

text \<open>An event of the socket of the client at \<open>a\<close>, dispatched by loop \<open>i\<close>.\<close>

definition client_event ::
    "nat \<Rightarrow> read_result list \<Rightarrow> bool \<Rightarrow> write_result \<Rightarrow> nat \<Rightarrow> nat \<Rightarrow> int \<Rightarrow> 32 word \<Rightarrow> tcp_manager
       \<Rightarrow> fault + tcp_manager" where
  "client_event m rs free w i a n events s =
     bind_res (get_object a s) (\<lambda>c.
     bind_res (loop_at i s) (\<lambda>em.
     bind_res (handle_event m rs free w n events c (buffer_pool s) (loop_view_of em)) (\<lambda>(c', bs, l).
     Inr (put_loop i (commit_view (fd c) l em) ((put_object a c' s)\<lparr>buffer_pool := bs\<rparr>)))))"

section \<open>Tasks of the main thread\<close>

text \<open>\<open>fds\<close> is the order of the table, \<open>m\<close> what \<open>malloc\<close> returns.\<close>

fun run_main_task :: "nat \<Rightarrow> int list \<Rightarrow> main_task \<Rightarrow> tcp_manager \<Rightarrow> fault + (job list \<times> tcp_manager)" where
  "run_main_task m fds (Add_Client a) s = bind_res (do_add_client m a s) (\<lambda>s. Inr ([], s))"
| "run_main_task m fds (Remove_Client n) s = bind_res (do_remove_client n s) (\<lambda>s. Inr ([], s))"
| "run_main_task m fds Send_Timeout s = do_send_timeout fds s"

section \<open>Watching through the view\<close>

lemma updates_append: "updates (fs @ gs) = updates fs @ updates gs"
  by (induction fs rule: updates.induct) auto

lemma loop_view_commit:
  assumes "handler_map w n = Some h" and "handles w h = Some e"
  shows "loop_view_of (commit_view n \<lparr>handle_flags = (handle_flags (loop_view_of w))(n \<mapsto> fl),
      update_queue = update_queue (loop_view_of w) @ [n]\<rparr> w)
    = \<lparr>handle_flags = (\<lambda>k. if handler_map w k = Some h then Some fl else handle_flags (loop_view_of w) k),
       update_queue = update_queue (loop_view_of w) @ [n]\<rparr>"
  using assms
  by (auto simp: loop_view_of_def commit_view_def update_handle_def run_in_handle_loop_def updates_append
      set_event_flag_def fun_eq_iff split: option.split)

section \<open>An ended connection\<close>

text \<open>
  The client at \<open>a\<close> with descriptor \<open>n\<close> on loop \<open>i\<close>, whose peer has closed: writing is given up and a
  last round of unpacking is due.
\<close>

definition ended_session :: "nat \<Rightarrow> nat \<Rightarrow> int \<Rightarrow> nat \<Rightarrow> tcp_manager \<Rightarrow> bool" where
  "ended_session me i n a s \<longleftrightarrow>
     table_alive s \<and> client_map s n = Some a \<and> workers (packer_thread s) \<noteq> [] \<and>
     (\<exists>c. clients s a = Some c \<and> client_ok c (buffer_pool s) \<and> \<not> closed c \<and> \<not> can_close c \<and> is_update c \<and>
        can_read c \<and> ready_close c \<and> recv_list c = [] \<and> unpack_list c = [] \<and> event_loop c = Some i) \<and>
     i < length (socket_loop s) \<and>
     (let w = socket_loop s ! i in em_ok w \<and> em_tid w = me \<and> recycled w = [] \<and>
        loop_functions_read w = [] \<and> loop_functions_write w = [] \<and> handler_map w n \<noteq> None)"

lemma visit_unpack:
  assumes "\<not> closed c" "\<not> can_close c" "is_update c" "can_read c"
  shows "Handle_Unpack a \<in> set (fst (visit a c))"
    and "snd (visit a c) = c\<lparr>read_flag := read_flag (snd (visit a c)), write_flag := write_flag (snd (visit a c))\<rparr>"
  using assms by (simp_all add: visit_def handle_update_def handle_write_update_def)

lemma visit_close:
  assumes "\<not> closed c" "can_close c"
  shows "visit a c = ([Req_Close a], set_close c)"
  using assms by (simp add: visit_def)

lemma table_alive_put:
  assumes "table_alive s" and "clients s a = Some c" and "fd c' = fd c"
  shows "table_alive (s\<lparr>clients := (clients s)(a \<mapsto> c')\<rparr>)"
  unfolding table_alive_def
proof (intro allI impI)
  fix n x assume "client_map (s\<lparr>clients := (clients s)(a \<mapsto> c')\<rparr>) n = Some x"
  then obtain d where "clients s x = Some d" "fd d = n" using assms(1) by (auto simp: table_alive_def)
  then show "\<exists>d. clients (s\<lparr>clients := (clients s)(a \<mapsto> c')\<rparr>) x = Some d \<and> fd d = n"
    using assms(2,3) by (cases "x = a") auto
qed

lemma jobs_in_batch:
  assumes "client_map s n = Some a" "n \<in> set fds" "clients s a = Some c" "j \<in> set (fst (visit a c))"
  shows "j \<in> set (concat (map (jobs_of s) fds))"
  using assms by (auto simp: jobs_of_def Let_def intro!: bexI [of _ n])

lemma tick_unpack:
  assumes s: "ended_session me i n a s" and fds: "distinct fds" "set fds = dom (client_map s)"
  obtains s1 s2 where "do_send_timeout fds s = Inr ([], s1)"
    "Handle_Unpack a \<in> set (drop (length (task_list (packer_thread s))) (task_list (packer_thread s1)))"
    "run_job m free w (Handle_Unpack a) s1 = Inr ([], s2)"
    "table_alive s2" "client_map s2 = client_map s" "socket_loop s2 = socket_loop s"
    "buffer_pool s2 = buffer_pool s" "workers (packer_thread s2) = workers (packer_thread s)"
    "connect_map s2 = connect_map s" "closed_fds s2 = closed_fds s"
    "\<exists>c2. clients s2 a = Some c2 \<and> fd c2 = n \<and> client_ok c2 (buffer_pool s) \<and> \<not> closed c2 \<and> can_close c2
       \<and> event_loop c2 = Some i"
proof -
  obtain c where c: "clients s a = Some c" "client_ok c (buffer_pool s)" "\<not> closed c" "\<not> can_close c"
      "is_update c" "can_read c" "ready_close c" "recv_list c = []" "unpack_list c = []" "event_loop c = Some i"
    using s by (auto simp: ended_session_def)
  have map: "client_map s n = Some a" and alive: "table_alive s" and wk: "workers (packer_thread s) \<noteq> []"
    using s by (simp_all add: ended_session_def)
  then have fd: "fd c = n" using table_aliveD c(1) by blast
  have mem: "n \<in> set fds" using map fds(2) by auto
  obtain p where p: "do_send_timeout fds s
      = Inr ([], s\<lparr>clients := clients (visited (ran (client_map s)) s), packer_thread := p\<rparr>)"
      "workers p = workers (packer_thread s)"
      "task_list p = task_list (packer_thread s) @ concat (map (jobs_of s) fds)"
      "table_alive (s\<lparr>clients := clients (visited (ran (client_map s)) s), packer_thread := p\<rparr>)"
    by (rule send_timeout_ok [OF alive fds wk])
  let ?s1 = "s\<lparr>clients := clients (visited (ran (client_map s)) s), packer_thread := p\<rparr>"
  obtain x y where xy: "snd (visit a c) = c\<lparr>read_flag := x, write_flag := y\<rparr>"
    using visit_unpack(2) [OF c(3-6)] by blast
  let ?c1 = "c\<lparr>read_flag := x, write_flag := y\<rparr>"
  have c1: "clients ?s1 a = Some ?c1"
    using map c(1) xy by (auto simp: visited_def ran_def)
  let ?c2 = "force_close (finish_update ?c1)"
  have hu: "handle_unpack m ?c1 bs = Inr ([], ?c2, bs)" for bs
    using c by (simp add: handle_unpack_def do_handle_unpack_def ready_close_def finish_update_def)
  let ?s2 = "?s1\<lparr>clients := (clients ?s1)(a \<mapsto> ?c2)\<rparr>"
  have same: "?s1\<lparr>clients := X, buffer_pool := buffer_pool s\<rparr> = ?s1\<lparr>clients := X\<rparr>" for X
    by simp
  show thesis
  proof (rule that [of ?s1 ?s2])
    show "run_job m free w (Handle_Unpack a) ?s1 = Inr ([], ?s2)"
      using c1 hu [of "buffer_pool s"] by (simp add: get_object_def put_object_def)
    show "table_alive ?s2"
      using table_alive_put [OF p(4) c1, of ?c2] by (simp add: force_close_def finish_update_def)
    show "\<exists>c2. clients ?s2 a = Some c2 \<and> fd c2 = n \<and> client_ok c2 (buffer_pool s) \<and> \<not> closed c2 \<and> can_close c2
       \<and> event_loop c2 = Some i"
      using c fd by (auto simp: can_close_iff flag_bits client_ok_frame force_close_def finish_update_def)
    show "Handle_Unpack a \<in> set (drop (length (task_list (packer_thread s))) (task_list (packer_thread ?s1)))"
      using jobs_in_batch [OF map mem c(1) visit_unpack(1) [OF c(3-6)]] p(3) by simp
  qed (use p in simp_all)
qed


text \<open>A loop without queued functions that has \<open>n\<close> registered.\<close>

definition quiet_loop :: "nat \<Rightarrow> int \<Rightarrow> event_manager \<Rightarrow> bool" where
  "quiet_loop me n w \<longleftrightarrow> em_ok w \<and> em_tid w = me \<and> recycled w = [] \<and>
     loop_functions_read w = [] \<and> loop_functions_write w = [] \<and> handler_map w n \<noteq> None"

lemma session_close_call:
  assumes w: "quiet_loop me n (socket_loop s ! i)" and i: "i < length (socket_loop s)"
    and c: "clients s a = Some c" "fd c = n" "event_loop c = Some i"
  obtains s4 s5 w5 where "req_close a s = Inr s4" "session_loop_func me accepts i s4 = Inr s5"
    "w5 = socket_loop s5 ! i" "handler_map w5 = (handler_map (socket_loop s ! i))(n := None)" "em_ok w5"
    "loop_functions_read w5 = []" "loop_functions_write w5 = []"
    "s5 = s\<lparr>main_thread := run_in_thread (Remove_Client n) (main_thread s), handle_pool := handle_pool s5,
       socket_loop := socket_loop s5\<rparr>"
proof -
  let ?w = "socket_loop s ! i"
  let ?w1 = "?w\<lparr>loop_functions_write := [Other a]\<rparr>"
  let ?w2 = "?w\<lparr>loop_functions_write := [], loop_functions_read := [Other a]\<rparr>"
  have q: "em_ok ?w" "em_tid ?w = me" "recycled ?w = []" "loop_functions_read ?w = []" "loop_functions_write ?w = []"
      "handler_map ?w n \<noteq> None"
    using w by (simp_all add: quiet_loop_def)
  have r1: "run_in_handle_loop (Other a) ?w = ?w1" using q by (simp add: run_in_handle_loop_def)
  let ?s4 = "s\<lparr>socket_loop := (socket_loop s)[i := ?w1]\<rparr>"
  have s4: "req_close a s = Inr ?s4"
    using c i q by (simp add: req_close_def get_object_def loop_at_def r1 put_loop_plain)
  have t2: "table_ok [] ?w2" "em_tid ?w2 = me" using q by (simp_all add: em_ok_def table_ok_def)
  obtain w3 where w3: "do_remove_handle me n ?w2 = Inr w3" "table_ok [] w3" "same_loop ?w2 w3"
      "handler_map w3 = (handler_map ?w2)(n := None)"
    using do_remove_handle_ok [OF t2, of n] by blast
  let ?s3 = "s\<lparr>socket_loop := (socket_loop s)[i := ?w2]\<rparr>"
  let ?w5 = "w3\<lparr>loop_functions_read := [], recycled := []\<rparr>"
  let ?s5 = "s\<lparr>main_thread := run_in_thread (Remove_Client n) (main_thread s),
     handle_pool := fold pool_push (recycled w3) (handle_pool s), socket_loop := (socket_loop s)[i := ?w5]\<rparr>"
  have close: "close_entity me a ?s3 = Inr (s\<lparr>handle_pool := fold pool_push (recycled w3) (handle_pool s),
      socket_loop := (socket_loop s)[i := w3\<lparr>recycled := []\<rparr>],
      main_thread := run_in_thread (Remove_Client n) (main_thread s)\<rparr>)"
    using c i w3(1) by (simp add: close_entity_def get_object_def loop_at_def put_loop_eq remove_client_def post_def)
  have split: "splice_calls ?w1 = ([Other a], ?w\<lparr>loop_functions_read := [], loop_functions_write := []\<rparr>)"
    using q by (simp add: splice_calls_def)
  have put: "put_loop i (?w\<lparr>loop_functions_read := [], loop_functions_write := []\<rparr>\<lparr>loop_functions_read := [Other a]\<rparr>) ?s4 = ?s3"
    using q by (simp add: put_loop_plain)
  have s5: "session_loop_func me accepts i ?s4 = Inr ?s5"
    unfolding session_loop_func_def using i
    by (simp add: loop_at_def split) (simp only: put [simplified] close [simplified] bind_res_Inr, simp add: put_loop_eq)
  show thesis
  proof (rule that [OF s4 s5 refl])
    show "handler_map (socket_loop ?s5 ! i) = (handler_map ?w)(n := None)"
      using i w3(4) by simp
    show "em_ok (socket_loop ?s5 ! i)" "loop_functions_read (socket_loop ?s5 ! i) = []"
      "loop_functions_write (socket_loop ?s5 ! i) = []"
      using i w3(2,3) by (simp_all add: em_ok_def table_ok_def same_loop_def)
  qed simp
qed

lemma tick_close:
  assumes alive: "table_alive s" and map: "client_map s n = Some a" and wk: "workers (packer_thread s) \<noteq> []"
    and c: "clients s a = Some c" "fd c = n" "client_ok c (buffer_pool s)" "\<not> closed c" "can_close c"
      "event_loop c = Some i"
    and i: "i < length (socket_loop s)" and w: "quiet_loop me n (socket_loop s ! i)"
    and fds: "distinct fds" "set fds = dom (client_map s)"
  obtains s3 s4 s5 s6 where "do_send_timeout fds s = Inr ([], s3)"
    "Req_Close a \<in> set (drop (length (task_list (packer_thread s))) (task_list (packer_thread s3)))"
    "run_job m free wr (Req_Close a) s3 = Inr ([], s4)" "session_loop_func me accepts i s4 = Inr s5"
    "main_thread s5 = run_in_thread (Remove_Client n) (main_thread s)"
    "run_main_task m fds' (Remove_Client n) s5 = Inr ([], s6)"
    "client_map s6 = (client_map s)(n := None)" "clients s6 a = None" "closed_fds s6 = closed_fds s @ [n]"
    "handler_map (socket_loop s6 ! i) n = None" "interest (socket_loop s6 ! i) n = None"
    "workers (packer_thread s6) = workers (packer_thread s)" "connect_map s6 = connect_map s"
proof -
  have mem: "n \<in> set fds" using map fds(2) by auto
  obtain p where p: "do_send_timeout fds s
      = Inr ([], s\<lparr>clients := clients (visited (ran (client_map s)) s), packer_thread := p\<rparr>)"
      "workers p = workers (packer_thread s)"
      "task_list p = task_list (packer_thread s) @ concat (map (jobs_of s) fds)"
    by (rule send_timeout_ok [OF alive fds wk])
  let ?s3 = "s\<lparr>clients := clients (visited (ran (client_map s)) s), packer_thread := p\<rparr>"
  have v: "visit a c = ([Req_Close a], set_close c)" using c by (intro visit_close)
  have c3: "clients ?s3 a = Some (set_close c)"
    using map c(1) v by (auto simp: visited_def ran_def)
  have i3: "i < length (socket_loop ?s3)" and w3: "quiet_loop me n (socket_loop ?s3 ! i)"
    using i w by simp_all
  have cc: "fd (set_close c) = n" "event_loop (set_close c) = Some i" using c by (simp_all add: set_close_def)
  obtain s4 s5 w5 where s5: "req_close a ?s3 = Inr s4" "session_loop_func me accepts i s4 = Inr s5"
    "w5 = socket_loop s5 ! i" "handler_map w5 = (handler_map (socket_loop ?s3 ! i))(n := None)" "em_ok w5"
    "s5 = ?s3\<lparr>main_thread := run_in_thread (Remove_Client n) (main_thread ?s3), handle_pool := handle_pool s5,
       socket_loop := socket_loop s5\<rparr>"
    by (rule session_close_call [OF w3 i3 c3 cc, of accepts])
  have f5: "clients s5 a = Some (set_close c)" "client_map s5 = client_map s" "buffer_pool s5 = buffer_pool s"
      "closed_fds s5 = closed_fds s" "packer_thread s5 = p" "connect_map s5 = connect_map s"
      "main_thread s5 = run_in_thread (Remove_Client n) (main_thread s)"
    using c3 by (subst s5(6), simp)+
  obtain c' bs where d: "destroy_client (set_close c) (buffer_pool s) = Inr (n, c', bs)"
    using destroy_client_ok [of "set_close c" "buffer_pool s"] c(2,3)
    by (auto simp: set_close_def client_ok_frame)
  let ?s6 = "s5\<lparr>client_map := (client_map s5)(n := None), buffer_pool := bs,
     client_pool := pool_push a (client_pool s5), clients := (clients s5)(a := None),
     closed_fds := closed_fds s5 @ [n]\<rparr>"
  have "run_main_task m fds' (Remove_Client n) s5 = Inr ([], ?s6)"
    using f5 map d by (simp add: do_remove_client_def push_client_def get_object_def)
  moreover have "Req_Close a \<in> set (concat (map (jobs_of s) fds))"
    using jobs_in_batch [OF map mem c(1), of "Req_Close a"] v by simp
  moreover have "handler_map w5 n = None" "interest w5 n = None"
    using s5(4) table_okD(1) [OF s5(5) [unfolded em_ok_def], of n] by simp_all
  ultimately show thesis
    using p s5(1-3) f5 by (intro that [of ?s3 s4 s5 ?s6]) simp_all
qed


text \<open>The jobs a tick has added.\<close>

definition new_tasks :: "tcp_manager \<Rightarrow> tcp_manager \<Rightarrow> job list" where
  "new_tasks s s' = drop (length (task_list (packer_thread s))) (task_list (packer_thread s'))"

text \<open>
  A tick of the timer, the unpacking job, a second tick, the closing job, a round of the loop and the
  main thread's task, each of them asked for by the one before.
\<close>

definition teardown ::
    "nat \<Rightarrow> (int \<Rightarrow> bool) \<Rightarrow> nat \<Rightarrow> int \<Rightarrow> nat \<Rightarrow> int list \<Rightarrow> tcp_manager \<Rightarrow> tcp_manager \<Rightarrow> bool" where
  "teardown me accepts i n a fds s s6 \<longleftrightarrow>
     (\<exists>s1 s2 s3 s4 s5. do_send_timeout fds s = Inr ([], s1) \<and> Handle_Unpack a \<in> set (new_tasks s s1) \<and>
        run_job 0 True Write_EAGAIN (Handle_Unpack a) s1 = Inr ([], s2) \<and>
        do_send_timeout fds s2 = Inr ([], s3) \<and> Req_Close a \<in> set (new_tasks s2 s3) \<and>
        run_job 0 True Write_EAGAIN (Req_Close a) s3 = Inr ([], s4) \<and>
        session_loop_func me accepts i s4 = Inr s5 \<and> Remove_Client n \<in> set (backlog (main_thread s5)) \<and>
        run_main_task 0 fds (Remove_Client n) s5 = Inr ([], s6))"

lemma ended_session_teardown:
  assumes s: "ended_session me i n a s" and fds: "distinct fds" "set fds = dom (client_map s)"
  obtains s6 where "teardown me accepts i n a fds s s6" "client_map s6 = (client_map s)(n := None)"
    "clients s6 a = None" "closed_fds s6 = closed_fds s @ [n]" "handler_map (socket_loop s6 ! i) n = None"
    "interest (socket_loop s6 ! i) n = None" "workers (packer_thread s6) = workers (packer_thread s)"
    "connect_map s6 = connect_map s"
proof -
  obtain s1 s2 c2 where a: "do_send_timeout fds s = Inr ([], s1)" "Handle_Unpack a \<in> set (new_tasks s s1)"
    "run_job 0 True Write_EAGAIN (Handle_Unpack a) s1 = Inr ([], s2)"
    "table_alive s2" "client_map s2 = client_map s" "socket_loop s2 = socket_loop s"
    "buffer_pool s2 = buffer_pool s" "workers (packer_thread s2) = workers (packer_thread s)"
    "closed_fds s2 = closed_fds s" "connect_map s2 = connect_map s"
    "clients s2 a = Some c2" "fd c2 = n" "client_ok c2 (buffer_pool s)" "\<not> closed c2" "can_close c2"
    "event_loop c2 = Some i"
    using tick_unpack [OF s fds, where m = 0 and free = True and w = Write_EAGAIN]
    unfolding new_tasks_def by metis
  have h: "client_map s2 n = Some a" "workers (packer_thread s2) \<noteq> []" "client_ok c2 (buffer_pool s2)"
      "i < length (socket_loop s2)" "quiet_loop me n (socket_loop s2 ! i)" "set fds = dom (client_map s2)"
    using s a fds by (simp_all add: ended_session_def quiet_loop_def Let_def)
  obtain s3 s4 s5 s6 where b: "do_send_timeout fds s2 = Inr ([], s3)" "Req_Close a \<in> set (new_tasks s2 s3)"
    "run_job 0 True Write_EAGAIN (Req_Close a) s3 = Inr ([], s4)" "session_loop_func me accepts i s4 = Inr s5"
    "main_thread s5 = run_in_thread (Remove_Client n) (main_thread s2)"
    "run_main_task 0 fds (Remove_Client n) s5 = Inr ([], s6)"
    "client_map s6 = (client_map s2)(n := None)" "clients s6 a = None" "closed_fds s6 = closed_fds s2 @ [n]"
    "handler_map (socket_loop s6 ! i) n = None" "interest (socket_loop s6 ! i) n = None"
    "workers (packer_thread s6) = workers (packer_thread s2)" "connect_map s6 = connect_map s2"
    by (rule tick_close [OF a(4) h(1,2) a(11,12) h(3) a(14-16) h(4,5) fds(1) h(6), folded new_tasks_def,
          where m = 0 and free = True and wr = Write_EAGAIN and accepts = accepts and fds' = fds])
  have "Remove_Client n \<in> set (backlog (main_thread s5))" by (simp add: b(5) backlog_run_in_thread)
  then have "teardown me accepts i n a fds s s6"
    unfolding teardown_def using a(1-3) b(1-4,6) by blast
  with b a show thesis by (intro that [of s6]) simp_all
qed

text \<open>A manager with such a connection, on which a worker still holds a sending job.\<close>

definition ended_sample :: tcp_manager where
  "ended_sample = tm_sample\<lparr>clients := [300 \<mapsto> tm_client\<lparr>close_flag := 2, event_loop := Some 0\<rparr>],
     socket_loop := [registered_manager],
     packer_thread := (tp_start 2 new_thread_pool)\<lparr>workers := [Has (Some (Timeout_Send 300)), Testing]\<rparr>\<rparr>"

lemma ended_sample_session: "ended_session 9 0 5 300 ended_sample"
proof -
  let ?c = "tm_client\<lparr>close_flag := 2, event_loop := Some 0\<rparr>"
  have "live (empty_pool 48) = {}"
    by (simp add: live_def all_slots_def block_slots_def empty_pool_def)
  then have "client_ok ?c (buffer_pool tm_sample)"
    using empty_pool_ok(1) [of 48]
    by (simp add: client_ok_def store_ok_def owned_def cur_list_def tm_client_def new_client_def)
  moreover have "\<not> closed ?c" "\<not> can_close ?c" "is_update ?c" "can_read ?c" "ready_close ?c"
      "recv_list ?c = []" "unpack_list ?c = []"
    by (simp_all add: tm_client_def new_client_def can_close_def is_update_def can_read_def ready_close_def flag_defs)
  ultimately show ?thesis
    using registered_manager_ok
    by (auto simp: ended_session_def ended_sample_def table_alive_def Let_def)
      (simp_all add: tm_client_def registered_manager_def loop_enter_def new_event_manager_def)
qed

section \<open>Properties\<close>

text \<open>
  C9: How a connection whose peer has closed is torn down.  The state is that of a client with
  nothing left to unpack, whose loop has no queued function (\<open>ended_session\<close>; the rest of the manager
  is arbitrary), and the steps are the six each of which asks for the next, with nothing in between
  (\<open>teardown\<close>): a tick of the timer, the unpacking job, a second tick, the closing job, a round of the
  loop and the main thread's task.  None of them faults, and in the end the client is destroyed, its
  descriptor closed once and gone from the table of clients, from the loop's table and from the
  kernel's list, the other clients' entries unchanged.  The one table that keeps it is
  \<open>connect_map_\<close>: it is unchanged, so that a key of the connection still names the closed descriptor.
\<close>

theorem peer_close_tears_down:
  assumes "ended_session me i n a s" and "distinct fds" and "set fds = dom (client_map s)"
  shows "\<exists>s'. teardown me accepts i n a fds s s' \<and> client_map s' = (client_map s)(n := None)
    \<and> clients s' a = None \<and> closed_fds s' = closed_fds s @ [n]
    \<and> handler_map (socket_loop s' ! i) n = None \<and> interest (socket_loop s' ! i) n = None
    \<and> connect_map s' = connect_map s"
  by (rule ended_session_teardown [OF assms, of accepts]) blast

theorem peer_close_tears_down_witness:
  "\<exists>s'. teardown 9 (\<lambda>_. True) 0 5 300 [5] ended_sample s' \<and> client_map s' = Map.empty \<and> clients s' 300 = None
     \<and> closed_fds s' = [5] \<and> connect_map s' = connect_map ended_sample"
  using peer_close_tears_down [OF ended_sample_session, of "[5]" "\<lambda>_. True"] by (auto simp: ended_sample_def)

text \<open>
  C31: Nothing waits for the jobs of a connection before it is destroyed: when a worker has taken the
  sending job of a connection and is slow to run it, the connection can be torn down meanwhile, and
  the job then uses the destroyed client.
\<close>

theorem late_job_uses_freed_client:
  assumes "ended_session me i n a s" and "distinct fds" and "set fds = dom (client_map s)"
    and "Has (Some (Timeout_Send a)) \<in> set (workers (packer_thread s))"
  shows "\<exists>s'. teardown me accepts i n a fds s s'
    \<and> Has (Some (Timeout_Send a)) \<in> set (workers (packer_thread s'))
    \<and> (\<forall>m free w. run_job m free w (Timeout_Send a) s' = Inl Use_After_Free)"
  by (rule ended_session_teardown [OF assms(1-3), of accepts]) (use assms(4) in \<open>auto simp: get_object_def\<close>)

theorem late_job_uses_freed_client_witness:
  "\<exists>s'. teardown 9 (\<lambda>_. True) 0 5 300 [5] ended_sample s'
     \<and> run_job 1 True (Wrote 0) (Timeout_Send 300) s' = Inl Use_After_Free"
  using late_job_uses_freed_client [OF ended_sample_session, of "[5]" "\<lambda>_. True"] by (auto simp: ended_sample_def)

end
