(* ===== verification/Connection_Push.thy ===== *)
theory Connection_Push
  imports Connection_Table
begin

text \<open>
  \<open>TcpManager::push_send_pack\<close> on a key that leads to an open connection: the packet behind the key is
  queued for that connection and nothing else changes.
\<close>

section \<open>Sending to a connection\<close>

text \<open>The key leads to an open connection whose queue does not hold the caller's buffer.\<close>

definition open_connection :: "64 word \<Rightarrow> nat \<Rightarrow> tcp_manager \<Rightarrow> bool" where
  "open_connection k a s \<longleftrightarrow>
     (let n = get_fd k s in n \<noteq> 0 \<and> get_client n s = Some a \<and>
      (\<exists>c. clients s a = Some c \<and> \<not> ready_close c \<and>
         set (wait_write_list c @ wait_pack_list c) \<subseteq> dom (bufs (buffer_pool s))))"

definition unsent_of :: "nat \<Rightarrow> tcp_manager \<Rightarrow> byte list" where
  "unsent_of a s = (case clients s a of None \<Rightarrow> [] | Some c \<Rightarrow> unsent c (buffer_pool s))"

lemma store_ok_skip:
  assumes "store_ok s" and "bufs s a = Some b" and "n \<le> length (contents b)"
  shows "store_ok (s\<lparr>bufs := (bufs s)(a \<mapsto> skip n b)\<rparr>)"
  using upd_buf_ok(2) [OF assms(1,2), of "\<lambda>b. Inr (skip n b)"] skip_ok(1) [OF store_ok_buffer [OF assms(1,2)] assms(3)]
  by simp

lemma unsent_frame:
  assumes "\<forall>x \<in> set (wait_write_list c @ wait_pack_list c). bufs s' x = bufs s x"
  shows "unsent c s' = unsent c s"
  unfolding unsent_def by (rule view_frame [OF assms])

lemma tm_push_send_pack_ok:
  assumes ok: "store_ok (buffer_pool s)" and m: "malloc_ok m (bpool (buffer_pool s))"
    and src: "bufs (buffer_pool s) src = Some b" "contents b = be_bytes k @ p"
    and conn: "open_connection k a s"
    and alien: "\<forall>c. clients s a = Some c \<longrightarrow> src \<notin> set (wait_write_list c @ wait_pack_list c)"
  obtains x s' where "tm_push_send_pack m src s = Inr (0, s')" "store_ok (buffer_pool s')"
    "dom (bufs (buffer_pool s')) = insert x (dom (bufs (buffer_pool s)))" "x \<notin> dom (bufs (buffer_pool s))"
    "\<forall>y \<in> dom (bufs (buffer_pool s)) - {src}. bufs (buffer_pool s') y = bufs (buffer_pool s) y"
    "bufs (buffer_pool s') src = Some (skip 8 b)"
    "unsent_of a s' = unsent_of a s @ p"
    "\<forall>y. y \<noteq> a \<longrightarrow> clients s' y = clients s y" "client_map s' = client_map s" "connect_map s' = connect_map s"
    "\<exists>c. clients s' a = Some c \<and> set (wait_write_list c @ wait_pack_list c) \<subseteq> dom (bufs (buffer_pool s')) - {src}"
    "\<exists>c. clients s a = Some c \<and> clients s' a = Some (set_write_update (c\<lparr>wait_pack_list := wait_pack_list c @ [x]\<rparr>))"
    "socket_loop s' = socket_loop s"
proof -
  obtain c where c: "get_fd k s \<noteq> 0" "get_client (get_fd k s) s = Some a" "clients s a = Some c" "\<not> ready_close c"
      "set (wait_write_list c @ wait_pack_list c) \<subseteq> dom (bufs (buffer_pool s))"
    using conn by (auto simp: open_connection_def Let_def)
  let ?bs = "(buffer_pool s)\<lparr>bufs := (bufs (buffer_pool s))(src \<mapsto> skip 8 b)\<rparr>"
  have bok: "buffer_ok b" using ok src(1) by (rule store_ok_buffer)
  have read: "readInt64 b = Inr (k, skip 8 b)" using read_skips(4) [OF bok] src(2) by simp
  have bs: "store_ok ?bs" by (rule store_ok_skip [OF ok src(1)]) (simp add: src(2))
  have p: "contents (skip 8 b) = p" using skip_ok(2) [OF bok, of 8] src(2) by simp
  obtain x t where push: "push_send_pack m src c ?bs = Inr (0, set_write_update (c\<lparr>wait_pack_list := wait_pack_list c @ [x]\<rparr>), t)"
      "store_ok t" "dom (bufs t) = insert x (dom (bufs ?bs))" "x \<notin> dom (bufs ?bs)" "view t x = contents (skip 8 b)"
      "\<forall>y \<in> dom (bufs ?bs). bufs t y = bufs ?bs y"
    by (rule push_send_pack_copies [OF bs, of m src "skip 8 b" c]) (use m c(4) in simp_all)
  let ?c = "set_write_update (c\<lparr>wait_pack_list := wait_pack_list c @ [x]\<rparr>)"
  let ?s = "(put_object a ?c (s\<lparr>buffer_pool := ?bs\<rparr>))\<lparr>buffer_pool := t\<rparr>"
  have run: "tm_push_send_pack m src s = Inr (0, ?s)"
    using c src(1) read push(1)
    by (simp add: tm_push_defs get_fd_def get_client_def get_object_def Let_def)
  have q: "wait_write_list ?c @ wait_pack_list ?c = (wait_write_list c @ wait_pack_list c) @ [x]"
    by (simp add: set_write_update_def)
  have same: "\<forall>y \<in> set (wait_write_list c @ wait_pack_list c). bufs t y = bufs (buffer_pool s) y"
  proof
    fix y assume y: "y \<in> set (wait_write_list c @ wait_pack_list c)"
    then have "y \<noteq> src" using alien c(3) by blast
    moreover have "y \<in> dom (bufs ?bs)" using y c(5) by auto
    ultimately show "bufs t y = bufs (buffer_pool s) y" using push(6) by force
  qed
  have "unsent ?c t = unsent c t @ p"
    using q push(5) p by (simp add: unsent_def)
  then have sent: "unsent ?c t = unsent c (buffer_pool s) @ p" using unsent_frame [OF same] by simp
  have src': "src \<in> dom (bufs (buffer_pool s))" using src(1) by blast
  show thesis
  proof (rule that [OF run])
    show "dom (bufs (buffer_pool ?s)) = insert x (dom (bufs (buffer_pool s)))"
      using push(3) src' by auto
    show "bufs (buffer_pool ?s) src = Some (skip 8 b)" using push(6) src' by auto
    show "\<exists>d. clients ?s a = Some d \<and> set (wait_write_list d @ wait_pack_list d) \<subseteq> dom (bufs (buffer_pool ?s)) - {src}"
      using push(3,4) c(5) alien c(3) src' unfolding put_object_def by (intro exI [of _ ?c]) (use q in auto)
    show "\<forall>y \<in> dom (bufs (buffer_pool s)) - {src}. bufs (buffer_pool ?s) y = bufs (buffer_pool s) y"
      using push(6) by simp
  qed (use push(2,4) sent c(3) in \<open>simp_all add: put_object_def unsent_of_def\<close>)
qed

end
