(* ===== verification/Process_Run.thy ===== *)
theory Process_Run
  imports Connection_Steps Tcp_Session Connection_Push
begin

text \<open>
  A process with any number of connections that share one manager, one store of buffers and one pool of
  client objects (src/TcpManager.cpp, src/ClientEntity.cpp): the operations of the components as steps of
  one relation \<open>proc_step\<close>, the invariant \<open>conns_ok\<close> all steps keep, and what it means for the bytes of
  each connection.  A step is a critical section, a job, a task, an event or a call of the user, and nothing
  comes in between.  Jobs of removed connections are the subject of \<open>late_job_uses_freed_client\<close>
  (\<open>Tcp_Session\<close>), steps that overlap that of \<open>bad_length_then_data\<close> (\<open>Client_Receive\<close>) and of \<open>Races\<close>.
\<close>

section \<open>What is observed\<close>

text \<open>
  What a call of \<open>read_data\<close> got from the socket, messages handed to the callback, packets accepted for
  sending and bytes written, each of the connection at an address; and that the object at an address was
  made, handed to the main thread's table or destroyed.  A packet is queued for the connection that is
  registered under the descriptor of its key when it is sent, which the key of an earlier connection with
  the same descriptor leads to as well (\<open>stale_key_reaches_next_client\<close>).
\<close>

datatype net_event =
    Received nat "read_result list list" | Delivered nat "byte list list" | Queued nat "byte list" | Written nat "byte list"
  | Changed nat

fun received :: "nat \<Rightarrow> net_event list \<Rightarrow> read_result list list" where
  "received a [] = []"
| "received a (Received b rss # tr) = (if b = a then rss else []) @ received a tr"
| "received a (_ # tr) = received a tr"

fun delivered :: "nat \<Rightarrow> net_event list \<Rightarrow> byte list list" where
  "delivered a [] = []"
| "delivered a (Delivered b ms # tr) = (if b = a then ms else []) @ delivered a tr"
| "delivered a (_ # tr) = delivered a tr"

fun queued :: "nat \<Rightarrow> net_event list \<Rightarrow> byte list list" where
  "queued a [] = []"
| "queued a (Queued b p # tr) = (if b = a then [p] else []) @ queued a tr"
| "queued a (_ # tr) = queued a tr"

fun written :: "nat \<Rightarrow> net_event list \<Rightarrow> byte list" where
  "written a [] = []"
| "written a (Written b bs # tr) = (if b = a then bs else []) @ written a tr"
| "written a (_ # tr) = written a tr"

lemma observed_append [simp]:
  "received a (tr @ tr') = received a tr @ received a tr'" "delivered a (tr @ tr') = delivered a tr @ delivered a tr'"
  "queued a (tr @ tr') = queued a tr @ queued a tr'" "written a (tr @ tr') = written a tr @ written a tr'"
proof -
  show "received a (tr @ tr') = received a tr @ received a tr'" by (induction a tr rule: received.induct) simp_all
  show "delivered a (tr @ tr') = delivered a tr @ delivered a tr'" by (induction a tr rule: delivered.induct) simp_all
  show "queued a (tr @ tr') = queued a tr @ queued a tr'" by (induction a tr rule: queued.induct) simp_all
  show "written a (tr @ tr') = written a tr @ written a tr'" by (induction a tr rule: written.induct) simp_all
qed

section \<open>All connections of a process\<close>

definition conns_ok :: "tcp_manager \<Rightarrow> bool" where
  "conns_ok s \<longleftrightarrow>
     store_ok (buffer_pool s) \<and> pool_ok (client_pool s) \<and> live (client_pool s) = dom (clients s) \<and>
     (\<forall>a c. clients s a = Some c \<longrightarrow> conn_ok c (buffer_pool s)) \<and>
     (\<forall>a b c d. clients s a = Some c \<longrightarrow> clients s b = Some d \<longrightarrow> a \<noteq> b \<longrightarrow> set (owned c) \<inter> set (owned d) = {})"

text \<open>A buffer of the user: of no connection.\<close>

definition users :: "nat \<Rightarrow> tcp_manager \<Rightarrow> bool" where
  "users x s \<longleftrightarrow> (\<forall>a c. clients s a = Some c \<longrightarrow> x \<notin> set (owned c))"

definition sound :: "tcp_manager \<Rightarrow> net_event list \<Rightarrow> tcp_manager \<Rightarrow> bool" where
  "sound s tr s' \<longleftrightarrow> conns_ok s' \<and>
     (\<forall>a c. clients s a = Some c \<longrightarrow> Changed a \<notin> set tr \<longrightarrow>
        (\<exists>c'. clients s' a = Some c' \<and> message_callback c' = message_callback c \<and> fd_key c' = fd_key c \<and>
           seen c (buffer_pool s) (received a tr) (delivered a tr) (queued a tr) (written a tr) c' (buffer_pool s')))"

lemma sound_trans:
  assumes "sound s tr s1" and "sound s1 tr' s'"
  shows "sound s (tr @ tr') s'"
  unfolding sound_def
proof (intro conjI allI impI)
  fix a c assume c: "clients s a = Some c" "Changed a \<notin> set (tr @ tr')"
  then obtain c1 where c1: "clients s1 a = Some c1" "message_callback c1 = message_callback c" "fd_key c1 = fd_key c"
      "seen c (buffer_pool s) (received a tr) (delivered a tr) (queued a tr) (written a tr) c1 (buffer_pool s1)"
    using assms(1) unfolding sound_def by (metis UnCI set_append)
  then obtain c' where "clients s' a = Some c'" "message_callback c' = message_callback c1" "fd_key c' = fd_key c1"
      "seen c1 (buffer_pool s1) (received a tr') (delivered a tr') (queued a tr') (written a tr') c' (buffer_pool s')"
    using assms(2) c(2) unfolding sound_def by (metis UnCI set_append)
  then show "\<exists>c'. clients s' a = Some c' \<and> message_callback c' = message_callback c \<and> fd_key c' = fd_key c \<and>
      seen c (buffer_pool s) (received a (tr @ tr')) (delivered a (tr @ tr')) (queued a (tr @ tr'))
        (written a (tr @ tr')) c' (buffer_pool s')"
    using c1 seen_trans [OF c1(4)] by simp
qed (use assms(2) in \<open>simp add: sound_def\<close>)

subsection \<open>One connection moves\<close>

lemma sound_local:
  assumes ok: "conns_ok s" and c: "clients s a = Some c" and step: "local_step c (buffer_pool s) c' (buffer_pool s')"
    and s': "clients s' = (clients s)(a \<mapsto> c')" "client_pool s' = client_pool s"
    and obs: "Changed a \<in> set tr \<or> message_callback c' = message_callback c \<and> fd_key c' = fd_key c \<and>
       seen c (buffer_pool s) (received a tr) (delivered a tr) (queued a tr) (written a tr) c' (buffer_pool s')"
    and others: "\<forall>b. b \<noteq> a \<longrightarrow> received b tr = [] \<and> delivered b tr = [] \<and> queued b tr = [] \<and> written b tr = []"
  shows "sound s tr s'"
proof -
  let ?B = "buffer_pool s" and ?B' = "buffer_pool s'"
  have cs: "conn_ok c ?B" and store': "store_ok ?B'"
    using ok c step conn_okD(1) by (auto simp: conns_ok_def local_step_def)
  have other: "conn_ok d ?B' \<and> seen d ?B [] [] [] [] d ?B' \<and> set (owned c') \<inter> set (owned d) = {}"
    if d: "clients s b = Some d" and b: "b \<noteq> a" for b d
  proof -
    have dk: "conn_ok d ?B" and dis: "set (owned c) \<inter> set (owned d) = {}"
      using ok c d b by (auto simp: conns_ok_def)
    then have "\<forall>x \<in> set (owned d). bufs ?B' x = bufs ?B x"
      using step conn_okD(3) [OF dk] by (auto simp: local_step_def same_outside_def)
    moreover have "conn_same d d" "flags_grow d d" by (simp_all add: conn_same_def flags_grow_refl)
    ultimately have "conn_ok d ?B'" "seen d ?B [] [] [] [] d ?B'"
      using conn_ok_same [OF dk store'] seen_same [OF dk] by blast+
    moreover have "set (owned c') \<inter> set (owned d) = {}"
      using step dis conn_okD(3) [OF dk] by (auto simp: local_step_def)
    ultimately show ?thesis by blast
  qed
  have "conns_ok s'"
    unfolding conns_ok_def
  proof (intro conjI allI impI)
    show "store_ok ?B'" by (rule store')
    show "pool_ok (client_pool s')" "live (client_pool s') = dom (clients s')"
      using ok c s' by (auto simp: conns_ok_def)
    show "conn_ok d ?B'" if "clients s' b = Some d" for b d
      using that other step s'(1) by (cases "b = a") (auto simp: local_step_def)
    show "set (owned d) \<inter> set (owned e) = {}"
      if "clients s' b = Some d" "clients s' b' = Some e" "b \<noteq> b'" for b b' d e
      using that other [of b d] other [of b' e] s'(1) ok by (cases "b = a"; cases "b' = a") (auto simp: conns_ok_def)
  qed
  moreover have "\<exists>d'. clients s' b = Some d' \<and> message_callback d' = message_callback d \<and> fd_key d' = fd_key d \<and>
      seen d ?B (received b tr) (delivered b tr) (queued b tr) (written b tr) d' ?B'"
    if "clients s b = Some d" "Changed b \<notin> set tr" for b d
    using that other [OF that(1)] others obs c s'(1) by (cases "b = a") auto
  ultimately show ?thesis by (simp add: sound_def)
qed

subsection \<open>Only flags change, or buffers of the user\<close>

definition quiet :: "tcp_manager \<Rightarrow> tcp_manager \<Rightarrow> bool" where
  "quiet s s' \<longleftrightarrow> client_pool s' = client_pool s \<and> dom (clients s') = dom (clients s) \<and>
     (\<forall>a c. clients s a = Some c \<longrightarrow> (\<exists>c'. clients s' a = Some c' \<and> conn_same c c' \<and> flags_grow c c'))"

lemma quiet_refl: "clients s' = clients s \<Longrightarrow> client_pool s' = client_pool s \<Longrightarrow> quiet s s'"
  by (auto simp: quiet_def conn_same_def flags_grow_refl)

lemma conn_same_trans: "conn_same c d \<Longrightarrow> conn_same d e \<Longrightarrow> conn_same c e"
  by (simp add: conn_same_def)

lemma quietD: "quiet s s' \<Longrightarrow> clients s a = Some c \<Longrightarrow> \<exists>c'. clients s' a = Some c' \<and> conn_same c c' \<and> flags_grow c c'"
  unfolding quiet_def by blast

lemma quiet_trans:
  assumes st: "quiet s t" and tu: "quiet t u"
  shows "quiet s u"
  unfolding quiet_def
proof (intro conjI allI impI)
  fix a c assume "clients s a = Some c"
  then obtain d where d: "clients t a = Some d" "conn_same c d" "flags_grow c d"
    using quietD [OF st] by blast
  then obtain e where "clients u a = Some e" "conn_same d e" "flags_grow d e"
    using quietD [OF tu] by blast
  then show "\<exists>c'. clients u a = Some c' \<and> conn_same c c' \<and> flags_grow c c'"
    using d conn_same_trans flags_grow_trans by blast
qed (use assms in \<open>simp_all add: quiet_def\<close>)

lemma quiet_put:
  assumes "clients s a = Some c" and "conn_same c c'" and "flags_grow c c'"
    and "clients s' = (clients s)(a \<mapsto> c')" and "client_pool s' = client_pool s"
  shows "quiet s s'"
  using assms by (auto simp: quiet_def conn_same_def flags_grow_refl)

lemma sound_quiet:
  assumes ok: "conns_ok s" and q: "quiet s s'" and store': "store_ok (buffer_pool s')"
    and same: "\<forall>a c. clients s a = Some c \<longrightarrow> (\<forall>x \<in> set (owned c). bufs (buffer_pool s') x = bufs (buffer_pool s) x)"
  shows "sound s [] s'"
proof -
  let ?B = "buffer_pool s" and ?B' = "buffer_pool s'"
  have each: "\<exists>c'. clients s' a = Some c' \<and> conn_same c c' \<and> conn_ok c' ?B' \<and> seen c ?B [] [] [] [] c' ?B'"
    if "clients s a = Some c" for a c
  proof -
    obtain c' where c': "clients s' a = Some c'" "conn_same c c'" "flags_grow c c'"
      using quietD [OF q \<open>clients s a = Some c\<close>] by blast
    have ck: "conn_ok c ?B" using ok that by (simp add: conns_ok_def)
    have sm: "\<forall>x \<in> set (owned c). bufs ?B' x = bufs ?B x" using same that by blast
    have "conn_ok c' ?B'" by (rule conn_ok_same [OF ck store' sm c'(2,3)])
    then show ?thesis using c' seen_same [OF ck _ sm c'(2,3)] by blast
  qed
  have conv: "\<exists>c. clients s a = Some c \<and> owned c' = owned c \<and> conn_ok c' ?B'" if "clients s' a = Some c'" for a c'
  proof -
    have "a \<in> dom (clients s)" using that q by (auto simp: quiet_def)
    then obtain c where "clients s a = Some c" by blast
    then show ?thesis using each that conn_same_owned by fastforce
  qed
  have "conns_ok s'"
    unfolding conns_ok_def
  proof (intro conjI allI impI)
    show "pool_ok (client_pool s')" "live (client_pool s') = dom (clients s')"
      using ok q by (simp_all add: conns_ok_def quiet_def)
    show "set (owned d) \<inter> set (owned e) = {}"
      if "clients s' a = Some d" "clients s' b = Some e" "a \<noteq> b" for a b d e
      using conv [OF that(1)] conv [OF that(2)] that(3) ok unfolding conns_ok_def by metis
  qed (use store' conv in blast)+
  then show ?thesis using each by (fastforce simp: sound_def conn_same_def)
qed

lemma sound_flags: "conns_ok s \<Longrightarrow> quiet s s' \<Longrightarrow> buffer_pool s' = buffer_pool s \<Longrightarrow> sound s [] s'"
  by (rule sound_quiet) (auto simp: conns_ok_def)

section \<open>Steps that leave the buffers alone\<close>

lemma loops_quiet: "clients (put_loop i w s) = clients s" "client_pool (put_loop i w s) = client_pool s"
    "buffer_pool (put_loop i w s) = buffer_pool s" "client_map (put_loop i w s) = client_map s"
  by (simp_all add: put_loop_eq)

lemma run_loop_call_quiet:
  assumes "run_loop_call me accepts i f s = Inr s'"
  shows "clients s' = clients s \<and> client_pool s' = client_pool s \<and> buffer_pool s' = buffer_pool s"
  using assms
  by (cases f) (auto simp: close_entity_def remove_client_def post_def loops_quiet elim!: bind_resE split: option.splits)

lemma each_loop_call_quiet:
  "each (run_loop_call me accepts i) fs s = Inr s' \<Longrightarrow>
    clients s' = clients s \<and> client_pool s' = client_pool s \<and> buffer_pool s' = buffer_pool s"
proof (induction fs arbitrary: s)
  case (Cons f fs)
  then obtain t where "run_loop_call me accepts i f s = Inr t" "each (run_loop_call me accepts i) fs t = Inr s'"
    by (auto elim!: bind_resE)
  then show ?case using Cons.IH run_loop_call_quiet by metis
qed simp

lemma session_loop_func_quiet:
  assumes "session_loop_func me accepts i s = Inr s'"
  shows "clients s' = clients s \<and> client_pool s' = client_pool s \<and> buffer_pool s' = buffer_pool s"
  using assms
  by (auto simp: session_loop_func_def Let_def loops_quiet dest!: each_loop_call_quiet elim!: bind_resE
      split: if_splits prod.splits)

lemma visit_same: "conn_same c (snd (visit a c))" "flags_grow c (snd (visit a c))"
  by (auto simp: visit_def conn_same_def lists_def set_close_def handle_update_def handle_write_update_def
      intro!: flags_grow_refl split: prod.splits if_splits)

lemma gather_visit_quiet:
  assumes "gather visit_entry fds s = Inr (jss, s')"
  shows "quiet s s' \<and> buffer_pool s' = buffer_pool s"
  using assms
proof (induction fds arbitrary: s jss)
  case Nil
  then show ?case by (simp add: quiet_refl)
next
  case (Cons n fds)
  then obtain js t jss' where t: "visit_entry n s = Inr (js, t)" "gather visit_entry fds t = Inr (jss', s')"
    by (auto elim!: bind_resE)
  then obtain a c where a: "clients s a = Some c" "t = put_object a (snd (visit a c)) s"
    by (auto simp: visit_entry_def get_object_def elim!: bind_resE split: option.splits prod.splits)
  have "quiet s t" by (rule quiet_put [OF a(1) visit_same]) (simp_all add: a(2) put_object_def)
  moreover have "buffer_pool t = buffer_pool s" by (simp add: a(2) put_object_def)
  ultimately show ?case using Cons.IH [OF t(2)] quiet_trans by fastforce
qed

lemma do_send_timeout_quiet:
  assumes "do_send_timeout fds s = Inr (js, s')"
  shows "quiet s s' \<and> buffer_pool s' = buffer_pool s"
proof -
  obtain jss t where t: "gather visit_entry fds s = Inr (jss, t)"
      "clients s' = clients t" "client_pool s' = client_pool t" "buffer_pool s' = buffer_pool t"
    using assms by (auto simp: do_send_timeout_def elim!: bind_resE split: if_splits prod.splits)
  then show ?thesis using gather_visit_quiet [OF t(1)] quiet_trans [OF _ quiet_refl [of s' t]] by simp
qed

lemma req_close_quiet:
  assumes "req_close a s = Inr s'"
  shows "clients s' = clients s \<and> client_pool s' = client_pool s \<and> buffer_pool s' = buffer_pool s"
  using assms by (auto simp: req_close_def loops_quiet elim!: bind_resE split: option.splits)

lemma close_client_quiet:
  assumes "close_client k s = Inr s'"
  shows "quiet s s' \<and> buffer_pool s' = buffer_pool s"
proof (cases "\<exists>a c. get_fd k s \<noteq> 0 \<and> get_client (get_fd k s) s = Some a \<and> clients s a = Some c")
  case True
  then obtain a c where a: "get_fd k s \<noteq> 0" "get_client (get_fd k s) s = Some a" "clients s a = Some c" by blast
  then have s': "s' = remove_fd k (put_object a (close_read c) s)"
    using assms by (simp add: close_client_defs Let_def get_object_def)
  have "conn_same c (close_read c)" by (simp add: conn_same_def lists_def close_read_def)
  then have "quiet s s'"
    by (rule quiet_put [OF a(3) _ flags_grow_close(1)]) (simp_all add: s' put_object_def remove_fd_def)
  then show ?thesis by (simp add: s' put_object_def remove_fd_def)
next
  case False
  then have "clients s' = clients s" "client_pool s' = client_pool s" "buffer_pool s' = buffer_pool s"
    using assms by (auto simp: close_client_defs Let_def get_object_def remove_fd_def elim!: bind_resE split: option.splits if_splits)
  then show ?thesis by (simp add: quiet_refl)
qed

lemma timeout_send_frame:
  assumes "timeout_send free w c s l = Inr (c', s', l')"
  shows "message_callback c' = message_callback c \<and> fd_key c' = fd_key c \<and> same_ids c c'"
  using assms by (auto simp: timeout_send_def same_ids_def dest!: write_data_frame elim!: bind_resE split: if_splits)

lemma handle_event_frame:
  assumes "handle_event m rs free w n ev c s l = Inr (c', s', l')"
  shows "message_callback c' = message_callback c \<and> fd_key c' = fd_key c \<and> same_ids c c'"
proof -
  let ?same = "\<lambda>c d. message_callback d = message_callback c \<and> fd_key d = fd_key c \<and> same_ids c d"
  have read: "?same c c1" if "read_data m rs c s = Inr (r, c1, s1)" for r c1 s1
    using read_data_frame [OF that] by (auto simp: same_ids_def)
  have watch: "?same d (fst (watch_write k d l))" for k d l
    by (auto simp: watch_write_def same_ids_def Let_def split: option.splits)
  have sent: "?same d d'" if "write_data free w d t k = Inr (r, d', t', k')" for d t k r d' t' k'
    using write_data_frame [OF that] by simp
  show ?thesis
    using assms watch
    by (auto simp: handle_event_def Let_def split_beta same_ids_def dest!: read sent elim!: bind_resE split: if_splits)
qed

section \<open>Steps of a process\<close>

text \<open>
  What the threads of a process do, one critical section, job, task or callback at a time, in any order.
  The user owns the buffers that are in no connection: \<open>ps_pop\<close>, \<open>ps_fill\<close> and \<open>ps_give\<close> take one
  from the pool, change it and give it back, \<open>ps_push\<close> sends one.  A loop may run the functions posted to
  it as one batch (\<open>ps_loop\<close>) or one by one (\<open>ps_call\<close>, with \<open>ps_lists\<close> for its lists); \<open>ps_threads\<close> is what
  the main thread and the pool do between tasks.
\<close>

inductive proc_step :: "tcp_manager \<Rightarrow> net_event list \<Rightarrow> tcp_manager \<Rightarrow> bool" where
  ps_event: "clients s a = Some c \<Longrightarrow> malloc_ok m (bpool (buffer_pool s)) \<Longrightarrow> reads_ok rs \<Longrightarrow>
    accepts_at_most (length (unsent c (buffer_pool s))) w \<Longrightarrow> client_event m rs free w i a n ev s = Inr s' \<Longrightarrow>
    proc_step s [Received a (if event_reads c ev then [rs] else []),
      Written a (if event_writes c rs free ev then emitted w (unsent c (buffer_pool s)) else [])] s'"
| ps_unpack: "clients s a = Some c \<Longrightarrow> message_callback c = Some k \<Longrightarrow> malloc_ok m (bpool (buffer_pool s)) \<Longrightarrow>
    run_job m free w (Handle_Unpack a) s = Inr (msgs, s') \<Longrightarrow>
    proc_step s [Delivered a (map (contents \<circ> snd) msgs)] s'"
| ps_send: "clients s a = Some c \<Longrightarrow> accepts_at_most (length (unsent c (buffer_pool s))) w \<Longrightarrow>
    run_job m free w (Timeout_Send a) s = Inr (msgs, s') \<Longrightarrow>
    proc_step s [Written a (if \<not> wait_write c \<and> free then emitted w (unsent c (buffer_pool s)) else [])] s'"
| ps_req_close: "run_job m free w (Req_Close a) s = Inr (msgs, s') \<Longrightarrow> proc_step s [] s'"
| ps_loop: "session_loop_func me accepts i s = Inr s' \<Longrightarrow> proc_step s [] s'"
| ps_call: "run_loop_call me accepts i f s = Inr s' \<Longrightarrow> proc_step s [] s'"
| ps_lists: "loop_at i s = Inr em \<Longrightarrow> proc_step s [] (put_loop i
    (em\<lparr>loop_functions_read := fs, loop_functions_write := gs, events_size := n\<rparr>) s)"
| ps_threads: "proc_step s [] (s\<lparr>packer_thread := p, main_thread := t\<rparr>)"
| ps_tick: "run_main_task m fds Send_Timeout s = Inr (js, s') \<Longrightarrow> proc_step s [] s'"
| ps_close: "close_client k s = Inr s' \<Longrightarrow> proc_step s [] s'"
| ps_push: "malloc_ok m (bpool (buffer_pool s)) \<Longrightarrow> bufs (buffer_pool s) src = Some b \<Longrightarrow> users src s \<Longrightarrow>
    contents b = be_bytes k @ p \<Longrightarrow> length p < 2 ^ 31 \<Longrightarrow> tm_push_send_pack m src s = Inr (r, s') \<Longrightarrow>
    proc_step s (if r = 0 then [Queued (the (get_client (get_fd k s) s)) p] else []) s'"
| ps_pop: "malloc_ok m (bpool (buffer_pool s)) \<Longrightarrow> pop_buffer m (buffer_pool s) = Inr (x, B) \<Longrightarrow>
    proc_step s [] (s\<lparr>buffer_pool := B\<rparr>)"
| ps_fill: "users x s \<Longrightarrow> bufs (buffer_pool s) x = Some b \<Longrightarrow> buffer_ok b' \<Longrightarrow>
    upd_buf x (\<lambda>_. Inr b') (buffer_pool s) = Inr B \<Longrightarrow> proc_step s [] (s\<lparr>buffer_pool := B\<rparr>)"
| ps_give: "users x s \<Longrightarrow> push_buffer x (buffer_pool s) = Inr B \<Longrightarrow> proc_step s [] (s\<lparr>buffer_pool := B\<rparr>)"
| ps_accept: "malloc_ok m (client_pool s) \<Longrightarrow> register_socket m n ip port cb est s = Inr (k, a, s') \<Longrightarrow>
    proc_step s [Changed a] s'"
| ps_add: "run_main_task m fds (Add_Client a) s = Inr (js, s') \<Longrightarrow> proc_step s [Changed a] s'"
| ps_remove: "client_map s n = Some a \<Longrightarrow> run_main_task m fds (Remove_Client n) s = Inr (js, s') \<Longrightarrow>
    proc_step s [Changed a] s'"

subsection \<open>Each step is sound\<close>

lemma event_sound:
  assumes ok: "conns_ok s" and c: "clients s a = Some c" and m: "malloc_ok m (bpool (buffer_pool s))"
    and rs: "reads_ok rs" and w: "accepts_at_most (length (unsent c (buffer_pool s))) w"
    and run: "client_event m rs free w i a n ev s = Inr s'"
  shows "sound s [Received a (if event_reads c ev then [rs] else []),
      Written a (if event_writes c rs free ev then emitted w (unsent c (buffer_pool s)) else [])] s'"
proof -
  have conn: "conn_ok c (buffer_pool s)" using ok c by (simp add: conns_ok_def)
  obtain em c' bs l where h: "handle_event m rs free w n ev c (buffer_pool s) (loop_view_of em) = Inr (c', bs, l)"
      "s' = put_loop i (commit_view (fd c) l em) ((put_object a c' s)\<lparr>buffer_pool := bs\<rparr>)"
    using run c by (auto simp: client_event_def get_object_def elim!: bind_resE)
  have s': "clients s' = (clients s)(a \<mapsto> c')" "client_pool s' = client_pool s" "buffer_pool s' = bs"
    by (simp_all add: h(2) loops_quiet put_object_def)
  have frame: "message_callback c' = message_callback c \<and> fd_key c' = fd_key c"
    using handle_event_frame [OF h(1)] by simp
  show ?thesis
    by (rule sound_local [OF ok c _ s'(1,2)])
      (use handle_event_step [OF conn m rs w h(1)] frame s'(3) in simp_all)
qed

lemma unpack_sound:
  assumes ok: "conns_ok s" and c: "clients s a = Some c" and k: "message_callback c = Some k"
    and m: "malloc_ok m (bpool (buffer_pool s))" and run: "run_job m free w (Handle_Unpack a) s = Inr (msgs, s')"
  shows "sound s [Delivered a (map (contents \<circ> snd) msgs)] s'"
proof -
  have conn: "conn_ok c (buffer_pool s)" using ok c by (simp add: conns_ok_def)
  obtain c' bs where h: "handle_unpack m c (buffer_pool s) = Inr (msgs, c', bs)" "s' = (put_object a c' s)\<lparr>buffer_pool := bs\<rparr>"
    using run c by (auto simp: get_object_def elim!: bind_resE)
  have s': "clients s' = (clients s)(a \<mapsto> c')" "client_pool s' = client_pool s" "buffer_pool s' = bs"
    by (simp_all add: h(2) put_object_def)
  show ?thesis
    by (rule sound_local [OF ok c _ s'(1,2)])
      (use handle_unpack_step [OF conn m k h(1)] handle_unpack_owned(2) [OF h(1)] s'(3) in simp_all)
qed

lemma send_sound:
  assumes ok: "conns_ok s" and c: "clients s a = Some c" and w: "accepts_at_most (length (unsent c (buffer_pool s))) w"
    and run: "run_job m free w (Timeout_Send a) s = Inr (msgs, s')"
  shows "sound s [Written a (if \<not> wait_write c \<and> free then emitted w (unsent c (buffer_pool s)) else [])] s'"
proof -
  have conn: "conn_ok c (buffer_pool s)" using ok c by (simp add: conns_ok_def)
  obtain i em c' bs l where h: "timeout_send free w c (buffer_pool s) (loop_view_of em) = Inr (c', bs, l)"
      "s' = put_loop i (commit_view (fd c) l em) ((put_object a c' s)\<lparr>buffer_pool := bs\<rparr>)"
    using run c by (auto simp: get_object_def elim!: bind_resE split: option.splits)
  have s': "clients s' = (clients s)(a \<mapsto> c')" "client_pool s' = client_pool s" "buffer_pool s' = bs"
    by (simp_all add: h(2) loops_quiet put_object_def)
  have frame: "message_callback c' = message_callback c \<and> fd_key c' = fd_key c"
    using timeout_send_frame [OF h(1)] by simp
  show ?thesis
    by (rule sound_local [OF ok c _ s'(1,2)]) (use timeout_send_step [OF conn w h(1)] frame s'(3) in simp_all)
qed

lemma skip_sound:
  assumes ok: "conns_ok s" and src: "bufs (buffer_pool s) src = Some b" "users src s" and b': "buffer_ok b'"
  shows "sound s [] (s\<lparr>buffer_pool := (buffer_pool s)\<lparr>bufs := (bufs (buffer_pool s))(src \<mapsto> b')\<rparr>\<rparr>)"
proof (rule sound_quiet [OF ok])
  have "store_ok (buffer_pool s)" using ok by (simp add: conns_ok_def)
  then show "store_ok (buffer_pool (s\<lparr>buffer_pool := (buffer_pool s)\<lparr>bufs := (bufs (buffer_pool s))(src \<mapsto> b')\<rparr>\<rparr>))"
    using upd_buf_ok(2) [of "buffer_pool s" src b "\<lambda>_. Inr b'"] src(1) b' by simp
qed (use src(2) in \<open>auto simp: users_def quiet_refl\<close>)

lemma push_sound:
  assumes ok: "conns_ok s" and m: "malloc_ok m (bpool (buffer_pool s))"
    and src: "bufs (buffer_pool s) src = Some b" "users src s" "contents b = be_bytes k @ p" "length p < 2 ^ 31"
    and run: "tm_push_send_pack m src s = Inr (r, s')"
  shows "sound s (if r = 0 then [Queued (the (get_client (get_fd k s) s)) p] else []) s'"
proof -
  let ?B = "buffer_pool s"
  have bok: "buffer_ok b" using ok src(1) by (auto simp: conns_ok_def intro: store_ok_buffer)
  have read: "readInt64 b = Inr (k, skip 8 b)" using read_skips(4) [OF bok] src(3) by simp
  have b8: "buffer_ok (skip 8 b)" "contents (skip 8 b) = p" using skip_ok(1,2) [OF bok, of 8] src(3) by simp_all
  let ?s1 = "s\<lparr>buffer_pool := ?B\<lparr>bufs := (bufs ?B)(src \<mapsto> skip 8 b)\<rparr>\<rparr>"
  have one: "sound s [] ?s1" by (rule skip_sound [OF ok src(1,2) b8(1)])
  then have ok1: "conns_ok ?s1" by (simp add: sound_def)
  have lookup: "get_fd k ?s1 = get_fd k s" "get_client n ?s1 = get_client n s" for n
    by (simp_all add: get_fd_def get_client_def)
  show ?thesis
  proof (cases "get_fd k s = 0 \<or> get_client (get_fd k s) s = None")
    case True
    then have "s' = ?s1" "r = -1"
      using run src(1) read by (auto simp: tm_push_defs Let_def lookup split: option.splits)
    then show ?thesis using one by simp
  next
    case False
    then obtain a where a: "get_client (get_fd k s) s = Some a" "get_fd k s \<noteq> 0" by blast
    obtain c c' bs where c: "clients s a = Some c"
      and push: "push_send_pack m src c (buffer_pool ?s1) = Inr (r, c', bs)"
      and s': "s' = (put_object a c' ?s1)\<lparr>buffer_pool := bs\<rparr>"
      using run src(1) read a
      by (auto simp: tm_push_defs Let_def lookup get_object_def elim!: bind_resE split: option.splits)
    have conn: "conn_ok c (buffer_pool ?s1)" using ok1 c by (simp add: conns_ok_def)
    have pre: "malloc_ok m (bpool (buffer_pool ?s1))" "bufs (buffer_pool ?s1) src = Some (skip 8 b)"
        "length (contents (skip 8 b)) < 2 ^ 31"
      using m src(4) b8(2) by simp_all
    have step: "local_step c (buffer_pool ?s1) c' bs
        \<and> seen c (buffer_pool ?s1) [] [] (if r = 0 then [p] else []) [] c' bs"
      using push_send_pack_step [OF conn pre push] unfolding b8(2) .
    have frame: "message_callback c' = message_callback c \<and> fd_key c' = fd_key c"
      using push by (auto simp: push_send_pack_def set_write_update_def elim!: bind_resE split: if_splits)
    have c1: "clients ?s1 a = Some c" using c by simp
    have "sound ?s1 (if r = 0 then [Queued a p] else []) s'"
      by (rule sound_local [OF ok1 c1]) (use step frame s' in \<open>auto simp: put_object_def\<close>)
    from sound_trans [OF one this] show ?thesis by (simp only: a(1) option.sel append_Nil)
  qed
qed

lemma user_sound:
  assumes ok: "conns_ok s" and B: "store_ok B"
    and same: "\<forall>y \<in> dom (bufs (buffer_pool s)). y \<noteq> x \<longrightarrow> bufs B y = bufs (buffer_pool s) y"
    and x: "users x s"
  shows "sound s [] (s\<lparr>buffer_pool := B\<rparr>)"
proof (rule sound_quiet [OF ok])
  show "\<forall>a c. clients s a = Some c \<longrightarrow>
      (\<forall>y \<in> set (owned c). bufs (buffer_pool (s\<lparr>buffer_pool := B\<rparr>)) y = bufs (buffer_pool s) y)"
  proof (intro allI impI ballI)
    fix a c y assume c: "clients s a = Some c" "y \<in> set (owned c)"
    then have "conn_ok c (buffer_pool s)" using ok by (simp add: conns_ok_def)
    then have "y \<in> dom (bufs (buffer_pool s))" using conn_okD(3) c(2) by blast
    moreover have "y \<noteq> x" using x c by (auto simp: users_def)
    ultimately show "bufs (buffer_pool (s\<lparr>buffer_pool := B\<rparr>)) y = bufs (buffer_pool s) y" using same by simp
  qed
qed (use B in \<open>simp_all add: quiet_refl\<close>)

lemma users_fresh:
  assumes "conns_ok s" and "x \<notin> dom (bufs (buffer_pool s))"
  shows "users x s"
  using assms conn_okD(3) by (fastforce simp: users_def conns_ok_def)

lemma pop_sound:
  assumes ok: "conns_ok s" and m: "malloc_ok m (bpool (buffer_pool s))" and run: "pop_buffer m (buffer_pool s) = Inr (x, B)"
  shows "sound s [] (s\<lparr>buffer_pool := B\<rparr>)"
proof -
  have sok: "store_ok (buffer_pool s)" using ok by (simp add: conns_ok_def)
  obtain a P where "pop_buffer m (buffer_pool s)
        = Inr (a, (buffer_pool s)\<lparr>bpool := P, bufs := (bufs (buffer_pool s))(a \<mapsto> default_buffer)\<rparr>)"
      "a \<notin> dom (bufs (buffer_pool s))"
      "store_ok ((buffer_pool s)\<lparr>bpool := P, bufs := (bufs (buffer_pool s))(a \<mapsto> default_buffer)\<rparr>)"
    by (rule pop_buffer_ok [OF sok m])
  then show ?thesis using run by (intro user_sound [OF ok _ _ users_fresh [OF ok]]) auto
qed

lemma give_sound:
  assumes ok: "conns_ok s" and x: "users x s" and run: "push_buffer x (buffer_pool s) = Inr B"
  shows "sound s [] (s\<lparr>buffer_pool := B\<rparr>)"
proof -
  have sok: "store_ok (buffer_pool s)" using ok by (simp add: conns_ok_def)
  have "x \<in> dom (bufs (buffer_pool s))" using run by (auto simp: push_buffer_def split: option.splits)
  from push_buffer_ok [OF sok this] show ?thesis using run by (intro user_sound [OF ok _ _ x]) auto
qed

section \<open>Connections come and go\<close>

lemma new_connection_ok:
  assumes "store_ok s"
  shows "conn_ok (registered_client k n ip port cb est) s" "owned (registered_client k n ip port cb est) = []"
  using assms
  by (auto simp: conn_ok_def client_ok_def small_packs_def plain_flags_def owned_def cur_list_def registered_client_def
      init_client_def new_client_def Let_def)

lemma accept_sound:
  assumes ok: "conns_ok s" and m: "malloc_ok m (client_pool s)"
    and run: "register_socket m n ip port cb est s = Inr (k, a, s')"
  shows "sound s [Changed a] s'"
proof -
  have pok: "pool_ok (client_pool s)" "live (client_pool s) = dom (clients s)" and sok: "store_ok (buffer_pool s)"
    using ok by (simp_all add: conns_ok_def)
  obtain x P where P: "pool_pop m (client_pool s) = Inr (x, P)" "pool_ok P" "x \<notin> live (client_pool s)"
      "live P = insert x (live (client_pool s))"
    using pool_pop_ok [OF pok(1) m] by blast
  let ?C = "registered_client (last_key s + 1) n ip port cb est"
  have a: "a = x" and s': "buffer_pool s' = buffer_pool s" "client_pool s' = P" "clients s' = (clients s)(x \<mapsto> ?C)"
    using run register_socket_ok [OF P(1), of n ip port cb est] by auto
  have new: "clients s x = None" using P(3) pok(2) by auto
  note C = new_connection_ok [OF sok, of "last_key s + 1" n ip port cb est]
  have "conns_ok s'"
    unfolding conns_ok_def s'
  proof (intro conjI allI impI)
    show "conn_ok d (buffer_pool s)" if "((clients s)(x \<mapsto> ?C)) b = Some d" for b d
      using that ok C(1) by (auto simp: conns_ok_def split: if_splits)
    show "set (owned d) \<inter> set (owned e) = {}"
      if "((clients s)(x \<mapsto> ?C)) b = Some d" "((clients s)(x \<mapsto> ?C)) b' = Some e" "b \<noteq> b'" for b b' d e
      using that ok C(2) by (auto simp: conns_ok_def split: if_splits)
  qed (use sok P pok in auto)
  moreover have "seen c (buffer_pool s) [] [] [] [] c (buffer_pool s)" if "clients s b = Some c" for b c
    using local_step_flags(2) [of c "buffer_pool s" c] ok that by (simp add: conns_ok_def conn_same_def flags_grow_refl)
  ultimately show ?thesis using new s' a by (auto simp: sound_def)
qed

lemma conn_ok_rebound:
  "conn_ok (c\<lparr>loop_index := i, event_loop := e, message_callback := k\<rparr>) s = conn_ok c s"
  "owned (c\<lparr>loop_index := i, event_loop := e, message_callback := k\<rparr>) = owned c"
  by (simp_all add: conn_ok_def client_ok_def small_packs_def plain_flags_def spent_def owned_def cur_list_def
      lists_def can_read_def)

lemma add_sound:
  assumes ok: "conns_ok s" and run: "do_add_client m a s = Inr s'"
  shows "sound s [Changed a] s'"
proof -
  obtain i s1 where i: "event_index s = (i, s1)" by fastforce
  then have s1: "clients s1 = clients s" "client_pool s1 = client_pool s" "buffer_pool s1 = buffer_pool s"
      "m_callback s1 = m_callback s"
    by (auto simp: event_index_def Let_def)
  obtain c where c: "clients s a = Some c"
    using run s1 unfolding do_add_client_def i by (auto simp: get_object_def elim!: bind_resE split: option.splits)
  obtain e k where s': "clients s' = (clients s)(a \<mapsto> c\<lparr>loop_index := i, event_loop := e, message_callback := k\<rparr>)"
      "client_pool s' = client_pool s" "buffer_pool s' = buffer_pool s"
  proof -
    let ?c = "c\<lparr>loop_index := i, event_loop := Some i\<rparr>"
    have c': "(case m_callback s of None \<Rightarrow> ?c | Some k \<Rightarrow> ?c\<lparr>message_callback := Some k\<rparr>)
        = c\<lparr>loop_index := i, event_loop := Some i,
            message_callback := (case m_callback s of None \<Rightarrow> message_callback c | Some k \<Rightarrow> Some k)\<rparr>" (is "_ = ?d")
      by (cases "m_callback s") simp_all
    have "clients s' = (clients s)(a \<mapsto> ?d) \<and> client_pool s' = client_pool s \<and> buffer_pool s' = buffer_pool s"
      using run c s1 unfolding do_add_client_def i
      by (auto simp: Let_def get_object_def put_object_def pop_handle_def loops_quiet c' elim!: bind_resE
          split: option.splits prod.splits)
    then show thesis using that by blast
  qed
  have "conn_ok c (buffer_pool s)" using ok c by (simp add: conns_ok_def)
  then have step: "local_step c (buffer_pool s) (c\<lparr>loop_index := i, event_loop := e, message_callback := k\<rparr>) (buffer_pool s')"
    by (simp add: local_step_def s' conn_ok_rebound)
  show ?thesis by (rule sound_local [OF ok c step s'(1,2)]) simp_all
qed

lemma destroy_conn:
  assumes conn: "conn_ok c s" and run: "destroy_client c s = Inr (n, c', s')"
  shows "store_ok s' \<and> bufs s' = bufs s |` (- set (lists c))"
proof -
  have "distinct (lists c)" "set (lists c) \<subseteq> dom (bufs s)"
    using conn_okD(2,3) [OF conn] by (simp_all add: owned_lists)
  then obtain t where t: "clear c s = Inr (c\<lparr>unpack_list := [], recv_list := [], wait_pack_list := [],
      wait_write_list := []\<rparr>, t)" "store_ok t" "bufs t = bufs s |` (- set (lists c))"
    using clear_ok [OF conn_okD(1) [OF conn]] by blast
  then have "s' = t" using run by (simp add: destroy_client_def)
  then show ?thesis using t by simp
qed

lemma remove_sound:
  assumes ok: "conns_ok s" and a: "client_map s n = Some a" and run: "do_remove_client n s = Inr s'"
  shows "sound s [Changed a] s'"
proof -
  let ?B = "buffer_pool s"
  obtain c where c: "clients s a = Some c"
    using run a by (auto simp: do_remove_client_def push_client_def get_object_def elim!: bind_resE split: option.splits)
  obtain m d bs where d: "destroy_client c ?B = Inr (m, d, bs)" and s': "clients s' = (clients s)(a := None)"
      "client_pool s' = pool_push a (client_pool s)" "buffer_pool s' = bs"
    using run a c by (auto simp: do_remove_client_def push_client_def get_object_def elim!: bind_resE)
  have conn: "conn_ok c ?B" using ok c by (simp add: conns_ok_def)
  note bs = destroy_conn [OF conn d]
  have "a \<in> live (client_pool s)" "pool_ok (client_pool s)" using ok c by (auto simp: conns_ok_def)
  then have pool: "pool_ok (client_pool s') \<and> live (client_pool s') = dom (clients s')"
    using pool_push_ok ok by (auto simp: s' conns_ok_def)
  have other: "conn_ok e (buffer_pool s') \<and> seen e ?B [] [] [] [] e (buffer_pool s')"
    if e: "clients s b = Some e" and b: "b \<noteq> a" for b e
  proof -
    have ek: "conn_ok e ?B" and dis: "set (owned c) \<inter> set (owned e) = {}" using ok c e b by (auto simp: conns_ok_def)
    have same: "\<forall>x \<in> set (owned e). bufs (buffer_pool s') x = bufs ?B x"
      using dis bs by (auto simp: s'(3) owned_lists restrict_map_def)
    have same': "conn_same e e" "flags_grow e e" by (simp_all add: conn_same_def flags_grow_refl)
    have "conn_ok e (buffer_pool s')" using conn_ok_same [OF ek _ same same'] bs s'(3) by simp
    then show ?thesis using seen_same [OF ek _ same same'] by blast
  qed
  have "conns_ok s'"
    unfolding conns_ok_def
  proof (intro conjI allI impI)
    show "store_ok (buffer_pool s')" using bs s'(3) by simp
    show "conn_ok e (buffer_pool s')" if "clients s' b = Some e" for b e
      using that other s'(1) by (auto split: if_splits)
    show "set (owned e) \<inter> set (owned f) = {}" if "clients s' b = Some e" "clients s' b' = Some f" "b \<noteq> b'" for b b' e f
      using that ok s'(1) by (auto simp: conns_ok_def split: if_splits)
  qed (use pool in simp_all)
  then show ?thesis using other s'(1) by (auto simp: sound_def)
qed

lemma proc_step_sound:
  assumes "proc_step s tr s'" and ok: "conns_ok s"
  shows "sound s tr s'"
  using assms(1)
proof cases
  case (ps_event a c m rs w free i n ev)
  then show ?thesis using event_sound [OF ok] by blast
next
  case (ps_unpack a c k m free w msgs)
  then show ?thesis using unpack_sound [OF ok] by blast
next
  case (ps_send a c w m free msgs)
  then show ?thesis using send_sound [OF ok] by blast
next
  case (ps_req_close m free w a msgs)
  then show ?thesis using req_close_quiet by (auto intro!: sound_flags [OF ok] quiet_refl elim!: bind_resE)
next
  case (ps_loop me accepts i)
  then show ?thesis using session_loop_func_quiet by (auto intro!: sound_flags [OF ok] quiet_refl)
next
  case (ps_call me accepts i f)
  then show ?thesis using run_loop_call_quiet by (auto intro!: sound_flags [OF ok] quiet_refl)
next
  case (ps_lists i em fs gs n)
  then show ?thesis by (auto intro!: sound_flags [OF ok] quiet_refl simp: loops_quiet)
next
  case (ps_threads p t)
  then show ?thesis by (auto intro!: sound_flags [OF ok] quiet_refl)
next
  case (ps_tick m fds js)
  then show ?thesis using do_send_timeout_quiet by (auto intro!: sound_flags [OF ok])
next
  case (ps_close k)
  then show ?thesis using close_client_quiet by (auto intro!: sound_flags [OF ok])
next
  case (ps_push m src b k p r)
  then show ?thesis using push_sound [OF ok] by blast
next
  case (ps_pop m x B)
  then show ?thesis using pop_sound [OF ok] by blast
next
  case (ps_fill x b b' B)
  then have "B = (buffer_pool s)\<lparr>bufs := (bufs (buffer_pool s))(x \<mapsto> b')\<rparr>" by (simp add: upd_buf_def)
  then show ?thesis using skip_sound [OF ok ps_fill(4,3,5)] ps_fill(1,2) by simp
next
  case (ps_give x B)
  then show ?thesis using give_sound [OF ok] by blast
next
  case (ps_accept m n ip port cb est k a)
  then show ?thesis using accept_sound [OF ok] by blast
next
  case (ps_add m fds a js)
  then show ?thesis using add_sound [OF ok] by (auto elim!: bind_resE)
next
  case (ps_remove n a m fds js)
  then show ?thesis using remove_sound [OF ok] by (auto elim!: bind_resE)
qed

section \<open>Runs\<close>

inductive proc_run :: "tcp_manager \<Rightarrow> net_event list \<Rightarrow> tcp_manager \<Rightarrow> bool" where
  pr_done: "proc_run s [] s"
| pr_step: "proc_step s tr s1 \<Longrightarrow> proc_run s1 tr' s' \<Longrightarrow> proc_run s (tr @ tr') s'"

lemma proc_run_sound:
  assumes "proc_run s tr s'" and "conns_ok s"
  shows "sound s tr s'"
  using assms
proof (induction rule: proc_run.induct)
  case (pr_done s)
  then show ?case using sound_flags [OF _ quiet_refl] by simp
next
  case (pr_step s tr s1 tr' s')
  have "sound s tr s1" by (rule proc_step_sound [OF pr_step.hyps(1) pr_step.prems])
  then show ?case using pr_step.IH sound_trans by (auto simp: sound_def)
qed

section \<open>No job of a live connection faults\<close>

lemma handle_unpack_total:
  assumes conn: "conn_ok c s" and m: "malloc_ok m (bpool s)" and k: "message_callback c = Some k"
  shows "\<exists>r. handle_unpack m c s = Inr r"
proof (cases "closed c \<or> recv_list c = [] \<and> unpack_list c = []")
  case True
  then show ?thesis by (auto simp: handle_unpack_def do_handle_unpack_def Let_def)
next
  case False
  then have "client_ok c s" using conn by (auto simp: conn_ok_def spent_def lists_def)
  then show ?thesis using do_handle_unpack_ok [of c s m k] m k False by (auto simp: handle_unpack_def)
qed

lemma write_data_total:
  assumes conn: "conn_ok c s" and w: "accepts_at_most (length (unsent c s)) w"
  shows "\<exists>r. write_data free w c s l = Inr r"
proof (cases "free \<and> wait_write_list c @ wait_pack_list c \<noteq> []")
  case False
  then show ?thesis by (auto simp: write_data_def do_write_data_defs Let_def)
next
  case True
  then have ne: "wait_write_list c @ wait_pack_list c \<noteq> []" and free: free by auto
  then have ok: "client_ok c s" "small_packs c s"
    using conn by (auto simp: conn_ok_def spent_def lists_def)
  show ?thesis
  proof (cases w)
    case (Wrote n)
    then have n: "n \<le> length (unsent c s)" "n \<le> 0x7ffff000" using w by simp_all
    have "\<exists>r. do_write_data (Wrote n) c s l = Inr r" by (rule do_write_data_ok [OF ok ne n, of l]) blast
    then show ?thesis using free Wrote by (simp add: write_data_def)
  qed (use free do_write_data_queue [OF ok(1) ne] in \<open>auto simp: write_data_def\<close>)
qed

lemma handle_event_total:
  assumes conn: "conn_ok c s" and m: "malloc_ok m (bpool s)" and rs: "reads_ok rs"
    and w: "accepts_at_most (length (unsent c s)) w"
  shows "\<exists>r. handle_event m rs free w (fd c) ev c s l = Inr r"
proof (cases "ready_close c")
  case True
  then show ?thesis by (simp add: handle_event_def)
next
  case False
  then have ok: "client_ok c s" "small_packs c s" "plain_flags c" using conn_okD [OF conn] by blast+
  have "\<exists>r c1 s1. (if EPOLLIN AND ev \<noteq> 0 then read_data m rs c s else Inr (0, c, s)) = Inr (r, c1, s1)
      \<and> conn_ok c1 s1 \<and> unsent c1 s1 = unsent c s"
  proof (cases "EPOLLIN AND ev \<noteq> 0")
    case True
    have "\<exists>r c1 s1. read_data m rs c s = Inr (r, c1, s1)" by (rule read_data_ok [OF ok(1) m rs]) blast
    then show ?thesis using read_data_step [OF ok m rs \<open>\<not> ready_close c\<close>] True unfolding local_step_def by auto
  next
    case False
    then show ?thesis using conn by simp
  qed
  then obtain r c1 s1 where rd: "(if EPOLLIN AND ev \<noteq> 0 then read_data m rs c s else Inr (0, c, s)) = Inr (r, c1, s1)"
      "conn_ok c1 s1" "unsent c1 s1 = unsent c s"
    by blast
  obtain c2 l2 where c2: "watch_write 0 c1 l = (c2, l2)" by fastforce
  then have same: "conn_same c1 c2" "flags_grow c1 c2" "unsent c2 s1 = unsent c s"
    using watch_write_same [where c = c1 and k = 0 and l = l] rd(3) by (auto intro: flags_grow_refl)
  have "conn_ok c2 s1" using local_step_flags(1) [OF rd(2) same(1,2)] by (simp add: local_step_def)
  then obtain x where "write_data free w c2 s1 l2 = Inr x"
    using write_data_total [of c2 s1 w free l2] w same(3) by auto
  then show ?thesis using False rd(1) c2 by (cases x) (simp add: handle_event_def)
qed

definition attended :: "nat \<Rightarrow> nat \<Rightarrow> client \<Rightarrow> tcp_manager \<Rightarrow> bool" where
  "attended a i c s \<longleftrightarrow> clients s a = Some c \<and> message_callback c \<noteq> None \<and> event_loop c = Some i
     \<and> i < length (socket_loop s)"

lemma jobs_return:
  assumes ok: "conns_ok s" and c: "attended a i c s" and m: "malloc_ok m (bpool (buffer_pool s))"
    and rs: "reads_ok rs" and w: "accepts_at_most (length (unsent c (buffer_pool s))) w"
  shows "(\<exists>r. run_job m free w (Handle_Unpack a) s = Inr r)" and "(\<exists>r. run_job m free w (Timeout_Send a) s = Inr r)"
    and "(\<exists>r. run_job m free w (Req_Close a) s = Inr r)" and "(\<exists>r. client_event m rs free w i a (fd c) ev s = Inr r)"
proof -
  obtain k where c': "clients s a = Some c" "message_callback c = Some k" "event_loop c = Some i" "i < length (socket_loop s)"
    using c by (auto simp: attended_def)
  have conn: "conn_ok c (buffer_pool s)" using ok c' by (simp add: conns_ok_def)
  show "\<exists>r. run_job m free w (Handle_Unpack a) s = Inr r"
    using handle_unpack_total [OF conn m c'(2)] c'(1) by (auto simp: get_object_def)
  obtain x where "write_data free w c (buffer_pool s) (loop_view_of (socket_loop s ! i)) = Inr x"
    using write_data_total [OF conn w] by blast
  then show "\<exists>r. run_job m free w (Timeout_Send a) s = Inr r"
    using c' by (cases x) (simp add: get_object_def loop_at_def timeout_send_def)
  show "\<exists>r. run_job m free w (Req_Close a) s = Inr r"
    using c' by (simp add: req_close_def get_object_def loop_at_def)
  obtain y where "handle_event m rs free w (fd c) ev c (buffer_pool s) (loop_view_of (socket_loop s ! i)) = Inr y"
    using handle_event_total [OF conn m rs w] by blast
  then show "\<exists>r. client_event m rs free w i a (fd c) ev s = Inr r"
    using c' by (cases y) (simp add: client_event_def get_object_def loop_at_def)
qed

section \<open>A sample process\<close>

text \<open>One connection in the table, with nothing to do, and a packet for it in a buffer of the user.\<close>

definition sample_conn :: client where
  "sample_conn = tm_client\<lparr>message_callback := Some 0, event_loop := Some 0\<rparr>"

definition sample_store :: store where
  "sample_store = rx_store\<lparr>bufs := (bufs rx_store)(116 \<mapsto> rx_buf (be_bytes (1 :: 64 word) @ [0, 0, 0, 1, 7]))\<rparr>"

definition sample_process :: "nat \<Rightarrow> pool \<Rightarrow> tcp_manager" where
  "sample_process a P = tm_sample\<lparr>clients := [a \<mapsto> sample_conn], client_pool := P, client_map := [5 \<mapsto> a],
     buffer_pool := sample_store\<rparr>"

lemma sample_store_ok: "store_ok sample_store" "malloc_ok 200 (bpool sample_store)"
  "bufs sample_store 116 = Some (rx_buf (be_bytes (1 :: 64 word) @ [0, 0, 0, 1, 7]))"
  "contents (rx_buf bs) = bs"
proof -
  have b: "buffer_ok (rx_buf (be_bytes (1 :: 64 word) @ [0, 0, 0, 1, 7]))"
    by (simp add: rx_buf_def buffer_ok_def vec_max_def)
  have "bufs rx_store 116 = Some (rx_buf [0, 0, 0, 0])" by (simp add: rx_store_def)
  from upd_buf_ok(2) [OF rx_store_ok this, of "\<lambda>_. Inr (rx_buf (be_bytes (1 :: 64 word) @ [0, 0, 0, 1, 7]))"] b
  show "store_ok sample_store" by (simp add: sample_store_def)
qed (use rx_malloc in \<open>simp_all add: sample_store_def rx_buf_def contents_def\<close>)

lemma sample_conn_simps [simp]:
  "fd sample_conn = 5" "fd_key sample_conn = 1" "close_flag sample_conn = 0" "message_callback sample_conn = Some 0"
  "event_loop sample_conn = Some 0" "owned sample_conn = []" "unsent sample_conn s = []" "pend sample_conn s = []"
  "wait_write sample_conn = False" "wait_pack_list sample_conn = []" "wait_write_list sample_conn = []"
  "closed sample_conn = False" "can_read sample_conn" "\<not> ready_close sample_conn"
  by (simp_all add: sample_conn_def tm_client_def new_client_def owned_def cur_list_def unsent_def pend_def can_read_def
      ready_close_def)

lemma sample_process_ok:
  obtains a P where "conns_ok (sample_process a P)" "attended a 0 sample_conn (sample_process a P)"
    "users 116 (sample_process a P)" "open_connection 1 a (sample_process a P)"
proof -
  have e: "pool_ok (empty_pool 640)" "malloc_ok 1000 (empty_pool 640)" by (simp_all add: empty_pool_ok)
  obtain a P where P: "pool_pop 1000 (empty_pool 640) = Inr (a, P)" "pool_ok P" "live P = insert a (live (empty_pool 640))"
    using pool_pop_ok [OF e] by blast
  have "conn_ok sample_conn sample_store"
    using sample_store_ok(1)
    by (auto simp: conn_ok_def client_ok_def small_packs_def plain_flags_def)
      (simp_all add: sample_conn_def tm_client_def new_client_def)
  moreover have "live (empty_pool 640) = {}" by (simp add: empty_pool_def live_def all_slots_def)
  ultimately show thesis
    using P sample_store_ok(1)
    by (intro that [of a P]) (auto simp: sample_process_def conns_ok_def attended_def users_def open_connection_def
        get_fd_def get_client_def split: if_splits)
qed

text \<open>The packet is queued and written.\<close>

lemma sample_sends:
  assumes ok: "conns_ok (sample_process a P)" and at: "attended a 0 sample_conn (sample_process a P)"
    and us: "users 116 (sample_process a P)" and conn: "open_connection 1 a (sample_process a P)"
  obtains s' c' where "proc_run (sample_process a P) [Queued a [0, 0, 0, 1, 7], Written a [0, 0, 0, 1, 7]] s'"
    "clients s' a = Some c'" "can_read c'"
proof -
  let ?s = "sample_process a P" and ?b = "rx_buf (be_bytes (1 :: 64 word) @ [0, 0, 0, 1, 7])"
  have B: "buffer_pool ?s = sample_store" by (simp add: sample_process_def)
  have pre: "store_ok (buffer_pool ?s)" "malloc_ok 200 (bpool (buffer_pool ?s))" "bufs (buffer_pool ?s) 116 = Some ?b"
      "contents ?b = be_bytes (1 :: 64 word) @ [0, 0, 0, 1, 7]"
    using sample_store_ok by (simp_all add: B)
  have cl: "clients ?s a = Some sample_conn" using at by (simp add: attended_def)
  have alien: "\<forall>c. clients ?s a = Some c \<longrightarrow> 116 \<notin> set (wait_write_list c @ wait_pack_list c)" using cl by simp
  obtain x s1 where s1: "tm_push_send_pack 200 116 ?s = Inr (0, s1)" "unsent_of a s1 = unsent_of a ?s @ [0, 0, 0, 1, 7]"
      "\<exists>c. clients ?s a = Some c \<and> clients s1 a = Some (set_write_update (c\<lparr>wait_pack_list := wait_pack_list c @ [x]\<rparr>))"
      "socket_loop s1 = socket_loop ?s"
    by (rule tm_push_send_pack_ok [OF pre conn alien]) (rule that; assumption)
  let ?c1 = "set_write_update (sample_conn\<lparr>wait_pack_list := [x]\<rparr>)"
  have c1: "clients s1 a = Some ?c1" using s1(3) cl by simp
  have get: "the (get_client (get_fd 1 ?s) ?s) = a" by (simp add: get_fd_def get_client_def sample_process_def)
  have push: "proc_step ?s [Queued a [0, 0, 0, 1, 7]] s1"
    using ps_push [OF pre(2,3) us pre(4) _ s1(1)] by (simp add: get)
  then have ok1: "conns_ok s1" using proc_step_sound [OF _ ok] by (simp add: sound_def)
  have u1: "unsent ?c1 (buffer_pool s1) = [0, 0, 0, 1, 7]"
    using s1(2) c1 cl by (simp add: unsent_of_def)
  have at1: "attended a 0 ?c1 s1"
    using at c1 s1(4) by (simp add: attended_def set_write_update_def)
  obtain m where m: "malloc_ok m (bpool (buffer_pool s1))" using malloc_ok_exists by blast
  have w: "accepts_at_most (length (unsent ?c1 (buffer_pool s1))) (Wrote 5)" by (simp add: u1)
  have rs: "reads_ok []" by (intro reads_ok_small) (simp_all add: vec_max_def)
  obtain msgs s2 where s2: "run_job m True (Wrote 5) (Timeout_Send a) s1 = Inr (msgs, s2)"
    using jobs_return(2) [OF ok1 at1 m rs w, of True] by auto
  have "proc_step s1 [Written a [0, 0, 0, 1, 7]] s2"
    using ps_send [OF c1 w s2] unfolding u1 by (simp add: set_write_update_def)
  then have "proc_run ?s ([Queued a [0, 0, 0, 1, 7]] @ [Written a [0, 0, 0, 1, 7]] @ []) s2"
    by (intro pr_step [OF push] pr_step [OF _ pr_done])
  moreover obtain c2 bs l where c2: "timeout_send True (Wrote 5) ?c1 (buffer_pool s1) (loop_view_of (socket_loop s1 ! 0))
      = Inr (c2, bs, l)" "clients s2 a = Some c2"
    using s2 c1 at1 by (auto simp: get_object_def loop_at_def attended_def put_object_def loops_quiet
        set_write_update_def elim!: bind_resE)
  moreover obtain r where "write_data True (Wrote 5) ?c1 (buffer_pool s1) (loop_view_of (socket_loop s1 ! 0)) = Inr (r, c2, bs, l)"
    using c2(1) by (auto simp: timeout_send_def set_write_update_def elim!: bind_resE split: if_splits)
  then have "close_flag c2 = 0 \<or> close_flag c2 = FLAG_NOWRITE"
    using write_data_frame by (fastforce simp: close_write_def set_write_update_def)
  then have "can_read c2" by (auto simp: can_read_def FLAG_NOWRITE_def FLAG_NOREAD_def)
  ultimately show thesis using that by simp
qed

text \<open>The packet is read and delivered.\<close>

lemma sample_receives:
  assumes ok: "conns_ok (sample_process a P)" and at: "attended a 0 sample_conn (sample_process a P)"
  obtains ms t' d where
    "proc_run (sample_process a P) [Received a [[Read_Bytes [0, 0, 0, 1, 7]]], Written a [], Delivered a ms] t'"
    "clients t' a = Some d" "can_read d" "ms \<noteq> []"
proof -
  let ?s = "sample_process a P" and ?rs = "[Read_Bytes [0, 0, 0, 1, 7]]" and ?p = "[0, 0, 0, 1, 7] :: byte list"
  have B: "buffer_pool ?s = sample_store" by (simp add: sample_process_def)
  have m: "malloc_ok 200 (bpool (buffer_pool ?s))" using sample_store_ok(2) by (simp add: B)
  have cl: "clients ?s a = Some sample_conn" using at by (simp add: attended_def)
  have conn: "conn_ok sample_conn (buffer_pool ?s)" using ok cl by (simp add: conns_ok_def)
  have cok: "client_ok sample_conn (buffer_pool ?s)" using conn_okD(5) [OF conn] by simp
  have rs: "reads_ok ?rs" by (intro reads_ok_small) (auto simp: vec_max_def)
  have w: "accepts_at_most (length (unsent sample_conn (buffer_pool ?s))) Write_EAGAIN" by simp
  obtain s1 where s1: "client_event 200 ?rs True Write_EAGAIN 0 a 5 EPOLLIN ?s = Inr s1"
    using jobs_return(4) [OF ok at m rs w, of True EPOLLIN] by auto
  obtain c1 bs where rd: "read_data 200 ?rs sample_conn (buffer_pool ?s) = Inr (0, c1, bs)" "client_ok c1 bs"
      "pend c1 bs = ?p" "\<exists>as. c1 = (read_outcome ?rs sample_conn)\<lparr>recv_list := recv_list sample_conn @ as\<rparr>"
    by (rule read_data_ok [OF cok m rs]) (auto simp: kept_bytes_def)
  have flags: "close_flag c1 = 0" "message_callback c1 = Some 0" "fd_key c1 = 1" "\<not> closed c1"
    using rd(4) by (auto simp: read_outcome_def set_update_def kept_bytes_def)
  have io: "EPOLLIN AND EPOLLIN \<noteq> 0" "EPOLLOUT AND EPOLLIN = 0" by (simp_all add: EPOLLIN_def EPOLLOUT_def)
  have c1: "clients s1 a = Some c1" "buffer_pool s1 = bs"
    using s1 cl rd(1) io by (auto simp: client_event_def get_object_def handle_event_def loops_quiet put_object_def
        elim!: bind_resE)
  have ev: "proc_step ?s [Received a [?rs], Written a []] s1"
    using ps_event [OF cl m rs w s1] io by (simp add: event_reads_def event_writes_def)
  obtain m2 where m2: "malloc_ok m2 (bpool (buffer_pool s1))" using malloc_ok_exists by blast
  let ?c = "(finish_update c1)\<lparr>unpack_list := unpack_list c1 @ recv_list c1, recv_list := []\<rparr>"
  obtain out d t where u: "do_handle_unpack m2 c1 bs = Inr (out, d, t)" "unpack_result 0 ?c bs out d t"
    using do_handle_unpack_ok [OF rd(2), of m2 0] m2 c1(2) flags(2) by auto
  have parse: "parse_packet ?p = Packet ?p []" by code_simp
  have p: "pend ?c bs = ?p" using rd(3) by (simp add: pend_def cur_list_def finish_update_def)
  have o: "out \<noteq> []" "close_flag d = 0"
    using u(2) [unfolded unpack_result_def p parse parsed.case] flags(1)
    by (auto simp: set_update_def finish_update_def)
  have job: "run_job m2 True Write_EAGAIN (Handle_Unpack a) s1 = Inr (out, (put_object a d s1)\<lparr>buffer_pool := t\<rparr>)"
    using c1 u(1) flags(4) by (simp add: get_object_def handle_unpack_def)
  have un: "proc_step s1 [Delivered a (map (contents \<circ> snd) out)] ((put_object a d s1)\<lparr>buffer_pool := t\<rparr>)"
    by (rule ps_unpack [OF c1(1) flags(2) m2 job])
  have "proc_run ?s ([Received a [?rs], Written a []] @ [Delivered a (map (contents \<circ> snd) out)] @ [])
      ((put_object a d s1)\<lparr>buffer_pool := t\<rparr>)"
    by (intro pr_step [OF ev] pr_step [OF un pr_done])
  then show thesis
    using o by (intro that [of "map (contents \<circ> snd) out" "(put_object a d s1)\<lparr>buffer_pool := t\<rparr>" d])
      (simp_all add: put_object_def can_read_def)
qed

section \<open>Properties\<close>

lemma run_streams:
  assumes "proc_run s tr s'" and "conns_ok s" and "clients s a = Some c" and "Changed a \<notin> set tr"
    and "clients s' a = Some c'" and "can_read c'"
  shows "rx_run c (buffer_pool s) (received a tr) (delivered a tr) c' (buffer_pool s')"
    and "tx_run c (buffer_pool s) (queued a tr) (written a tr) c' (buffer_pool s')"
    and "conn_ok c (buffer_pool s)" and "can_read c"
proof -
  obtain e where e: "clients s' a = Some e"
      "seen c (buffer_pool s) (received a tr) (delivered a tr) (queued a tr) (written a tr) e (buffer_pool s')"
    using proc_run_sound [OF assms(1,2)] assms(3,4) unfolding sound_def by blast
  have "e = c'" using e(1) assms(5) by simp
  with e(2) assms(6) show "rx_run c (buffer_pool s) (received a tr) (delivered a tr) c' (buffer_pool s')"
    and "tx_run c (buffer_pool s) (queued a tr) (written a tr) c' (buffer_pool s')" and "can_read c"
    unfolding seen_def by blast+
  show "conn_ok c (buffer_pool s)" using assms(2,3) by (simp add: conns_ok_def)
qed

text \<open>
  C2: The connections of a process do not disturb each other.  However events, jobs, timer ticks, new and
  ending connections and the user's calls interleave, and whatever the peers send: as long as a
  connection reads, the messages delivered for it, put end to end, followed by what is pending and by what
  a failed read has thrown away, are the bytes its own socket gave it, each message is its key and one
  well-formed packet, and only the last read can have thrown anything away, after which the connection is
  closing; and the bytes written to its socket followed by what is still queued are the packets that were
  accepted for it, under its own key or under a key that an earlier connection left for its descriptor.
  Each event, job, task and call of the user is one step.
\<close>

theorem connections_independent:
  assumes "proc_run s tr s'" and "conns_ok s" and "clients s a = Some c" and "message_callback c = Some k"
    and "Changed a \<notin> set tr"
  shows "\<exists>c'. clients s' a = Some c' \<and> (can_read c' \<longrightarrow>
      concat (map (drop 8) (delivered a tr)) @ pend c' (buffer_pool s') @ lost_bytes (received a tr)
        = pend c (buffer_pool s) @ socket_bytes (received a tr)
    \<and> (lost_bytes (received a tr) \<noteq> [] \<longrightarrow> ready_close c')
    \<and> (\<forall>m \<in> set (delivered a tr). good_message (fd_key c) m)
    \<and> written a tr @ unsent c' (buffer_pool s') = unsent c (buffer_pool s) @ concat (queued a tr))"
proof -
  have conn: "conn_ok c (buffer_pool s)" using assms(2,3) by (simp add: conns_ok_def)
  obtain c' where c': "clients s' a = Some c'" "seen c (buffer_pool s) (received a tr) (delivered a tr) (queued a tr)
      (written a tr) c' (buffer_pool s')"
    using proc_run_sound [OF assms(1,2)] assms(3,5) by (auto simp: sound_def)
  moreover have "concat (map (drop 8) (delivered a tr)) @ pend c' (buffer_pool s') @ lost_bytes (received a tr)
        = pend c (buffer_pool s) @ socket_bytes (received a tr)
      \<and> (lost_bytes (received a tr) \<noteq> [] \<longrightarrow> ready_close c') \<and> (\<forall>m \<in> set (delivered a tr). good_message (fd_key c) m)"
    if "can_read c" "can_read c'" "rx_run c (buffer_pool s) (received a tr) (delivered a tr) c' (buffer_pool s')"
    using received_stream [OF that(3) conn_okD(5) [OF conn that(1)] assms(4) that(2) conn_okD(4) [OF conn]] by blast
  ultimately show ?thesis
    using tx_run_stream conn_okD(5,6) [OF conn] unfolding seen_def by blast
qed

theorem connections_independent_witness:
  "\<exists>a P ms t' d. proc_run (sample_process a P) [Received a [[Read_Bytes [0, 0, 0, 1, 7]]], Written a [], Delivered a ms] t'
     \<and> clients t' a = Some d \<and> concat (map (drop 8) ms) @ pend d (buffer_pool t') = [0, 0, 0, 1, 7]
     \<and> unsent d (buffer_pool t') = []"
proof -
  obtain a P where s: "conns_ok (sample_process a P)" "attended a 0 sample_conn (sample_process a P)"
    by (rule sample_process_ok)
  obtain ms t' d where t': "proc_run (sample_process a P) [Received a [[Read_Bytes [0, 0, 0, 1, 7]]], Written a [], Delivered a ms] t'"
      "clients t' a = Some d" "can_read d"
    by (rule sample_receives [OF s])
  have c: "clients (sample_process a P) a = Some sample_conn" "message_callback sample_conn = Some 0"
    using s(2) by (simp_all add: attended_def)
  have "concat (map (drop 8) ms) @ pend d (buffer_pool t') = [0, 0, 0, 1, 7] \<and> unsent d (buffer_pool t') = []"
    using connections_independent [OF t'(1) s(1) c] t'(2,3) by (simp add: lost_bytes_def)
  with t'(1,2) show ?thesis by blast
qed

text \<open>
  C8: In every state a process can reach, no job and no event of a connection that is in the table faults:
  whatever the peers have sent, bad lengths included, no buffer is used that was given back, no buffer
  is given back twice, no assertion fails.  (An event or a job is one step here; for reading that is
  under way while another thread meets a bad length see \<open>bad_length_then_data\<close>.)
\<close>

theorem live_jobs_never_fault:
  assumes "proc_run s0 tr s" and "conns_ok s0" and "attended a i c s" and "malloc_ok m (bpool (buffer_pool s))"
    and "reads_ok rs" and "accepts_at_most (length (unsent c (buffer_pool s))) w"
  shows "\<exists>u v x s'. run_job m free w (Handle_Unpack a) s = Inr u \<and> run_job m free w (Timeout_Send a) s = Inr v
    \<and> run_job m free w (Req_Close a) s = Inr x \<and> client_event m rs free w i a (fd c) ev s = Inr s'"
proof -
  have "conns_ok s" using proc_run_sound [OF assms(1,2)] by (simp add: sound_def)
  from jobs_return [OF this assms(3-6)] show ?thesis by blast
qed

theorem live_jobs_never_fault_witness:
  "\<exists>a P u v x s'. run_job 200 True (Wrote 0) (Handle_Unpack a) (sample_process a P) = Inr u
     \<and> run_job 200 True (Wrote 0) (Timeout_Send a) (sample_process a P) = Inr v
     \<and> run_job 200 True (Wrote 0) (Req_Close a) (sample_process a P) = Inr x
     \<and> client_event 200 [Read_Bytes [0, 0, 0, 1, 7]] True (Wrote 0) 0 a 5 EPOLLIN (sample_process a P) = Inr s'"
proof -
  obtain a P where s: "conns_ok (sample_process a P)" "attended a 0 sample_conn (sample_process a P)"
    by (rule sample_process_ok)
  have m: "malloc_ok 200 (bpool (buffer_pool (sample_process a P)))"
    using sample_store_ok(2) by (simp add: sample_process_def)
  have rs: "reads_ok [Read_Bytes [0, 0, 0, 1, 7]]" by (intro reads_ok_small) (auto simp: vec_max_def)
  have "accepts_at_most (length (unsent sample_conn (buffer_pool (sample_process a P)))) (Wrote 0)" by simp
  from live_jobs_never_fault [OF pr_done s m rs this, of True EPOLLIN] show ?thesis by auto
qed

text \<open>
  C1: Packets sent by one process arrive in the other as they were sent.  As long as the packets accepted
  for a connection are well-formed and the other end has read a prefix of the bytes written, the messages
  delivered there are the first of those packets, in order, each once and unchanged behind the receiver's
  own key; once nothing is in flight they are all of them.  (What a failing last read had fetched does not
  count as read.)  This holds for any interleaving on both sides, any sizes of reads and writes, and any
  number of other connections with any peers.
\<close>

theorem processes_exchange_packets:
  assumes send: "proc_run s tr s'" "conns_ok s" "clients s a = Some c" "Changed a \<notin> set tr"
      "unsent c (buffer_pool s) = []" "clients s' a = Some c'" "can_read c'" "\<forall>p \<in> set (queued a tr). frame p"
    and recv: "proc_run t tr' t'" "conns_ok t" "clients t b = Some d" "Changed b \<notin> set tr'"
      "message_callback d = Some k" "pend d (buffer_pool t) = []" "clients t' b = Some d'" "can_read d'"
    and socket: "prefix (kept_stream (received b tr')) (written a tr)"
  shows "prefix (map (drop 8) (delivered b tr')) (queued a tr) \<and> (\<forall>m \<in> set (delivered b tr'). take 8 m = be_bytes (fd_key d))
    \<and> (pend d' (buffer_pool t') = [] \<and> unsent c' (buffer_pool s') = [] \<and> kept_stream (received b tr') = written a tr
        \<longrightarrow> map (drop 8) (delivered b tr') = queued a tr)"
proof -
  show ?thesis
    using arrive_in_order [OF run_streams(2) [OF send(1-4,6,7)] conn_okD(5,6) [OF run_streams(3) [OF send(1-4,6,7)]] send(5,8)
        run_streams(1) [OF recv(1-4,7,8)] conn_okD(5) [OF run_streams(3) [OF recv(1-4,7,8)]] recv(5,6,8) conn_okD(4) [OF run_streams(3) [OF recv(1-4,7,8)]] socket]
      run_streams(4) [OF send(1-4,6,7)] run_streams(4) [OF recv(1-4,7,8)] by blast
qed

theorem processes_exchange_packets_witness:
  "\<exists>a P s' ms t'. proc_run (sample_process a P) [Queued a [0, 0, 0, 1, 7], Written a [0, 0, 0, 1, 7]] s'
     \<and> proc_run (sample_process a P) [Received a [[Read_Bytes [0, 0, 0, 1, 7]]], Written a [], Delivered a ms] t'
     \<and> map (drop 8) ms = [[0, 0, 0, 1, 7]]"
proof -
  obtain a P where s: "conns_ok (sample_process a P)" "attended a 0 sample_conn (sample_process a P)"
      "users 116 (sample_process a P)" "open_connection 1 a (sample_process a P)"
    by (rule sample_process_ok)
  obtain s' c' where s': "proc_run (sample_process a P) [Queued a [0, 0, 0, 1, 7], Written a [0, 0, 0, 1, 7]] s'"
      "clients s' a = Some c'" "can_read c'"
    by (rule sample_sends [OF s])
  obtain ms t' d where t': "proc_run (sample_process a P) [Received a [[Read_Bytes [0, 0, 0, 1, 7]]], Written a [], Delivered a ms] t'"
      "clients t' a = Some d" "can_read d" "ms \<noteq> []"
    by (rule sample_receives [OF s(1,2)])
  have c: "clients (sample_process a P) a = Some sample_conn" using s(2) by (simp add: attended_def)
  have f: "\<forall>p \<in> set (queued a [Queued a [0, 0, 0, 1, 7], Written a [0, 0, 0, 1, 7]]). frame p"
    by (simp add: frame_def) code_simp
  have "prefix (map (drop 8) ms) [[0, 0, 0, 1, 7]]"
    using processes_exchange_packets [OF s'(1) s(1) c _ _ s'(2,3) f t'(1) s(1) c _ _ _ t'(2,3)] by (simp add: kept_bytes_def)
  then have "map (drop 8) ms = [[0, 0, 0, 1, 7]]" using t'(4) by (cases ms) (auto simp: prefix_Cons)
  then show ?thesis by (intro exI conjI) (rule s'(1), rule t'(1))
qed

end
