(* ===== verification/Manager_Threads.thy ===== *)
theory Manager_Threads
  imports Process_Run
begin

text \<open>
  The threads of a running manager with their real queues (src/TcpManager.cpp, TaskThread.cpp,
  ThreadPool.cpp, EventManager.cpp): the main thread takes its tasks from its lists, a worker of the pool
  the jobs the timer has queued, a socket loop the functions posted to it and the events of the handles
  in its table.  What is in the queues and tables about each connection is the invariant \<open>system_ok\<close>.
\<close>

section \<open>State and steps\<close>

text \<open>
  A socket loop runs the functions it has spliced one by one, outside its mutex: \<open>rest\<close> are those of
  each loop that are still to run.
\<close>

record system =
  mgr :: tcp_manager
  rest :: "nat \<Rightarrow> loop_call list"

text \<open>The main thread: one step of its loop, which runs a task when it has got to one.\<close>

definition next_task :: "'t task_thread \<Rightarrow> 't option" where
  "next_task t =
     (case t_phase t of Some (Executing n) \<Rightarrow> if n < length (read_list t) then Some (read_list t ! n) else None
      | _ \<Rightarrow> None)"

definition main_step :: "nat \<Rightarrow> int list \<Rightarrow> tcp_manager \<Rightarrow> fault + (job list \<times> tcp_manager)" where
  "main_step m fds s =
     (case loop_step (main_thread s) of
        None \<Rightarrow> Inr ([], s)
      | Some t \<Rightarrow>
          (case next_task (main_thread s) of
             None \<Rightarrow> Inr ([], s\<lparr>main_thread := t\<rparr>)
           | Some f \<Rightarrow> run_main_task m fds f (s\<lparr>main_thread := t\<rparr>)))"

text \<open>Worker \<open>i\<close> of the pool; callbacks return.\<close>

definition worker_run ::
    "nat \<Rightarrow> nat \<Rightarrow> bool \<Rightarrow> write_result \<Rightarrow> tcp_manager \<Rightarrow> fault + ((nat \<times> buffer) list \<times> tcp_manager)" where
  "worker_run i m free w s =
     bind_res (worker_step i Returns (packer_thread s)) (\<lambda>p.
     case workers (packer_thread s) ! i of
       Has (Some j) \<Rightarrow> run_job m free w j (s\<lparr>packer_thread := p\<rparr>)
     | _ \<Rightarrow> Inr ([], s\<lparr>packer_thread := p\<rparr>))"

text \<open>
  A loop takes over the functions posted to it, runs one, and clears its list when none is left; \<open>loop_event\<close>
  is one event \<open>epoll_wait\<close> has reported, of the handle at \<open>p\<close>.
\<close>

definition loop_take :: "nat \<Rightarrow> system \<Rightarrow> fault + system" where
  "loop_take i S =
     bind_res (loop_at i (mgr S)) (\<lambda>em.
     let (fs, em) = splice_calls em in
     Inr (S\<lparr>mgr := put_loop i (em\<lparr>loop_functions_read := fs\<rparr>) (mgr S), rest := (rest S)(i := fs)\<rparr>))"

definition loop_call_step :: "(int \<Rightarrow> bool) \<Rightarrow> nat \<Rightarrow> system \<Rightarrow> fault + system" where
  "loop_call_step accepts i S =
     bind_res (loop_at i (mgr S)) (\<lambda>em.
     case rest S i of
       [] \<Rightarrow> Inr (S\<lparr>mgr := put_loop i (em\<lparr>loop_functions_read := []\<rparr>) (mgr S)\<rparr>)
     | f # fs \<Rightarrow>
         bind_res (run_loop_call (em_tid em) accepts i f (mgr S)) (\<lambda>s. Inr (S\<lparr>mgr := s, rest := (rest S)(i := fs)\<rparr>)))"

definition loop_event ::
    "nat \<Rightarrow> read_result list \<Rightarrow> bool \<Rightarrow> write_result \<Rightarrow> int \<Rightarrow> nat \<Rightarrow> nat \<Rightarrow> 32 word \<Rightarrow> tcp_manager
       \<Rightarrow> fault + tcp_manager" where
  "loop_event m rs free w now i p ev s =
     bind_res (loop_at i s) (\<lambda>em.
     bind_res (loop_io (Ready [(p, ev)]) now em) (\<lambda>(cs, em).
     case cs of
       [IO_Call a n fl] \<Rightarrow> client_event m rs free w i a n fl (put_loop i em s)
     | _ \<Rightarrow> Inr (put_loop i em s)))"

text \<open>The client of a job, and whether it is still in the table.\<close>

fun client_of :: "job \<Rightarrow> nat" where
  "client_of (Req_Close a) = a"
| "client_of (Handle_Unpack a) = a"
| "client_of (Timeout_Send a) = a"

definition in_table :: "nat \<Rightarrow> tcp_manager \<Rightarrow> bool" where
  "in_table a s \<longleftrightarrow> (\<exists>c. clients s a = Some c \<and> client_map s (fd c) = Some a)"

fun held :: "'t pool_worker \<Rightarrow> 't list" where
  "held (Has (Some j)) = [j]"
| "held _ = []"

text \<open>What a step shows of the connections.\<close>

definition main_shows :: "tcp_manager \<Rightarrow> net_event list" where
  "main_shows s =
     (case next_task (main_thread s) of
        Some (Add_Client a) \<Rightarrow> [Changed a]
      | Some (Remove_Client n) \<Rightarrow> (case client_map s n of None \<Rightarrow> [] | Some a \<Rightarrow> [Changed a])
      | _ \<Rightarrow> [])"

fun job_shows :: "bool \<Rightarrow> write_result \<Rightarrow> (nat \<times> buffer) list \<Rightarrow> job \<Rightarrow> tcp_manager \<Rightarrow> net_event list" where
  "job_shows free w msgs (Req_Close a) s = []"
| "job_shows free w msgs (Handle_Unpack a) s = [Delivered a (map (contents \<circ> snd) msgs)]"
| "job_shows free w msgs (Timeout_Send a) s =
     [Written a (case clients s a of None \<Rightarrow> [] | Some c \<Rightarrow>
        if \<not> wait_write c \<and> free then emitted w (unsent c (buffer_pool s)) else [])]"

definition event_shows ::
    "read_result list \<Rightarrow> bool \<Rightarrow> write_result \<Rightarrow> nat \<Rightarrow> 32 word \<Rightarrow> tcp_manager \<Rightarrow> net_event list" where
  "event_shows rs free w a ev s =
     (case clients s a of None \<Rightarrow> [] | Some c \<Rightarrow>
        [Received a (if event_reads c ev then [rs] else []),
         Written a (if event_writes c rs free ev then emitted w (unsent c (buffer_pool s)) else [])])"

text \<open>
  All steps of a process, in any order.  A new socket has a descriptor no open connection has, and its
  messages have a callback.  A worker's job is run while its connection is in the table; jobs that come
  too late are the exception \<open>threads_never_fault\<close> speaks of.
\<close>

inductive sys_step :: "system \<Rightarrow> net_event list \<Rightarrow> system \<Rightarrow> bool" where
  ss_main: "malloc_ok m (handle_pool (mgr S)) \<Longrightarrow> main_step m fds (mgr S) = Inr (js, s') \<Longrightarrow>
    sys_step S (main_shows (mgr S)) (S\<lparr>mgr := s'\<rparr>)"
| ss_spurious: "t_phase (main_thread (mgr S)) = Some Waiting \<Longrightarrow>
    sys_step S [] (S\<lparr>mgr := (mgr S)\<lparr>main_thread := (main_thread (mgr S))\<lparr>t_phase := Some Woken\<rparr>\<rparr>\<rparr>)"
| ss_worker: "can_step i (packer_thread (mgr S)) \<Longrightarrow> held (workers (packer_thread (mgr S)) ! i) = [] \<Longrightarrow>
    worker_run i m free w (mgr S) = Inr (msgs, s') \<Longrightarrow> sys_step S [] (S\<lparr>mgr := s'\<rparr>)"
| ss_job: "i < length (workers (packer_thread (mgr S))) \<Longrightarrow> workers (packer_thread (mgr S)) ! i = Has (Some j) \<Longrightarrow>
    in_table (client_of j) (mgr S) \<Longrightarrow> malloc_ok m (bpool (buffer_pool (mgr S))) \<Longrightarrow>
    (\<forall>c. clients (mgr S) (client_of j) = Some c \<longrightarrow> accepts_at_most (length (unsent c (buffer_pool (mgr S)))) w) \<Longrightarrow>
    worker_run i m free w (mgr S) = Inr (msgs, s') \<Longrightarrow>
    sys_step S (job_shows free w msgs j (mgr S)) (S\<lparr>mgr := s'\<rparr>)"
| ss_notify: "tp_step (packer_thread (mgr S)) e p \<Longrightarrow> e = TP_Notify \<or> e = TP_Spurious i \<Longrightarrow>
    sys_step S [] (S\<lparr>mgr := (mgr S)\<lparr>packer_thread := p\<rparr>\<rparr>)"
| ss_take: "rest S i = [] \<Longrightarrow> loop_functions_read (socket_loop (mgr S) ! i) = [] \<Longrightarrow> loop_take i S = Inr S' \<Longrightarrow> sys_step S [] S'"
| ss_call: "loop_call_step accepts i S = Inr S' \<Longrightarrow> sys_step S [] S'"
| ss_event: "rest S i = [] \<Longrightarrow> loop_at i (mgr S) = Inr em \<Longrightarrow> interest em n = Some (p, fl) \<Longrightarrow>
    handles em p = Some e \<Longrightarrow> io_func e = Some a \<Longrightarrow> malloc_ok m (bpool (buffer_pool (mgr S))) \<Longrightarrow> reads_ok rs \<Longrightarrow>
    (\<forall>c. clients (mgr S) a = Some c \<longrightarrow> accepts_at_most (length (unsent c (buffer_pool (mgr S)))) w) \<Longrightarrow>
    loop_event m rs free w now i p ev (mgr S) = Inr s' \<Longrightarrow>
    sys_step S (event_shows rs free w a ev (mgr S)) (S\<lparr>mgr := s'\<rparr>)"
| ss_tick: "sys_step S [] (S\<lparr>mgr := send_timeout (mgr S)\<rparr>)"
| ss_accept: "0 < n \<Longrightarrow> (\<forall>b d. clients (mgr S) b = Some d \<longrightarrow> fd d \<noteq> n) \<Longrightarrow>
    cb \<noteq> None \<or> m_callback (mgr S) \<noteq> None \<Longrightarrow> malloc_ok m (client_pool (mgr S)) \<Longrightarrow>
    register_socket m n ip port cb est (mgr S) = Inr (k, a, s') \<Longrightarrow> sys_step S [Changed a] (S\<lparr>mgr := s'\<rparr>)"
| ss_close: "close_client k (mgr S) = Inr s' \<Longrightarrow> sys_step S [] (S\<lparr>mgr := s'\<rparr>)"
| ss_push: "malloc_ok m (bpool (buffer_pool (mgr S))) \<Longrightarrow> bufs (buffer_pool (mgr S)) src = Some b \<Longrightarrow> users src (mgr S) \<Longrightarrow>
    contents b = be_bytes k @ p \<Longrightarrow> length p < 2 ^ 31 \<Longrightarrow> tm_push_send_pack m src (mgr S) = Inr (r, s') \<Longrightarrow>
    sys_step S (if r = 0 then [Queued (the (get_client (get_fd k (mgr S)) (mgr S))) p] else []) (S\<lparr>mgr := s'\<rparr>)"
| ss_buffer: "proc_step (mgr S) [] ((mgr S)\<lparr>buffer_pool := B\<rparr>) \<Longrightarrow> sys_step S [] (S\<lparr>mgr := (mgr S)\<lparr>buffer_pool := B\<rparr>\<rparr>)"

inductive sys_run :: "system \<Rightarrow> net_event list \<Rightarrow> system \<Rightarrow> bool" where
  sr_done: "sys_run S [] S"
| sr_step: "sys_step S tr S1 \<Longrightarrow> sys_run S1 tr' S' \<Longrightarrow> sys_run S (tr @ tr') S'"

section \<open>Queues\<close>

text \<open>The jobs a pool has not finished, and the functions a loop has not run.\<close>

definition jobs_in :: "'t thread_pool \<Rightarrow> 't multiset" where
  "jobs_in p = mset (task_list p) + mset (concat (map held (workers p)))"

definition calls :: "system \<Rightarrow> nat \<Rightarrow> loop_call list" where
  "calls S i = rest S i @ loop_functions_write (socket_loop (mgr S) ! i)"

lemma loop_step_next:
  assumes "loop_step t = Some t'"
  shows "backlog t = (case next_task t of None \<Rightarrow> [] | Some f \<Rightarrow> [f]) @ backlog t'"
  using assms
  by (auto simp: loop_step_def backlog_def next_task_def Let_def Cons_nth_drop_Suc
      split: option.splits worker_phase.splits if_splits)

lemma mset_held_update:
  "i < length ws \<Longrightarrow> mset (concat (map held ws)) + mset (held w)
    = mset (concat (map held (ws[i := w]))) + mset (held (ws ! i))"
proof (induction ws arbitrary: i)
  case (Cons v ws)
  then show ?case by (cases i) (auto simp: ac_simps)
qed simp

lemma held_notify [simp]: "held \<circ> notify = held"
  by (auto simp: notify_def)

lemma require_task_jobs: "i < length (workers p) \<Longrightarrow> held (workers p ! i) = [] \<Longrightarrow> jobs_in (require_task i p) = jobs_in p"
  using mset_held_update [of i "workers p" Sleeping] mset_held_update [of i "workers p" "Has None"]
    mset_held_update [of i "workers p" "Has (Some (hd (task_list p)))"]
  by (auto simp: require_task_def jobs_in_def split: list.split)

lemma worker_step_jobs:
  assumes "worker_step i Returns p = Inr p'" and "i < length (workers p)"
  shows "jobs_in p = mset (held (workers p ! i)) + jobs_in p'" and "length (workers p') = length (workers p)"
proof -
  show "jobs_in p = mset (held (workers p ! i)) + jobs_in p'"
    using assms require_task_jobs [OF assms(2)] mset_held_update [OF assms(2), of Testing]
      mset_held_update [OF assms(2), of Asking] mset_held_update [OF assms(2), of Finished]
    by (auto simp: worker_step_def jobs_in_def split: pool_worker.splits option.splits if_splits)
  show "length (workers p') = length (workers p)"
    using assms by (auto simp: worker_step_def require_task_def split: pool_worker.splits option.splits if_splits list.splits)
qed

lemma tp_quiet_jobs:
  assumes "tp_step p e p'" and "e = TP_Notify \<or> e = TP_Spurious i"
  shows "jobs_in p' = jobs_in p" and "length (workers p') = length (workers p)"
  using assms mset_held_update [of i "workers p" Notified]
  by (auto simp: jobs_in_def accept_notify_def notify_all_def elim!: tp_step.cases)

section \<open>The invariant\<close>

text \<open>The main thread's tasks that are about one connection.\<close>

definition errands :: "main_task task_thread \<Rightarrow> main_task list" where
  "errands t = filter (\<lambda>f. f \<noteq> Send_Timeout) (backlog t)"

lemma errands_post [simp]:
  "errands (run_in_thread f t) = errands t @ (if f = Send_Timeout then [] else [f])"
  by (simp add: errands_def backlog_run_in_thread)

lemma errands_step:
  assumes "loop_step t = Some t'"
  shows "errands t = (case next_task t of None \<Rightarrow> [] | Some f \<Rightarrow> if f = Send_Timeout then [] else [f]) @ errands t'"
  using loop_step_next [OF assms] by (simp add: errands_def split: option.split)

text \<open>
  \<open>closings S a n\<close> counts what is under way to end the connection at \<open>a\<close> with descriptor \<open>n\<close>: jobs that ask
  its loop to close it, such requests in the loops, and requests to the main thread to remove it.
\<close>

definition closings :: "system \<Rightarrow> nat \<Rightarrow> int \<Rightarrow> nat" where
  "closings S a n = count (jobs_in (packer_thread (mgr S))) (Req_Close a)
     + (\<Sum>i < length (socket_loop (mgr S)). count_list (calls S i) (Other a))
     + count_list (errands (main_thread (mgr S))) (Remove_Client n)"

text \<open>
  A connection is either waiting to be added, or in the table with a loop and a callback; it is ending
  exactly when it is marked closed, and then one thing is under way to end it.
\<close>

definition conn_stage :: "system \<Rightarrow> nat \<Rightarrow> client \<Rightarrow> bool" where
  "conn_stage S a c \<longleftrightarrow> 0 < fd c \<and> (message_callback c \<noteq> None \<or> m_callback (mgr S) \<noteq> None) \<and>
     (if client_map (mgr S) (fd c) = Some a then
        count_list (errands (main_thread (mgr S))) (Add_Client a) = 0 \<and>
        closings S a (fd c) = (if closed c then 1 else 0) \<and> message_callback c \<noteq> None \<and>
        (\<exists>i. event_loop c = Some i \<and> i < length (socket_loop (mgr S)))
      else
        count_list (errands (main_thread (mgr S))) (Add_Client a) = 1 \<and>
        closings S a (fd c) = 0 \<and> \<not> closed c)"

text \<open>Nothing names a connection that is gone, except jobs that come too late.\<close>

definition gone :: "system \<Rightarrow> nat \<Rightarrow> bool" where
  "gone S a \<longleftrightarrow> Add_Client a \<notin> set (errands (main_thread (mgr S))) \<and> Req_Close a \<notin># jobs_in (packer_thread (mgr S)) \<and>
     (\<forall>i < length (socket_loop (mgr S)). Other a \<notin> set (calls S i))"

definition staged :: "system \<Rightarrow> bool" where
  "staged S \<longleftrightarrow>
     (\<forall>a. case clients (mgr S) a of None \<Rightarrow> gone S a | Some c \<Rightarrow> conn_stage S a c) \<and>
     (\<forall>a b c d. clients (mgr S) a = Some c \<longrightarrow> clients (mgr S) b = Some d \<longrightarrow> fd c = fd d \<longrightarrow> a = b) \<and>
     table_alive (mgr S) \<and>
     (\<forall>n. Remove_Client n \<in> set (errands (main_thread (mgr S))) \<longrightarrow> client_map (mgr S) n \<noteq> None)"

text \<open>The loops, their tables and the pool of their handles.\<close>

definition loop_fine :: "tcp_manager \<Rightarrow> loop_call list \<Rightarrow> event_manager \<Rightarrow> bool" where
  "loop_fine s fs w \<longleftrightarrow> table_ok (adds fs) w \<and> \<not> em_quit w \<and> recycled w = [] \<and> 0 < events_size w \<and>
     dom (handles w) \<subseteq> live (handle_pool s)"

definition wired :: "system \<Rightarrow> bool" where
  "wired S \<longleftrightarrow> (let s = mgr S in
     event_size s = length (socket_loop s) \<and> event_size s < 2 ^ 32 \<and> unat (acceptor_index s) < event_size s \<and>
     pool_ok (handle_pool s) \<and> workers (packer_thread s) \<noteq> [] \<and>
     (\<forall>i < length (socket_loop s). loop_fine s (calls S i) (socket_loop s ! i)) \<and>
     (\<forall>i < length (socket_loop s). \<forall>j < length (socket_loop s). i \<noteq> j \<longrightarrow>
        dom (handles (socket_loop s ! i)) \<inter> dom (handles (socket_loop s ! j)) = {}))"

text \<open>
  A handle that is registered or about to be belongs to a connection in the table that is not yet to be
  removed, and is in that connection's own loop; once the loop is asked to close it, no registration follows.
\<close>

definition owner :: "event_manager \<Rightarrow> nat \<Rightarrow> (nat \<times> int) option" where
  "owner w h = (case handles w h of None \<Rightarrow> None
     | Some e \<Rightarrow> if event_type e = IO_EVENT then map_option (\<lambda>a. (a, h_fd e)) (io_func e) else None)"

definition after_close :: "nat \<Rightarrow> loop_call list \<Rightarrow> nat list" where
  "after_close a fs = adds (dropWhile (\<lambda>f. f \<noteq> Other a) fs)"

definition owned_by_conn :: "system \<Rightarrow> nat \<Rightarrow> nat \<Rightarrow> bool" where
  "owned_by_conn S i h \<longleftrightarrow> (\<exists>a c. owner (socket_loop (mgr S) ! i) h = Some (a, fd c) \<and> clients (mgr S) a = Some c \<and>
     event_loop c = Some i \<and> client_map (mgr S) (fd c) = Some a \<and>
     Remove_Client (fd c) \<notin> set (errands (main_thread (mgr S))))"

definition handled :: "system \<Rightarrow> bool" where
  "handled S \<longleftrightarrow> (\<forall>i < length (socket_loop (mgr S)).
     (\<forall>h \<in> ran (handler_map (socket_loop (mgr S) ! i)) \<union> set (adds (calls S i)). owned_by_conn S i h) \<and>
     (\<forall>a. Other a \<in> set (calls S i) \<longrightarrow>
        (\<exists>c. clients (mgr S) a = Some c \<and> event_loop c = Some i) \<and>
        (\<forall>h \<in> set (after_close a (calls S i)). \<forall>n. owner (socket_loop (mgr S) ! i) h \<noteq> Some (a, n))))"

definition system_ok :: "system \<Rightarrow> bool" where
  "system_ok S \<longleftrightarrow> conns_ok (mgr S) \<and> wired S \<and> staged S \<and> handled S"

section \<open>Steps that leave the work alone\<close>

text \<open>What the invariant sees of a client, of a handle, of a loop.\<close>

definition ids :: "client \<Rightarrow> int \<times> nat option \<times> bool \<times> nat option" where
  "ids c = (fd c, event_loop c, closed c, message_callback c)"

definition plain :: "event_handle \<Rightarrow> event_handle" where
  "plain e = e\<lparr>event_flags := 0\<rparr>"

fun is_refresh :: "loop_call \<Rightarrow> bool" where
  "is_refresh (Do_Update n) = True"
| "is_refresh _ = False"

definition work :: "loop_call list \<Rightarrow> loop_call list" where
  "work fs = filter (\<lambda>f. \<not> is_refresh f) fs"

definition same_wiring :: "loop_call list \<Rightarrow> event_manager \<Rightarrow> loop_call list \<Rightarrow> event_manager \<Rightarrow> bool" where
  "same_wiring fs w gs v \<longleftrightarrow> work gs = work fs \<and> handler_map v = handler_map w \<and>
     (\<forall>n. map_option fst (interest v n) = map_option fst (interest w n)) \<and>
     (\<forall>h. map_option plain (handles v h) = map_option plain (handles w h)) \<and>
     em_quit v = em_quit w \<and> recycled v = recycled w \<and> (0 < events_size w \<longrightarrow> 0 < events_size v)"

definition same_work :: "system \<Rightarrow> system \<Rightarrow> bool" where
  "same_work S T \<longleftrightarrow> (let s = mgr S; t = mgr T in
     (\<forall>a. map_option ids (clients t a) = map_option ids (clients s a)) \<and> client_map t = client_map s \<and>
     m_callback t = m_callback s \<and> errands (main_thread t) = errands (main_thread s) \<and>
     (\<forall>a. count (jobs_in (packer_thread t)) (Req_Close a) = count (jobs_in (packer_thread s)) (Req_Close a)) \<and>
     length (workers (packer_thread t)) = length (workers (packer_thread s)) \<and>
     handle_pool t = handle_pool s \<and> event_size t = event_size s \<and> acceptor_index t = acceptor_index s \<and>
     length (socket_loop t) = length (socket_loop s) \<and>
     (\<forall>i < length (socket_loop s). same_wiring (calls S i) (socket_loop s ! i) (calls T i) (socket_loop t ! i)))"

lemma stagedD:
  assumes "staged S"
  shows "clients (mgr S) a = Some c \<Longrightarrow> conn_stage S a c" and "clients (mgr S) a = None \<Longrightarrow> gone S a"
    and "clients (mgr S) a = Some c \<Longrightarrow> clients (mgr S) b = Some d \<Longrightarrow> fd c = fd d \<Longrightarrow> a = b"
    and "table_alive (mgr S)"
    and "Remove_Client n \<in> set (errands (main_thread (mgr S))) \<Longrightarrow> \<exists>a. client_map (mgr S) n = Some a"
proof -
  have *: "case clients (mgr S) a of None \<Rightarrow> gone S a | Some c \<Rightarrow> conn_stage S a c" for a
    using assms by (simp add: staged_def)
  show "clients (mgr S) a = Some c \<Longrightarrow> conn_stage S a c" "clients (mgr S) a = None \<Longrightarrow> gone S a"
    using * [of a] by simp_all
  show "Remove_Client n \<in> set (errands (main_thread (mgr S))) \<Longrightarrow> \<exists>a. client_map (mgr S) n = Some a"
    using assms by (auto simp: staged_def)
  show "clients (mgr S) a = Some c \<Longrightarrow> clients (mgr S) b = Some d \<Longrightarrow> fd c = fd d \<Longrightarrow> a = b"
    using assms unfolding staged_def by blast
qed (use assms in \<open>simp add: staged_def\<close>)

lemma stagedI:
  assumes "\<And>a c. clients (mgr S) a = Some c \<Longrightarrow> conn_stage S a c" and "\<And>a. clients (mgr S) a = None \<Longrightarrow> gone S a"
    and "\<And>a b c d. clients (mgr S) a = Some c \<Longrightarrow> clients (mgr S) b = Some d \<Longrightarrow> fd c = fd d \<Longrightarrow> a = b"
    and "table_alive (mgr S)" and "\<And>n. Remove_Client n \<in> set (errands (main_thread (mgr S))) \<Longrightarrow> \<exists>a. client_map (mgr S) n = Some a"
  shows "staged S"
  using assms(3-5) unfolding staged_def by (auto split: option.split intro: assms(1,2))

lemma wiredD:
  assumes "wired S"
  shows "event_size (mgr S) = length (socket_loop (mgr S))" "event_size (mgr S) < 2 ^ 32"
    "unat (acceptor_index (mgr S)) < event_size (mgr S)" "pool_ok (handle_pool (mgr S))"
    "workers (packer_thread (mgr S)) \<noteq> []"
    "i < length (socket_loop (mgr S)) \<Longrightarrow> loop_fine (mgr S) (calls S i) (socket_loop (mgr S) ! i)"
    "i < length (socket_loop (mgr S)) \<Longrightarrow> j < length (socket_loop (mgr S)) \<Longrightarrow> i \<noteq> j \<Longrightarrow>
       dom (handles (socket_loop (mgr S) ! i)) \<inter> dom (handles (socket_loop (mgr S) ! j)) = {}"
  using assms by (simp_all add: wired_def Let_def)

lemma loop_fineD:
  assumes "loop_fine s fs w"
  shows "table_ok (adds fs) w" "\<not> em_quit w" "recycled w = []" "0 < events_size w" "dom (handles w) \<subseteq> live (handle_pool s)"
  using assms by (simp_all add: loop_fine_def)

lemma handledD:
  assumes "handled S" and "i < length (socket_loop (mgr S))"
  shows "h \<in> ran (handler_map (socket_loop (mgr S) ! i)) \<or> h \<in> set (adds (calls S i)) \<Longrightarrow> owned_by_conn S i h"
    and "Other a \<in> set (calls S i) \<Longrightarrow> \<exists>c. clients (mgr S) a = Some c \<and> event_loop c = Some i"
    and "Other a \<in> set (calls S i) \<Longrightarrow> h \<in> set (after_close a (calls S i)) \<Longrightarrow> owner (socket_loop (mgr S) ! i) h \<noteq> Some (a, n)"
  using assms unfolding handled_def by blast+

lemma handledI:
  assumes "\<And>i h. i < length (socket_loop (mgr S)) \<Longrightarrow>
      h \<in> ran (handler_map (socket_loop (mgr S) ! i)) \<or> h \<in> set (adds (calls S i)) \<Longrightarrow> owned_by_conn S i h"
    and "\<And>i a. i < length (socket_loop (mgr S)) \<Longrightarrow> Other a \<in> set (calls S i) \<Longrightarrow>
      \<exists>c. clients (mgr S) a = Some c \<and> event_loop c = Some i"
    and "\<And>i a h n. i < length (socket_loop (mgr S)) \<Longrightarrow> Other a \<in> set (calls S i) \<Longrightarrow> h \<in> set (after_close a (calls S i)) \<Longrightarrow>
      owner (socket_loop (mgr S) ! i) h \<noteq> Some (a, n)"
  shows "handled S"
  using assms unfolding handled_def by blast

lemma work_simps [simp]:
  "work [] = []" "work (fs @ gs) = work fs @ work gs" "adds (work fs) = adds fs"
  "count_list (work fs) (Other a) = count_list fs (Other a)" "after_close a (work fs) = after_close a fs"
  "Other a \<in> set (work fs) \<longleftrightarrow> Other a \<in> set fs"
proof -
  show "adds (work fs) = adds fs" by (induction fs rule: adds.induct) (simp_all add: work_def)
  show "count_list (work fs) (Other a) = count_list fs (Other a)"
    by (induction fs) (auto simp: work_def)
  show "after_close a (work fs) = after_close a fs"
  proof (induction fs)
    case (Cons f fs)
    have "adds (work fs) = adds fs" for fs by (induction fs rule: adds.induct) (simp_all add: work_def)
    then show ?case using Cons by (cases f) (auto simp: after_close_def work_def)
  qed (simp add: after_close_def work_def)
qed (auto simp: work_def)

lemma work_eq:
  assumes "work gs = work fs"
  shows "adds gs = adds fs" "count_list gs (Other a) = count_list fs (Other a)" "after_close a gs = after_close a fs"
    "Other a \<in> set gs \<longleftrightarrow> Other a \<in> set fs"
  by (metis assms work_simps(3), metis assms work_simps(4), metis assms work_simps(5), metis assms work_simps(6))

lemma plain_eq:
  assumes "plain e = plain e'"
  shows "h_fd e = h_fd e'" "bound e = bound e'" "event_type e = event_type e'" "io_func e = io_func e'"
  using assms by (cases e; cases e'; auto simp: plain_def bound_def)+

lemma same_wiring_handle:
  assumes "same_wiring fs w gs v" and "handles w h = Some e"
  shows "\<exists>e'. handles v h = Some e' \<and> h_fd e' = h_fd e \<and> bound e' = bound e \<and> event_type e' = event_type e
    \<and> io_func e' = io_func e"
proof -
  have "map_option plain (handles v h) = map_option plain (handles w h)" using assms(1) by (simp add: same_wiring_def)
  then obtain e' where "handles v h = Some e'" "plain e' = plain e" using assms(2) by (cases "handles v h") auto
  then show ?thesis using plain_eq by blast
qed

lemma same_wiring_dom: "same_wiring fs w gs v \<Longrightarrow> dom (handles v) = dom (handles w)"
proof -
  assume "same_wiring fs w gs v"
  then have "map_option plain (handles v h) = map_option plain (handles w h)" for h by (simp add: same_wiring_def)
  then have "handles v h = None \<longleftrightarrow> handles w h = None" for h by (metis map_option_is_None)
  then show ?thesis by (simp add: dom_def)
qed

lemma same_wiring_owner: "same_wiring fs w gs v \<Longrightarrow> owner v h = owner w h"
proof -
  assume *: "same_wiring fs w gs v"
  show ?thesis
  proof (cases "handles w h")
    case None
    then have "handles v h = None" using same_wiring_dom [OF *] by (auto simp: domIff)
    then show ?thesis using None by (simp add: owner_def)
  next
    case (Some e)
    then show ?thesis using same_wiring_handle [OF * Some] by (auto simp: owner_def)
  qed
qed

lemma same_wiring_table:
  assumes same: "same_wiring fs w gs v" and ok: "table_ok ps w"
  shows "table_ok ps v"
proof -
  have handle: "handles w h = Some e \<Longrightarrow> \<exists>e'. handles v h = Some e' \<and> h_fd e' = h_fd e \<and> bound e' = bound e" for h e
    using same_wiring_handle [OF same] by blast
  have map: "handler_map v = handler_map w" using same by (simp add: same_wiring_def)
  show ?thesis
    unfolding table_ok_def map
  proof (intro conjI allI impI ballI)
    show "map_option fst (interest v n) = handler_map w n" for n
      using same ok by (simp add: same_wiring_def table_ok_def)
    show "\<exists>e. handles v h = Some e \<and> h_fd e = n \<and> bound e" if "handler_map w n = Some h" for n h
      using table_okD(2) [OF ok that] handle by fastforce
    show "\<exists>e. handles v h = Some e \<and> bound e" if "h \<in> set ps" for h
    proof -
      obtain e where "handles w h = Some e" "bound e" using ok \<open>h \<in> set ps\<close> by (auto simp: table_ok_def)
      then show ?thesis using handle by fastforce
    qed
  qed (use ok in \<open>auto simp: table_ok_def\<close>)
qed

lemma same_wiring_refl: "same_wiring fs w fs w"
  by (simp add: same_wiring_def)

lemma same_wiring_trans: "same_wiring fs w gs v \<Longrightarrow> same_wiring gs v hs u \<Longrightarrow> same_wiring fs w hs u"
  by (simp add: same_wiring_def)

lemma same_work_client:
  assumes "same_work S T"
  shows "clients (mgr S) a = Some c \<Longrightarrow> \<exists>c'. clients (mgr T) a = Some c' \<and> ids c' = ids c"
    and "clients (mgr T) a = Some c' \<Longrightarrow> \<exists>c. clients (mgr S) a = Some c \<and> ids c' = ids c"
    and "clients (mgr T) a = None \<longleftrightarrow> clients (mgr S) a = None"
proof -
  have eq: "map_option ids (clients (mgr T) a) = map_option ids (clients (mgr S) a)"
    using assms by (simp add: same_work_def Let_def)
  then show "clients (mgr T) a = None \<longleftrightarrow> clients (mgr S) a = None" by (metis map_option_is_None)
  show "clients (mgr S) a = Some c \<Longrightarrow> \<exists>c'. clients (mgr T) a = Some c' \<and> ids c' = ids c"
    using eq by (cases "clients (mgr T) a") auto
  show "clients (mgr T) a = Some c' \<Longrightarrow> \<exists>c. clients (mgr S) a = Some c \<and> ids c' = ids c"
    using eq by (cases "clients (mgr S) a") auto
qed

lemma same_work_simps:
  assumes "same_work S T"
  shows "client_map (mgr T) = client_map (mgr S)" "m_callback (mgr T) = m_callback (mgr S)"
    "errands (main_thread (mgr T)) = errands (main_thread (mgr S))"
    "count (jobs_in (packer_thread (mgr T))) (Req_Close a) = count (jobs_in (packer_thread (mgr S))) (Req_Close a)"
    "handle_pool (mgr T) = handle_pool (mgr S)" "event_size (mgr T) = event_size (mgr S)"
    "acceptor_index (mgr T) = acceptor_index (mgr S)" "length (socket_loop (mgr T)) = length (socket_loop (mgr S))"
    "length (workers (packer_thread (mgr T))) = length (workers (packer_thread (mgr S)))"
    "i < length (socket_loop (mgr S)) \<Longrightarrow>
       same_wiring (calls S i) (socket_loop (mgr S) ! i) (calls T i) (socket_loop (mgr T) ! i)"
  using assms by (simp_all add: same_work_def Let_def)

lemma same_work_calls:
  assumes "same_work S T" and "i < length (socket_loop (mgr S))"
  shows "adds (calls T i) = adds (calls S i)" "count_list (calls T i) (Other a) = count_list (calls S i) (Other a)"
    "after_close a (calls T i) = after_close a (calls S i)" "Other a \<in> set (calls T i) \<longleftrightarrow> Other a \<in> set (calls S i)"
proof -
  have w: "work (calls T i) = work (calls S i)" using same_work_simps(10) [OF assms] by (simp add: same_wiring_def)
  show "adds (calls T i) = adds (calls S i)" "count_list (calls T i) (Other a) = count_list (calls S i) (Other a)"
    "after_close a (calls T i) = after_close a (calls S i)" "Other a \<in> set (calls T i) \<longleftrightarrow> Other a \<in> set (calls S i)"
    using work_eq [OF w] by simp_all
qed

lemma same_work_staged:
  assumes same: "same_work S T" and ok: "staged S"
  shows "staged T"
proof -
  note eq = same_work_simps(1-9) [OF same]
  have closings: "closings T a n = closings S a n" for a n
    unfolding closings_def eq using same_work_calls(2) [OF same] by simp
  have gone: "gone T a" if "gone S a" for a
    using that same_work_calls(4) [OF same] eq(4) [of a] by (simp add: gone_def eq(3,8) flip: count_eq_zero_iff)
  have stage: "conn_stage T a c'" if "conn_stage S a c" "ids c' = ids c" for a c c'
    using that by (simp add: conn_stage_def eq(1-3,8) closings ids_def)
  show ?thesis
  proof (rule stagedI)
    show "conn_stage T a c'" if "clients (mgr T) a = Some c'" for a c'
      using same_work_client(2) [OF same that] stage stagedD(1) [OF ok] by blast
    show "gone T a" if "clients (mgr T) a = None" for a
      using that same_work_client(3) [OF same] gone stagedD(2) [OF ok] by blast
    show "a = b" if T: "clients (mgr T) a = Some c'" "clients (mgr T) b = Some d'" "fd c' = fd d'" for a b c' d'
    proof -
      obtain c d where "clients (mgr S) a = Some c" "ids c' = ids c" "clients (mgr S) b = Some d" "ids d' = ids d"
        using same_work_client(2) [OF same] T(1,2) by meson
      then show ?thesis using stagedD(3) [OF ok] T(3) by (simp add: ids_def)
    qed
    show "table_alive (mgr T)"
      unfolding table_alive_def eq(1)
    proof (intro allI impI)
      fix n a assume "client_map (mgr S) n = Some a"
      then obtain c where "clients (mgr S) a = Some c" "fd c = n"
        using stagedD(4) [OF ok] by (auto simp: table_alive_def)
      then show "\<exists>c. clients (mgr T) a = Some c \<and> fd c = n" using same_work_client(1) [OF same] by (fastforce simp: ids_def)
    qed
  qed (use stagedD(5) [OF ok] in \<open>simp add: eq(1,3)\<close>)
qed

lemma same_work_wired:
  assumes same: "same_work S T" and ok: "wired S"
  shows "wired T"
proof -
  note eq = same_work_simps(5-9) [OF same]
  have fine: "loop_fine (mgr T) (calls T i) (socket_loop (mgr T) ! i)" if "i < length (socket_loop (mgr S))" for i
  proof -
    note w = same_work_simps(10) [OF same that]
    have "loop_fine (mgr S) (calls S i) (socket_loop (mgr S) ! i)" using ok that by (simp add: wired_def Let_def)
    then show ?thesis
      using same_wiring_table [OF w] same_wiring_dom [OF w] same_work_calls(1) [OF same that] w
      by (simp add: loop_fine_def eq(1) same_wiring_def)
  qed
  have dom: "dom (handles (socket_loop (mgr T) ! i)) = dom (handles (socket_loop (mgr S) ! i))"
    if "i < length (socket_loop (mgr S))" for i
    by (rule same_wiring_dom [OF same_work_simps(10) [OF same that]])
  have "workers (packer_thread (mgr T)) \<noteq> [] \<longleftrightarrow> workers (packer_thread (mgr S)) \<noteq> []"
    using eq(5) by (metis length_0_conv)
  then show ?thesis using ok fine dom by (simp add: wired_def Let_def eq)
qed

lemma same_work_handled:
  assumes same: "same_work S T" and ok: "handled S"
  shows "handled T"
proof -
  note eq = same_work_simps(1-9) [OF same]
  have own: "owned_by_conn T i h" if i: "i < length (socket_loop (mgr S))" and o: "owned_by_conn S i h" for i h
  proof -
    obtain a c where a: "owner (socket_loop (mgr S) ! i) h = Some (a, fd c)" "clients (mgr S) a = Some c"
        "event_loop c = Some i" "client_map (mgr S) (fd c) = Some a"
        "Remove_Client (fd c) \<notin> set (errands (main_thread (mgr S)))"
      using o by (auto simp: owned_by_conn_def)
    obtain c' where "clients (mgr T) a = Some c'" "ids c' = ids c" using same_work_client(1) [OF same a(2)] by blast
    then show ?thesis
      using a same_wiring_owner [OF same_work_simps(10) [OF same i], of h]
      by (auto simp: owned_by_conn_def eq ids_def)
  qed
  have map: "handler_map (socket_loop (mgr T) ! i) = handler_map (socket_loop (mgr S) ! i)"
    if "i < length (socket_loop (mgr S))" for i
    using same_work_simps(10) [OF same that] by (simp add: same_wiring_def)
  show ?thesis
  proof (rule handledI)
    fix i h assume "i < length (socket_loop (mgr T))"
      and h: "h \<in> ran (handler_map (socket_loop (mgr T) ! i)) \<or> h \<in> set (adds (calls T i))"
    then have i: "i < length (socket_loop (mgr S))" by (simp add: eq(8))
    have "h \<in> ran (handler_map (socket_loop (mgr S) ! i)) \<or> h \<in> set (adds (calls S i))"
      using h map [OF i] same_work_calls(1) [OF same i] by simp
    from own [OF i handledD(1) [OF ok i this]] show "owned_by_conn T i h" .
  next
    fix i a assume "i < length (socket_loop (mgr T))" and a: "Other a \<in> set (calls T i)"
    then have i: "i < length (socket_loop (mgr S))" by (simp add: eq(8))
    have a: "Other a \<in> set (calls S i)" using a same_work_calls(4) [OF same i] by simp
    show "\<exists>c. clients (mgr T) a = Some c \<and> event_loop c = Some i"
      using handledD(2) [OF ok i a] same_work_client(1) [OF same] by (fastforce simp: ids_def)
    show "owner (socket_loop (mgr T) ! i) h \<noteq> Some (a, n)" if "h \<in> set (after_close a (calls T i))" for h n
      using handledD(3) [OF ok i a] that same_work_calls(3) [OF same i] same_wiring_owner [OF same_work_simps(10) [OF same i]]
      by simp
  qed
qed

lemma same_work_ok: "same_work S T \<Longrightarrow> conns_ok (mgr T) \<Longrightarrow> system_ok S \<Longrightarrow> system_ok T"
  using same_work_wired same_work_staged same_work_handled by (auto simp: system_ok_def)

lemma ids_eq: "ids c' = ids c \<longleftrightarrow> same_ids c c' \<and> message_callback c' = message_callback c"
  by (auto simp: ids_def same_ids_def)

lemma same_work_trans:
  assumes "same_work S T" and "same_work T U"
  shows "same_work S U"
  using assms same_wiring_trans unfolding same_work_def Let_def by metis

text \<open>One client changes, and the store.\<close>

lemma same_work_put:
  assumes c: "clients s a = Some c" and c': "ids c' = ids c"
    and t: "clients t = (clients s)(a \<mapsto> c')" "client_map t = client_map s" "m_callback t = m_callback s"
      "main_thread t = main_thread s" "packer_thread t = packer_thread s" "handle_pool t = handle_pool s"
      "event_size t = event_size s" "acceptor_index t = acceptor_index s" "socket_loop t = socket_loop s"
    and S: "mgr S = s"
  shows "same_work S (S\<lparr>mgr := t\<rparr>)"
  unfolding same_work_def Let_def using c c' t same_wiring_refl by (simp add: S calls_def)

text \<open>The threads go on without a task.\<close>

lemma same_work_threads:
  assumes "errands t = errands (main_thread (mgr S))"
    and "\<And>a. count (jobs_in p) (Req_Close a) = count (jobs_in (packer_thread (mgr S))) (Req_Close a)"
    and "length (workers p) = length (workers (packer_thread (mgr S)))"
  shows "same_work S (S\<lparr>mgr := (mgr S)\<lparr>packer_thread := p, main_thread := t\<rparr>\<rparr>)"
  unfolding same_work_def Let_def using assms same_wiring_refl by (simp add: calls_def)

text \<open>One loop changes, in nothing but flags, updates and the places of its functions.\<close>

lemma same_work_loop:
  assumes i: "i < length (socket_loop (mgr S))" and fine: "recycled (socket_loop (mgr S) ! i) = []"
    and w: "same_wiring (calls S i) (socket_loop (mgr S) ! i) (r @ loop_functions_write v) v"
  shows "same_work S (S\<lparr>mgr := put_loop i v (mgr S), rest := (rest S)(i := r)\<rparr>)"
proof -
  have "recycled v = []" using w fine by (simp add: same_wiring_def)
  then have put: "put_loop i v (mgr S) = (mgr S)\<lparr>socket_loop := (socket_loop (mgr S))[i := v]\<rparr>" by (rule put_loop_plain)
  show ?thesis
    unfolding same_work_def Let_def put
    using i w same_wiring_refl by (auto simp: calls_def nth_list_update)
qed

lemma fold_update_handle:
  "fold update_handle ns w = w\<lparr>loop_functions_write := loop_functions_write w @ map Do_Update ns\<rparr>"
  by (induction ns arbitrary: w) (simp_all add: update_handle_def run_in_handle_loop_def)

lemma work_updates [simp]: "work (map Do_Update ns) = []"
  by (induction ns) (simp_all add: work_def)

lemma commit_view_wiring:
  "same_wiring (r @ loop_functions_write w) w (r @ loop_functions_write (commit_view n l w)) (commit_view n l w)"
proof -
  have plain_set: "plain (set_event_flag fl e) = plain e" for fl e by (simp add: plain_def set_event_flag_def)
  then have "map_option plain (map_option (set_event_flag fl) x) = map_option plain x" for fl x
    by (cases x) simp_all
  then show ?thesis
    by (auto simp: commit_view_def Let_def fold_update_handle same_wiring_def split: option.split)
qed

lemma same_work_commit:
  assumes i: "i < length (socket_loop (mgr S))" and fine: "recycled (socket_loop (mgr S) ! i) = []"
  shows "same_work S (S\<lparr>mgr := put_loop i (commit_view n l (socket_loop (mgr S) ! i)) (mgr S)\<rparr>)"
proof -
  have "same_work S (S\<lparr>mgr := put_loop i (commit_view n l (socket_loop (mgr S) ! i)) (mgr S), rest := (rest S)(i := rest S i)\<rparr>)"
    by (rule same_work_loop [OF i fine]) (simp add: calls_def commit_view_wiring)
  then show ?thesis by simp
qed

lemma loop_atD: "loop_at i s = Inr w \<Longrightarrow> i < length (socket_loop s) \<and> w = socket_loop s ! i"
  by (simp add: loop_at_def split: if_splits)

lemma client_event_same_work:
  assumes run: "client_event m rs free w i a n ev (mgr S) = Inr s'" and ok: "wired S"
  shows "same_work S (S\<lparr>mgr := s'\<rparr>)"
proof -
  let ?s = "mgr S"
  obtain c c' bs l where c: "clients ?s a = Some c" and i: "i < length (socket_loop ?s)"
    and h: "handle_event m rs free w n ev c (buffer_pool ?s) (loop_view_of (socket_loop ?s ! i)) = Inr (c', bs, l)"
    and s': "s' = put_loop i (commit_view (fd c) l (socket_loop ?s ! i)) ((put_object a c' ?s)\<lparr>buffer_pool := bs\<rparr>)"
    using run by (auto simp: client_event_def get_object_def dest!: loop_atD elim!: bind_resE split: option.splits)
  let ?S1 = "S\<lparr>mgr := (put_object a c' ?s)\<lparr>buffer_pool := bs\<rparr>\<rparr>"
  have "ids c' = ids c" using handle_event_frame [OF h] by (simp add: ids_eq)
  then have "same_work S ?S1" by (rule same_work_put [OF c]) (simp_all add: put_object_def)
  moreover have "same_work ?S1 (S\<lparr>mgr := s'\<rparr>)"
    using same_work_commit [of i ?S1 "fd c" l] i loop_fineD(3) [OF wiredD(6) [OF ok i]] by (simp add: s' put_object_def)
  ultimately show ?thesis by (rule same_work_trans)
qed

lemma run_job_same_work:
  assumes run: "run_job m free w j (mgr S) = Inr (msgs, s')" and ok: "wired S" and j: "j \<noteq> Req_Close (client_of j)"
  shows "same_work S (S\<lparr>mgr := s'\<rparr>)"
proof (cases j)
  case (Req_Close a)
  then show ?thesis using j by simp
next
  case (Handle_Unpack a)
  obtain c c' bs where c: "clients (mgr S) a = Some c" "handle_unpack m c (buffer_pool (mgr S)) = Inr (msgs, c', bs)"
      "s' = (put_object a c' (mgr S))\<lparr>buffer_pool := bs\<rparr>"
    using run Handle_Unpack by (auto simp: get_object_def elim!: bind_resE split: option.splits)
  have "ids c' = ids c" using handle_unpack_owned(2,3) [OF c(2)] by (simp add: ids_eq)
  then show ?thesis by (rule same_work_put [OF c(1)]) (simp_all add: c(3) put_object_def)
next
  case (Timeout_Send a)
  let ?s = "mgr S"
  obtain c i c' bs l where c: "clients ?s a = Some c" and i: "i < length (socket_loop ?s)"
    and h: "timeout_send free w c (buffer_pool ?s) (loop_view_of (socket_loop ?s ! i)) = Inr (c', bs, l)"
    and s': "s' = put_loop i (commit_view (fd c) l (socket_loop ?s ! i)) ((put_object a c' ?s)\<lparr>buffer_pool := bs\<rparr>)"
    using run Timeout_Send by (auto simp: get_object_def dest!: loop_atD elim!: bind_resE split: option.splits)
  let ?S1 = "S\<lparr>mgr := (put_object a c' ?s)\<lparr>buffer_pool := bs\<rparr>\<rparr>"
  have "ids c' = ids c" using timeout_send_frame [OF h] by (simp add: ids_eq)
  then have "same_work S ?S1" by (rule same_work_put [OF c]) (simp_all add: put_object_def)
  moreover have "same_work ?S1 (S\<lparr>mgr := s'\<rparr>)"
    using same_work_commit [of i ?S1 "fd c" l] i loop_fineD(3) [OF wiredD(6) [OF ok i]] by (simp add: s' put_object_def)
  ultimately show ?thesis by (rule same_work_trans)
qed

lemma close_client_same_work:
  assumes "close_client k (mgr S) = Inr s'"
  shows "same_work S (S\<lparr>mgr := s'\<rparr>)"
proof (cases "get_fd k (mgr S) \<noteq> 0 \<and> get_client (get_fd k (mgr S)) (mgr S) \<noteq> None")
  case True
  then obtain a c where a: "clients (mgr S) a = Some c" "s' = remove_fd k (put_object a (close_read c) (mgr S))"
    using assms by (auto simp: close_client_defs Let_def get_object_def elim!: bind_resE split: option.splits)
  have "ids (close_read c) = ids c" by (simp add: ids_def close_read_def)
  then show ?thesis by (rule same_work_put [OF a(1)]) (simp_all add: a(2) put_object_def remove_fd_def)
next
  case False
  then have "s' = mgr S \<or> s' = remove_fd k (mgr S)" using assms by (auto simp: close_client_defs Let_def split: if_splits)
  then show ?thesis using same_wiring_refl by (auto simp: same_work_def Let_def calls_def remove_fd_def)
qed

lemma buffers_same_work: "same_work S (S\<lparr>mgr := (mgr S)\<lparr>buffer_pool := B\<rparr>\<rparr>)"
  using same_wiring_refl by (simp add: same_work_def Let_def calls_def)

lemma push_send_same_work:
  assumes "tm_push_send_pack m src (mgr S) = Inr (r, s')"
  shows "same_work S (S\<lparr>mgr := s'\<rparr>)"
proof -
  obtain B where B: "s' = (mgr S)\<lparr>buffer_pool := B\<rparr> \<or> (\<exists>a c c' r bs D. clients (mgr S) a = Some c \<and>
      push_send_pack m src c D = Inr (r, c', bs) \<and> s' = (put_object a c' (mgr S))\<lparr>buffer_pool := bs\<rparr>)"
    using assms
    by (auto simp: tm_push_defs Let_def get_object_def put_object_def elim!: bind_resE split: option.splits if_splits)
      blast+
  then show ?thesis
  proof
    assume "\<exists>a c c' r bs D. clients (mgr S) a = Some c \<and> push_send_pack m src c D = Inr (r, c', bs)
      \<and> s' = (put_object a c' (mgr S))\<lparr>buffer_pool := bs\<rparr>"
    then obtain a c c' r bs D where c: "clients (mgr S) a = Some c" "push_send_pack m src c D = Inr (r, c', bs)"
        "s' = (put_object a c' (mgr S))\<lparr>buffer_pool := bs\<rparr>" by blast
    have "ids c' = ids c" using c(2) by (auto simp: push_send_pack_def set_write_update_def ids_def elim!: bind_resE split: if_splits)
    then show ?thesis by (rule same_work_put [OF c(1)]) (simp_all add: c(3) put_object_def)
  qed (simp add: buffers_same_work)
qed

end
