(* ===== verification/Connection_Life.thy ===== *)
theory Connection_Life
  imports Manager_Threads
begin

text \<open>
  How a connection comes and goes among the threads of \<open>Manager_Threads\<close>: each job, task and loop function
  that adds, closes or removes one returns and keeps the invariant, and so do accepting a socket and running
  any other function of a loop.
\<close>

section \<open>Steps of one loop\<close>

lemma sum_at:
  fixes f g :: "nat \<Rightarrow> nat"
  assumes "i < n" and "\<And>j. j < n \<Longrightarrow> j \<noteq> i \<Longrightarrow> g j = f j"
  shows "(\<Sum>j < n. g j) + f i = (\<Sum>j < n. f j) + g i"
proof -
  have "(\<Sum>j < n. h j) = h i + (\<Sum>j \<in> {..<n} - {i}. h j)" for h :: "nat \<Rightarrow> nat"
    using assms(1) by (simp add: sum.remove)
  moreover have "(\<Sum>j \<in> {..<n} - {i}. g j) = (\<Sum>j \<in> {..<n} - {i}. f j)"
    using assms(2) by (intro sum.cong) auto
  ultimately show ?thesis by simp
qed

text \<open>Only loop \<open>i\<close> and its functions change, and the pool of handles.\<close>

definition loop_change :: "nat \<Rightarrow> event_manager \<Rightarrow> system \<Rightarrow> system \<Rightarrow> bool" where
  "loop_change i v S T \<longleftrightarrow> i < length (socket_loop (mgr S)) \<and> socket_loop (mgr T) = (socket_loop (mgr S))[i := v] \<and>
     (\<forall>j. j \<noteq> i \<longrightarrow> calls T j = calls S j) \<and> event_size (mgr T) = event_size (mgr S) \<and>
     acceptor_index (mgr T) = acceptor_index (mgr S) \<and> length (workers (packer_thread (mgr T))) = length (workers (packer_thread (mgr S)))"

lemma loop_changeD:
  assumes "loop_change i v S T"
  shows "i < length (socket_loop (mgr S))" "length (socket_loop (mgr T)) = length (socket_loop (mgr S))"
    "socket_loop (mgr T) ! i = v" "j \<noteq> i \<Longrightarrow> calls T j = calls S j" "j \<noteq> i \<Longrightarrow> socket_loop (mgr T) ! j = socket_loop (mgr S) ! j"
  using assms by (simp_all add: loop_change_def)

lemma wired_loop_change:
  assumes ch: "loop_change i v S T" and ok: "wired S" and pool: "pool_ok (handle_pool (mgr T))"
    and fine: "loop_fine (mgr T) (calls T i) v"
    and other: "\<And>j. j \<noteq> i \<Longrightarrow> j < length (socket_loop (mgr S)) \<Longrightarrow> dom (handles (socket_loop (mgr S) ! j)) \<subseteq> live (handle_pool (mgr T))"
    and disj: "\<And>j. j \<noteq> i \<Longrightarrow> j < length (socket_loop (mgr S)) \<Longrightarrow> dom (handles v) \<inter> dom (handles (socket_loop (mgr S) ! j)) = {}"
  shows "wired T"
proof -
  note D = loop_changeD [OF ch]
  have "loop_fine (mgr T) (calls T j) (socket_loop (mgr T) ! j)" if j: "j < length (socket_loop (mgr S))" for j
  proof (cases "j = i")
    case False
    then show ?thesis using wiredD(6) [OF ok j] other [OF False j] D(4,5) [OF False] by (simp add: loop_fine_def)
  qed (use fine D(3) in simp)
  moreover have "dom (handles (socket_loop (mgr T) ! j)) \<inter> dom (handles (socket_loop (mgr T) ! k)) = {}"
    if "j < length (socket_loop (mgr S))" "k < length (socket_loop (mgr S))" "j \<noteq> k" for j k
    using that wiredD(7) [OF ok that] disj [of j] disj [of k] D(3) D(5) [of j] D(5) [of k] by (cases "j = i"; cases "k = i") auto
  moreover have "workers (packer_thread (mgr T)) \<noteq> []"
    using ch wiredD(5) [OF ok] by (auto simp: loop_change_def)
  ultimately show ?thesis
    using wiredD(1-3) [OF ok] ch pool D(2) unfolding wired_def Let_def by (simp add: loop_change_def)
qed

lemma closings_loop_change:
  assumes ch: "loop_change i v S T"
    and rest: "count (jobs_in (packer_thread (mgr T))) (Req_Close a) + count_list (calls T i) (Other a)
        + count_list (errands (main_thread (mgr T))) (Remove_Client n)
      = count (jobs_in (packer_thread (mgr S))) (Req_Close a) + count_list (calls S i) (Other a)
        + count_list (errands (main_thread (mgr S))) (Remove_Client n)"
  shows "closings T a n = closings S a n"
proof -
  note D = loop_changeD [OF ch]
  have "(\<Sum>j < length (socket_loop (mgr S)). count_list (calls T j) (Other a)) + count_list (calls S i) (Other a)
      = (\<Sum>j < length (socket_loop (mgr S)). count_list (calls S j) (Other a)) + count_list (calls T i) (Other a)"
    using D(4) by (intro sum_at [OF D(1)]) simp
  then show ?thesis using rest by (simp add: closings_def D(2))
qed

lemma closings_parts:
  assumes "closings S a n = k"
  shows "count (jobs_in (packer_thread (mgr S))) (Req_Close a) \<le> k"
    "i < length (socket_loop (mgr S)) \<Longrightarrow> count_list (calls S i) (Other a) \<le> k"
    "count_list (errands (main_thread (mgr S))) (Remove_Client n) \<le> k"
    "i < length (socket_loop (mgr S)) \<Longrightarrow> count (jobs_in (packer_thread (mgr S))) (Req_Close a) + count_list (calls S i) (Other a)
       + count_list (errands (main_thread (mgr S))) (Remove_Client n) \<le> k"
proof -
  have le: "i < length (socket_loop (mgr S)) \<Longrightarrow> count_list (calls S i) (Other a)
      \<le> (\<Sum>j < length (socket_loop (mgr S)). count_list (calls S j) (Other a))" for i
    by (rule member_le_sum) simp_all
  show "count (jobs_in (packer_thread (mgr S))) (Req_Close a) \<le> k"
    "count_list (errands (main_thread (mgr S))) (Remove_Client n) \<le> k"
    using assms by (simp_all add: closings_def)
  show "i < length (socket_loop (mgr S)) \<Longrightarrow> count_list (calls S i) (Other a) \<le> k"
    "i < length (socket_loop (mgr S)) \<Longrightarrow> count (jobs_in (packer_thread (mgr S))) (Req_Close a) + count_list (calls S i) (Other a)
       + count_list (errands (main_thread (mgr S))) (Remove_Client n) \<le> k"
    using assms le [of i] by (simp_all add: closings_def)
qed

lemma in_count: "x \<in> set xs \<longleftrightarrow> 0 < count_list xs x"
  by (metis count_list_0_iff not_gr_zero)

text \<open>A connection something is under way to end is in the table and marked closed.\<close>

lemma closing_stage:
  assumes st: "staged S" and c: "clients (mgr S) a = Some c" and pos: "0 < closings S a (fd c)"
  shows "client_map (mgr S) (fd c) = Some a" "closed c" "closings S a (fd c) = 1"
    "\<exists>i. event_loop c = Some i \<and> i < length (socket_loop (mgr S))"
    "Add_Client a \<notin> set (errands (main_thread (mgr S)))"
  using stagedD(1) [OF st c] pos by (auto simp: conn_stage_def in_count split: if_splits)

text \<open>The stages after a step that keeps the clients, their table and what is under way for each.\<close>

lemma staged_keep:
  assumes st: "staged S" and eq: "clients (mgr T) = clients (mgr S)" "client_map (mgr T) = client_map (mgr S)"
      "m_callback (mgr T) = m_callback (mgr S)" "length (socket_loop (mgr T)) = length (socket_loop (mgr S))"
    and close: "\<And>a c. clients (mgr S) a = Some c \<Longrightarrow> closings T a (fd c) = closings S a (fd c)"
    and add: "\<And>a. count_list (errands (main_thread (mgr T))) (Add_Client a) = count_list (errands (main_thread (mgr S))) (Add_Client a)"
    and jobs: "\<And>a. clients (mgr S) a = None \<Longrightarrow> Req_Close a \<in># jobs_in (packer_thread (mgr T)) \<Longrightarrow> Req_Close a \<in># jobs_in (packer_thread (mgr S))"
    and others: "\<And>a i. clients (mgr S) a = None \<Longrightarrow> i < length (socket_loop (mgr S)) \<Longrightarrow> Other a \<in> set (calls T i) \<Longrightarrow> Other a \<in> set (calls S i)"
    and rem: "\<And>n. Remove_Client n \<in> set (errands (main_thread (mgr T))) \<Longrightarrow> \<exists>a. client_map (mgr S) n = Some a"
  shows "staged T"
proof (rule stagedI)
  show "conn_stage T a c" if "clients (mgr T) a = Some c" for a c
    using that stagedD(1) [OF st, of a c] close [of a c] add [of a] eq by (simp add: conn_stage_def)
  show "gone T a" if "clients (mgr T) a = None" for a
  proof -
    have "clients (mgr S) a = None" using that eq(1) by simp
    then show ?thesis
      using stagedD(2) [OF st, of a] jobs [of a] others [of a] add [of a] eq(4) unfolding gone_def in_count by auto
  qed
  show "table_alive (mgr T)" using stagedD(4) [OF st] by (simp add: table_alive_def eq(1,2))
  show "\<exists>a. client_map (mgr T) n = Some a" if "Remove_Client n \<in> set (errands (main_thread (mgr T)))" for n
    using rem [OF that] eq(2) by simp
qed (use stagedD(3) [OF st] eq(1) in auto)

lemma owned_by_conn_keep:
  assumes "owned_by_conn S i h" and "clients (mgr T) = clients (mgr S)" and "client_map (mgr T) = client_map (mgr S)"
    and "owner (socket_loop (mgr T) ! i) h = owner (socket_loop (mgr S) ! i) h"
    and "\<And>a n. owner (socket_loop (mgr S) ! i) h = Some (a, n) \<Longrightarrow> Remove_Client n \<in> set (errands (main_thread (mgr T))) \<Longrightarrow>
      Remove_Client n \<in> set (errands (main_thread (mgr S)))"
  shows "owned_by_conn T i h"
proof -
  obtain a c where "owner (socket_loop (mgr S) ! i) h = Some (a, fd c)" "clients (mgr S) a = Some c"
      "event_loop c = Some i" "client_map (mgr S) (fd c) = Some a"
      "Remove_Client (fd c) \<notin> set (errands (main_thread (mgr S)))"
    using assms(1) by (auto simp: owned_by_conn_def)
  then show ?thesis using assms(2-5) by (auto simp: owned_by_conn_def)
qed

lemma table_ok_lists [simp]:
  "table_ok ps (w\<lparr>loop_functions_write := fs\<rparr>) = table_ok ps w" "table_ok ps (w\<lparr>loop_functions_read := fs\<rparr>) = table_ok ps w"
  "table_ok ps (w\<lparr>recycled := rs\<rparr>) = table_ok ps w" "table_ok ps (w\<lparr>events_size := n\<rparr>) = table_ok ps w"
  by (simp_all add: table_ok_def)

lemma owner_lists [simp]:
  "owner (w\<lparr>loop_functions_write := fs\<rparr>) h = owner w h" "owner (w\<lparr>loop_functions_read := fs\<rparr>) h = owner w h"
  "owner (w\<lparr>recycled := rs\<rparr>) h = owner w h"
  by (simp_all add: owner_def)

lemma adds_snoc [simp]: "adds (fs @ [Other a]) = adds fs"
  by (simp add: adds_append)

lemma after_close_append:
  "after_close a (fs @ gs) = (if Other a \<in> set fs then after_close a fs @ adds gs else after_close a gs)"
proof (cases "Other a \<in> set fs")
  case True
  then have "dropWhile (\<lambda>f. f \<noteq> Other a) (fs @ gs) = dropWhile (\<lambda>f. f \<noteq> Other a) fs @ gs"
    by (intro dropWhile_append1 [of "Other a"]) simp_all
  then show ?thesis using True by (simp add: after_close_def adds_append)
next
  case False
  then have "dropWhile (\<lambda>f. f \<noteq> Other a) (fs @ gs) = dropWhile (\<lambda>f. f \<noteq> Other a) gs"
    by (intro dropWhile_append2) auto
  then show ?thesis using False by (simp add: after_close_def)
qed

lemma after_close_Cons:
  "after_close a (f # fs) = (if f = Other a then adds fs else after_close a fs)"
  by (simp add: after_close_def)

lemma req_close_ok:
  assumes ok: "wired S" "staged S" "handled S"
    and jobs: "jobs_in (packer_thread (mgr S)) = add_mset (Req_Close a) (jobs_in p)"
    and len: "length (workers p) = length (workers (packer_thread (mgr S)))"
    and run: "req_close a ((mgr S)\<lparr>packer_thread := p\<rparr>) = Inr s'"
  shows "wired (S\<lparr>mgr := s'\<rparr>) \<and> staged (S\<lparr>mgr := s'\<rparr>) \<and> handled (S\<lparr>mgr := s'\<rparr>)"
proof -
  let ?T = "S\<lparr>mgr := s'\<rparr>" and ?n = "length (socket_loop (mgr S))"
  obtain c k where c: "clients (mgr S) a = Some c" "event_loop c = Some k" and k: "k < ?n"
    and s'0: "s' = put_loop k (run_in_handle_loop (Other a) (socket_loop (mgr S) ! k)) ((mgr S)\<lparr>packer_thread := p\<rparr>)"
    using run by (auto simp: req_close_def get_object_def loop_at_def elim!: bind_resE split: option.splits if_splits)
  let ?w = "socket_loop (mgr S) ! k"
  let ?v = "?w\<lparr>loop_functions_write := loop_functions_write ?w @ [Other a]\<rparr>"
  note fine = wiredD(6) [OF ok(1) k]
  have s': "s' = (mgr S)\<lparr>packer_thread := p, socket_loop := (socket_loop (mgr S))[k := ?v]\<rparr>"
    using loop_fineD(3) [OF fine] by (simp add: s'0 run_in_handle_loop_def put_loop_plain)
  have ch: "loop_change k ?v S ?T" using k len by (simp add: loop_change_def s' calls_def)
  note D = loop_changeD [OF ch]
  have calls: "calls ?T k = calls S k @ [Other a]" using k by (simp add: calls_def s')
  have "0 < closings S a (fd c)" using closings_parts(1) [OF refl, of S a "fd c"] jobs by simp
  note stage = closing_stage [OF ok(2) c(1) this]
  have none: "Other a \<notin> set (calls S k)"
    using closings_parts(4) [OF stage(3) k] jobs by (simp add: in_count)
  have "wired ?T"
    using wired_loop_change [OF ch ok(1)] fine wiredD(4,6,7) [OF ok(1)] k calls by (auto simp: s' loop_fine_def)
  moreover have "staged ?T"
  proof (rule staged_keep [OF ok(2)])
    show "closings ?T b (fd d) = closings S b (fd d)" if "clients (mgr S) b = Some d" for b d
      by (rule closings_loop_change [OF ch], unfold calls) (simp add: jobs s')
    show "Other b \<in> set (calls S i)" if "clients (mgr S) b = None" "i < ?n" "Other b \<in> set (calls ?T i)" for b i
      using that D(4) [of i] calls c(1) by (cases "i = k") auto
  qed (use jobs D(2) stagedD(5) [OF ok(2)] in \<open>simp_all add: s'\<close>)
  moreover have "handled ?T"
  proof (rule handledI)
    fix i h assume "i < length (socket_loop (mgr ?T))"
      and h: "h \<in> ran (handler_map (socket_loop (mgr ?T) ! i)) \<or> h \<in> set (adds (calls ?T i))"
    then have i: "i < ?n" using D(2) by simp
    have "h \<in> ran (handler_map (socket_loop (mgr S) ! i)) \<or> h \<in> set (adds (calls S i))"
      using h D(3) D(4,5) [of i] calls by (cases "i = k") simp_all
    from handledD(1) [OF ok(3) i this] show "owned_by_conn ?T i h"
      by (rule owned_by_conn_keep) (use D(3) D(5) [of i] in \<open>cases "i = k"; simp add: s'\<close>)+
  next
    fix i b assume "i < length (socket_loop (mgr ?T))" and b: "Other b \<in> set (calls ?T i)"
    then have i: "i < ?n" using D(2) by simp
    have old: "Other b \<in> set (calls S i) \<or> i = k \<and> b = a" using b D(4) [of i] calls by (cases "i = k") auto
    then show "\<exists>d. clients (mgr ?T) b = Some d \<and> event_loop d = Some i"
      using handledD(2) [OF ok(3) i, of b] c by (auto simp: s')
    show "owner (socket_loop (mgr ?T) ! i) h \<noteq> Some (b, n)" if "h \<in> set (after_close b (calls ?T i))" for h n
    proof (cases "i = k")
      case True
      then have "Other b \<in> set (calls S k)" "h \<in> set (after_close b (calls S k))"
        using that none by (auto simp: calls after_close_append after_close_Cons split: if_splits) (auto simp: after_close_def)
      then show ?thesis using handledD(3) [OF ok(3) k] True D(3) by simp
    next
      case False
      then show ?thesis using that old handledD(3) [OF ok(3) i] D(4,5) [OF False] by auto
    qed
  qed
  ultimately show ?thesis by blast
qed

text \<open>
  What running a function does to the loop's own state: handles only go, at most one is recycled, and what
  is registered was registered before or is what the function adds.
\<close>

definition ran_call :: "loop_call \<Rightarrow> loop_call list \<Rightarrow> event_manager \<Rightarrow> event_manager \<Rightarrow> bool" where
  "ran_call f fs w v \<longleftrightarrow> table_ok (adds (fs @ loop_functions_write w)) v \<and> same_loop w v \<and>
     ran (handler_map v) \<subseteq> ran (handler_map w) \<union> set (adds [f]) \<and>
     (recycled v = [] \<and> handles v = handles w \<or>
      (\<exists>h \<in> dom (handles w). recycled v = [h] \<and> handles v = (handles w)(h := None)))"

lemma run_call_ran:
  assumes ok: "table_ok (adds [f] @ adds (fs @ loop_functions_write w)) w" and rec: "recycled w = []" and f: "\<forall>a. f \<noteq> Other a"
  shows "\<exists>v. run_call (em_tid w) accepts f w = Inr v \<and> ran_call f fs w v"
proof (cases f)
  case (Do_Add h)
  let ?ps = "adds (fs @ loop_functions_write w)"
  have t: "table_ok (h # ?ps) w" using ok Do_Add by simp
  then obtain e where e: "handles w h = Some e" by (auto simp: table_ok_def)
  obtain v where v: "do_add_handle (em_tid w) (accepts (h_fd e)) h w = Inr v" "table_ok ?ps v" "same_loop w v"
      "handles v = handles w" "handler_map v = (if handler_map w (h_fd e) = None \<and> accepts (h_fd e)
        then (handler_map w)(h_fd e \<mapsto> h) else handler_map w)"
    using do_add_handle_ok [OF t refl e] by blast
  have "recycled v = recycled w"
    using v(1) e by (auto simp: do_add_handle_def Let_def ctl_add_def elim!: bind_resE split: if_splits option.splits)
  moreover have "ran (handler_map v) \<subseteq> insert h (ran (handler_map w))"
    unfolding v(5) by (auto simp: ran_def)
  ultimately show ?thesis using v e rec Do_Add by (auto simp: ran_call_def)
next
  case (Do_Update n)
  obtain r v where v: "do_update_handle n w = Inr (r, v)" "table_ok (adds (fs @ loop_functions_write w)) v" "same_loop w v"
      "handles v = handles w" "handler_map v = handler_map w"
    using do_update_handle_ok [of "adds (fs @ loop_functions_write w)" w n] ok Do_Update by auto
  have "recycled v = recycled w"
    using v(1) by (auto simp: do_update_handle_def get_handle_def ctl_mod_def split: if_splits option.splits)
  then show ?thesis using v rec Do_Update by (simp add: ran_call_def)
next
  case (Do_Remove n)
  obtain v where v: "do_remove_handle (em_tid w) n w = Inr v" "table_ok (adds (fs @ loop_functions_write w)) v" "same_loop w v"
      "handler_map v = (handler_map w)(n := None)"
      "case handler_map w n of None \<Rightarrow> v = w | Some h \<Rightarrow> recycled v = recycled w @ [h] \<and> handles v = (handles w)(h := None)"
    using do_remove_handle_ok [of "adds (fs @ loop_functions_write w)" w "em_tid w" n] ok Do_Remove by auto
  have "ran (handler_map v) \<subseteq> ran (handler_map w)" unfolding v(4) by (auto simp: ran_def)
  moreover have "recycled v = [] \<and> handles v = handles w \<or>
      (\<exists>h \<in> dom (handles w). recycled v = [h] \<and> handles v = (handles w)(h := None))"
    using v(5) rec table_okD(2) [OF ok, of n] by (cases "handler_map w n") force+
  ultimately show ?thesis using v Do_Remove by (simp add: ran_call_def)
qed (use f in simp)

lemma ran_call_kept:
  assumes r: "ran_call f fs w v" and h: "h \<in> ran (handler_map v) \<union> set (adds (fs @ loop_functions_write w))"
  shows "h \<in> ran (handler_map w) \<union> set (adds (f # fs @ loop_functions_write w))" and "owner v h = owner w h"
proof -
  have t: "table_ok (adds (fs @ loop_functions_write w)) v" using r by (simp add: ran_call_def)
  have "set (adds (f # fs @ loop_functions_write w)) = set (adds [f]) \<union> set (adds (fs @ loop_functions_write w))"
    by (cases f) simp_all
  then show "h \<in> ran (handler_map w) \<union> set (adds (f # fs @ loop_functions_write w))" using r h by (auto simp: ran_call_def)
  have "handles v h \<noteq> None"
  proof (cases "h \<in> ran (handler_map v)")
    case True
    then obtain n where "handler_map v n = Some h" by (auto simp: ran_def)
    then show ?thesis using table_okD(2) [OF t] by fastforce
  next
    case False
    then show ?thesis using h t by (auto simp: table_ok_def)
  qed
  then show "owner v h = owner w h" using r by (auto simp: ran_call_def owner_def split: if_splits)
qed

text \<open>The state after the function \<open>f\<close> of loop \<open>i\<close>, which left the main thread as \<open>t\<close>.\<close>

definition after_call :: "nat \<Rightarrow> loop_call list \<Rightarrow> event_manager \<Rightarrow> main_task task_thread \<Rightarrow> system \<Rightarrow> system" where
  "after_call i fs v t S = S\<lparr>mgr := (put_loop i v (mgr S))\<lparr>main_thread := t\<rparr>, rest := (rest S)(i := fs)\<rparr>"

lemma after_call_wired:
  assumes ok: "wired S" and i: "i < length (socket_loop (mgr S))" and f: "rest S i = f # fs"
    and r: "ran_call f fs (socket_loop (mgr S) ! i) v"
  shows "loop_change i (v\<lparr>recycled := []\<rparr>) S (after_call i fs v t S)" and "wired (after_call i fs v t S)"
    and "calls S i = f # calls (after_call i fs v t S) i"
    and "calls (after_call i fs v t S) i = fs @ loop_functions_write (socket_loop (mgr S) ! i)"
proof -
  let ?T = "after_call i fs v t S" and ?w = "socket_loop (mgr S) ! i"
  have same: "same_loop ?w v" using r by (simp add: ran_call_def)
  show calls: "calls ?T i = fs @ loop_functions_write ?w"
    using i same by (simp add: after_call_def calls_def put_loop_eq same_loop_def)
  show "calls S i = f # calls ?T i" unfolding calls by (simp add: calls_def f)
  show ch: "loop_change i (v\<lparr>recycled := []\<rparr>) S ?T"
    using i by (simp add: loop_change_def after_call_def put_loop_eq calls_def)
  note fine = wiredD(6) [OF ok i]
  let ?P = "fold pool_push (recycled v) (handle_pool (mgr S))"
  have P: "handle_pool (mgr ?T) = ?P" by (simp add: after_call_def put_loop_eq)
  consider "recycled v = []" "handles v = handles ?w"
    | h where "h \<in> dom (handles ?w)" "recycled v = [h]" "handles v = (handles ?w)(h := None)"
    using r by (auto simp: ran_call_def)
  then have "pool_ok ?P \<and> dom (handles v) \<subseteq> live ?P \<and> dom (handles v) \<subseteq> dom (handles ?w) \<and>
      (\<forall>j < length (socket_loop (mgr S)). j \<noteq> i \<longrightarrow> dom (handles (socket_loop (mgr S) ! j)) \<subseteq> live ?P)"
  proof cases
    case 1
    then show ?thesis using wiredD(4) [OF ok] loop_fineD(5) [OF fine] loop_fineD(5) [OF wiredD(6) [OF ok]] by auto
  next
    case 2
    have "h \<in> live (handle_pool (mgr S))" using 2(1) loop_fineD(5) [OF fine] by blast
    then have push: "pool_ok ?P" "live ?P = live (handle_pool (mgr S)) - {h}"
      using pool_push_ok [OF wiredD(4) [OF ok]] 2(2) by simp_all
    have "h \<notin> dom (handles (socket_loop (mgr S) ! j))" if "j < length (socket_loop (mgr S))" "j \<noteq> i" for j
      using wiredD(7) [OF ok that(1) i that(2)] 2(1) by blast
    then have "dom (handles (socket_loop (mgr S) ! j)) \<subseteq> live ?P" if "j < length (socket_loop (mgr S))" "j \<noteq> i" for j
      using loop_fineD(5) [OF wiredD(6) [OF ok that(1)]] that push(2) by blast
    moreover have "dom (handles v) \<subseteq> live ?P" using 2(3) loop_fineD(5) [OF fine] push(2) by auto
    ultimately show ?thesis using push(1) 2(3) by auto
  qed
  note pool = this
  have table: "table_ok (adds (calls ?T i)) v" using r unfolding calls by (simp add: ran_call_def)
  show "wired ?T"
  proof (rule wired_loop_change [OF ch ok])
    show "loop_fine (mgr ?T) (calls ?T i) (v\<lparr>recycled := []\<rparr>)"
      using loop_fineD [OF fine] table pool P same by (simp add: loop_fine_def same_loop_def)
    show "dom (handles (v\<lparr>recycled := []\<rparr>)) \<inter> dom (handles (socket_loop (mgr S) ! j)) = {}"
      if "j \<noteq> i" "j < length (socket_loop (mgr S))" for j
    proof -
      have "dom (handles v) \<subseteq> dom (handles ?w)" using pool by blast
      then have "dom (handles v) \<inter> dom (handles (socket_loop (mgr S) ! j)) = {}"
        using wiredD(7) [OF ok i that(2)] that(1) by blast
      then show ?thesis by simp
    qed
  qed (use pool P in auto)
qed

lemma after_close_adds: "h \<in> set (after_close a fs) \<Longrightarrow> h \<in> set (adds fs)"
proof (induction fs)
  case (Cons f fs)
  then show ?case by (cases f) (auto simp: after_close_Cons split: if_splits)
qed (simp add: after_close_def)

text \<open>Running a registration, an update or a removal of a handle.\<close>

lemma after_call_simps [simp]:
  "clients (mgr (after_call i fs v t S)) = clients (mgr S)" "client_map (mgr (after_call i fs v t S)) = client_map (mgr S)"
  "m_callback (mgr (after_call i fs v t S)) = m_callback (mgr S)" "main_thread (mgr (after_call i fs v t S)) = t"
  "packer_thread (mgr (after_call i fs v t S)) = packer_thread (mgr S)"
  by (simp_all add: after_call_def put_loop_eq)

lemma plain_call_ok:
  assumes ok: "wired S" "staged S" "handled S" and i: "i < length (socket_loop (mgr S))" and f: "rest S i = f # fs"
    and r: "ran_call f fs (socket_loop (mgr S) ! i) v" and plain: "\<forall>a. f \<noteq> Other a"
  shows "wired (after_call i fs v (main_thread (mgr S)) S) \<and> staged (after_call i fs v (main_thread (mgr S)) S)
    \<and> handled (after_call i fs v (main_thread (mgr S)) S)"
proof -
  let ?T = "after_call i fs v (main_thread (mgr S)) S" and ?n = "length (socket_loop (mgr S))" and ?w = "socket_loop (mgr S) ! i"
  note W = after_call_wired [OF ok(1) i f r]
  note D = loop_changeD [OF W(1) [of "main_thread (mgr S)"]]
  have others: "Other b \<in> set (calls ?T j) \<longleftrightarrow> Other b \<in> set (calls S j)" for b j
    using W(3) [of "main_thread (mgr S)"] D(4) [of j] plain by (cases "j = i") auto
  have after: "after_close b (calls ?T j) = after_close b (calls S j)" for b j
    using W(3) [of "main_thread (mgr S)"] D(4) [of j] plain by (cases "j = i") (auto simp: after_close_Cons)
  have "staged ?T"
  proof (rule staged_keep [OF ok(2)])
    show "closings ?T b (fd d) = closings S b (fd d)" for b d
      by (rule closings_loop_change [OF W(1)], unfold W(3) [of "main_thread (mgr S)"]) (use plain in simp)
  qed (use D(2) stagedD(5) [OF ok(2)] others in simp_all)
  moreover have "handled ?T"
  proof (rule handledI)
    fix j h assume "j < length (socket_loop (mgr ?T))"
      and h: "h \<in> ran (handler_map (socket_loop (mgr ?T) ! j)) \<or> h \<in> set (adds (calls ?T j))"
    then have j: "j < ?n" using D(2) by simp
    have old: "(h \<in> ran (handler_map (socket_loop (mgr S) ! j)) \<or> h \<in> set (adds (calls S j)))
        \<and> owner (socket_loop (mgr ?T) ! j) h = owner (socket_loop (mgr S) ! j) h"
    proof (cases "j = i")
      case True
      have "h \<in> ran (handler_map v) \<union> set (adds (fs @ loop_functions_write ?w))"
        using h True D(3) W(4) by simp
      from ran_call_kept [OF r this] show ?thesis using True D(3) W(3) [of "main_thread (mgr S)"] W(4) by simp
    qed (use h D(4,5) in simp)
    show "owned_by_conn ?T j h"
      by (rule owned_by_conn_keep [OF handledD(1) [OF ok(3) j]]) (use old in simp_all)
  next
    fix j b assume "j < length (socket_loop (mgr ?T))" and b: "Other b \<in> set (calls ?T j)"
    then have j: "j < ?n" and b: "Other b \<in> set (calls S j)" using D(2) others by simp_all
    show "\<exists>d. clients (mgr ?T) b = Some d \<and> event_loop d = Some j" using handledD(2) [OF ok(3) j b] by simp
    show "owner (socket_loop (mgr ?T) ! j) h \<noteq> Some (b, n)" if h: "h \<in> set (after_close b (calls ?T j))" for h n
    proof -
      have old: "owner (socket_loop (mgr S) ! j) h \<noteq> Some (b, n)" using handledD(3) [OF ok(3) j b] h after by simp
      show ?thesis
      proof (cases "j = i")
        case True
        then have "h \<in> set (adds (fs @ loop_functions_write ?w))" using h W(4) after_close_adds by auto
        then show ?thesis using ran_call_kept(2) [OF r, of h] old True D(3) by simp
      qed (use old D(5) in simp)
    qed
  qed
  ultimately show ?thesis using W(2) by blast
qed

text \<open>A connection is closed by its loop.\<close>

lemma close_call_ok:
  assumes ok: "wired S" "staged S" "handled S" and i: "i < length (socket_loop (mgr S))" and f: "rest S i = Other a # fs"
  shows "\<exists>s'. close_entity (em_tid (socket_loop (mgr S) ! i)) a (mgr S) = Inr s' \<and>
    wired (S\<lparr>mgr := s', rest := (rest S)(i := fs)\<rparr>) \<and> staged (S\<lparr>mgr := s', rest := (rest S)(i := fs)\<rparr>)
    \<and> handled (S\<lparr>mgr := s', rest := (rest S)(i := fs)\<rparr>)"
proof -
  let ?n = "length (socket_loop (mgr S))" and ?w = "socket_loop (mgr S) ! i"
  note fine = wiredD(6) [OF ok(1) i]
  have calls: "calls S i = Other a # fs @ loop_functions_write ?w" by (simp add: calls_def f)
  then obtain c where c: "clients (mgr S) a = Some c" "event_loop c = Some i" using handledD(2) [OF ok(3) i] by auto
  have "0 < closings S a (fd c)" using closings_parts(2) [OF refl i, of a "fd c"] calls by simp
  note stage = closing_stage [OF ok(2) c(1) this]
  have one: "count_list (fs @ loop_functions_write ?w) (Other a) = 0"
      "count_list (errands (main_thread (mgr S))) (Remove_Client (fd c)) = 0"
    using closings_parts(4) [OF stage(3) i] calls by simp_all
  have tab: "table_ok (adds (fs @ loop_functions_write ?w)) ?w" using loop_fineD(1) [OF fine] calls by simp
  obtain v where v: "do_remove_handle (em_tid ?w) (fd c) ?w = Inr v" "table_ok (adds (fs @ loop_functions_write ?w)) v"
      "same_loop ?w v" "handler_map v = (handler_map ?w)(fd c := None)"
      "case handler_map ?w (fd c) of None \<Rightarrow> v = ?w | Some h \<Rightarrow> recycled v = recycled ?w @ [h] \<and> handles v = (handles ?w)(h := None)"
    using do_remove_handle_ok [OF tab refl, of "fd c"] by blast
  have "ran (handler_map v) \<subseteq> ran (handler_map ?w)" unfolding v(4) by (auto simp: ran_def)
  moreover have "recycled v = [] \<and> handles v = handles ?w \<or>
      (\<exists>h \<in> dom (handles ?w). recycled v = [h] \<and> handles v = (handles ?w)(h := None))"
    using v(5) loop_fineD(3) [OF fine] table_okD(2) [OF tab, of "fd c"] by (cases "handler_map ?w (fd c)") force+
  ultimately have r: "ran_call (Other a) fs ?w v" using v(2,3) by (simp add: ran_call_def)
  let ?t = "run_in_thread (Remove_Client (fd c)) (main_thread (mgr S))"
  let ?T = "after_call i fs v ?t S"
  have run: "close_entity (em_tid ?w) a (mgr S) = Inr ((put_loop i v (mgr S))\<lparr>main_thread := ?t\<rparr>)"
    using c i v(1) by (simp add: close_entity_def get_object_def loop_at_def remove_client_def post_def put_loop_eq)
  note W = after_call_wired [OF ok(1) i f r]
  note D = loop_changeD [OF W(1) [of ?t]]
  have calls': "calls ?T i = fs @ loop_functions_write ?w" using W(4) .
  have others: "Other b \<in> set (calls S j)" if "Other b \<in> set (calls ?T j)" for b j
    using that W(3) [of ?t] D(4) [of j] by (cases "j = i") auto
  have no: "Other a \<notin> set (calls ?T i)" using one(1) unfolding calls' in_count by simp
  have "staged ?T"
  proof (rule staged_keep [OF ok(2)])
    show "closings ?T b (fd d) = closings S b (fd d)" if d: "clients (mgr S) b = Some d" for b d
    proof -
      have "fd d = fd c \<longleftrightarrow> b = a" using stagedD(3) [OF ok(2) d c(1)] c(1) d by auto
      then show ?thesis by (intro closings_loop_change [OF W(1)], unfold W(3) [of ?t]) (cases "b = a"; auto)
    qed
    show "\<exists>b. client_map (mgr S) n = Some b" if "Remove_Client n \<in> set (errands (main_thread (mgr ?T)))" for n
      using that stage(1) stagedD(5) [OF ok(2), of n] by auto
  qed (use D(2) others in simp_all)
  moreover have "handled ?T"
  proof (rule handledI)
    fix j h assume "j < length (socket_loop (mgr ?T))"
      and h: "h \<in> ran (handler_map (socket_loop (mgr ?T) ! j)) \<or> h \<in> set (adds (calls ?T j))"
    then have j: "j < ?n" using D(2) by simp
    have old: "(h \<in> ran (handler_map (socket_loop (mgr S) ! j)) \<or> h \<in> set (adds (calls S j)))
        \<and> owner (socket_loop (mgr ?T) ! j) h = owner (socket_loop (mgr S) ! j) h
        \<and> owner (socket_loop (mgr S) ! j) h \<noteq> Some (a, fd c)"
    proof (cases "j = i")
      case True
      have h': "h \<in> ran (handler_map v) \<union> set (adds (fs @ loop_functions_write ?w))"
        using h True D(3) calls' by simp
      have "owner ?w h \<noteq> Some (a, fd c)"
      proof (cases "h \<in> ran (handler_map v)")
        case True
        then obtain m where m: "handler_map ?w m = Some h" "m \<noteq> fd c" unfolding v(4) by (auto simp: ran_def split: if_splits)
        then show ?thesis using table_okD(2) [OF tab m(1)] by (auto simp: owner_def split: if_splits)
      next
        case False
        then have "h \<in> set (after_close a (calls S i))" using h' calls by (simp add: after_close_Cons)
        then show ?thesis using handledD(3) [OF ok(3) i, of a h "fd c"] calls by simp
      qed
      then show ?thesis using ran_call_kept [OF r h'] True D(3) calls by simp
    next
      case False
      have "h \<in> ran (handler_map (socket_loop (mgr S) ! j)) \<or> h \<in> set (adds (calls S j))"
        using h D(4,5) [OF False] by simp
      then have "owned_by_conn S j h" using handledD(1) [OF ok(3) j] by blast
      then have "owner (socket_loop (mgr S) ! j) h \<noteq> Some (a, fd c)"
        using c False by (auto simp: owned_by_conn_def)
      then show ?thesis using h D(4,5) [OF False] by simp
    qed
    then have "owned_by_conn S j h" using handledD(1) [OF ok(3) j] by blast
    then obtain b d where b: "owner (socket_loop (mgr S) ! j) h = Some (b, fd d)" "clients (mgr S) b = Some d"
      by (auto simp: owned_by_conn_def)
    have "fd d \<noteq> fd c" using stagedD(3) [OF ok(2) b(2) c(1)] b old by auto
    then show "owned_by_conn ?T j h"
      by (intro owned_by_conn_keep [OF handledD(1) [OF ok(3) j]]) (use old b(1) in auto)
  next
    fix j b assume "j < length (socket_loop (mgr ?T))" and b: "Other b \<in> set (calls ?T j)"
    then have j: "j < ?n" using D(2) by simp
    have b': "Other b \<in> set (calls S j)" by (rule others [OF b])
    show "\<exists>d. clients (mgr ?T) b = Some d \<and> event_loop d = Some j" using handledD(2) [OF ok(3) j b'] by simp
    show "owner (socket_loop (mgr ?T) ! j) h \<noteq> Some (b, n)" if h: "h \<in> set (after_close b (calls ?T j))" for h n
    proof (cases "j = i")
      case True
      then have ab: "b \<noteq> a" using b no by auto
      then have "h \<in> set (after_close b (calls S i))" using h True W(3) [of ?t] by (simp add: after_close_Cons)
      then have old: "owner ?w h \<noteq> Some (b, n)" using handledD(3) [OF ok(3) i, of b h n] b' True by simp
      have "h \<in> set (adds (fs @ loop_functions_write ?w))" using h True calls' after_close_adds by auto
      then show ?thesis using ran_call_kept(2) [OF r, of h] old True D(3) by simp
    next
      case False
      then show ?thesis using h handledD(3) [OF ok(3) j b'] D(4,5) [OF False] by simp
    qed
  qed
  ultimately have "wired ?T \<and> staged ?T \<and> handled ?T" using W(2) by blast
  moreover have "?T = S\<lparr>mgr := (put_loop i v (mgr S))\<lparr>main_thread := ?t\<rparr>, rest := (rest S)(i := fs)\<rparr>"
    by (simp add: after_call_def)
  ultimately show ?thesis using run by auto
qed

text \<open>Each function of a loop returns and keeps the invariant.\<close>

lemma loop_call_ok:
  assumes ok: "wired S" "staged S" "handled S" and i: "i < length (socket_loop (mgr S))" and f: "rest S i = f # fs"
  shows "\<exists>s'. run_loop_call (em_tid (socket_loop (mgr S) ! i)) accepts i f (mgr S) = Inr s' \<and>
    wired (S\<lparr>mgr := s', rest := (rest S)(i := fs)\<rparr>) \<and> staged (S\<lparr>mgr := s', rest := (rest S)(i := fs)\<rparr>)
    \<and> handled (S\<lparr>mgr := s', rest := (rest S)(i := fs)\<rparr>)"
proof (cases "\<exists>a. f = Other a")
  case True
  then show ?thesis using close_call_ok [OF ok i] f by auto
next
  case False
  let ?w = "socket_loop (mgr S) ! i"
  note fine = loop_fineD [OF wiredD(6) [OF ok(1) i]]
  have "adds (calls S i) = adds [f] @ adds (fs @ loop_functions_write ?w)" by (cases f) (simp_all add: calls_def f)
  then obtain v where v: "run_call (em_tid ?w) accepts f ?w = Inr v" "ran_call f fs ?w v"
    using run_call_ran [of f fs ?w accepts] fine(1,3) False by auto
  have "run_loop_call (em_tid ?w) accepts i f (mgr S) = Inr (put_loop i v (mgr S))"
    using v(1) i False by (cases f) (simp_all add: loop_at_def)
  moreover have "after_call i fs v (main_thread (mgr S)) S = S\<lparr>mgr := put_loop i v (mgr S), rest := (rest S)(i := fs)\<rparr>"
    by (simp add: after_call_def put_loop_eq)
  ultimately show ?thesis using plain_call_ok [OF ok i f v(2)] False by auto
qed

lemma loop_clear_same_work:
  assumes ok: "wired S" and i: "i < length (socket_loop (mgr S))"
  shows "same_work S (S\<lparr>mgr := put_loop i ((socket_loop (mgr S) ! i)\<lparr>loop_functions_read := []\<rparr>) (mgr S)\<rparr>)"
proof -
  have "same_work S (S\<lparr>mgr := put_loop i ((socket_loop (mgr S) ! i)\<lparr>loop_functions_read := []\<rparr>) (mgr S),
      rest := (rest S)(i := rest S i)\<rparr>)"
    by (rule same_work_loop [OF i loop_fineD(3) [OF wiredD(6) [OF ok i]]]) (simp add: calls_def same_wiring_def)
  then show ?thesis by simp
qed

lemma loop_take_same_work:
  assumes ok: "wired S" and r: "rest S i = []" "loop_functions_read (socket_loop (mgr S) ! i) = []"
    and run: "loop_take i S = Inr T"
  shows "same_work S T"
proof -
  let ?w = "socket_loop (mgr S) ! i"
  have i: "i < length (socket_loop (mgr S))" using run by (auto simp: loop_take_def dest!: loop_atD elim!: bind_resE)
  have T: "T = S\<lparr>mgr := put_loop i (?w\<lparr>loop_functions_write := [], loop_functions_read := loop_functions_write ?w\<rparr>) (mgr S),
      rest := (rest S)(i := loop_functions_write ?w)\<rparr>"
    using run r(2) i by (simp add: loop_take_def splice_calls_def loop_at_def)
  show ?thesis
    unfolding T
    by (rule same_work_loop [OF i loop_fineD(3) [OF wiredD(6) [OF ok i]]]) (simp add: calls_def same_wiring_def r(1))
qed

section \<open>Steps of the main thread\<close>

text \<open>\<open>do_add_client\<close> spelled out.\<close>

lemma do_add_client_run:
  assumes idx: "unat (acceptor_index s) < event_size s" "event_size s < 2 ^ 32"
    and i_def: "i = (unat (acceptor_index s) + 1) mod event_size s" and i: "i < length (socket_loop s)"
    and w: "\<not> em_quit (socket_loop s ! i)" "recycled (socket_loop s ! i) = []" "handles (socket_loop s ! i) h = None"
    and c: "clients s a = Some c" "0 < fd c" and h: "pool_pop m (handle_pool s) = Inr (h, P)"
  shows "do_add_client m a s = Inr (s\<lparr>acceptor_index := word_of_nat i,
     clients := (clients s)(a \<mapsto> c\<lparr>loop_index := i, event_loop := Some i,
       message_callback := (case m_callback s of None \<Rightarrow> message_callback c | Some k \<Rightarrow> Some k)\<rparr>),
     client_map := (client_map s)(fd c \<mapsto> a), handle_pool := P,
     socket_loop := (socket_loop s)[i := (socket_loop s ! i)\<lparr>handles := (handles (socket_loop s ! i))(h \<mapsto> client_handle a (fd c)),
       loop_functions_write := loop_functions_write (socket_loop s ! i) @ [Do_Add h]\<rparr>],
     announced := announced s @ (case established_callback c of None \<Rightarrow> [] | Some k \<Rightarrow> [(k, fd_key c)])\<rparr>)"
proof -
  note idx' = event_index_next [OF idx i_def]
  define w where "w = socket_loop s ! i"
  define w' where "w' = w\<lparr>handles := (handles w)(h \<mapsto> client_handle a (fd c)),
     loop_functions_write := loop_functions_write w @ [Do_Add h]\<rparr>"
  have off: "offer h (client_handle a (fd c)) w = Inr (0, w')" "recycled w' = []"
    using w c(2) client_handle_bound(2) [of a "fd c"] by (simp_all add: offer_def add_handle_def run_in_handle_loop_def w_def w'_def)
  let ?s = "s\<lparr>acceptor_index := word_of_nat i,
     clients := (clients s)(a \<mapsto> c\<lparr>loop_index := i, event_loop := Some i,
       message_callback := (case m_callback s of None \<Rightarrow> message_callback c | Some k \<Rightarrow> Some k)\<rparr>),
     client_map := (client_map s)(fd c \<mapsto> a), handle_pool := P, socket_loop := (socket_loop s)[i := w']\<rparr>"
  define s' where "s' = (case established_callback c of None \<Rightarrow> ?s
     | Some k \<Rightarrow> ?s\<lparr>announced := announced s @ [(k, fd_key c)]\<rparr>)"
  have "do_add_client m a s = Inr s'"
    using i c(1) h off
    by (cases c, cases "m_callback s"; cases "established_callback c")
      (simp_all add: do_add_client_def idx'(1) get_object_def loop_at_def put_object_def pop_handle_def
        put_loop_plain s'_def flip: w_def)
  moreover have "s' = ?s\<lparr>announced := announced s @ (case established_callback c of None \<Rightarrow> [] | Some k \<Rightarrow> [(k, fd_key c)])\<rparr>"
    by (simp add: s'_def split: option.split)
  ultimately show ?thesis by (simp add: w'_def w_def)
qed

lemma table_ok_offer:
  assumes ok: "table_ok ps w" and e: "bound e" "handles w h = None"
  shows "table_ok (ps @ [h]) (w\<lparr>handles := (handles w)(h \<mapsto> e), loop_functions_write := fs\<rparr>)"
proof -
  have "handler_map w n \<noteq> Some h" for n using table_okD(2) [OF ok, of n h] e(2) by auto
  moreover have "h \<notin> set ps" using ok e(2) by (auto simp: table_ok_def)
  ultimately show ?thesis using ok e by (fastforce simp: table_ok_def ran_def)
qed

text \<open>A connection waiting to be added is in no table and nothing is under way to end it.\<close>

lemma waiting_stage:
  assumes st: "staged S" and a: "Add_Client a \<in> set (errands (main_thread (mgr S)))"
  shows "\<exists>c. clients (mgr S) a = Some c \<and> 0 < fd c \<and> client_map (mgr S) (fd c) = None \<and> closings S a (fd c) = 0 \<and> \<not> closed c
    \<and> count_list (errands (main_thread (mgr S))) (Add_Client a) = 1 \<and> (message_callback c \<noteq> None \<or> m_callback (mgr S) \<noteq> None)"
proof -
  obtain c where c: "clients (mgr S) a = Some c" using stagedD(2) [OF st, of a] a by (cases "clients (mgr S) a") (auto simp: gone_def)
  note stage = stagedD(1) [OF st c]
  have un: "client_map (mgr S) (fd c) \<noteq> Some a" using stage a by (auto simp: conn_stage_def in_count)
  have "client_map (mgr S) (fd c) = None"
  proof (rule ccontr)
    assume "client_map (mgr S) (fd c) \<noteq> None"
    then obtain b where b: "client_map (mgr S) (fd c) = Some b" by blast
    then obtain d where d: "clients (mgr S) b = Some d" "fd d = fd c" using stagedD(4) [OF st] by (auto simp: table_alive_def)
    then show False using stagedD(3) [OF st c d(1)] b un by simp
  qed
  then show ?thesis using c stage un by (auto simp: conn_stage_def)
qed

text \<open>Adding a connection: it enters the table, and its handle is on the way to the next loop.\<close>

lemma add_client_ok:
  assumes ok: "wired S" "staged S" "handled S" and m: "malloc_ok m (handle_pool (mgr S))"
    and q: "errands (main_thread (mgr S)) = Add_Client a # errands t"
  shows "\<exists>s'. do_add_client m a ((mgr S)\<lparr>main_thread := t\<rparr>) = Inr s' \<and>
    wired (S\<lparr>mgr := s'\<rparr>) \<and> staged (S\<lparr>mgr := s'\<rparr>) \<and> handled (S\<lparr>mgr := s'\<rparr>)"
proof -
  let ?s = "mgr S" and ?n = "length (socket_loop (mgr S))"
  obtain c where c: "clients ?s a = Some c" "0 < fd c" and free: "client_map ?s (fd c) = None"
    and nothing': "closings S a (fd c) = 0" "\<not> closed c"
    and one: "count_list (errands (main_thread ?s)) (Add_Client a) = 1"
    and cb: "message_callback c \<noteq> None \<or> m_callback ?s \<noteq> None"
    using waiting_stage [OF ok(2), of a] q by auto
  define i where "i = (unat (acceptor_index ?s) + 1) mod event_size ?s"
  note idx = wiredD(3,2) [OF ok(1)]
  have i: "i < ?n" "unat (word_of_nat i :: 32 word) = i"
    using event_index_next(2,3) [OF idx i_def] wiredD(1) [OF ok(1)] by simp_all
  let ?w = "socket_loop ?s ! i"
  note fine = loop_fineD [OF wiredD(6) [OF ok(1) i(1)]]
  obtain h P where h: "pool_pop m (handle_pool ?s) = Inr (h, P)" "pool_ok P" "h \<notin> live (handle_pool ?s)"
      "live P = insert h (live (handle_pool ?s))"
    using pool_pop_ok [OF wiredD(4) [OF ok(1)] m] by blast
  have away: "h \<notin> dom (handles (socket_loop ?s ! j))" if "j < ?n" for j
    using loop_fineD(5) [OF wiredD(6) [OF ok(1) that]] h(3) by blast
  let ?e = "client_handle a (fd c)"
  define v where "v = ?w\<lparr>handles := (handles ?w)(h \<mapsto> ?e), loop_functions_write := loop_functions_write ?w @ [Do_Add h]\<rparr>"
  let ?k = "case m_callback ?s of None \<Rightarrow> message_callback c | Some k \<Rightarrow> Some k"
  let ?c = "c\<lparr>loop_index := i, event_loop := Some i, message_callback := ?k\<rparr>"
  define s' where "s' = ?s\<lparr>main_thread := t, acceptor_index := word_of_nat i, clients := (clients ?s)(a \<mapsto> ?c),
     client_map := (client_map ?s)(fd c \<mapsto> a), handle_pool := P, socket_loop := (socket_loop ?s)[i := v],
     announced := announced ?s @ (case established_callback c of None \<Rightarrow> [] | Some k \<Rightarrow> [(k, fd_key c)])\<rparr>"
  have run: "do_add_client m a (?s\<lparr>main_thread := t\<rparr>) = Inr s'"
  proof -
    let ?s1 = "?s\<lparr>main_thread := t\<rparr>"
    have pre: "unat (acceptor_index ?s1) < event_size ?s1" "event_size ?s1 < 2 ^ 32"
      "i = (unat (acceptor_index ?s1) + 1) mod event_size ?s1" "i < length (socket_loop ?s1)"
      "\<not> em_quit (socket_loop ?s1 ! i)" "recycled (socket_loop ?s1 ! i) = []" "handles (socket_loop ?s1 ! i) h = None"
      "clients ?s1 a = Some c" "0 < fd c" "pool_pop m (handle_pool ?s1) = Inr (h, P)"
      using idx i(1) fine c h(1) away [OF i(1)] by (simp_all add: i_def domIff)
    show ?thesis using do_add_client_run [OF pre] by (simp add: s'_def v_def)
  qed
  define T where "T = S\<lparr>mgr := s'\<rparr>"
  have T: "clients (mgr T) = (clients ?s)(a \<mapsto> ?c)" "client_map (mgr T) = (client_map ?s)(fd c \<mapsto> a)"
    "m_callback (mgr T) = m_callback ?s" "main_thread (mgr T) = t" "packer_thread (mgr T) = packer_thread ?s"
    "handle_pool (mgr T) = P" "socket_loop (mgr T) = (socket_loop ?s)[i := v]" "event_size (mgr T) = event_size ?s"
    "acceptor_index (mgr T) = word_of_nat i" "rest T = rest S"
    by (simp_all add: T_def s'_def)
  have w_old: "owner v h' = owner ?w h'" if "h' \<noteq> h" for h' using that by (simp add: v_def owner_def)
  have w_new: "owner v h = Some (a, fd c)"
    by (simp add: v_def owner_def client_handle_def bind_io_def set_recycle_func_def)
  have calls: "calls T i = calls S i @ [Do_Add h]" "j \<noteq> i \<Longrightarrow> calls T j = calls S j" for j
    using i(1) by (simp_all add: calls_def T v_def)
  have loops: "socket_loop (mgr T) ! i = v" "j \<noteq> i \<Longrightarrow> socket_loop (mgr T) ! j = socket_loop ?s ! j" for j
    using i(1) by (simp_all add: T)
  have len: "length (socket_loop (mgr T)) = ?n" by (simp add: T)
  have others: "Other b \<in> set (calls T j) \<longleftrightarrow> Other b \<in> set (calls S j)"
    "count_list (calls T j) (Other b) = count_list (calls S j) (Other b)" for b j
    using calls(1) calls(2) [of j] by (cases "j = i"; auto)+
  have closings: "closings T b n = closings S b n" for b n
    unfolding closings_def len using q by (simp add: others(2)) (simp add: T)
  have table: "table_ok (adds (calls S i @ [Do_Add h])) v"
  proof -
    have "handles ?w h = None" using away [OF i(1)] by (simp add: domIff)
    from table_ok_offer [OF fine(1) client_handle_bound(1) [OF c(2), of a] this] show ?thesis
      by (simp add: v_def adds_append)
  qed
  have pool: "live (handle_pool (mgr T)) = insert h (live (handle_pool ?s))" using h(4) by (simp add: T)
  have v_dom: "dom (handles v) = insert h (dom (handles ?w))" by (simp add: v_def)
  have wired: "wired T"
    unfolding wired_def Let_def
  proof (intro conjI allI impI)
    fix j assume "j < length (socket_loop (mgr T))"
    then have j: "j < ?n" using len by simp
    show "loop_fine (mgr T) (calls T j) (socket_loop (mgr T) ! j)"
    proof (cases "j = i")
      case True
      have "loop_fine (mgr T) (calls S i @ [Do_Add h]) v"
        unfolding loop_fine_def pool v_dom using table fine by (auto simp: v_def)
      then show ?thesis unfolding True calls(1) loops(1) .
    next
      case False
      then show ?thesis
        using wiredD(6) [OF ok(1) j] pool calls(2) [OF False] loops(2) [OF False] by (auto simp: loop_fine_def)
    qed
  next
    fix j k assume "j < length (socket_loop (mgr T))" "k < length (socket_loop (mgr T))" and jk: "j \<noteq> k"
    then have jk': "j < ?n" "k < ?n" using len by simp_all
    have dom: "dom (handles (socket_loop (mgr T) ! l)) = (if l = i then insert h else id) (dom (handles (socket_loop ?s ! l)))" for l
      using loops(1) loops(2) [of l] v_dom by simp
    show "dom (handles (socket_loop (mgr T) ! j)) \<inter> dom (handles (socket_loop (mgr T) ! k)) = {}"
      using wiredD(7) [OF ok(1) jk' jk] away [OF jk'(1)] away [OF jk'(2)] jk unfolding dom by (auto simp del: not_None_eq)
  qed (use wiredD(1-5) [OF ok(1)] i h(2) in \<open>simp_all add: T\<close>)
  have staged: "staged T"
  proof (rule stagedI)
    fix b d assume "clients (mgr T) b = Some d"
    then have d: "((clients ?s)(a \<mapsto> ?c)) b = Some d" by (simp add: T)
    show "conn_stage T b d"
    proof (cases "b = a")
      case True
      have "count_list (errands t) (Add_Client a) = 0" using one q by simp
      moreover have "message_callback ?c \<noteq> None" using cb by (auto split: option.split)
      moreover have "d = ?c" using d True by simp
      ultimately show ?thesis
        using True nothing' c(2) i(1) closings by (simp add: conn_stage_def) (simp add: T)
    next
      case False
      then have d: "clients ?s b = Some d" using d by simp
      then have "fd d \<noteq> fd c" using stagedD(3) [OF ok(2) d c(1)] False by blast
      then show ?thesis
        using stagedD(1) [OF ok(2) d] q False closings
        by (cases "client_map ?s (fd d) = Some b") (auto simp: conn_stage_def T)
    qed
  next
    fix b assume "clients (mgr T) b = None"
    then have b: "clients ?s b = None" "b \<noteq> a" by (auto simp: T split: if_splits)
    show "gone T b"
      using stagedD(2) [OF ok(2) b(1)] q others(1) by (auto simp: gone_def) (simp_all add: T)
  next
    fix b b' d d' assume "clients (mgr T) b = Some d" "clients (mgr T) b' = Some d'" "fd d = fd d'"
    then obtain e e' where "clients ?s b = Some e" "clients ?s b' = Some e'" "fd e = fd e'"
      using c(1) unfolding T by (cases "b = a"; cases "b' = a") auto
    then show "b = b'" by (rule stagedD(3) [OF ok(2)])
  next
    show "table_alive (mgr T)"
      using table_aliveD [OF stagedD(4) [OF ok(2)] _ c(1)] stagedD(4) [OF ok(2)] c(1) by (fastforce simp: table_alive_def T)
  next
    fix n assume "Remove_Client n \<in> set (errands (main_thread (mgr T)))"
    then show "\<exists>b. client_map (mgr T) n = Some b"
      using stagedD(5) [OF ok(2), of n] q by (auto simp: T)
  qed
  have rem: "Remove_Client (fd c) \<notin> set (errands t)"
    using closings_parts(3) [OF nothing'(1)] q by (simp add: in_count)
  have "handled T"
  proof (rule handledI)
    fix j h' assume "j < length (socket_loop (mgr T))"
      and h': "h' \<in> ran (handler_map (socket_loop (mgr T) ! j)) \<or> h' \<in> set (adds (calls T j))"
    then have j: "j < ?n" using len by simp
    show "owned_by_conn T j h'"
    proof (cases "j = i \<and> h' = h")
      case True
      then show ?thesis using loops(1) w_new rem unfolding owned_by_conn_def
        by (intro exI [of _ a] exI [of _ ?c]) (simp add: T)
    next
      case False
      have old: "h' \<in> ran (handler_map (socket_loop ?s ! j)) \<or> h' \<in> set (adds (calls S j))"
        using h' False calls(1) calls(2) [of j] loops(1) loops(2) [of j] by (cases "j = i") (auto simp: v_def adds_append)
      obtain b d where d: "owner (socket_loop ?s ! j) h' = Some (b, fd d)" "clients ?s b = Some d" "event_loop d = Some j"
          "client_map ?s (fd d) = Some b" "Remove_Client (fd d) \<notin> set (errands (main_thread ?s))"
        using handledD(1) [OF ok(3) j old] by (auto simp: owned_by_conn_def)
      have "owner (socket_loop (mgr T) ! j) h' = Some (b, fd d)"
        using d(1) False loops(1) loops(2) [of j] w_old by (cases "j = i") auto
      moreover have "b \<noteq> a" "fd d \<noteq> fd c" using d(4) free stagedD(3) [OF ok(2) d(2) c(1)] c(1) d(2) by auto
      ultimately show ?thesis using d q unfolding owned_by_conn_def
        by (intro exI [of _ b] exI [of _ d]) (simp add: T)
    qed
  next
    fix j b assume "j < length (socket_loop (mgr T))" and "Other b \<in> set (calls T j)"
    then have j: "j < ?n" and b: "Other b \<in> set (calls S j)" using len others(1) by simp_all
    have ba: "b \<noteq> a"
    proof
      assume "b = a"
      then have "0 < count_list (calls S j) (Other a)" using b by (simp add: in_count)
      then show False using closings_parts(2) [OF nothing'(1) j] by simp
    qed
    show "\<exists>d. clients (mgr T) b = Some d \<and> event_loop d = Some j" using handledD(2) [OF ok(3) j b] ba by (simp add: T)
    show "owner (socket_loop (mgr T) ! j) h' \<noteq> Some (b, n)" if h': "h' \<in> set (after_close b (calls T j))" for h' n
    proof (cases "j = i")
      case True
      then have "h' = h \<or> h' \<in> set (after_close b (calls S i))"
        using h' b unfolding True calls(1) by (simp add: after_close_append)
      then show ?thesis
        using handledD(3) [OF ok(3) j b, of h' n] w_new w_old [of h'] ba loops(1) True by (cases "h' = h") auto
    next
      case False
      then show ?thesis using h' handledD(3) [OF ok(3) j b, of h' n] calls(2) [OF False] loops(2) [OF False] by simp
    qed
  qed
  then show ?thesis using run wired staged unfolding T_def by blast
qed

lemma table_alive_get: "table_alive s \<Longrightarrow> client_map s n = Some a \<Longrightarrow> \<exists>c. clients s a = Some c \<and> fd c = n"
  unfolding table_alive_def by blast

text \<open>Removing a connection: nothing names it any more.\<close>

lemma destroy_conn_returns:
  assumes conn: "conn_ok c s"
  shows "\<exists>c' s'. destroy_client c s = Inr (fd c, c', s')"
proof -
  have "distinct (lists c)" "set (lists c) \<subseteq> dom (bufs s)"
    using conn_okD(2,3) [OF conn] by (simp_all add: owned_lists)
  then obtain t where t: "clear c s = Inr (c\<lparr>unpack_list := [], recv_list := [], wait_pack_list := [],
      wait_write_list := []\<rparr>, t)"
    using clear_ok [OF conn_okD(1) [OF conn]] by blast
  then show ?thesis by (simp add: destroy_client_def)
qed

lemma remove_client_ok:
  assumes ok: "wired S" "staged S" "handled S" and conns: "conns_ok (mgr S)"
    and q: "errands (main_thread (mgr S)) = Remove_Client n # errands t"
  shows "\<exists>s'. do_remove_client n ((mgr S)\<lparr>main_thread := t\<rparr>) = Inr s' \<and>
    wired (S\<lparr>mgr := s'\<rparr>) \<and> staged (S\<lparr>mgr := s'\<rparr>) \<and> handled (S\<lparr>mgr := s'\<rparr>)"
proof -
  let ?s = "mgr S"
  obtain a c where a: "client_map ?s n = Some a" and c: "clients ?s a = Some c" "fd c = n"
    using stagedD(5) [OF ok(2), of n] table_alive_get [OF stagedD(4) [OF ok(2)]] q by fastforce
  obtain c' bs where d: "destroy_client c (buffer_pool ?s) = Inr (n, c', bs)"
    using destroy_conn_returns [of c "buffer_pool ?s"] conns c by (auto simp: conns_ok_def)
  define s' where "s' = ?s\<lparr>main_thread := t, client_map := (client_map ?s)(n := None), buffer_pool := bs,
     client_pool := pool_push a (client_pool ?s), clients := (clients ?s)(a := None), closed_fds := closed_fds ?s @ [n]\<rparr>"
  have run: "do_remove_client n (?s\<lparr>main_thread := t\<rparr>) = Inr s'"
    using a c d by (simp add: do_remove_client_def push_client_def get_object_def s'_def)
  define T where "T = S\<lparr>mgr := s'\<rparr>"
  have T: "clients (mgr T) = (clients ?s)(a := None)" "client_map (mgr T) = (client_map ?s)(n := None)"
    "m_callback (mgr T) = m_callback ?s" "main_thread (mgr T) = t" "packer_thread (mgr T) = packer_thread ?s"
    "handle_pool (mgr T) = handle_pool ?s" "socket_loop (mgr T) = socket_loop ?s" "event_size (mgr T) = event_size ?s"
    "acceptor_index (mgr T) = acceptor_index ?s" "rest T = rest S"
    by (simp_all add: T_def s'_def)
  have calls: "calls T i = calls S i" for i by (simp add: calls_def T)
  have wired: "wired T" using ok(1) by (simp add: wired_def Let_def T calls loop_fine_def)
  have "0 < closings S a (fd c)" using closings_parts(3) [OF refl, of S n a] q c(2) by simp
  note stage = closing_stage [OF ok(2) c(1) this]
  have last: "Req_Close a \<notin># jobs_in (packer_thread ?s)" "Remove_Client n \<notin> set (errands t)"
    "i < length (socket_loop ?s) \<Longrightarrow> Other a \<notin> set (calls S i)" for i
  proof -
    show "Req_Close a \<notin># jobs_in (packer_thread ?s)" "Remove_Client n \<notin> set (errands t)"
      using stage(3) q c(2) by (simp_all add: closings_def in_count flip: count_eq_zero_iff)
    show "Other a \<notin> set (calls S i)" if "i < length (socket_loop ?s)"
      using closings_parts(4) [OF stage(3) that] q c(2) by (simp add: in_count)
  qed
  have keep: "b \<noteq> a" "fd d \<noteq> n" "clients ?s b = Some d" if "clients (mgr T) b = Some d" for b d
    using that stagedD(3) [OF ok(2), of b d a c] c by (auto simp: T split: if_splits)
  have staged: "staged T"
  proof (rule stagedI)
    fix b d assume bd: "clients (mgr T) b = Some d"
    note k = keep [OF bd]
    have "closings T b (fd d) = closings S b (fd d)" using q k(2) by (simp add: closings_def T calls)
    then show "conn_stage T b d"
      using stagedD(1) [OF ok(2) k(3)] q k by (cases "client_map ?s (fd d) = Some b") (simp_all add: conn_stage_def T)
  next
    fix b assume "clients (mgr T) b = None"
    then consider "b = a" | "clients ?s b = None" by (auto simp: T split: if_splits)
    then show "gone T b"
    proof cases
      case 1
      then show ?thesis using last stage(5) q by (simp add: gone_def T calls)
    next
      case 2
      then show ?thesis using stagedD(2) [OF ok(2) 2] q by (simp add: gone_def T calls)
    qed
  next
    fix b b' d d' assume "clients (mgr T) b = Some d" "clients (mgr T) b' = Some d'" "fd d = fd d'"
    then show "b = b'" using keep(3) stagedD(3) [OF ok(2)] by blast
  next
    show "table_alive (mgr T)"
      unfolding table_alive_def
    proof (intro allI impI)
      fix k b assume "client_map (mgr T) k = Some b"
      then have k: "client_map ?s k = Some b" "k \<noteq> n" by (auto simp: T split: if_splits)
      then obtain d where d: "clients ?s b = Some d" "fd d = k" using stagedD(4) [OF ok(2)] by (auto simp: table_alive_def)
      then have "b \<noteq> a" using c k(2) by auto
      then show "\<exists>d. clients (mgr T) b = Some d \<and> fd d = k" using d by (simp add: T)
    qed
  next
    fix k assume k: "Remove_Client k \<in> set (errands (main_thread (mgr T)))"
    then have "k \<noteq> n" using last(2) by (auto simp: T)
    then show "\<exists>b. client_map (mgr T) k = Some b" using stagedD(5) [OF ok(2), of k] k q by (simp add: T)
  qed
  have "handled T"
  proof (rule handledI)
    fix i h assume i: "i < length (socket_loop (mgr T))"
      and h: "h \<in> ran (handler_map (socket_loop (mgr T) ! i)) \<or> h \<in> set (adds (calls T i))"
    have "owned_by_conn S i h" using handledD(1) [OF ok(3), of i h] i h by (simp add: T calls)
    then obtain b d where b: "owner (socket_loop ?s ! i) h = Some (b, fd d)" "clients ?s b = Some d" "event_loop d = Some i"
        "client_map ?s (fd d) = Some b" "Remove_Client (fd d) \<notin> set (errands (main_thread ?s))"
      by (auto simp: owned_by_conn_def)
    then have "fd d \<noteq> n" using q by auto
    then have "b \<noteq> a" using b(2) c by auto
    then show "owned_by_conn T i h"
      using b q \<open>fd d \<noteq> n\<close> unfolding owned_by_conn_def by (intro exI [of _ b] exI [of _ d]) (simp add: T)
  next
    fix i b assume i: "i < length (socket_loop (mgr T))" and b: "Other b \<in> set (calls T i)"
    have i': "i < length (socket_loop ?s)" and b': "Other b \<in> set (calls S i)" using i b by (simp_all add: T calls)
    have "b \<noteq> a" using last(3) [OF i'] b' by auto
    then show "\<exists>d. clients (mgr T) b = Some d \<and> event_loop d = Some i"
      using handledD(2) [OF ok(3) i' b'] by (simp add: T)
    show "owner (socket_loop (mgr T) ! i) h \<noteq> Some (b, k)" if "h \<in> set (after_close b (calls T i))" for h k
      using handledD(3) [OF ok(3) i' b'] that by (simp add: T calls)
  qed
  then show ?thesis using run wired staged unfolding T_def by blast
qed

text \<open>A tick of the timer marks the clients it closes, and asks for closing each of them once.\<close>

lemma visit_ids: "fd (snd (visit a c)) = fd c" "event_loop (snd (visit a c)) = event_loop c"
    "message_callback (snd (visit a c)) = message_callback c" "closed (snd (visit a c)) \<longleftrightarrow> closed c \<or> can_close c"
  by (auto simp: visit_def set_close_def handle_update_def handle_write_update_def split: prod.split)

lemma count_close_jobs:
  assumes "table_alive s" and "distinct fds" and "set fds = dom (client_map s)" and "clients s a = Some c"
  shows "count (mset (concat (map (jobs_of s) fds))) (Req_Close a)
    = (if client_map s (fd c) = Some a \<and> can_close c then 1 else 0)"
proof -
  have "Req_Close a \<in> set (concat (map (jobs_of s) fds)) \<longleftrightarrow> client_map s (fd c) = Some a \<and> can_close c"
  proof
    assume "Req_Close a \<in> set (concat (map (jobs_of s) fds))"
    then obtain n where n: "n \<in> set fds" "Req_Close a \<in> set (jobs_of s n)" by auto
    then obtain b where b: "client_map s n = Some b" using assms(3) by auto
    then obtain d where d: "clients s b = Some d" "fd d = n" using assms(1) by (auto simp: table_alive_def)
    have m: "Req_Close a \<in> set (fst (visit b d))" using n(2) b d(1) by (simp add: jobs_of_def Let_def)
    then have "b = a" using visit_jobs(2) [of b d] by auto
    then show "client_map s (fd c) = Some a \<and> can_close c" using b d m visit_jobs(3) [of b d] assms(4) by auto
  next
    assume r: "client_map s (fd c) = Some a \<and> can_close c"
    then have "fd c \<in> set fds" using assms(3) by auto
    moreover have "Req_Close a \<in> set (jobs_of s (fd c))"
      using r assms(4) visit_jobs(3) [of a c] by (simp add: jobs_of_def Let_def)
    ultimately show "Req_Close a \<in> set (concat (map (jobs_of s) fds))" by auto
  qed
  moreover have "distinct (concat (map (jobs_of s) fds))" using distinct_concat_jobs assms(1-3) by simp
  ultimately show ?thesis by (simp add: count_mset distinct_count_atmost_1)
qed

lemma tick_ok:
  assumes ok: "wired S" "staged S" "handled S" and fds: "distinct fds" "set fds = dom (client_map (mgr S))"
    and q: "errands t = errands (main_thread (mgr S))"
  shows "\<exists>s'. do_send_timeout fds ((mgr S)\<lparr>main_thread := t\<rparr>) = Inr ([], s') \<and>
    wired (S\<lparr>mgr := s'\<rparr>) \<and> staged (S\<lparr>mgr := s'\<rparr>) \<and> handled (S\<lparr>mgr := s'\<rparr>)"
proof -
  let ?s = "mgr S" and ?s1 = "(mgr S)\<lparr>main_thread := t\<rparr>"
  have alive: "table_alive ?s1" using stagedD(4) [OF ok(2)] by (simp add: table_alive_def)
  define C where "C = clients (visited (ran (client_map ?s1)) ?s1)"
  obtain p where p: "do_send_timeout fds ?s1 = Inr ([], ?s1\<lparr>clients := C, packer_thread := p\<rparr>)"
      "workers p = workers (packer_thread ?s1)" "task_list p = task_list (packer_thread ?s1) @ concat (map (jobs_of ?s1) fds)"
    unfolding C_def by (rule send_timeout_ok [OF alive fds(1)]) (use fds(2) wiredD(5) [OF ok(1)] in simp_all)
  have C: "C a = (if a \<in> ran (client_map ?s) then map_option (\<lambda>c. snd (visit a c)) (clients ?s a) else clients ?s a)" for a
    by (simp add: C_def visited_def)
  have jobs: "count (jobs_in p) (Req_Close a) = count (jobs_in (packer_thread ?s)) (Req_Close a)
      + (if client_map ?s (fd c) = Some a \<and> can_close c then 1 else 0)" if "clients ?s a = Some c" for a c
    using count_close_jobs [OF alive fds(1), of a c] fds(2) that p(2,3) by (simp add: jobs_in_def count_mset)
  have jobs_none: "Req_Close a \<in># jobs_in p \<longleftrightarrow> Req_Close a \<in># jobs_in (packer_thread ?s)" if "clients ?s a = None" for a
  proof -
    have "Req_Close a \<notin> set (jobs_of ?s1 n)" if n: "n \<in> set fds" for n
    proof -
      obtain b where b: "client_map ?s n = Some b" using n fds(2) by auto
      then have "b \<noteq> a" using table_alive_get [OF stagedD(4) [OF ok(2)] b] \<open>clients ?s a = None\<close> by auto
      then show ?thesis using visit_jobs(2) [of b "the (clients ?s b)"] b by (auto simp: jobs_of_def Let_def)
    qed
    then show ?thesis using p(2,3) by (auto simp: jobs_in_def)
  qed
  define T where "T = S\<lparr>mgr := ?s1\<lparr>clients := C, packer_thread := p\<rparr>\<rparr>"
  have T: "clients (mgr T) = C" "client_map (mgr T) = client_map ?s" "m_callback (mgr T) = m_callback ?s"
    "main_thread (mgr T) = t" "packer_thread (mgr T) = p" "handle_pool (mgr T) = handle_pool ?s"
    "socket_loop (mgr T) = socket_loop ?s" "event_size (mgr T) = event_size ?s"
    "acceptor_index (mgr T) = acceptor_index ?s" "rest T = rest S"
    by (simp_all add: T_def)
  have calls: "calls T i = calls S i" for i by (simp add: calls_def T)
  have ids: "\<exists>d. C a = Some d \<and> fd d = fd c \<and> event_loop d = event_loop c \<and> message_callback d = message_callback c \<and>
      (closed d \<longleftrightarrow> closed c \<or> client_map ?s (fd c) = Some a \<and> can_close c)" if c: "clients ?s a = Some c" for a c
  proof -
    have "a \<in> ran (client_map ?s) \<longleftrightarrow> client_map ?s (fd c) = Some a"
      using table_aliveD [OF stagedD(4) [OF ok(2)] _ c] by (auto simp: ran_def)
    then show ?thesis using c visit_ids [of a c] by (simp add: C)
  qed
  have from_old: "\<exists>c. clients ?s a = Some c" if "C a = Some d" for a d using that by (auto simp: C split: if_splits)
  have wired: "wired T" using ok(1) p(2) by (simp add: wired_def Let_def T calls loop_fine_def)
  have staged: "staged T"
  proof (rule stagedI)
    fix a d assume ad: "clients (mgr T) a = Some d"
    then obtain c where c: "clients ?s a = Some c" using from_old unfolding T by blast
    then have d: "fd d = fd c" "event_loop d = event_loop c" "message_callback d = message_callback c"
      "closed d \<longleftrightarrow> closed c \<or> client_map ?s (fd c) = Some a \<and> can_close c"
      using ids [OF c] ad unfolding T by auto
    have "closings T a (fd c) = closings S a (fd c) + (if client_map ?s (fd c) = Some a \<and> can_close c then 1 else 0)"
      using jobs [OF c] q by (simp add: closings_def T calls)
    moreover have "can_close c \<Longrightarrow> \<not> closed c" by (simp add: can_close_def)
    ultimately show "conn_stage T a d"
      using stagedD(1) [OF ok(2) c] d q by (auto simp: conn_stage_def T split: if_splits)
  next
    fix a assume "clients (mgr T) a = None"
    then have "clients ?s a = None" by (auto simp: T C split: if_splits)
    then show "gone T a" using stagedD(2) [OF ok(2)] jobs_none q by (simp add: gone_def T calls)
  next
    fix a b c d assume ab: "clients (mgr T) a = Some c" "clients (mgr T) b = Some d" "fd c = fd d"
    then obtain c' d' where old: "clients ?s a = Some c'" "clients ?s b = Some d'" using from_old unfolding T by blast
    have "fd c' = fd d'" using ids [OF old(1)] ids [OF old(2)] ab unfolding T by auto
    then show "a = b" by (rule stagedD(3) [OF ok(2) old])
  next
    show "table_alive (mgr T)"
      unfolding table_alive_def T
    proof (intro allI impI)
      fix n a assume "client_map ?s n = Some a"
      then obtain c where "clients ?s a = Some c" "fd c = n" using stagedD(4) [OF ok(2)] by (auto simp: table_alive_def)
      then show "\<exists>c. C a = Some c \<and> fd c = n" using ids by blast
    qed
  qed (use stagedD(5) [OF ok(2)] q in \<open>simp add: T\<close>)
  have "handled T"
  proof (rule handledI)
    fix i h assume i: "i < length (socket_loop (mgr T))"
      and h: "h \<in> ran (handler_map (socket_loop (mgr T) ! i)) \<or> h \<in> set (adds (calls T i))"
    have "owned_by_conn S i h" using handledD(1) [OF ok(3), of i h] i h by (simp add: T calls)
    then obtain b d where b: "owner (socket_loop ?s ! i) h = Some (b, fd d)" "clients ?s b = Some d" "event_loop d = Some i"
        "client_map ?s (fd d) = Some b" "Remove_Client (fd d) \<notin> set (errands (main_thread ?s))"
      by (auto simp: owned_by_conn_def)
    obtain e where "C b = Some e" "fd e = fd d" "event_loop e = event_loop d" using ids [OF b(2)] by blast
    then show "owned_by_conn T i h" using b q unfolding owned_by_conn_def by (intro exI [of _ b] exI [of _ e]) (simp add: T)
  next
    fix i b assume i: "i < length (socket_loop (mgr T))" and b: "Other b \<in> set (calls T i)"
    have i': "i < length (socket_loop ?s)" and b': "Other b \<in> set (calls S i)" using i b by (simp_all add: T calls)
    show "\<exists>d. clients (mgr T) b = Some d \<and> event_loop d = Some i"
      using handledD(2) [OF ok(3) i' b'] ids unfolding T by fastforce
    show "owner (socket_loop (mgr T) ! i) h \<noteq> Some (b, k)" if "h \<in> set (after_close b (calls T i))" for h k
      using handledD(3) [OF ok(3) i' b'] that by (simp add: T calls)
  qed
  then show ?thesis using p(1) wired staged unfolding T_def by blast
qed

end
