(* ===== verification/Threads_Run.thy ===== *)
theory Threads_Run
  imports Connection_Life
begin

text \<open>
  Runs of the threads of a started manager: every step keeps the invariant and is a step of the process of
  \<open>Process_Run\<close>, every action a thread may take returns, and what this means for connections and events.  An
  action is one step; \<open>Races\<close> shows what overlapping actions can do.
\<close>

section \<open>A new connection\<close>

lemma accept_ok:
  assumes ok: "wired S" "staged S" "handled S" and conns: "conns_ok (mgr S)" and n: "0 < n"
    and fresh: "\<forall>b d. clients (mgr S) b = Some d \<longrightarrow> fd d \<noteq> n" and cb: "cb \<noteq> None \<or> m_callback (mgr S) \<noteq> None"
    and m: "malloc_ok m (client_pool (mgr S))" and run: "register_socket m n ip port cb est (mgr S) = Inr (k, a, s')"
  shows "wired (S\<lparr>mgr := s'\<rparr>) \<and> staged (S\<lparr>mgr := s'\<rparr>) \<and> handled (S\<lparr>mgr := s'\<rparr>)"
proof -
  let ?s = "mgr S"
  have pok: "pool_ok (client_pool ?s)" "live (client_pool ?s) = dom (clients ?s)" using conns by (simp_all add: conns_ok_def)
  obtain x P where P: "pool_pop m (client_pool ?s) = Inr (x, P)" "x \<notin> live (client_pool ?s)"
    using pool_pop_ok [OF pok(1) m] by blast
  let ?c = "registered_client (last_key ?s + 1) n ip port cb est"
  note reg = register_socket_ok [OF P(1), of n ip port cb est]
  have a: "a = x" and new: "clients ?s a = None" using run reg P(2) pok(2) by auto
  let ?t = "run_in_thread (Add_Client a) (main_thread ?s)"
  define T where "T = S\<lparr>mgr := s'\<rparr>"
  have T: "clients (mgr T) = (clients ?s)(a \<mapsto> ?c)" "client_map (mgr T) = client_map ?s"
    "m_callback (mgr T) = m_callback ?s" "main_thread (mgr T) = ?t" "packer_thread (mgr T) = packer_thread ?s"
    "handle_pool (mgr T) = handle_pool ?s" "socket_loop (mgr T) = socket_loop ?s" "event_size (mgr T) = event_size ?s"
    "acceptor_index (mgr T) = acceptor_index ?s" "rest T = rest S"
    using run reg by (auto simp: T_def)
  have calls: "calls T i = calls S i" for i by (simp add: calls_def T)
  have closings: "closings T b k = closings S b k" for b k by (simp add: closings_def T calls)
  have wired: "wired T" using ok(1) by (simp add: wired_def Let_def T calls loop_fine_def)
  have gone: "gone S a" by (rule stagedD(2) [OF ok(2) new])
  have free: "client_map ?s n = None"
  proof (rule ccontr)
    assume "client_map ?s n \<noteq> None"
    then obtain b where "client_map ?s n = Some b" by blast
    then show False using table_alive_get [OF stagedD(4) [OF ok(2)]] fresh by blast
  qed
  have zero: "closings S a n = 0"
  proof -
    have "Remove_Client n \<notin> set (errands (main_thread ?s))" using stagedD(5) [OF ok(2), of n] free by auto
    then show ?thesis using gone by (auto simp: closings_def gone_def in_count not_in_iff)
  qed
  have closed: "\<not> closed ?c" by (simp add: registered_client_def init_client_def new_client_def Let_def)
  have staged: "staged T"
  proof (rule stagedI)
    fix b d assume "clients (mgr T) b = Some d"
    then consider "b = a" "d = ?c" | "b \<noteq> a" "clients ?s b = Some d" by (auto simp: T split: if_splits)
    then show "conn_stage T b d"
    proof cases
      case 1
      have "count_list (errands (main_thread ?s)) (Add_Client a) = 0" using gone by (simp add: gone_def in_count)
      then show ?thesis using 1 n cb free zero closed by (simp add: conn_stage_def closings) (simp add: T)
    next
      case 2
      then show ?thesis
        using stagedD(1) [OF ok(2) 2(2)] closings
        by (cases "client_map ?s (fd d) = Some b") (auto simp: conn_stage_def T)
    qed
  next
    fix b assume "clients (mgr T) b = None"
    then have b: "clients ?s b = None" "b \<noteq> a" by (auto simp: T split: if_splits)
    then show "gone T b" using stagedD(2) [OF ok(2) b(1)] by (simp add: gone_def T calls)
  next
    fix b b' d d' assume bd: "clients (mgr T) b = Some d" "clients (mgr T) b' = Some d'" "fd d = fd d'"
    have "fd d = n \<longleftrightarrow> b = a" if "clients (mgr T) b = Some d" for b d
      using that fresh by (auto simp: T split: if_splits)
    from this [OF bd(1)] this [OF bd(2)] show "b = b'"
      using bd stagedD(3) [OF ok(2), of b d b' d'] by (cases "b = a") (simp_all add: T)
  next
    show "table_alive (mgr T)"
      using table_alive_get [OF stagedD(4) [OF ok(2)]] new unfolding table_alive_def T by fastforce
  qed (use stagedD(5) [OF ok(2)] in \<open>auto simp: T\<close>)
  have "handled T"
  proof (rule handledI)
    fix i h assume i: "i < length (socket_loop (mgr T))"
      and h: "h \<in> ran (handler_map (socket_loop (mgr T) ! i)) \<or> h \<in> set (adds (calls T i))"
    have "owned_by_conn S i h" using handledD(1) [OF ok(3), of i h] i h by (simp add: T calls)
    then obtain b d where b: "owner (socket_loop ?s ! i) h = Some (b, fd d)" "clients ?s b = Some d" "event_loop d = Some i"
        "client_map ?s (fd d) = Some b" "Remove_Client (fd d) \<notin> set (errands (main_thread ?s))"
      by (auto simp: owned_by_conn_def)
    moreover have "b \<noteq> a" using b(2) new by auto
    ultimately show "owned_by_conn T i h" unfolding owned_by_conn_def by (intro exI [of _ b] exI [of _ d]) (simp add: T)
  next
    fix i b assume i: "i < length (socket_loop (mgr T))" and b: "Other b \<in> set (calls T i)"
    have i': "i < length (socket_loop ?s)" and b': "Other b \<in> set (calls S i)" using i b by (simp_all add: T calls)
    have "b \<noteq> a" using handledD(2) [OF ok(3) i' b'] new by auto
    then show "\<exists>d. clients (mgr T) b = Some d \<and> event_loop d = Some i"
      using handledD(2) [OF ok(3) i' b'] by (simp add: T)
    show "owner (socket_loop (mgr T) ! i) h \<noteq> Some (b, k)" if "h \<in> set (after_close b (calls T i))" for h k
      using handledD(3) [OF ok(3) i' b'] that by (simp add: T calls)
  qed
  then show ?thesis using wired staged unfolding T_def by blast
qed

section \<open>Every step keeps the invariant and is a step of the process\<close>

lemma proc_run_one: "proc_step s tr s' \<Longrightarrow> proc_run s tr s'"
  using pr_step [OF _ pr_done] by fastforce

lemma proc_run_two: "proc_step s [] s1 \<Longrightarrow> proc_step s1 tr s' \<Longrightarrow> proc_run s tr s'"
  using pr_step [OF _ proc_run_one] by fastforce

lemma ps_main_thread: "proc_step s [] (s\<lparr>main_thread := t\<rparr>)"
proof -
  have "s\<lparr>packer_thread := packer_thread s, main_thread := t\<rparr> = s\<lparr>main_thread := t\<rparr>" by (cases s) simp
  then show ?thesis using ps_threads [of s t "packer_thread s"] by (simp del: tcp_manager.update_convs)
qed

lemma ps_packer_thread: "proc_step s [] (s\<lparr>packer_thread := p\<rparr>)"
proof -
  have "s\<lparr>packer_thread := p, main_thread := main_thread s\<rparr> = s\<lparr>packer_thread := p\<rparr>" by (cases s) simp
  then show ?thesis using ps_threads [of s "main_thread s" p] by (simp del: tcp_manager.update_convs)
qed

definition refined :: "system \<Rightarrow> net_event list \<Rightarrow> system \<Rightarrow> bool" where
  "refined S tr T \<longleftrightarrow> wired T \<and> staged T \<and> handled T \<and> proc_run (mgr S) tr (mgr T)"

lemma same_work_refined: "same_work S T \<Longrightarrow> system_ok S \<Longrightarrow> proc_run (mgr S) tr (mgr T) \<Longrightarrow> refined S tr T"
  using same_work_wired same_work_staged same_work_handled by (simp add: refined_def system_ok_def)

lemma main_refined:
  assumes ok: "system_ok S" and m: "malloc_ok m (handle_pool (mgr S))"
    and run: "main_step m fds (mgr S) = Inr (js, s')"
  shows "refined S (main_shows (mgr S)) (S\<lparr>mgr := s'\<rparr>)"
proof (cases "loop_step (main_thread (mgr S))")
  case None
  then have "next_task (main_thread (mgr S)) = None"
    by (auto simp: next_task_def loop_step_def Let_def split: option.splits worker_phase.splits if_splits)
  moreover have "s' = mgr S" using run None by (simp add: main_step_def)
  ultimately show ?thesis using ok pr_done by (simp add: main_shows_def refined_def system_ok_def)
next
  case (Some t)
  have oks: "wired S" "staged S" "handled S" "conns_ok (mgr S)" using ok by (simp_all add: system_ok_def)
  note q = errands_step [OF Some]
  show ?thesis
  proof (cases "next_task (main_thread (mgr S))")
    case None
    then have s': "s' = (mgr S)\<lparr>main_thread := t\<rparr>" using run Some by (simp add: main_step_def)
    have "same_work S (S\<lparr>mgr := (mgr S)\<lparr>packer_thread := packer_thread (mgr S), main_thread := t\<rparr>\<rparr>)"
      by (rule same_work_threads) (use q None in simp_all)
    then have "refined S [] (S\<lparr>mgr := s'\<rparr>)"
      using same_work_refined [OF _ ok] proc_run_one [OF ps_main_thread] by (simp add: s')
    then show ?thesis using None by (simp add: main_shows_def)
  next
    case f: (Some f)
    have run': "run_main_task m fds f ((mgr S)\<lparr>main_thread := t\<rparr>) = Inr (js, s')"
      using run Some f by (simp add: main_step_def)
    show ?thesis
    proof (cases f)
      case (Add_Client a)
      have "errands (main_thread (mgr S)) = Add_Client a # errands t" using q f Add_Client by simp
      from add_client_ok [OF oks(1-3) m this] run' Add_Client
      have "wired (S\<lparr>mgr := s'\<rparr>) \<and> staged (S\<lparr>mgr := s'\<rparr>) \<and> handled (S\<lparr>mgr := s'\<rparr>)" by auto
      moreover have "proc_run (mgr S) [Changed a] s'"
        using proc_run_two [OF ps_main_thread ps_add] run' Add_Client by blast
      ultimately show ?thesis using f Add_Client by (simp add: refined_def main_shows_def)
    next
      case (Remove_Client n)
      have e: "errands (main_thread (mgr S)) = Remove_Client n # errands t" using q f Remove_Client by simp
      then obtain a where a: "client_map (mgr S) n = Some a" using stagedD(5) [OF oks(2), of n] by auto
      from remove_client_ok [OF oks e] run' Remove_Client
      have "wired (S\<lparr>mgr := s'\<rparr>) \<and> staged (S\<lparr>mgr := s'\<rparr>) \<and> handled (S\<lparr>mgr := s'\<rparr>)" by auto
      moreover have "proc_run (mgr S) [Changed a] s'"
        using proc_run_two [OF ps_main_thread [of _ t] ps_remove [of _ n a]] a run' Remove_Client by simp
      ultimately show ?thesis using f Remove_Client a by (simp add: refined_def main_shows_def)
    next
      case Send_Timeout
      have e: "errands t = errands (main_thread (mgr S))" using q f Send_Timeout by simp
      have "distinct fds \<and> set fds = dom (client_map (mgr S))"
        using run' Send_Timeout by (auto simp: do_send_timeout_def check_def elim!: bind_resE split: if_splits)
      then have "distinct fds" "set fds = dom (client_map (mgr S))" by simp_all
      from tick_ok [OF oks(1-3) this e] run' Send_Timeout
      have "wired (S\<lparr>mgr := s'\<rparr>) \<and> staged (S\<lparr>mgr := s'\<rparr>) \<and> handled (S\<lparr>mgr := s'\<rparr>)" by auto
      moreover have "proc_run (mgr S) [] s'"
        using proc_run_two [OF ps_main_thread ps_tick] run' Send_Timeout by blast
      ultimately show ?thesis using f Send_Timeout by (simp add: refined_def main_shows_def)
    qed
  qed
qed

lemma in_table_attended:
  assumes ok: "system_ok S" and a: "in_table a (mgr S)"
  shows "\<exists>c i. attended a i c (mgr S)"
proof -
  obtain c where c: "clients (mgr S) a = Some c" "client_map (mgr S) (fd c) = Some a" using a by (auto simp: in_table_def)
  have "conn_stage S a c" using ok c(1) stagedD(1) by (auto simp: system_ok_def)
  then show ?thesis using c by (auto simp: conn_stage_def attended_def)
qed

lemma worker_refined:
  assumes ok: "system_ok S" and w: "can_step i (packer_thread (mgr S))" "held (workers (packer_thread (mgr S)) ! i) = []"
    and run: "worker_run i m free wr (mgr S) = Inr (msgs, s')"
  shows "refined S [] (S\<lparr>mgr := s'\<rparr>)"
proof -
  let ?P = "packer_thread (mgr S)"
  have i: "i < length (workers ?P)" using w(1) by (simp add: can_step_def)
  obtain p where p: "worker_step i Returns ?P = Inr p" "s' = (mgr S)\<lparr>packer_thread := p\<rparr>"
    using run w(2) by (auto simp: worker_run_def elim!: bind_resE split: pool_worker.splits option.splits)
  note j = worker_step_jobs [OF p(1) i]
  have "same_work S (S\<lparr>mgr := (mgr S)\<lparr>packer_thread := p, main_thread := main_thread (mgr S)\<rparr>\<rparr>)"
    by (rule same_work_threads) (use j w(2) in simp_all)
  then show ?thesis using same_work_refined [OF _ ok] proc_run_one [OF ps_packer_thread] by (simp add: p(2))
qed

lemma job_refined:
  assumes ok: "system_ok S" and w: "i < length (workers (packer_thread (mgr S)))" "workers (packer_thread (mgr S)) ! i = Has (Some j)"
    and a: "in_table (client_of j) (mgr S)" and m: "malloc_ok m (bpool (buffer_pool (mgr S)))"
    and acc: "\<And>c. clients (mgr S) (client_of j) = Some c \<Longrightarrow> accepts_at_most (length (unsent c (buffer_pool (mgr S)))) wr"
    and run: "worker_run i m free wr (mgr S) = Inr (msgs, s')"
  shows "refined S (job_shows free wr msgs j (mgr S)) (S\<lparr>mgr := s'\<rparr>)"
proof -
  let ?P = "packer_thread (mgr S)"
  have oks: "wired S" "staged S" "handled S" using ok by (simp_all add: system_ok_def)
  obtain p where p: "worker_step i Returns ?P = Inr p" and job: "run_job m free wr j ((mgr S)\<lparr>packer_thread := p\<rparr>) = Inr (msgs, s')"
    using run w(2) by (auto simp: worker_run_def elim!: bind_resE)
  have jobs: "jobs_in ?P = add_mset j (jobs_in p)" and len: "length (workers p) = length (workers ?P)"
    using worker_step_jobs [OF p w(1)] w(2) by simp_all
  let ?s1 = "(mgr S)\<lparr>packer_thread := p\<rparr>" and ?T = "S\<lparr>mgr := s'\<rparr>"
  obtain c k where c: "attended (client_of j) k c (mgr S)" using in_table_attended [OF ok a] by blast
  have c1: "clients (mgr S) (client_of j) = Some c" "\<exists>x. message_callback c = Some x" using c by (auto simp: attended_def)
  note two = proc_run_two [OF ps_packer_thread [of "mgr S" p]]
  have steps: "proc_run (mgr S) (job_shows free wr msgs j (mgr S)) s'"
  proof (cases j)
    case (Req_Close a)
    then show ?thesis using two [OF ps_req_close] job by simp
  next
    case (Handle_Unpack a)
    then have j: "clients ?s1 a = Some c" "malloc_ok m (bpool (buffer_pool ?s1))"
        "run_job m free wr (Handle_Unpack a) ?s1 = Inr (msgs, s')"
      using c1 m job by simp_all
    obtain x where "message_callback c = Some x" using c1(2) by blast
    from two [OF ps_unpack [OF j(1) this j(2,3)]] show ?thesis using Handle_Unpack by simp
  next
    case (Timeout_Send a)
    then have j: "clients ?s1 a = Some c" "accepts_at_most (length (unsent c (buffer_pool ?s1))) wr"
        "run_job m free wr (Timeout_Send a) ?s1 = Inr (msgs, s')"
      using c1 acc job by simp_all
    have c1': "clients (mgr S) a = Some c" and B: "buffer_pool ?s1 = buffer_pool (mgr S)"
      using c1 Timeout_Send by simp_all
    from two [OF ps_send [OF j]] show ?thesis unfolding Timeout_Send job_shows.simps c1' B option.case(2) .
  qed
  have "wired ?T \<and> staged ?T \<and> handled ?T"
  proof (cases "j = Req_Close (client_of j)")
    case True
    then obtain a where j: "j = Req_Close a" by blast
    have "req_close a ?s1 = Inr s'" using job j by (auto elim!: bind_resE)
    from req_close_ok [OF oks _ len this] show ?thesis using jobs j by simp
  next
    case False
    then have no: "j \<noteq> Req_Close b" for b by auto
    have "same_work S (S\<lparr>mgr := (mgr S)\<lparr>packer_thread := p, main_thread := main_thread (mgr S)\<rparr>\<rparr>)"
      by (rule same_work_threads) (use jobs no len in simp_all)
    then have one: "same_work S (S\<lparr>mgr := ?s1\<rparr>)" by simp
    have "wired (S\<lparr>mgr := ?s1\<rparr>)" by (rule same_work_wired [OF one oks(1)])
    then have "same_work (S\<lparr>mgr := ?s1\<rparr>) (S\<lparr>mgr := s'\<rparr>)"
      using run_job_same_work [of m free wr j "S\<lparr>mgr := ?s1\<rparr>" msgs s'] job False by simp
    then have "same_work S ?T" by (rule same_work_trans [OF one])
    then show ?thesis using same_work_wired same_work_staged same_work_handled oks by blast
  qed
  then show ?thesis using steps by (simp add: refined_def)
qed

text \<open>An event is one of a handle whose connection is in the table, on the loop of that connection.\<close>

lemma event_owner:
  assumes ok: "system_ok S" and i: "i < length (socket_loop (mgr S))"
    and reg: "interest (socket_loop (mgr S) ! i) n = Some (p, fl)"
  shows "\<exists>e a c. handles (socket_loop (mgr S) ! i) p = Some e \<and> io_func e = Some a \<and> attended a i c (mgr S) \<and> fd c = n \<and>
    client_map (mgr S) n = Some a \<and> (\<forall>now ev. run_func now ev e = Inr (IO_Call a n ev))"
proof -
  let ?w = "socket_loop (mgr S) ! i"
  have oks: "wired S" "staged S" "handled S" using ok by (simp_all add: system_ok_def)
  note tab = loop_fineD(1) [OF wiredD(6) [OF oks(1) i]]
  have hm: "handler_map ?w n = Some p" by (rule table_okD(4) [OF tab reg])
  obtain e where e: "handles ?w p = Some e" "h_fd e = n" using table_okD(2) [OF tab hm] by blast
  have "owned_by_conn S i p" using handledD(1) [OF oks(3) i] hm by (auto simp: ran_def)
  then obtain a c where a: "owner ?w p = Some (a, fd c)" "clients (mgr S) a = Some c" "event_loop c = Some i"
      "client_map (mgr S) (fd c) = Some a"
    by (auto simp: owned_by_conn_def)
  have e': "event_type e = IO_EVENT" "io_func e = Some a" "fd c = n"
    using a(1) e by (auto simp: owner_def split: if_splits)
  have "message_callback c \<noteq> None" using stagedD(1) [OF oks(2) a(2)] a(4) by (simp add: conn_stage_def)
  then have "attended a i c (mgr S)" using a i by (simp add: attended_def)
  moreover have "\<forall>now ev. run_func now ev e = Inr (IO_Call a n ev)" using e' e(2) by (simp add: run_func_def)
  moreover have "client_map (mgr S) n = Some a" using a(4) e'(3) by simp
  ultimately show ?thesis using e e' by blast
qed

lemma loop_io_one:
  assumes ok: "system_ok S" and i: "i < length (socket_loop (mgr S))"
    and e: "handles (socket_loop (mgr S) ! i) p = Some e" "\<And>now. run_func now ev e = Inr (IO_Call a n ev)"
  shows "\<exists>k. 0 < k \<and> loop_io (Ready [(p, ev)]) now (socket_loop (mgr S) ! i)
    = Inr ([IO_Call a n ev], (socket_loop (mgr S) ! i)\<lparr>events_size := k\<rparr>)"
proof -
  let ?w = "socket_loop (mgr S) ! i"
  have "wired S" using ok by (simp add: system_ok_def)
  note fine = loop_fineD [OF wiredD(6) [OF this i]]
  have same: "?w\<lparr>events_size := events_size ?w\<rparr> = ?w" by simp
  show ?thesis
  proof (cases "events_size ?w = 1")
    case True
    then show ?thesis using e fine by (intro exI [of _ 2]) (simp add: loop_io_def)
  next
    case False
    then have "loop_io (Ready [(p, ev)]) now ?w = Inr ([IO_Call a n ev], ?w\<lparr>events_size := events_size ?w\<rparr>)"
      unfolding same using e fine by (simp add: loop_io_def check_def)
    then show ?thesis using fine(4) by blast
  qed
qed

lemma sized_same_work:
  assumes ok: "wired S" and i: "i < length (socket_loop (mgr S))" and k: "0 < k"
  shows "same_work S (S\<lparr>mgr := put_loop i ((socket_loop (mgr S) ! i)\<lparr>events_size := k\<rparr>) (mgr S)\<rparr>)"
proof -
  have "same_work S (S\<lparr>mgr := put_loop i ((socket_loop (mgr S) ! i)\<lparr>events_size := k\<rparr>) (mgr S), rest := (rest S)(i := rest S i)\<rparr>)"
    by (rule same_work_loop [OF i loop_fineD(3) [OF wiredD(6) [OF ok i]]]) (simp add: calls_def same_wiring_def k)
  then show ?thesis by simp
qed

lemma event_refined:
  assumes ok: "system_ok S" and at: "loop_at i (mgr S) = Inr em" and reg: "interest em n = Some (p, fl)"
    and e: "handles em p = Some e" "io_func e = Some a" and m: "malloc_ok m (bpool (buffer_pool (mgr S)))" and rs: "reads_ok rs"
    and acc: "\<And>c. clients (mgr S) a = Some c \<Longrightarrow> accepts_at_most (length (unsent c (buffer_pool (mgr S)))) wr"
    and run: "loop_event m rs free wr now i p ev (mgr S) = Inr s'"
  shows "refined S (event_shows rs free wr a ev (mgr S)) (S\<lparr>mgr := s'\<rparr>)"
proof -
  have i: "i < length (socket_loop (mgr S))" and em: "em = socket_loop (mgr S) ! i" using loop_atD [OF at] by simp_all
  obtain c where c: "attended a i c (mgr S)" "fd c = n" and rf: "\<And>now ev. run_func now ev e = Inr (IO_Call a n ev)"
    using event_owner [OF ok i, of n p fl] reg e unfolding em by auto
  obtain k where k: "0 < k" "loop_io (Ready [(p, ev)]) now em = Inr ([IO_Call a n ev], em\<lparr>events_size := k\<rparr>)"
    using loop_io_one [OF ok i, of p e ev a n now] e(1) rf unfolding em by blast
  let ?s1 = "put_loop i (em\<lparr>events_size := k\<rparr>) (mgr S)"
  have ev: "client_event m rs free wr i a n ev ?s1 = Inr s'"
    using run at k(2) by (simp add: loop_event_def)
  have w: "wired S" using ok by (simp add: system_ok_def)
  have one: "same_work S (S\<lparr>mgr := ?s1\<rparr>)" using sized_same_work [OF w i k(1)] by (simp add: em)
  have "same_work (S\<lparr>mgr := ?s1\<rparr>) (S\<lparr>mgr := s'\<rparr>)"
    using client_event_same_work [of m rs free wr i a n ev "S\<lparr>mgr := ?s1\<rparr>" s'] ev same_work_wired [OF one w] by simp
  then have same: "same_work S (S\<lparr>mgr := s'\<rparr>)" by (rule same_work_trans [OF one])
  have c1: "clients ?s1 a = Some c" "buffer_pool ?s1 = buffer_pool (mgr S)" "clients (mgr S) a = Some c"
    using c(1) by (simp_all add: loops_quiet attended_def)
  have lists: "proc_step (mgr S) [] ?s1"
    using ps_lists [OF at, where fs = "loop_functions_read em" and gs = "loop_functions_write em" and n = k] by simp
  have "proc_run (mgr S) (event_shows rs free wr a ev (mgr S)) s'"
  proof -
    have "malloc_ok m (bpool (buffer_pool ?s1))" "accepts_at_most (length (unsent c (buffer_pool ?s1))) wr"
      using m acc [OF c1(3)] c1(2) by simp_all
    from proc_run_two [OF lists ps_event [OF c1(1) this(1) rs this(2) ev]] show ?thesis
      unfolding event_shows_def c1(2,3) option.case(2) .
  qed
  then show ?thesis using same_work_refined [OF same ok] by simp
qed

lemma loop_call_refined:
  assumes ok: "system_ok S" and run: "loop_call_step accepts i S = Inr T"
  shows "refined S [] T"
proof -
  have oks: "wired S" "staged S" "handled S" using ok by (simp_all add: system_ok_def)
  obtain em where at: "loop_at i (mgr S) = Inr em" using run by (auto simp: loop_call_step_def elim!: bind_resE)
  have i: "i < length (socket_loop (mgr S))" and em: "em = socket_loop (mgr S) ! i" using loop_atD [OF at] by simp_all
  show ?thesis
  proof (cases "rest S i")
    case Nil
    then have T: "T = S\<lparr>mgr := put_loop i (em\<lparr>loop_functions_read := []\<rparr>) (mgr S)\<rparr>"
      using run at by (simp add: loop_call_step_def)
    have "proc_step (mgr S) [] (mgr T)"
      using ps_lists [OF at, where fs = "[]" and gs = "loop_functions_write em" and n = "events_size em"] by (simp add: T)
    then show ?thesis using same_work_refined [OF loop_clear_same_work [OF oks(1) i] ok] proc_run_one by (simp add: T em)
  next
    case (Cons f fs)
    obtain s' where s': "run_loop_call (em_tid em) accepts i f (mgr S) = Inr s'" "T = S\<lparr>mgr := s', rest := (rest S)(i := fs)\<rparr>"
      using run at Cons by (auto simp: loop_call_step_def elim!: bind_resE)
    then have "wired T \<and> staged T \<and> handled T" using loop_call_ok [OF oks i Cons, of accepts] em by auto
    moreover have "proc_run (mgr S) [] (mgr T)" using proc_run_one [OF ps_call [OF s'(1)]] s'(2) by simp
    ultimately show ?thesis by (simp add: refined_def)
  qed
qed

lemma take_refined:
  assumes ok: "system_ok S" and r: "rest S i = []" "loop_functions_read (socket_loop (mgr S) ! i) = []"
    and run: "loop_take i S = Inr T"
  shows "refined S [] T"
proof -
  have w: "wired S" using ok by (simp add: system_ok_def)
  obtain em where at: "loop_at i (mgr S) = Inr em" using run by (auto simp: loop_take_def elim!: bind_resE)
  have em: "em = socket_loop (mgr S) ! i" using loop_atD [OF at] by simp
  let ?fs = "loop_functions_write em"
  have T: "mgr T = put_loop i (em\<lparr>loop_functions_write := [], loop_functions_read := ?fs\<rparr>) (mgr S)"
    using run at r(2) by (auto simp: loop_take_def splice_calls_def em)
  have eq: "em\<lparr>loop_functions_read := ?fs, loop_functions_write := [], events_size := events_size em\<rparr>
      = em\<lparr>loop_functions_write := [], loop_functions_read := ?fs\<rparr>"
    by (cases em) simp
  have "proc_step (mgr S) [] (mgr T)"
    using ps_lists [OF at, where fs = ?fs and gs = "[]" and n = "events_size em"] unfolding eq T .
  then show ?thesis using same_work_refined [OF loop_take_same_work [OF w r run] ok] proc_run_one by blast
qed

lemma sys_step_refined:
  assumes "sys_step S tr T" and ok: "system_ok S"
  shows "refined S tr T"
  using assms(1)
proof cases
  case (ss_main m fds js s')
  then show ?thesis using main_refined [OF ok] by blast
next
  case ss_spurious
  let ?t = "(main_thread (mgr S))\<lparr>t_phase := Some Woken\<rparr>"
  have "errands ?t = errands (main_thread (mgr S))" using ss_spurious(3) by (simp add: errands_def backlog_def)
  then have "same_work S (S\<lparr>mgr := (mgr S)\<lparr>packer_thread := packer_thread (mgr S), main_thread := ?t\<rparr>\<rparr>)"
    by (rule same_work_threads) simp_all
  then show ?thesis using ss_spurious(1,2) same_work_refined [OF _ ok] proc_run_one [OF ps_main_thread] by simp
next
  case (ss_worker i m free w msgs s')
  then show ?thesis using worker_refined [OF ok] by blast
next
  case (ss_job i j m w free msgs s')
  then show ?thesis using job_refined [OF ok ss_job(3-5,6)] by blast
next
  case (ss_notify e p i)
  have "same_work S (S\<lparr>mgr := (mgr S)\<lparr>packer_thread := p, main_thread := main_thread (mgr S)\<rparr>\<rparr>)"
    by (rule same_work_threads) (use tp_quiet_jobs [OF ss_notify(3,4)] in simp_all)
  then show ?thesis using ss_notify(1,2) same_work_refined [OF _ ok] proc_run_one [OF ps_packer_thread] by simp
next
  case (ss_take i)
  then show ?thesis using take_refined [OF ok] by blast
next
  case (ss_call accepts i)
  then show ?thesis using loop_call_refined [OF ok] by blast
next
  case (ss_event i em n p fl e a m rs w free now ev s')
  then show ?thesis using event_refined [OF ok ss_event(4-7,8,9)] by blast
next
  case ss_tick
  have "same_work S (S\<lparr>mgr := (mgr S)\<lparr>packer_thread := packer_thread (mgr S), main_thread := run_in_thread Send_Timeout (main_thread (mgr S))\<rparr>\<rparr>)"
    by (rule same_work_threads) simp_all
  then show ?thesis
    using ss_tick same_work_refined [OF _ ok] proc_run_one [OF ps_main_thread] by (simp add: send_timeout_def post_def)
next
  case (ss_accept n cb m ip port est k a s')
  then have "proc_run (mgr S) [Changed a] s'" using proc_run_one [OF ps_accept] by blast
  then show ?thesis
    using accept_ok [of S n cb m ip port est k a s'] ss_accept ok by (simp add: refined_def system_ok_def)
next
  case (ss_close k s')
  then show ?thesis using same_work_refined [OF close_client_same_work ok] proc_run_one [OF ps_close] by simp
next
  case (ss_push m src b k p r s')
  have "proc_run (mgr S) tr s'" unfolding ss_push(1) by (rule proc_run_one [OF ps_push [OF ss_push(3-8)]])
  then show ?thesis using same_work_refined [OF push_send_same_work [OF ss_push(8)] ok] ss_push(2) by simp
next
  case (ss_buffer B)
  then show ?thesis using same_work_refined [OF buffers_same_work ok] proc_run_one by simp
qed

lemma refined_ok: "refined S tr T \<Longrightarrow> system_ok S \<Longrightarrow> system_ok T"
  using proc_run_sound by (fastforce simp: refined_def system_ok_def sound_def)

lemma proc_run_append: "proc_run s tr s1 \<Longrightarrow> proc_run s1 tr' s' \<Longrightarrow> proc_run s (tr @ tr') s'"
proof (induction rule: proc_run.induct)
  case (pr_step s tr s1 tr1 s2)
  then show ?case using proc_run.pr_step by (metis append_assoc)
qed simp

lemma sys_run_refined:
  assumes "sys_run S tr T" and "system_ok S"
  shows "system_ok T \<and> proc_run (mgr S) tr (mgr T)"
  using assms
proof (induction rule: sys_run.induct)
  case (sr_done S)
  then show ?case using pr_done by simp
next
  case (sr_step S tr S1 tr' S')
  have r: "refined S tr S1" by (rule sys_step_refined [OF sr_step.hyps(1) sr_step.prems])
  then have "system_ok S'" "proc_run (mgr S1) tr' (mgr S')" using sr_step.IH refined_ok [OF r sr_step.prems] by simp_all
  then show ?case using r proc_run_append by (auto simp: refined_def)
qed

section \<open>Nothing faults but late jobs\<close>

text \<open>
  What a thread does next, with what the operating system answers; \<open>environment_ok\<close> says that the thread has
  got there and that the answers are possible, and \<open>late\<close> that a worker holds a job of a connection that is no
  longer in the table.
\<close>

datatype action =
    Main nat "int list" | Main_Wakes | Worker nat nat bool write_result | Pool_Notify | Pool_Wakes nat
  | Take nat | Call nat "int \<Rightarrow> bool"
  | Event nat nat "read_result list" bool write_result int nat "32 word" | Tick
  | Accept nat int "byte list" "16 word" "nat option" "nat option" | Close "64 word"
  | Push nat nat | Pop nat | Fill nat buffer | Give nat

fun perform :: "action \<Rightarrow> system \<Rightarrow> fault + system" where
  "perform (Main m fds) S = bind_res (main_step m fds (mgr S)) (\<lambda>(_, s). Inr (S\<lparr>mgr := s\<rparr>))"
| "perform Main_Wakes S = Inr (S\<lparr>mgr := (mgr S)\<lparr>main_thread := (main_thread (mgr S))\<lparr>t_phase := Some Woken\<rparr>\<rparr>\<rparr>)"
| "perform (Worker i m free w) S = bind_res (worker_run i m free w (mgr S)) (\<lambda>(_, s). Inr (S\<lparr>mgr := s\<rparr>))"
| "perform Pool_Notify S = Inr (S\<lparr>mgr := (mgr S)\<lparr>packer_thread := accept_notify (packer_thread (mgr S))\<rparr>\<rparr>)"
| "perform (Pool_Wakes i) S = (let p = packer_thread (mgr S) in
     Inr (S\<lparr>mgr := (mgr S)\<lparr>packer_thread := p\<lparr>workers := (workers p)[i := Notified]\<rparr>\<rparr>\<rparr>))"
| "perform (Take i) S = loop_take i S"
| "perform (Call i accepts) S = loop_call_step accepts i S"
| "perform (Event i m rs free w now p ev) S =
     bind_res (loop_event m rs free w now i p ev (mgr S)) (\<lambda>s. Inr (S\<lparr>mgr := s\<rparr>))"
| "perform Tick S = Inr (S\<lparr>mgr := send_timeout (mgr S)\<rparr>)"
| "perform (Accept m n ip port cb est) S =
     bind_res (register_socket m n ip port cb est (mgr S)) (\<lambda>(_, _, s). Inr (S\<lparr>mgr := s\<rparr>))"
| "perform (Close k) S = bind_res (close_client k (mgr S)) (\<lambda>s. Inr (S\<lparr>mgr := s\<rparr>))"
| "perform (Push m x) S = bind_res (tm_push_send_pack m x (mgr S)) (\<lambda>(_, s). Inr (S\<lparr>mgr := s\<rparr>))"
| "perform (Pop m) S =
     bind_res (pop_buffer m (buffer_pool (mgr S))) (\<lambda>(_, B). Inr (S\<lparr>mgr := (mgr S)\<lparr>buffer_pool := B\<rparr>\<rparr>))"
| "perform (Fill x b) S =
     bind_res (upd_buf x (\<lambda>_. Inr b) (buffer_pool (mgr S))) (\<lambda>B. Inr (S\<lparr>mgr := (mgr S)\<lparr>buffer_pool := B\<rparr>\<rparr>))"
| "perform (Give x) S =
     bind_res (push_buffer x (buffer_pool (mgr S))) (\<lambda>B. Inr (S\<lparr>mgr := (mgr S)\<lparr>buffer_pool := B\<rparr>\<rparr>))"

definition writes_ok :: "write_result \<Rightarrow> tcp_manager \<Rightarrow> bool" where
  "writes_ok w s \<longleftrightarrow> (\<forall>a c. clients s a = Some c \<longrightarrow> accepts_at_most (length (unsent c (buffer_pool s))) w)"

fun environment_ok :: "action \<Rightarrow> system \<Rightarrow> bool" where
  "environment_ok (Main m fds) S \<longleftrightarrow>
     malloc_ok m (handle_pool (mgr S)) \<and> distinct fds \<and> set fds = dom (client_map (mgr S))"
| "environment_ok Main_Wakes S \<longleftrightarrow> t_phase (main_thread (mgr S)) = Some Waiting"
| "environment_ok (Worker i m free w) S \<longleftrightarrow>
     can_step i (packer_thread (mgr S)) \<and> malloc_ok m (bpool (buffer_pool (mgr S))) \<and> writes_ok w (mgr S)"
| "environment_ok Pool_Notify S \<longleftrightarrow> 0 < in_flight (packer_thread (mgr S))"
| "environment_ok (Pool_Wakes i) S \<longleftrightarrow>
     i < length (workers (packer_thread (mgr S))) \<and> workers (packer_thread (mgr S)) ! i = Sleeping"
| "environment_ok (Take i) S \<longleftrightarrow>
     i < length (socket_loop (mgr S)) \<and> rest S i = [] \<and> loop_functions_read (socket_loop (mgr S) ! i) = []"
| "environment_ok (Call i accepts) S \<longleftrightarrow> i < length (socket_loop (mgr S))"
| "environment_ok (Event i m rs free w now p ev) S \<longleftrightarrow>
     i < length (socket_loop (mgr S)) \<and> rest S i = [] \<and> (\<exists>n fl. interest (socket_loop (mgr S) ! i) n = Some (p, fl)) \<and>
     malloc_ok m (bpool (buffer_pool (mgr S))) \<and> reads_ok rs \<and> writes_ok w (mgr S)"
| "environment_ok Tick S \<longleftrightarrow> True"
| "environment_ok (Accept m n ip port cb est) S \<longleftrightarrow>
     0 < n \<and> (\<forall>b d. clients (mgr S) b = Some d \<longrightarrow> fd d \<noteq> n) \<and> (cb \<noteq> None \<or> m_callback (mgr S) \<noteq> None) \<and>
     malloc_ok m (client_pool (mgr S))"
| "environment_ok (Close k) S \<longleftrightarrow> True"
| "environment_ok (Push m x) S \<longleftrightarrow> users x (mgr S) \<and> malloc_ok m (bpool (buffer_pool (mgr S))) \<and>
     (\<exists>b k p. bufs (buffer_pool (mgr S)) x = Some b \<and> contents b = be_bytes (k :: 64 word) @ p \<and> length p < 2 ^ 31)"
| "environment_ok (Pop m) S \<longleftrightarrow> malloc_ok m (bpool (buffer_pool (mgr S)))"
| "environment_ok (Fill x b) S \<longleftrightarrow> users x (mgr S) \<and> bufs (buffer_pool (mgr S)) x \<noteq> None \<and> buffer_ok b"
| "environment_ok (Give x) S \<longleftrightarrow> users x (mgr S) \<and> bufs (buffer_pool (mgr S)) x \<noteq> None"

fun late :: "action \<Rightarrow> system \<Rightarrow> bool" where
  "late (Worker i m free w) S \<longleftrightarrow>
     (\<exists>j. workers (packer_thread (mgr S)) ! i = Has (Some j) \<and> j \<noteq> Req_Close (client_of j) \<and> \<not> in_table (client_of j) (mgr S))"
| "late _ S \<longleftrightarrow> False"

lemma main_step_returns:
  assumes ok: "system_ok S" and m: "malloc_ok m (handle_pool (mgr S))"
    and fds: "distinct fds" "set fds = dom (client_map (mgr S))"
  shows "\<exists>r. main_step m fds (mgr S) = Inr r"
proof (cases "loop_step (main_thread (mgr S))")
  case None
  then show ?thesis by (simp add: main_step_def)
next
  case (Some t)
  have oks: "wired S" "staged S" "handled S" "conns_ok (mgr S)" using ok by (simp_all add: system_ok_def)
  note q = errands_step [OF Some]
  show ?thesis
  proof (cases "next_task (main_thread (mgr S))")
    case None
    then show ?thesis using Some by (simp add: main_step_def)
  next
    case f: (Some f)
    have "\<exists>r. run_main_task m fds f ((mgr S)\<lparr>main_thread := t\<rparr>) = Inr r"
    proof (cases f)
      case (Add_Client a)
      then show ?thesis using add_client_ok [OF oks(1-3) m, of a t] q f by auto
    next
      case (Remove_Client n)
      then show ?thesis using remove_client_ok [OF oks, of n t] q f by auto
    next
      case Send_Timeout
      then show ?thesis using tick_ok [OF oks(1-3) fds, of t] q f by auto
    qed
    then show ?thesis using Some f by (simp add: main_step_def)
  qed
qed

lemma job_in_table:
  assumes ok: "system_ok S" and i: "i < length (workers (packer_thread (mgr S)))"
    and j: "workers (packer_thread (mgr S)) ! i = Has (Some j)" and timely: "\<not> late (Worker i m free w) S"
  shows "in_table (client_of j) (mgr S)"
proof (cases "j = Req_Close (client_of j)")
  case True
  let ?P = "packer_thread (mgr S)" and ?a = "client_of j"
  have st: "staged S" using ok by (simp add: system_ok_def)
  have "\<exists>p. worker_step i Returns ?P = Inr p" using j by (simp add: worker_step_def)
  then obtain p where p: "worker_step i Returns ?P = Inr p" by blast
  have "jobs_in ?P = add_mset j (jobs_in p)" using worker_step_jobs [OF p i] j by simp
  then have mem: "Req_Close ?a \<in># jobs_in ?P" using True by (metis union_single_eq_member)
  then obtain c where c: "clients (mgr S) ?a = Some c"
    using stagedD(2) [OF st, of ?a] by (cases "clients (mgr S) ?a") (auto simp: gone_def)
  have "0 < closings S ?a (fd c)"
    using closings_parts(1) [OF refl, of S ?a "fd c"] mem by (metis count_greater_zero_iff gr_zeroI le_zero_eq less_numeral_extra(3))
  then show ?thesis using closing_stage(1) [OF st c] c by (auto simp: in_table_def)
next
  case False
  then show ?thesis using timely j by auto
qed

lemma worker_run_returns:
  assumes ok: "system_ok S" and i: "i < length (workers (packer_thread (mgr S)))"
    and m: "malloc_ok m (bpool (buffer_pool (mgr S)))" and w: "writes_ok w (mgr S)"
    and timely: "\<not> late (Worker i m free w) S"
  shows "\<exists>r. worker_run i m free w (mgr S) = Inr r"
proof -
  let ?P = "packer_thread (mgr S)"
  have "\<exists>p. worker_step i Returns ?P = Inr p"
    by (cases "workers ?P ! i") (auto simp: worker_step_def split: option.split)
  then obtain p where p: "worker_step i Returns ?P = Inr p" by blast
  show ?thesis
  proof (cases "\<exists>j. workers ?P ! i = Has (Some j)")
    case False
    then show ?thesis using p by (auto simp: worker_run_def split: pool_worker.split option.split)
  next
    case True
    then obtain j where j: "workers ?P ! i = Has (Some j)" by blast
    obtain c k where c: "attended (client_of j) k c (mgr S)"
      using in_table_attended [OF ok job_in_table [OF ok i j timely]] by blast
    let ?s1 = "(mgr S)\<lparr>packer_thread := p\<rparr>"
    have "conns_ok ?s1" using ok by (simp add: system_ok_def conns_ok_def)
    moreover have "attended (client_of j) k c ?s1" using c by (simp add: attended_def)
    moreover have "reads_ok []" by (intro reads_ok_small) (simp_all add: vec_max_def)
    moreover have "accepts_at_most (length (unsent c (buffer_pool ?s1))) w"
    proof -
      have "buffer_pool ?s1 = buffer_pool (mgr S)" by simp
      then show ?thesis using w c unfolding writes_ok_def attended_def by metis
    qed
    ultimately have "\<exists>r. run_job m free w j ?s1 = Inr r"
      using jobs_return [of ?s1 "client_of j" k c m "[]" w free] m by (cases j) auto
    then show ?thesis using p j by (simp add: worker_run_def)
  qed
qed

lemma loop_event_returns:
  assumes ok: "system_ok S" and i: "i < length (socket_loop (mgr S))"
    and reg: "interest (socket_loop (mgr S) ! i) n = Some (p, fl)" and m: "malloc_ok m (bpool (buffer_pool (mgr S)))"
    and rs: "reads_ok rs" and w: "writes_ok w (mgr S)"
  shows "\<exists>r. loop_event m rs free w now i p ev (mgr S) = Inr r"
proof -
  let ?em = "socket_loop (mgr S) ! i"
  obtain e a c where e: "handles ?em p = Some e" "attended a i c (mgr S)" "fd c = n"
      "\<And>now ev. run_func now ev e = Inr (IO_Call a n ev)"
    using event_owner [OF ok i reg] by blast
  obtain k where k: "loop_io (Ready [(p, ev)]) now ?em = Inr ([IO_Call a n ev], ?em\<lparr>events_size := k\<rparr>)"
    using loop_io_one [OF ok i e(1) e(4)] by blast
  let ?s1 = "put_loop i (?em\<lparr>events_size := k\<rparr>) (mgr S)"
  have same: "clients ?s1 = clients (mgr S)" "client_pool ?s1 = client_pool (mgr S)" "buffer_pool ?s1 = buffer_pool (mgr S)"
    by (simp_all add: loops_quiet)
  have "conns_ok ?s1" using ok by (simp add: system_ok_def conns_ok_def same)
  moreover have "attended a i c ?s1" using e(2) by (simp add: attended_def put_loop_eq)
  moreover have "malloc_ok m (bpool (buffer_pool ?s1))" "accepts_at_most (length (unsent c (buffer_pool ?s1))) w"
    using m w e(2) unfolding same writes_ok_def attended_def by blast+
  ultimately have "\<exists>r. client_event m rs free w i a (fd c) ev ?s1 = Inr r" using rs by (intro jobs_return(4))
  then show ?thesis using k i e(3) by (simp add: loop_event_def loop_at_def)
qed

lemma push_returns:
  assumes ok: "system_ok S" and m: "malloc_ok m (bpool (buffer_pool (mgr S)))"
    and src: "bufs (buffer_pool (mgr S)) x = Some b" "contents b = be_bytes (k :: 64 word) @ p"
  shows "\<exists>r. tm_push_send_pack m x (mgr S) = Inr r"
proof -
  let ?B = "buffer_pool (mgr S)"
  have st: "store_ok ?B" and alive: "table_alive (mgr S)"
    using ok stagedD(4) by (simp_all add: system_ok_def conns_ok_def)
  have read: "readInt64 b = Inr (k, skip 8 b)" using read_skips(4) [OF store_ok_buffer [OF st src(1)]] src(2) by simp
  let ?bs = "?B\<lparr>bufs := (bufs ?B)(x \<mapsto> skip 8 b)\<rparr>"
  have bs: "store_ok ?bs" by (rule store_ok_skip [OF st src(1)]) (simp add: src(2))
  have push: "\<exists>r. push_send_pack m x c ?bs = Inr r" for c
  proof (cases "ready_close c")
    case False
    obtain a t where "push_send_pack m x c ?bs = Inr (0, set_write_update (c\<lparr>wait_pack_list := wait_pack_list c @ [a]\<rparr>), t)"
      by (rule push_send_pack_copies [OF bs, of m x "skip 8 b" c]) (use m False in simp_all)
    then show ?thesis by blast
  qed (simp add: push_send_pack_def)
  show ?thesis
  proof (cases "get_client (get_fd k (mgr S)) (mgr S)")
    case None
    then show ?thesis using src(1) read by (simp add: tm_push_defs get_fd_def get_client_def Let_def)
  next
    case (Some a)
    then obtain c where c: "clients (mgr S) a = Some c" using table_alive_get [OF alive] by (auto simp: get_client_def)
    obtain r d t where "push_send_pack m x c ?bs = Inr (r, d, t)" using push [of c] by auto
    then show ?thesis
      using src(1) read Some c by (simp add: tm_push_defs get_fd_def get_client_def get_object_def Let_def)
  qed
qed

lemma perform_returns:
  assumes ok: "system_ok S" and env: "environment_ok x S" and timely: "\<not> late x S"
  shows "\<exists>T. perform x S = Inr T"
proof (cases x)
  case (Main m fds)
  then obtain r where "main_step m fds (mgr S) = Inr r" using main_step_returns [OF ok, of m fds] env by auto
  then show ?thesis using Main by (cases r) simp
next
  case (Worker i m free w)
  then obtain r where "worker_run i m free w (mgr S) = Inr r"
    using worker_run_returns [OF ok, of i m w free] env timely by (auto simp: can_step_def)
  then show ?thesis using Worker by (cases r) simp
next
  case (Take i)
  then show ?thesis using env by (simp add: loop_take_def loop_at_def splice_calls_def)
next
  case (Call i accepts)
  have oks: "wired S" "staged S" "handled S" using ok by (simp_all add: system_ok_def)
  show ?thesis
  proof (cases "rest S i")
    case (Cons f fs)
    then show ?thesis using loop_call_ok [OF oks _ Cons, of accepts] env Call by (auto simp: loop_call_step_def loop_at_def)
  qed (use env Call in \<open>simp add: loop_call_step_def loop_at_def\<close>)
next
  case (Event i m rs free w now p ev)
  then obtain n fl where "interest (socket_loop (mgr S) ! i) n = Some (p, fl)" using env by auto
  then show ?thesis using loop_event_returns [OF ok, of i n p fl m rs w free now ev] env Event by auto
next
  case (Accept m n ip port cb est)
  have "pool_ok (client_pool (mgr S))" using ok by (simp add: system_ok_def conns_ok_def)
  then obtain a P where "pool_pop m (client_pool (mgr S)) = Inr (a, P)" using pool_pop_ok env Accept by fastforce
  then show ?thesis using register_socket_ok [of m "mgr S" a P n ip port cb est] Accept by simp
next
  case (Close k)
  have alive: "table_alive (mgr S)" using ok stagedD(4) by (simp add: system_ok_def)
  have "\<exists>s. close_client k (mgr S) = Inr s"
  proof (cases "get_client (get_fd k (mgr S)) (mgr S)")
    case (Some a)
    then obtain c where "clients (mgr S) a = Some c" using table_alive_get [OF alive] by (auto simp: get_client_def)
    then show ?thesis using Some by (simp add: close_client_defs Let_def get_object_def)
  qed (simp add: close_client_defs Let_def)
  then show ?thesis using Close by auto
next
  case (Push m y)
  then have m: "malloc_ok m (bpool (buffer_pool (mgr S)))" using env by simp
  obtain b p and k :: "64 word" where "bufs (buffer_pool (mgr S)) y = Some b" "contents b = be_bytes k @ p"
    using env Push by auto
  from push_returns [OF ok m this] show ?thesis using Push by auto
next
  case (Pop m)
  have "store_ok (buffer_pool (mgr S))" using ok by (simp add: system_ok_def conns_ok_def)
  moreover have "malloc_ok m (bpool (buffer_pool (mgr S)))" using env Pop by simp
  ultimately obtain a P where "pop_buffer m (buffer_pool (mgr S)) =
      Inr (a, (buffer_pool (mgr S))\<lparr>bpool := P, bufs := (bufs (buffer_pool (mgr S)))(a \<mapsto> default_buffer)\<rparr>)"
    by (rule pop_buffer_ok)
  then show ?thesis using Pop by simp
next
  case (Fill x b)
  then show ?thesis using env by (auto simp: upd_buf_def get_buf_def)
next
  case (Give x)
  then show ?thesis using env by (auto simp: push_buffer_def)
qed (simp_all add: Let_def)

text \<open>What a thread does is a step.\<close>

lemma perform_steps:
  assumes ok: "system_ok S" and env: "environment_ok x S" and timely: "\<not> late x S" and run: "perform x S = Inr T"
  shows "\<exists>tr. sys_step S tr T"
proof (cases x)
  case (Main m fds)
  then show ?thesis using env run by (auto intro: ss_main elim!: bind_resE)
next
  case Main_Wakes
  then show ?thesis using env run by (auto intro: ss_spurious)
next
  case (Worker i m free w)
  then obtain msgs s' where s': "worker_run i m free w (mgr S) = Inr (msgs, s')" "T = S\<lparr>mgr := s'\<rparr>"
    using run by (auto elim!: bind_resE)
  have i: "can_step i (packer_thread (mgr S))" and m: "malloc_ok m (bpool (buffer_pool (mgr S)))"
    and w: "writes_ok w (mgr S)" using env Worker by simp_all
  have l: "i < length (workers (packer_thread (mgr S)))" using i by (simp add: can_step_def)
  show ?thesis
  proof (cases "\<exists>j. workers (packer_thread (mgr S)) ! i = Has (Some j)")
    case True
    then obtain j where j: "workers (packer_thread (mgr S)) ! i = Has (Some j)" by blast
    have "in_table (client_of j) (mgr S)" using job_in_table [OF ok l j] timely Worker by blast
    moreover have "\<forall>c. clients (mgr S) (client_of j) = Some c \<longrightarrow> accepts_at_most (length (unsent c (buffer_pool (mgr S)))) w"
      using w unfolding writes_ok_def by blast
    ultimately show ?thesis using ss_job [OF l j _ m _ s'(1)] unfolding s'(2) by blast
  next
    case False
    then have "held (workers (packer_thread (mgr S)) ! i) = []"
      by (cases "workers (packer_thread (mgr S)) ! i") (auto simp: neq_Nil_conv elim!: held.elims)
    then show ?thesis using ss_worker [OF i _ s'(1)] unfolding s'(2) by blast
  qed
next
  case Pool_Notify
  then show ?thesis using env run ss_notify [OF tp_notify] by auto
next
  case (Pool_Wakes i)
  have "sys_step S [] (S\<lparr>mgr := (mgr S)\<lparr>packer_thread := (packer_thread (mgr S))\<lparr>workers :=
      (workers (packer_thread (mgr S)))[i := Notified]\<rparr>\<rparr>\<rparr>)"
    by (rule ss_notify [OF tp_spurious]) (use env Pool_Wakes in simp_all)
  then show ?thesis using run Pool_Wakes by (auto simp: Let_def)
next
  case (Take i)
  then show ?thesis using env run by (auto intro: ss_take)
next
  case (Call i accepts)
  then show ?thesis using env run by (auto intro: ss_call)
next
  case (Event i m rs free w now p ev)
  then obtain s' where s': "loop_event m rs free w now i p ev (mgr S) = Inr s'" "T = S\<lparr>mgr := s'\<rparr>"
    using run by (auto elim!: bind_resE)
  obtain n fl where reg: "interest (socket_loop (mgr S) ! i) n = Some (p, fl)" using env Event by auto
  have e0: "i < length (socket_loop (mgr S))" "rest S i = []" "malloc_ok m (bpool (buffer_pool (mgr S)))" "reads_ok rs"
      "writes_ok w (mgr S)"
    using env Event by simp_all
  obtain e a where e: "handles (socket_loop (mgr S) ! i) p = Some e" "io_func e = Some a"
    using event_owner [OF ok e0(1) reg] by blast
  have at: "loop_at i (mgr S) = Inr (socket_loop (mgr S) ! i)" using e0(1) by (simp add: loop_at_def)
  have "\<forall>c. clients (mgr S) a = Some c \<longrightarrow> accepts_at_most (length (unsent c (buffer_pool (mgr S)))) w"
    using e0(5) unfolding writes_ok_def by blast
  from ss_event [OF e0(2) at reg e e0(3,4) this s'(1)] show ?thesis unfolding s'(2) by blast
next
  case Tick
  then show ?thesis using run by (auto intro: ss_tick)
next
  case (Accept m n ip port cb est)
  then obtain k a s' where s': "register_socket m n ip port cb est (mgr S) = Inr (k, a, s')" "T = S\<lparr>mgr := s'\<rparr>"
    using run by (auto elim!: bind_resE)
  from ss_accept [OF _ _ _ _ s'(1)] show ?thesis using env Accept unfolding s'(2) by auto
next
  case (Close k)
  then show ?thesis using run by (auto intro: ss_close elim!: bind_resE)
next
  case (Push m x)
  then obtain r s' where s': "tm_push_send_pack m x (mgr S) = Inr (r, s')" "T = S\<lparr>mgr := s'\<rparr>"
    using run by (auto elim!: bind_resE)
  from ss_push [OF _ _ _ _ _ s'(1)] show ?thesis using env Push unfolding s'(2) by auto
next
  case (Pop m)
  then obtain y B where B: "pop_buffer m (buffer_pool (mgr S)) = Inr (y, B)" "T = S\<lparr>mgr := (mgr S)\<lparr>buffer_pool := B\<rparr>\<rparr>"
    using run by (auto elim!: bind_resE)
  then show ?thesis using ss_buffer [OF ps_pop [OF _ B(1)]] env Pop by auto
next
  case (Fill x b)
  then obtain B where B: "upd_buf x (\<lambda>_. Inr b) (buffer_pool (mgr S)) = Inr B" "T = S\<lparr>mgr := (mgr S)\<lparr>buffer_pool := B\<rparr>\<rparr>"
    using run by (auto elim!: bind_resE)
  then show ?thesis using ss_buffer [OF ps_fill [OF _ _ _ B(1)]] env Fill by auto
next
  case (Give x)
  then obtain B where B: "push_buffer x (buffer_pool (mgr S)) = Inr B" "T = S\<lparr>mgr := (mgr S)\<lparr>buffer_pool := B\<rparr>\<rparr>"
    using run by (auto elim!: bind_resE)
  then show ?thesis using ss_buffer [OF ps_give [OF _ B(1)]] env Give by auto
qed

section \<open>A manager that has been started\<close>

text \<open>\<open>init\<close>, the user's message callback if there is one, and \<open>start\<close>.\<close>

definition start_system :: "nat \<Rightarrow> nat option \<Rightarrow> start_env \<Rightarrow> tcp_manager \<Rightarrow> fault + system" where
  "start_system n cb env s =
     (let s = snd (tm_init n s); s = (case cb of None \<Rightarrow> s | Some k \<Rightarrow> set_msg_callback k s) in
      bind_res (tm_start env s) (\<lambda>(_, s). Inr \<lparr>mgr = s, rest = \<lambda>_. []\<rparr>))"

text \<open>The sizes of the pooled classes, the number of socket loops and the memory the timer's handle gets.\<close>

definition can_start :: "nat \<Rightarrow> nat \<Rightarrow> nat \<Rightarrow> nat \<Rightarrow> start_env \<Rightarrow> bool" where
  "can_start bsz csz hsz n env \<longleftrightarrow> 0 < bsz \<and> 0 < csz \<and> 0 < hsz \<and> n < 2 ^ 32 \<and> malloc_ok (timer_malloc env) (empty_pool hsz)"

lemma start_send_timer_fields:
  assumes "start_send_timer env s = Inr s'" and "pool_ok (handle_pool s)" and "malloc_ok (timer_malloc env) (handle_pool s)"
    and "recycled (acceptor_loop s) = []"
  shows "\<exists>P w. s' = s\<lparr>handle_pool := P, acceptor_loop := w\<rparr> \<and> pool_ok P"
proof -
  have keep: ?thesis if "s' = s\<lparr>handle_pool := Q\<rparr>" "pool_ok Q" for Q
    using that by (intro exI [of _ Q] exI [of _ "acceptor_loop s"]) (cases s, simp)
  obtain h P where P: "pool_pop (timer_malloc env) (handle_pool s) = Inr (h, P)" "pool_ok P" "live P = insert h (live (handle_pool s))"
    using pool_pop_ok [OF assms(2,3)] by blast
  have "pool_ok (pool_push h P)" using pool_push_ok [OF P(2), of h] P(3) by simp
  moreover have "recycled w = []" if "offer h e (acceptor_loop s) = Inr (r, w)" for e r w
    using that assms(4)
    by (auto simp: offer_def add_handle_def run_in_handle_loop_def split: if_splits)
  ultimately show ?thesis
    using assms(1) P(1,2) keep
    by (auto simp: start_send_timer_def pop_handle_def push_handle_def put_acceptor_eq Let_def split_beta
        elim!: bind_resE split: if_splits)
qed

lemma started_fields:
  assumes start: "start_system n cb env (new_tcp_manager bsz csz hsz) = Inr S" and can: "can_start bsz csz hsz n env"
  shows "clients (mgr S) = Map.empty" "client_map (mgr S) = Map.empty" "m_callback (mgr S) = cb"
    "buffer_pool (mgr S) = \<lparr>bpool = empty_pool bsz, bufs = Map.empty\<rparr>" "client_pool (mgr S) = empty_pool csz"
    "pool_ok (handle_pool (mgr S))" "event_size (mgr S) = max n 1" "acceptor_index (mgr S) = 0"
    "length (socket_loop (mgr S)) = max n 1" "packer_thread (mgr S) = tp_start 8 new_thread_pool"
    "main_thread (mgr S) = tt_start new_task_thread" "rest S = (\<lambda>_. [])"
    "\<forall>w \<in> set (socket_loop (mgr S)). \<exists>t. w = start_loop t 0 new_event_manager"
proof -
  let ?k = "max n 1" and ?e = "new_tcp_manager bsz csz hsz"
  define s0 where "s0 = ?e\<lparr>m_init := True, event_size := ?k, acceptor_loop := new_event_manager,
      socket_loop := replicate ?k new_event_manager, main_thread := new_task_thread, packer_thread := new_thread_pool, m_callback := cb\<rparr>"
  have "(case cb of None \<Rightarrow> snd (tm_init n ?e) | Some k \<Rightarrow> set_msg_callback k (snd (tm_init n ?e))) = s0"
    by (cases cb; cases "n = 0") (simp_all add: s0_def tm_init_def new_tcp_manager_def set_msg_callback_def max_def)
  then obtain s where s: "tm_start env s0 = Inr s" "S = \<lparr>mgr = snd s, rest = \<lambda>_. []\<rparr>"
    using start by (auto simp: start_system_def Let_def elim!: bind_resE)
  let ?s1 = "s0\<lparr>m_running := True, last_key := 0\<rparr>"
  have init0: "m_init s0" "\<not> m_running s0" by (simp_all add: s0_def new_tcp_manager_def)
  obtain t where t: "start_send_timer env ?s1 = Inr t" "length (loop_tids env) = Suc (event_size t)"
      "snd s = t\<lparr>acceptor_loop := start_loop (hd (loop_tids env)) 0 (acceptor_loop t),
         socket_loop := map2 (\<lambda>t w. start_loop t 0 w) (tl (loop_tids env)) (socket_loop t),
         packer_thread := tp_start 8 (packer_thread t), main_thread := tt_start (main_thread t)\<rparr>"
    using s(1) init0 by (auto simp: tm_start_def check_eq_Inr elim!: bind_resE)
  have "handle_pool ?s1 = empty_pool hsz" "recycled (acceptor_loop ?s1) = []"
    by (simp_all add: s0_def new_tcp_manager_def) (simp add: new_event_manager_def)
  moreover have "pool_ok (empty_pool hsz)" "malloc_ok (timer_malloc env) (empty_pool hsz)"
    using can by (simp_all add: can_start_def empty_pool_ok)
  ultimately obtain P w where P: "t = ?s1\<lparr>handle_pool := P, acceptor_loop := w\<rparr>" "pool_ok P"
    using start_send_timer_fields [OF t(1)] by auto
  have new: "socket_loop t = replicate ?k new_event_manager" "event_size t = ?k"
    by (simp_all add: P(1) s0_def)
  have len: "length (tl (loop_tids env)) = ?k" using t(2) new(2) by simp
  show "clients (mgr S) = Map.empty" "client_map (mgr S) = Map.empty" "m_callback (mgr S) = cb"
    "buffer_pool (mgr S) = \<lparr>bpool = empty_pool bsz, bufs = Map.empty\<rparr>" "client_pool (mgr S) = empty_pool csz"
    "pool_ok (handle_pool (mgr S))" "event_size (mgr S) = ?k" "acceptor_index (mgr S) = 0"
    "length (socket_loop (mgr S)) = ?k" "packer_thread (mgr S) = tp_start 8 new_thread_pool"
    "main_thread (mgr S) = tt_start new_task_thread" "rest S = (\<lambda>_. [])"
    using len P(2) by (simp_all add: s(2) t(3) P(1) s0_def new_tcp_manager_def)
  show "\<forall>w \<in> set (socket_loop (mgr S)). \<exists>t. w = start_loop t 0 new_event_manager"
    using new(1) by (auto simp: s(2) t(3) set_zip)
qed

lemma started_ok:
  assumes start: "start_system n cb env (new_tcp_manager bsz csz hsz) = Inr S" and can: "can_start bsz csz hsz n env"
  shows "system_ok S"
proof -
  note f = started_fields [OF start can]
  have sizes: "0 < bsz" "0 < csz" "n < 2 ^ 32" using can by (simp_all add: can_start_def)
  have live: "live (empty_pool k) = {}" for k by (simp add: empty_pool_def live_def all_slots_def block_slots_def)
  have "store_ok (buffer_pool (mgr S))"
    using sizes(1) by (simp add: f(4) store_ok_def empty_pool_ok live)
  then have conns: "conns_ok (mgr S)" using sizes(2) by (simp add: conns_ok_def f empty_pool_ok live)
  have jobs: "jobs_in (packer_thread (mgr S)) = {#}"
    by (simp add: f(10) jobs_in_def tp_start_def new_thread_pool_def numeral_eq_Suc)
  have tasks: "errands (main_thread (mgr S)) = []"
    by (simp add: f(11) errands_def backlog_def tt_start_def new_task_thread_def Let_def split_beta)
  have loop: "handler_map w = Map.empty \<and> handles w = Map.empty \<and> interest w = Map.empty \<and> loop_functions_write w = [] \<and>
      \<not> em_quit w \<and> recycled w = [] \<and> 0 < events_size w" if "w \<in> set (socket_loop (mgr S))" for w
    using bspec [OF f(13) that] by (auto simp: start_loop_def new_event_manager_def MAX_EVENT_def Let_def split_beta)
  have calls: "calls S i = []" if "i < length (socket_loop (mgr S))" for i
    using loop [OF nth_mem [OF that]] by (simp add: calls_def f(12))
  have "loop_fine (mgr S) (calls S i) (socket_loop (mgr S) ! i)" if "i < length (socket_loop (mgr S))" for i
    using loop [OF nth_mem [OF that]] calls [OF that] by (simp add: loop_fine_def table_ok_def)
  then have "wired S"
    using f sizes loop [OF nth_mem] by (simp add: wired_def Let_def tp_start_def new_thread_pool_def)
  moreover have "staged S"
    using jobs tasks calls by (simp add: staged_def f gone_def table_alive_def)
  moreover have "handled S"
    using calls loop [OF nth_mem] by (simp add: handled_def)
  ultimately show ?thesis using conns by (simp add: system_ok_def)
qed

section \<open>Runs\<close>

text \<open>A schedule is possible if every action is, in the state it meets, and no job comes too late.\<close>

fun performs :: "action list \<Rightarrow> system \<Rightarrow> fault + system" where
  "performs [] S = Inr S"
| "performs (x # xs) S = bind_res (perform x S) (performs xs)"

fun possible :: "action list \<Rightarrow> system \<Rightarrow> bool" where
  "possible [] S \<longleftrightarrow> True"
| "possible (x # xs) S \<longleftrightarrow> environment_ok x S \<and> \<not> late x S \<and>
     (case perform x S of Inl _ \<Rightarrow> True | Inr T \<Rightarrow> possible xs T)"

lemma performs_runs:
  "system_ok S \<Longrightarrow> possible xs S \<Longrightarrow> \<exists>T tr. performs xs S = Inr T \<and> sys_run S tr T"
proof (induction xs arbitrary: S)
  case Nil
  then show ?case using sr_done by auto
next
  case (Cons x xs)
  then have x: "environment_ok x S" "\<not> late x S" by simp_all
  obtain S1 where S1: "perform x S = Inr S1" using perform_returns [OF Cons.prems(1) x] by blast
  obtain tr where step: "sys_step S tr S1" using perform_steps [OF Cons.prems(1) x S1] by blast
  have "system_ok S1" by (rule refined_ok [OF sys_step_refined [OF step Cons.prems(1)] Cons.prems(1)])
  moreover have "possible xs S1" using Cons.prems(2) S1 by simp
  ultimately obtain T tr' where "performs xs S1 = Inr T" "sys_run S1 tr' T" using Cons.IH by blast
  then show ?case using S1 sr_step [OF step] by auto
qed

subsection \<open>A sample\<close>

text \<open>One loop; a connection is accepted, added by the main thread and registered by its loop.\<close>

definition sample_env :: start_env where
  "sample_env = \<lparr>timer_malloc = 5000, timer_ret = 9, timer_errno = 0, settime = 0, clock = 1, loop_tids = [7, 8]\<rparr>"

lemma sample_starts:
  obtains S where "start_system 1 (Some 0) sample_env (new_tcp_manager 48 640 96) = Inr S" "can_start 48 640 96 1 sample_env"
proof -
  have can: "can_start 48 640 96 1 sample_env" by (simp add: can_start_def sample_env_def empty_pool_ok)
  obtain h P where h: "pool_pop 5000 (empty_pool 96) = Inr (h, P)"
    using pool_pop_ok [of "empty_pool 96" 5000] empty_pool_ok(1) [of 96] empty_pool_ok(2) [of 5000 96] by auto
  have quit: "em_quit new_event_manager = False" "recycled new_event_manager = []" by (simp_all add: new_event_manager_def)
  have "\<exists>S. start_system 1 (Some 0) sample_env (new_tcp_manager 48 640 96) = Inr S"
    using h quit
    by (simp add: start_system_def tm_init_def new_tcp_manager_def set_msg_callback_def tm_start_def start_send_timer_def
        sample_env_def pop_handle_def bind_timer_def create_timerfd_def offer_def add_handle_def run_in_handle_loop_def
        Let_def put_acceptor_eq)
  then show thesis using can that by blast
qed

definition sample_schedule :: "nat \<Rightarrow> action list" where
  "sample_schedule m = [Main m [], Main m [], Accept 1000 5 [] 0 None None, Main m [], Main m [], Take 0,
     Call 0 (\<lambda>_. True)]"

lemma sample_opens:
  obtains S m T tr p fl where "start_system 1 (Some 0) sample_env (new_tcp_manager 48 640 96) = Inr S"
    "can_start 48 640 96 1 sample_env"
    "possible (sample_schedule m) S" "performs (sample_schedule m) S = Inr T" "sys_run S tr T" "length (socket_loop (mgr T)) = 1"
    "interest (socket_loop (mgr T) ! 0) 5 = Some (p, fl)"
proof -
  obtain S where S: "start_system 1 (Some 0) sample_env (new_tcp_manager 48 640 96) = Inr S" "can_start 48 640 96 1 sample_env"
    by (rule sample_starts)
  note f = started_fields [OF S]
  let ?s = "mgr S"
  let ?t = "\<lambda>rs ws ph. \<lparr>t_running = True, read_list = rs, write_list = ws, t_phase = Some ph, ran_tasks = []\<rparr> :: main_task task_thread"
  have t0: "main_thread ?s = ?t [] [] Checking" by (simp add: f(11) tt_start_def new_task_thread_def)
  obtain m where m: "malloc_ok m (handle_pool ?s)" using malloc_ok_exists by blast
  define S1 where "S1 = S\<lparr>mgr := ?s\<lparr>main_thread := ?t [] [] Locked\<rparr>\<rparr>"
  define S2 where "S2 = S\<lparr>mgr := ?s\<lparr>main_thread := ?t [] [] Waiting\<rparr>\<rparr>"
  have dom: "dom (client_map ?s) = {}" using f(2) by simp
  have p1: "perform (Main m []) S = Inr S1" "environment_ok (Main m []) S"
    using m dom t0 by (simp_all add: main_step_def loop_step_def next_task_def S1_def)
  have p2: "perform (Main m []) S1 = Inr S2" "environment_ok (Main m []) S1"
    using m dom by (simp_all add: main_step_def loop_step_def next_task_def S1_def S2_def)
  have e: "pool_ok (empty_pool 640)" "malloc_ok 1000 (empty_pool 640)" by (simp_all add: empty_pool_ok)
  obtain a P where P: "pool_pop 1000 (empty_pool 640) = Inr (a, P)" using pool_pop_ok [OF e] by blast
  let ?c = "registered_client (last_key ?s + 1) 5 [] 0 None None"
  define s3 where "s3 = ?s\<lparr>last_key := last_key ?s + 1, connect_map := (connect_map ?s)(last_key ?s + 1 \<mapsto> 5),
     client_pool := P, clients := [a \<mapsto> ?c], main_thread := ?t [] [Add_Client a] Woken\<rparr>"
  define S3 where "S3 = S\<lparr>mgr := s3\<rparr>"
  have pop: "pool_pop 1000 (client_pool (mgr S2)) = Inr (a, P)" using P by (simp add: S2_def f)
  have p3: "perform (Accept 1000 5 [] 0 None None) S2 = Inr S3" "environment_ok (Accept 1000 5 [] 0 None None) S2"
    using register_socket_ok [OF pop, of 5 "[]" 0 None None] e f(1,3)
    by (simp_all add: S2_def S3_def s3_def run_in_thread_def wakeup_def f(5))
  define S4 where "S4 = S3\<lparr>mgr := s3\<lparr>main_thread := ?t [Add_Client a] [] (Executing 0)\<rparr>\<rparr>"
  have p4: "perform (Main m []) S3 = Inr S4" "environment_ok (Main m []) S3"
    using m dom by (simp_all add: main_step_def loop_step_def next_task_def S3_def S4_def s3_def Let_def)
  let ?s4 = "s3\<lparr>main_thread := (?t [Add_Client a] [] (Executing 1))\<lparr>ran_tasks := [Add_Client a]\<rparr>\<rparr>"
  let ?w = "socket_loop ?s ! 0"
  have w: "\<not> em_quit ?w" "recycled ?w = []" "handles ?w = Map.empty" "loop_functions_write ?w = []" "handler_map ?w = Map.empty"
      "loop_functions_read ?w = []" "interest ?w = Map.empty"
    using bspec [OF f(13), of ?w] f(9)
    by (auto simp: start_loop_def new_event_manager_def Let_def split_beta)
  obtain h Q where h: "pool_pop m (handle_pool ?s) = Inr (h, Q)" using pool_pop_ok [OF f(6) m] by blast
  have "do_add_client m a ?s4 = Inr (?s4\<lparr>acceptor_index := word_of_nat 0,
     clients := (clients ?s4)(a \<mapsto> ?c\<lparr>loop_index := 0, event_loop := Some 0,
       message_callback := (case m_callback ?s4 of None \<Rightarrow> message_callback ?c | Some k \<Rightarrow> Some k)\<rparr>),
     client_map := (client_map ?s4)(fd ?c \<mapsto> a), handle_pool := Q,
     socket_loop := (socket_loop ?s4)[0 := (socket_loop ?s4 ! 0)\<lparr>handles := (handles (socket_loop ?s4 ! 0))(h \<mapsto> client_handle a (fd ?c)),
       loop_functions_write := loop_functions_write (socket_loop ?s4 ! 0) @ [Do_Add h]\<rparr>],
     announced := announced ?s4 @ (case established_callback ?c of None \<Rightarrow> [] | Some k \<Rightarrow> [(k, fd_key ?c)])\<rparr>)"
    by (rule do_add_client_run) (use f w h in \<open>simp_all add: s3_def\<close>)
  then obtain s5 where s5: "do_add_client m a ?s4 = Inr s5" "length (socket_loop s5) = 1"
      "socket_loop s5 ! 0 = ?w\<lparr>handles := [h \<mapsto> client_handle a 5], loop_functions_write := [Do_Add h]\<rparr>"
    using f(9) w by (simp add: s3_def)
  define S5 where "S5 = S\<lparr>mgr := s5\<rparr>"
  have p5: "perform (Main m []) S4 = Inr S5" "environment_ok (Main m []) S4"
    using m dom s5(1) by (simp_all add: main_step_def loop_step_def next_task_def S4_def S3_def s3_def S5_def)
  let ?w5 = "?w\<lparr>handles := [h \<mapsto> client_handle a 5], loop_functions_write := [], loop_functions_read := [Do_Add h]\<rparr>"
  define S6 where "S6 = S5\<lparr>mgr := put_loop 0 ?w5 s5, rest := (\<lambda>_. [])(0 := [Do_Add h])\<rparr>"
  have p6: "perform (Take 0) S5 = Inr S6" "environment_ok (Take 0) S5"
    using s5 w f(12) by (simp_all add: loop_take_def loop_at_def splice_calls_def S5_def S6_def)
  have b: "h_fd (client_handle a 5) = 5" using client_handle_bound(2) [of a 5] by simp
  let ?w7 = "?w5\<lparr>handler_map := [5 \<mapsto> h], interest := [5 \<mapsto> (h, event_flags (client_handle a 5))]\<rparr>"
  define S7 where "S7 = S6\<lparr>mgr := put_loop 0 ?w7 (mgr S6), rest := (\<lambda>_. [])(0 := [])\<rparr>"
  have p7: "perform (Call 0 (\<lambda>_. True)) S6 = Inr S7" "environment_ok (Call 0 (\<lambda>_. True)) S6"
    using s5(2) w b by (simp_all add: loop_call_step_def loop_at_def put_loop_eq S6_def S7_def S5_def do_add_handle_def
        assert_in_thread_def ctl_add_def)
  have poss: "possible (sample_schedule m) S" using p1 p2 p3 p4 p5 p6 p7 by (simp add: sample_schedule_def)
  have runs: "performs (sample_schedule m) S = Inr S7"
    using p1(1) p2(1) p3(1) p4(1) p5(1) p6(1) p7(1) by (simp add: sample_schedule_def)
  then obtain tr where "sys_run S tr S7" using performs_runs [OF started_ok [OF S] poss] by auto
  moreover have "length (socket_loop (mgr S7)) = 1 \<and> interest (socket_loop (mgr S7) ! 0) 5 = Some (h, event_flags (client_handle a 5))"
    using s5(2) w by (simp add: S7_def S6_def S5_def put_loop_eq)
  ultimately show thesis using that [OF S poss runs] by blast
qed

section \<open>Properties\<close>

text \<open>
  C3: From the start of a manager, the threads fault in no order of their steps: whatever the main thread,
  the workers, the socket loops, the timer, the server accepting connections and the user do next, in any
  order, with any data from the peers and any answers of the operating system, every action returns: no freed
  client, handle or buffer is used, no index is out of range, no assertion fails.  A step is atomic: a whole
  job, event, task, loop function or call of the user.  What the statement does not cover does fault: a
  worker that runs an unpack or send job of a connection removed meanwhile (excluded by \<open>possible\<close>;
  \<open>late_job_uses_freed_client\<close>), and the overlaps of two steps shown in \<open>bad_length_then_data\<close> (reading while a bad
  length is handled), \<open>clear_races_writing\<close> (writing while a bad length is handled) and
  \<open>late_push_uses_freed_client\<close> (a removal inside a call of the user).
\<close>

theorem threads_never_fault:
  assumes "start_system n cb env (new_tcp_manager bsz csz hsz) = Inr S" and "can_start bsz csz hsz n env"
    and "possible xs S"
  shows "\<exists>T. performs xs S = Inr T"
  using performs_runs [OF started_ok [OF assms(1,2)] assms(3)] by blast

theorem threads_never_fault_witness:
  "\<exists>S m T. start_system 1 (Some 0) sample_env (new_tcp_manager 48 640 96) = Inr S
     \<and> performs (sample_schedule m) S = Inr T"
proof -
  obtain S m T tr p fl where S: "start_system 1 (Some 0) sample_env (new_tcp_manager 48 640 96) = Inr S"
    "can_start 48 640 96 1 sample_env"
    "possible (sample_schedule m) S" "performs (sample_schedule m) S = Inr T" "sys_run S tr T" "length (socket_loop (mgr T)) = 1"
    "interest (socket_loop (mgr T) ! 0) 5 = Some (p, fl)"
    by (rule sample_opens)
  from threads_never_fault [OF S(1-3)] S(1) show ?thesis by blast
qed

text \<open>
  C4: The threads with their real queues implement the process of \<open>Process_Run\<close>, in which jobs, tasks, loop
  functions and events happen in any order: every run of them, from any point after the start, is one of its
  runs, with the same bytes, messages and packets to be seen, and starts in a state that satisfies its invariant.
\<close>

theorem threads_refine_process:
  assumes "start_system n cb env (new_tcp_manager bsz csz hsz) = Inr S0" and "can_start bsz csz hsz n env"
    and "sys_run S0 tr0 S" and "sys_run S tr T"
  shows "conns_ok (mgr S) \<and> proc_run (mgr S) tr (mgr T)"
proof -
  have "system_ok S" using sys_run_refined [OF assms(3) started_ok [OF assms(1,2)]] by blast
  then show ?thesis using sys_run_refined [OF assms(4)] by (simp add: system_ok_def)
qed

theorem threads_refine_process_witness:
  "\<exists>S tr T. start_system 1 (Some 0) sample_env (new_tcp_manager 48 640 96) = Inr S \<and> sys_run S tr T
     \<and> length (socket_loop (mgr T)) = 1 \<and> conns_ok (mgr S) \<and> proc_run (mgr S) tr (mgr T)"
proof -
  obtain S m T tr p fl where S: "start_system 1 (Some 0) sample_env (new_tcp_manager 48 640 96) = Inr S"
    "can_start 48 640 96 1 sample_env"
    "possible (sample_schedule m) S" "performs (sample_schedule m) S = Inr T" "sys_run S tr T" "length (socket_loop (mgr T)) = 1"
    "interest (socket_loop (mgr T) ! 0) 5 = Some (p, fl)"
    by (rule sample_opens)
  from threads_refine_process [OF S(1,2) sr_done S(5)] S(1,5,6) show ?thesis by blast
qed

text \<open>
  C5: The life of a connection.  Whenever the threads may stop, a client object is either waiting for exactly
  one task that adds it, or is in the table; then exactly one thing is under way to end it if it is marked
  closed (a close job, a close request in a loop, or a removal task), and none otherwise.  So a connection is
  added once and removed once.  No task that adds, no close job and no close request names an object that is
  gone; an unpack or send job that is still queued may (\<open>late_job_uses_freed_client\<close>).  No two connections have
  the same descriptor, and the table holds existing objects only.
\<close>

theorem connection_stages:
  assumes "start_system n cb env (new_tcp_manager bsz csz hsz) = Inr S" and "can_start bsz csz hsz n env"
    and "sys_run S tr T"
  shows "(case clients (mgr T) a of
       None \<Rightarrow> Add_Client a \<notin> set (errands (main_thread (mgr T))) \<and> Req_Close a \<notin># jobs_in (packer_thread (mgr T))
         \<and> Other a \<notin> (\<Union>i < length (socket_loop (mgr T)). set (calls T i))
     | Some c \<Rightarrow>
         (if client_map (mgr T) (fd c) = Some a
          then count_list (errands (main_thread (mgr T))) (Add_Client a) = 0
            \<and> closings T a (fd c) = (if closed c then 1 else 0)
          else count_list (errands (main_thread (mgr T))) (Add_Client a) = 1 \<and> closings T a (fd c) = 0 \<and> \<not> closed c))
    \<and> inj_on (\<lambda>b. map_option fd (clients (mgr T) b)) (dom (clients (mgr T))) \<and> table_alive (mgr T)"
proof -
  have "system_ok T" using sys_run_refined [OF assms(3) started_ok [OF assms(1,2)]] by blast
  then have st: "staged T" by (simp add: system_ok_def)
  have "inj_on (\<lambda>b. map_option fd (clients (mgr T) b)) (dom (clients (mgr T)))"
    using stagedD(3) [OF st] by (auto simp: inj_on_def)
  moreover have "table_alive (mgr T)" by (rule stagedD(4) [OF st])
  moreover have "conn_stage T a c" if "clients (mgr T) a = Some c" for c by (rule stagedD(1) [OF st that])
  moreover have "gone T a" if "clients (mgr T) a = None" by (rule stagedD(2) [OF st that])
  ultimately show ?thesis by (cases "clients (mgr T) a") (simp_all add: conn_stage_def gone_def)
qed

theorem connection_stages_witness:
  "\<exists>S tr T. start_system 1 (Some 0) sample_env (new_tcp_manager 48 640 96) = Inr S \<and> sys_run S tr T
     \<and> interest (socket_loop (mgr T) ! 0) 5 \<noteq> None \<and> table_alive (mgr T)
     \<and> inj_on (\<lambda>b. map_option fd (clients (mgr T) b)) (dom (clients (mgr T)))"
proof -
  obtain S m T tr p fl where S: "start_system 1 (Some 0) sample_env (new_tcp_manager 48 640 96) = Inr S"
    "can_start 48 640 96 1 sample_env"
    "possible (sample_schedule m) S" "performs (sample_schedule m) S = Inr T" "sys_run S tr T" "length (socket_loop (mgr T)) = 1"
    "interest (socket_loop (mgr T) ! 0) 5 = Some (p, fl)"
    by (rule sample_opens)
  have "interest (socket_loop (mgr T) ! 0) 5 \<noteq> None" using S(7) by simp
  with connection_stages [OF S(1,2,5), of 0] S(1,5) show ?thesis by blast
qed

text \<open>
  C10: An event finds its connection.  Whenever \<open>epoll\<close> may report an event, for a descriptor registered with a
  loop, the handle it carries exists and leads to a connection that exists, is in the table under this
  descriptor, belongs to this loop and has a message callback; so no event reaches a connection that was removed
  or one whose descriptor was closed and reused.
\<close>

theorem events_reach_live_clients:
  assumes "start_system n cb env (new_tcp_manager bsz csz hsz) = Inr S" and "can_start bsz csz hsz n env"
    and "sys_run S tr T" and "i < length (socket_loop (mgr T))" and "interest (socket_loop (mgr T) ! i) k = Some (p, fl)"
  shows "\<exists>e a c. handles (socket_loop (mgr T) ! i) p = Some e \<and> run_func now ev e = Inr (IO_Call a k ev)
    \<and> clients (mgr T) a = Some c \<and> fd c = k \<and> event_loop c = Some i \<and> client_map (mgr T) k = Some a
    \<and> message_callback c \<noteq> None"
proof -
  have "system_ok T" using sys_run_refined [OF assms(3) started_ok [OF assms(1,2)]] by blast
  from event_owner [OF this assms(4,5)] show ?thesis by (auto simp: attended_def)
qed

theorem events_reach_live_clients_witness:
  "\<exists>S tr T p e a c. start_system 1 (Some 0) sample_env (new_tcp_manager 48 640 96) = Inr S \<and> sys_run S tr T
     \<and> handles (socket_loop (mgr T) ! 0) p = Some e \<and> run_func 1 EPOLLIN e = Inr (IO_Call a 5 EPOLLIN)
     \<and> clients (mgr T) a = Some c \<and> fd c = 5 \<and> client_map (mgr T) 5 = Some a"
proof -
  obtain S m T tr p fl where S: "start_system 1 (Some 0) sample_env (new_tcp_manager 48 640 96) = Inr S"
    "can_start 48 640 96 1 sample_env"
    "possible (sample_schedule m) S" "performs (sample_schedule m) S = Inr T" "sys_run S tr T" "length (socket_loop (mgr T)) = 1"
    "interest (socket_loop (mgr T) ! 0) 5 = Some (p, fl)"
    by (rule sample_opens)
  have "0 < length (socket_loop (mgr T))" using S(6) by simp
  from events_reach_live_clients [OF S(1,2,5) this S(7), of 1 EPOLLIN] S(1,5) show ?thesis by blast
qed

end
