(* ===== verification/Races.thy ===== *)
theory Races
  imports Connection_Steps Tcp_Session Connection_Push
begin

text \<open>
  What the granularity of the system model leaves out.  There each job, event, task and user call is one
  step; here two of them overlap, cut where the code gives up the lock it has taken.  Queueing a packet while
  another thread writes is harmless; two overlaps reach freed memory: \<open>ClientEntity::clear\<close> while \<open>do_write_data\<close> is in \<open>writev\<close>, and the removal of a
  connection between the two halves of \<open>TcpManager::push_send_pack\<close> and \<open>TcpManager::close_client\<close>.
\<close>

section \<open>Which buffers a round of unpacking frees\<close>

lemma each_push_frees:
  "each push_buffer as s = Inr s' \<Longrightarrow> (\<forall>x. x \<in> set as \<or> bufs s x = None \<longrightarrow> bufs s' x = None)"
proof (induction as arbitrary: s)
  case (Cons a as)
  then obtain t where "push_buffer a s = Inr t" "each push_buffer as t = Inr s'" by (auto simp: bind_res_eq_Inr)
  then show ?case using Cons.IH push_buffer_frame [of a s t] by auto
qed simp

lemma clear_frees:
  assumes "clear c s = Inr (c', s')" and "x \<in> set (wait_write_list c)"
  shows "bufs s' x = None"
  using assms each_push_frees by (fastforce simp: clear_def bind_res_eq_Inr)

lemma ensure_cur_waits: "ensure_cur m c s = Inr (a, c', s') \<Longrightarrow> wait_write_list c' = wait_write_list c"
  by (auto simp: ensure_cur_def bind_res_eq_Inr split: option.splits)

lemma absorb_front_waits: "absorb_front a f c s = Inr (c', s') \<Longrightarrow> wait_write_list c' = wait_write_list c"
  by (auto simp: absorb_front_def bind_res_eq_Inr)

text \<open>A round keeps the list of packets being sent, except one that meets a bad length, which frees them.\<close>

definition waits_after :: "verdict \<Rightarrow> client \<Rightarrow> client \<Rightarrow> store \<Rightarrow> bool" where
  "waits_after v c c' s' \<longleftrightarrow>
     (if v = Bad_Len then \<forall>x \<in> set (wait_write_list c). bufs s' x = None
      else wait_write_list c' = wait_write_list c)"

lemma unpack_body_waits:
  assumes "unpack_body len a f c s = Inr (v, c', s')"
  shows "waits_after v c c' s'"
proof (cases "len \<le> 0")
  case True
  then show ?thesis
    using assms clear_frees [of c s _ s'] by (auto simp: unpack_body_def waits_after_def bind_res_eq_Inr)
next
  case False
  show ?thesis
    using assms unfolding unpack_body_def if_not_P [OF False] Let_def
    by (elim bind_resE)
      (simp split: if_splits; (elim bind_resE)?;
        (auto simp: waits_after_def set_update_def split: prod.splits if_splits elim!: bind_resE dest!: absorb_front_waits)?)
qed

lemma unpack_step_waits:
  assumes "unpack_step m c s = Inr (v, c', s')"
  shows "waits_after v c c' s'"
proof -
  obtain a c1 s1 where cur: "ensure_cur m c s = Inr (a, c1, s1)"
    using assms by (auto simp: unpack_step_def bind_res_eq_Inr)
  obtain f c2 where front: "ensure_front c1 = (f, c2)" by (cases "ensure_front c1")
  have w: "wait_write_list c2 = wait_write_list c"
    using ensure_cur_waits [OF cur] front by (auto simp: ensure_front_def Let_def)
  have "(\<exists>len t. unpack_body len a f c2 t = Inr (v, c', s')) \<or> (v = Continue \<and> (\<exists>t. absorb_front a f c2 t = Inr (c', s')))"
    using assms cur front by (auto simp: unpack_step_def bind_res_eq_Inr Let_def split: if_splits)
  then show ?thesis using w by (auto simp: waits_after_def dest!: unpack_body_waits absorb_front_waits)
qed

lemma unpack_loop_waits:
  "unpack_loop m c s = Inr (out, c', s') \<Longrightarrow>
     wait_write_list c' = wait_write_list c \<or> (\<forall>x \<in> set (wait_write_list c). bufs s' x = None)"
proof (induction "length (unpack_list c)" arbitrary: c s rule: less_induct)
  case less
  show ?case
  proof (cases "unpack_list c = []")
    case True
    then have "c' = (if ready_close c then force_close c else c)"
      using less.prems by (subst (asm) unpack_loop.simps) simp
    then show ?thesis by (simp add: force_close_def)
  next
    case False
    then obtain v d t where step: "unpack_step m c s = Inr (v, d, t)"
      using less.prems by (subst (asm) unpack_loop.simps) (auto simp: bind_res_eq_Inr)
    have w: "waits_after v c d t" by (rule unpack_step_waits [OF step])
    have rest: "(case v of Continue \<Rightarrow> unpack_loop m d t | Delivered msg \<Rightarrow> Inr ([msg], d, t) | Bad_Len \<Rightarrow> Inr ([], d, t))
        = Inr (out, c', s')"
      using less.prems False step by (subst (asm) unpack_loop.simps) (auto split: verdict.splits)
    show ?thesis
    proof (cases "v = Continue")
      case True
      then have "length (unpack_list d) < length (unpack_list c)"
        using unpack_step_shrinks False step by blast
      moreover have "unpack_loop m d t = Inr (out, c', s')" using rest True by simp
      ultimately show ?thesis using less.hyps [of d t] w True by (simp add: waits_after_def)
    qed (use rest w in \<open>auto simp: waits_after_def split: verdict.splits\<close>)
  qed
qed

lemma handle_unpack_waits:
  assumes "handle_unpack m c s = Inr (out, c', s')"
  shows "wait_write_list c' = wait_write_list c \<or> (\<forall>x \<in> set (wait_write_list c). bufs s' x = None)"
  using assms
  by (auto simp: handle_unpack_def do_handle_unpack_def finish_update_def force_close_def Let_def
      dest!: unpack_loop_waits split: if_splits)

section \<open>Queueing while another thread writes\<close>

text \<open>
  \<open>push_send_pack\<close> takes only \<open>write_mutex_\<close>, so it can come between the critical section of
  \<open>do_write_data\<close> and its end.  This overlap is harmless: the bytes written are the ones queued when the
  array was built, and the new packet stays queued behind the rest.
\<close>

lemma iov_vec_same: "(\<forall>x \<in> set as. bufs s' x = bufs s x) \<Longrightarrow> iov_vec as s' = iov_vec as s"
  by (induction as) (simp_all add: get_buf_def)

lemma end_write_ok:
  assumes ok: "client_ok c s" and small: "\<forall>x \<in> set (wait_write_list c). length (view s x) < 2 ^ 31"
    and n: "n \<le> length (concat (map (view s) (wait_write_list c)))" "n \<le> 0x7ffff000"
  shows "\<exists>c' s' l'. end_write (Wrote n) v c s l = Inr (0, c', s', l')
    \<and> unsent c' s' = drop n (concat (map (view s) (wait_write_list c))) @ concat (map (view s) (wait_pack_list c))"
proof -
  have d: "store_ok s" "distinct (wait_write_list c)" "set (wait_write_list c) \<subseteq> dom (bufs s)"
      "set (wait_pack_list c) \<subseteq> dom (bufs s) - set (wait_write_list c)"
    using ok by (auto simp: client_ok_def owned_def)
  obtain as s' where cons: "consume_sent (int n) (wait_write_list c) s = Inr (as, s')"
      "concat (map (view s') as) = drop n (concat (map (view s) (wait_write_list c)))"
      "same_outside (set (wait_write_list c)) s s'"
    using consume_sent_ok [OF d(1-3) small n(1)] by blast
  have packs: "concat (map (view s') (wait_pack_list c)) = concat (map (view s) (wait_pack_list c))"
    using cons(3) d(4) by (intro view_frame) (auto simp: same_outside_def)
  let ?w = "if int32 (int n) < total_bytes v then watch_write 1 c l else (c, l)"
  obtain d x where w: "?w = (d, x)" by (cases ?w)
  have "wait_write_list (fst ?w) = wait_write_list c" "wait_pack_list (fst ?w) = wait_pack_list c"
    by (simp_all add: watch_write_on)
  then have w: "?w = (d, x)" "wait_write_list d = wait_write_list c" "wait_pack_list d = wait_pack_list c"
    using w by simp_all
  have "int32 (int n) = int n" using n(2) by (simp add: size_arith)
  then have "end_write (Wrote n) v c s l = Inr (0, if ready_close (d\<lparr>wait_write_list := as\<rparr>)
      then force_close (d\<lparr>wait_write_list := as\<rparr>) else d\<lparr>wait_write_list := as\<rparr>, s', x)"
    using w cons(1) by (simp add: end_write_def Let_def)
  then show ?thesis using w(3) cons(2) packs by (auto simp: unsent_def force_close_def)
qed

theorem push_during_write:
  assumes ok: "client_ok c s" and small: "small_packs c s" and m: "malloc_ok m (bpool s)"
    and src: "bufs s src = Some b" and n: "n \<le> length (unsent c s)" "n \<le> 0x7ffff000" and "\<not> ready_close c"
  shows "\<exists>v c1 c2 s2 c3 s3 l3. begin_write c s = Inr (v, c1) \<and> push_send_pack m src c1 s = Inr (0, c2, s2)
    \<and> writev (Wrote n) v s2 = Inr (take n (unsent c s)) \<and> end_write (Wrote n) v c2 s2 l = Inr (0, c3, s3, l3)
    \<and> unsent c3 s3 = drop n (unsent c s) @ contents b"
proof -
  let ?ws = "wait_write_list c @ wait_pack_list c"
  obtain v where v: "begin_write c s = Inr (v, spliced c)" "iov_vec ?ws s = Inr v"
    by (rule begin_write_spliced [OF ok])
  have opn: "\<not> ready_close (spliced c)" using assms(7) by (simp add: spliced_def ready_close_def finish_write_update_def)
  obtain a t where p: "push_send_pack m src (spliced c) s
      = Inr (0, set_write_update ((spliced c)\<lparr>wait_pack_list := wait_pack_list (spliced c) @ [a]\<rparr>), t)"
    "client_ok ((spliced c)\<lparr>wait_pack_list := wait_pack_list (spliced c) @ [a]\<rparr>) t"
    "view t a = contents b" "\<forall>x \<in> dom (bufs s). bufs t x = bufs s x"
    by (rule push_send_pack_ok [OF spliced_ok(1) [OF ok] m src opn])
  let ?c2 = "set_write_update ((spliced c)\<lparr>wait_pack_list := wait_pack_list (spliced c) @ [a]\<rparr>)"
  have lists: "wait_write_list ?c2 = ?ws" "wait_pack_list ?c2 = [a]"
    by (simp_all add: set_write_update_def spliced_def)
  have "set ?ws \<subseteq> dom (bufs s)" using ok by (auto simp: client_ok_def owned_def)
  then have same: "\<forall>x \<in> set ?ws. bufs t x = bufs s x" using p(4) by blast
  have old: "concat (map (view t) ?ws) = unsent c s" using view_frame [OF same] by (simp add: unsent_def)
  have small': "\<forall>x \<in> set (wait_write_list ?c2). length (view t x) < 2 ^ 31"
    using small same unfolding lists small_packs_def by (auto simp: view_def)
  have ok2: "client_ok ?c2 t" using p(2) by (simp add: set_write_update_def client_ok_frame)
  obtain c3 s3 l3 where e: "end_write (Wrote n) v ?c2 t l = Inr (0, c3, s3, l3)"
      "unsent c3 s3 = drop n (unsent c s) @ contents b"
    using end_write_ok [OF ok2 small' _ n(2), of v l] n(1) p(3) unfolding lists old by auto
  have "store_ok t" using ok2 by (simp add: client_ok_def)
  moreover have "set ?ws \<subseteq> dom (bufs t)" using \<open>set ?ws \<subseteq> dom (bufs s)\<close> same by (auto simp: domIff)
  ultimately obtain v' where "iov_vec ?ws t = Inr v'" "iov_bytes v' t = Inr (concat (map (view t) ?ws))"
    by (rule iov_vec_ok)
  then have "iov_bytes v t = Inr (unsent c s)" using v(2) iov_vec_same [OF same] old by simp
  then have "writev (Wrote n) v t = Inr (take n (unsent c s))" using n(2) by (simp add: writev_def check_def)
  with v(1) p(1) e show ?thesis by blast
qed

theorem push_during_write_witness:
  "\<exists>v c1 c2 s2 c3 s3 l3. begin_write tx_client rx_store = Inr (v, c1) \<and> push_send_pack 200 100 c1 rx_store = Inr (0, c2, s2)
    \<and> writev (Wrote 5) v s2 = Inr [0, 0, 0, 0, 2] \<and> end_write (Wrote 5) v c2 s2 tx_loop = Inr (0, c3, s3, l3)
    \<and> unsent c3 s3 = [7, 8, 0, 0, 0, 0, 0]"
proof -
  have "bufs rx_store 100 = Some (rx_buf [0, 0, 0])" "\<not> ready_close tx_client" "contents (rx_buf [0, 0, 0]) = [0, 0, 0]"
    by (simp_all add: rx_store_def tx_client_def rx_client_def new_client_def ready_close_def rx_buf_def contents_def)
  then show ?thesis
    using push_during_write [OF tx_client_ok(1,3) rx_malloc, of 100 _ 5 tx_loop] by (simp add: tx_client_ok(2))
qed

section \<open>Freed buffers in the array\<close>

lemma iov_bytes_freed:
  assumes "iov_vec as s = Inr v" and "as \<noteq> []" and "\<forall>x \<in> set as. bufs s' x = None"
  shows "iov_bytes v s' = Inl Use_After_Free"
  using assms by (cases as) (auto simp: bind_res_eq_Inr get_buf_def)

section \<open>Properties\<close>

text \<open>
  C22: \<open>clear\<close> gives the packets being sent back to the pool without the lock that \<open>do_write_data\<close> holds:
  when a bad length is met between the building of the array and \<open>writev\<close>, whose array was built from at
  least one packet, \<open>writev\<close> reads the memory of buffers that are freed.
\<close>

theorem clear_races_writing:
  assumes ok: "client_ok c s" and "\<not> closed c" and k: "message_callback c = Some k"
    and m: "cur_unpack c = None \<Longrightarrow> malloc_ok m (bpool s)"
    and bad: "parse_packet (pend c s) = Bad_Length" and some: "wait_write_list c @ wait_pack_list c \<noteq> []"
    and n: "n \<le> 0x7ffff000"
  shows "\<exists>v c1 c2 s2. begin_write c s = Inr (v, c1) \<and> handle_unpack m c1 s = Inr ([], c2, s2)
    \<and> writev (Wrote n) v s2 = Inl Use_After_Free"
proof -
  have sub: "store_ok s" "set (wait_write_list c @ wait_pack_list c) \<subseteq> dom (bufs s)"
    using ok by (auto simp: client_ok_def owned_def)
  let ?c1 = "(finish_write_update c)\<lparr>wait_write_list := wait_write_list c @ wait_pack_list c, wait_pack_list := []\<rparr>"
  obtain v where v: "begin_write c s = Inr (v, ?c1)" by (rule begin_write_ok [OF sub])
  then have vec: "iov_vec (wait_write_list c @ wait_pack_list c) s = Inr v"
    by (auto simp: begin_write_def bind_res_eq_Inr finish_write_update_def)
  have ok1: "client_ok ?c1 s" and p1: "pend ?c1 s = pend c s"
    using ok by (auto simp: client_ok_def owned_def cur_list_def finish_write_update_def pend_def)
  obtain out c2 s2 where run: "do_handle_unpack m ?c1 s = Inr (out, c2, s2)"
    and r: "unpack_result k ((finish_update ?c1)\<lparr>unpack_list := unpack_list ?c1 @ recv_list ?c1, recv_list := []\<rparr>) s out c2 s2"
    using do_handle_unpack_ok [OF ok1, of m k] m k by (auto simp: finish_write_update_def)
  have "pend ((finish_update ?c1)\<lparr>unpack_list := unpack_list ?c1 @ recv_list ?c1, recv_list := []\<rparr>) s = pend c s"
    using p1 by (simp add: pend_def cur_list_def finish_update_def)
  then have c2: "out = []" "wait_write_list c2 = []"
    using r bad by (auto simp: unpack_result_def force_close_def close_read_def)
  have run': "handle_unpack m ?c1 s = Inr ([], c2, s2)"
    using run c2(1) assms(2) by (simp add: handle_unpack_def finish_write_update_def)
  from handle_unpack_waits [OF run'] have "\<forall>x \<in> set (wait_write_list c @ wait_pack_list c). bufs s2 x = None"
    using some c2(2) by auto
  then have "writev (Wrote n) v s2 = Inl Use_After_Free"
    using iov_bytes_freed [OF vec some] n by (simp add: writev_def check_def)
  with v run' show ?thesis by blast
qed

theorem clear_races_writing_witness:
  "\<exists>c s v c1 c2 s2. push_send_pack 200 116 rx_cut_client rx_cut_store = Inr (0, c, s)
    \<and> begin_write c s = Inr (v, c1) \<and> handle_unpack 200 c1 s = Inr ([], c2, s2)
    \<and> writev (Wrote 4) v s2 = Inl Use_After_Free"
proof -
  have k: "message_callback rx_cut_client = Some 0" "cur_unpack rx_cut_client \<noteq> None" "\<not> closed rx_cut_client"
    "\<not> ready_close rx_cut_client"
    by (simp_all add: rx_cut_client_def rx_client_def new_client_def ready_close_def)
  have mem: "malloc_ok 200 (bpool rx_cut_store)" "bufs rx_cut_store 116 = Some (rx_buf [0, 0, 0, 0])"
    using rx_malloc by (simp_all add: rx_cut_store_def rx_store_def)
  obtain a t where r: "push_send_pack 200 116 rx_cut_client rx_cut_store
      = Inr (0, set_write_update (rx_cut_client\<lparr>wait_pack_list := wait_pack_list rx_cut_client @ [a]\<rparr>), t)"
      "client_ok (rx_cut_client\<lparr>wait_pack_list := wait_pack_list rx_cut_client @ [a]\<rparr>) t"
      "pend (rx_cut_client\<lparr>wait_pack_list := wait_pack_list rx_cut_client @ [a]\<rparr>) t = pend rx_cut_client rx_cut_store"
    by (rule push_send_pack_ok [OF rx_cut_ok mem k(4)])
  let ?c = "set_write_update (rx_cut_client\<lparr>wait_pack_list := wait_pack_list rx_cut_client @ [a]\<rparr>)"
  have "parse_packet [0, 0, 0, 0, 0, 0, 0] = Bad_Length" by code_simp
  then have "client_ok ?c t" "parse_packet (pend ?c t) = Bad_Length"
    using r(2,3) by (simp_all only: set_write_update_def client_ok_frame rx_cut_pend)
  moreover have "\<not> closed ?c" "message_callback ?c = Some 0" "cur_unpack ?c \<noteq> None" "wait_pack_list ?c = wait_pack_list rx_cut_client @ [a]"
    using k by (simp_all add: set_write_update_def)
  ultimately show ?thesis
    using clear_races_writing [of ?c t 0 200 4] r(1) by fastforce
qed

text \<open>
  \<open>push_send_pack\<close> and \<open>close_client\<close> look the client up under the lock of the table and use the pointer
  after giving the lock up: when the main thread removes the connection in between, both use the
  destroyed client.
\<close>

theorem late_push_uses_freed_client:
  assumes "push_target src s = Inr (Some a, s1)" and "client_map s1 n = Some a"
    and "do_remove_client n s1 = Inr s2"
  shows "push_found m src a s2 = Inl Use_After_Free \<and> close_found a s2 = Inl Use_After_Free"
proof -
  have "clients s2 a = None"
    using assms(2,3) by (auto simp: do_remove_client_def push_client_def bind_res_eq_Inr)
  then show ?thesis by (simp add: push_found_def close_found_def get_object_def)
qed

theorem late_push_uses_freed_client_witness:
  "\<exists>s1 s2. push_target 700 (tm_sample\<lparr>buffer_pool := \<lparr>bpool = empty_pool 48,
        bufs = [700 \<mapsto> rx_buf (be_bytes (1 :: 64 word))]\<rparr>\<rparr>) = Inr (Some 300, s1)
    \<and> do_remove_client 5 s1 = Inr s2 \<and> push_found 1 700 300 s2 = Inl Use_After_Free"
proof -
  let ?b = "rx_buf (be_bytes (1 :: 64 word))"
  let ?s = "tm_sample\<lparr>buffer_pool := \<lparr>bpool = empty_pool 48, bufs = [700 \<mapsto> ?b]\<rparr>\<rparr>"
  let ?s1 = "tm_sample\<lparr>buffer_pool := \<lparr>bpool = empty_pool 48, bufs = [700 \<mapsto> skip 8 ?b]\<rparr>\<rparr>"
  have ok: "buffer_ok ?b" by (simp add: rx_buf_def buffer_ok_def vec_max_def)
  have c: "contents ?b = be_bytes (1 :: 64 word)" by (simp add: rx_buf_def contents_def)
  then have "readInt64 ?b = Inr (1, skip 8 ?b)" using read_skips(4) [OF ok] by simp
  then have found: "push_target 700 ?s = Inr (Some 300, ?s1)"
    by (simp add: push_target_def get_fd_def get_client_def Let_def)
  obtain s2 where gone: "do_remove_client 5 ?s1 = Inr s2"
    by (simp add: do_remove_client_def push_client_def get_object_def destroy_client_def clear_def tm_client_def
        new_client_def)
  have "client_map ?s1 5 = Some 300" by simp
  from late_push_uses_freed_client [OF found this gone] found gone show ?thesis by blast
qed

end
