(* ===== verification/Buffer_Safety.thy ===== *)
theory Buffer_Safety
  imports Buffer
begin

text \<open>
  Memory safety of \<open>Buffer\<close>: which sequences of its operations stay inside the vector, and why the
  caller's side of the bargain (\<open>proper_op\<close>, fresh targets for strings) is needed.
\<close>

section \<open>Sequences of operations\<close>

datatype buffer_op = Write field | Append "byte list" | Peek kind | Read kind | Ensure nat
  | Seek_Read nat | Seek_Write nat | Rewind

fun peek_field :: "kind \<Rightarrow> buffer \<Rightarrow> fault + field" where
  "peek_field K8 b = bind_res (peekInt8 b) (\<lambda>d. Inr (F8 d))"
| "peek_field K16 b = bind_res (peekInt16 b) (\<lambda>d. Inr (F16 d))"
| "peek_field K32 b = bind_res (peekInt32 b) (\<lambda>d. Inr (F32 d))"
| "peek_field K64 b = bind_res (peekInt64 b) (\<lambda>d. Inr (F64 d))"
| "peek_field KString b = bind_res (peekString [] b) (\<lambda>s. Inr (FString s))"

text \<open>
  Strings are read into empty variables: a target that holds something can break the order of the
  indices (\<open>readString_stale_target\<close> in \<open>Buffer\<close>).
\<close>

fun apply_op :: "buffer_op \<Rightarrow> buffer \<Rightarrow> fault + buffer" where
  "apply_op (Write f) b = write_field f b"
| "apply_op (Append ds) b = append_bytes ds b"
| "apply_op (Peek k) b = bind_res (peek_field k b) (\<lambda>_. Inr b)"
| "apply_op (Read k) b = bind_res (read_field k b) (\<lambda>(_, b). Inr b)"
| "apply_op (Ensure n) b = ensureWriteable n b"
| "apply_op (Seek_Read n) b = set_read_index n b"
| "apply_op (Seek_Write n) b = set_write_index n b"
| "apply_op Rewind b = Inr (reset b)"

text \<open>
  What a caller has to see to: lengths are those of objects in memory, and the write index is not set
  below the read index, which \<open>set_write_index\<close> does not check (\<open>write_index_below_read\<close> below).
\<close>

fun proper_op :: "buffer_op \<Rightarrow> buffer \<Rightarrow> bool" where
  "proper_op (Write (FString s)) b = (length s \<le> vec_max)"
| "proper_op (Append ds) b = (length ds \<le> vec_max)"
| "proper_op (Ensure n) b = (n \<le> vec_max)"
| "proper_op (Seek_Write n) b = (read_index b \<le> n)"
| "proper_op _ b = True"

fun proper_run :: "buffer_op list \<Rightarrow> buffer \<Rightarrow> bool" where
  "proper_run [] b = True"
| "proper_run (p # ps) b = (proper_op p b \<and> (case apply_op p b of Inl _ \<Rightarrow> True | Inr b \<Rightarrow> proper_run ps b))"

section \<open>Every operation is safe\<close>

text \<open>A result is safe when it is a well-formed buffer, a failed assertion or the vector's exception.\<close>

definition safe :: "fault + buffer \<Rightarrow> bool" where
  "safe r \<longleftrightarrow> (case r of Inr b \<Rightarrow> buffer_ok b | Inl e \<Rightarrow> e = Assert_Fail \<or> e = Length_Error)"

lemma safe_simps [simp]: "safe (Inr b) = buffer_ok b" "safe (Inl Assert_Fail)" "safe (Inl Length_Error)"
  by (simp_all add: safe_def)

lemma safe_bind: "safe r \<Longrightarrow> (\<And>b. r = Inr b \<Longrightarrow> buffer_ok b \<Longrightarrow> safe (f b)) \<Longrightarrow> safe (bind_res r f)"
  by (cases r) (auto simp: safe_def)

lemma safe_append: "buffer_ok b \<Longrightarrow> length ds \<le> vec_max \<Longrightarrow> safe (append_bytes ds b)"
proof (cases "fits ds b")
  case True
  assume "buffer_ok b"
  then obtain b' where "append_bytes ds b = Inr b'" "buffer_ok b'" using append_bytes_spec True by blast
  then show ?thesis by simp
qed (simp add: append_bytes_too_long)

lemma safe_write_field:
  assumes "buffer_ok b" and "proper_op (Write f) b"
  shows "safe (write_field f b)"
proof (cases f)
  case (FString s)
  have "safe (writeInt32 w b)" for w
    using assms(1) by (simp add: writeInt32_def safe_append vec_max_def)
  then show ?thesis
    using assms FString
    by (auto simp: writeString_def Let_def min_le_iff_disj intro!: safe_bind safe_append)
qed (use assms(1) in \<open>simp_all add: writeInt8_def writeInt16_def writeInt32_def writeInt64_def safe_append vec_max_def\<close>)

lemma peekString_cases:
  assumes "buffer_ok b"
  obtains "peekString [] b = Inl Assert_Fail"
    | s where "peekString [] b = Inr s" "4 + length s \<le> length (contents b)"
proof (cases "4 \<le> length (contents b)")
  case False
  then show thesis using that(1) assms by (simp add: peekString_def peekInt32_ok)
next
  case True
  let ?w = "from_be (take 4 (contents b)) :: 32 word"
  consider "?w \<le> 0" | "\<not> ?w \<le> 0" "length (contents b) < 4 + unat ?w" | "\<not> ?w \<le> 0" "4 + unat ?w \<le> length (contents b)"
    by linarith
  then show thesis
  proof cases
    case 1
    then show thesis using that(2) [of "[]"] assms True by (simp add: peekString_def peekInt32_ok)
  next
    case 2
    then show thesis
      using that(1) assms True by (simp add: peekString_def peekInt32_ok is_readable_def readable_eq)
  next
    case 3
    then show thesis
      using that(2) [of "take (unat ?w) (drop 4 (contents b))"] assms True mem_read_contents [OF assms 3(2)]
      by (simp add: peekString_def peekInt32_ok is_readable_def readable_eq)
  qed
qed

lemma safe_skip:
  assumes "buffer_ok b" and "n \<le> length (contents b) \<Longrightarrow> r = Inr (d, skip n b)"
    and "length (contents b) < n \<Longrightarrow> r = Inl Assert_Fail"
  shows "safe (bind_res (bind_res r (\<lambda>(d, b). Inr (F d, b))) (\<lambda>(_, b). Inr b))"
  using assms skip_ok(1) [OF assms(1), of n] by (cases "n \<le> length (contents b)") simp_all

lemma safe_read_field:
  assumes "buffer_ok b"
  shows "safe (bind_res (read_field k b) (\<lambda>(_, b). Inr b))"
proof (cases k)
  case KString
  show ?thesis
  proof (rule peekString_cases [OF assms])
    fix s assume s: "peekString [] b = Inr s" "4 + length s \<le> length (contents b)"
    then have "readString [] b = Inr (s, skip (4 + length s) b)"
      using skip_ok(5) [OF assms s(2)] by (simp add: readString_def skip_def)
    then show ?thesis using KString skip_ok(1) [OF assms s(2)] by simp
  qed (simp add: KString readString_def)
qed (simp_all only: read_field.simps safe_skip [OF assms read_skips(1) [OF assms] read_short(1) [OF assms]]
    safe_skip [OF assms read_skips(2) [OF assms] read_short(2) [OF assms]]
    safe_skip [OF assms read_skips(3) [OF assms] read_short(3) [OF assms]]
    safe_skip [OF assms read_skips(4) [OF assms] read_short(4) [OF assms]])

lemma safe_peek_field:
  assumes "buffer_ok b"
  shows "safe (bind_res (peek_field k b) (\<lambda>_. Inr b))"
proof (cases k)
  case KString
  then show ?thesis by (rule_tac peekString_cases [OF assms]) (simp_all add: assms)
qed (simp_all add: peekInt8_ok peekInt16_ok peekInt32_ok peekInt64_ok assms)

lemma apply_op_safe:
  assumes "buffer_ok b" and "proper_op p b"
  shows "safe (apply_op p b)"
proof (cases p)
  case (Ensure n)
  then show ?thesis using assms by (auto simp: ensureWriteable_ok buffer_ok_def)
next
  case (Seek_Read n)
  then show ?thesis using assms by (simp add: set_read_index_def check_def buffer_ok_def)
next
  case (Seek_Write n)
  then show ?thesis using assms by (simp add: set_write_index_def check_def buffer_ok_def)
qed (use assms in \<open>simp_all add: safe_append safe_write_field safe_read_field safe_peek_field\<close>)

section \<open>Property\<close>

text \<open>
  \<open>set_write_index\<close> lets the write index drop below the read index: the buffer then claims to hold
  almost \<open>2 ^ 64\<close> readable bytes, the assertion of every peek passes, and the peek of an integer that
  does not fit behind the read index reads past the end of the vector.
\<close>

theorem write_index_below_read:
  assumes "buffer_ok b" and "n < read_index b"
  shows "\<exists>b'. set_write_index n b = Inr b' \<and> \<not> buffer_ok b' \<and> readableBytes b' = 2 ^ 64 - (read_index b - n)
    \<and> (length (buff b) < read_index b + 8 \<longrightarrow> peekInt64 b' = Inl Out_Of_Bounds)"
proof -
  have bounds: "read_index b \<le> vec_max" "n \<le> length (buff b)"
    using assms buffer_okD [OF assms(1)] by simp_all
  have "readableBytes (b\<lparr>write_index := n\<rparr>) = 2 ^ 64 - (read_index b - n)"
    using assms(2) bounds(1) by (simp add: readableBytes_def size_sub_wraps vec_max_def)
  moreover have "8 \<le> 2 ^ 64 - (read_index b - n)" using bounds(1) by (simp add: vec_max_def)
  ultimately show ?thesis
    using assms(2) bounds(2)
    by (auto simp: set_write_index_def check_def buffer_ok_def peekInt64_def peek_raw_def is_readable_def mem_read_def)
qed

theorem write_index_below_read_witness:
  "\<exists>b'. set_write_index 1 \<lparr>buff = [7, 8, 9], read_index = 2, write_index = 3\<rparr> = Inr b'
    \<and> readableBytes b' = 2 ^ 64 - 1 \<and> peekInt64 b' = Inl Out_Of_Bounds"
  using write_index_below_read [of "\<lparr>buff = [7, 8, 9], read_index = 2, write_index = 3\<rparr>" 1]
  by (auto simp add: buffer_ok_def vec_max_def)

text \<open>
  C16: A buffer never touches memory outside its vector, whatever the sequence of writes, appends,
  peeks, reads, seeks, growths and resets, as long as its caller keeps three rules the class does not
  check: \<open>set_write_index\<close> is not called with an index below the read index, strings are read
  into empty variables, and no length exceeds that of an object in memory.  After every such
  sequence the indices are in order and within the vector, or it has ended in a failed
  assertion or in the vector's length error.  The first two rules are needed:
  \<open>write_index_below_read\<close> above and \<open>readString_stale_target\<close> show what happens without them.
\<close>

theorem buffer_memory_safe:
  assumes "n \<le> vec_max" and "proper_run ps (new_buffer n)"
  shows "case each apply_op ps (new_buffer n) of
      Inr b \<Rightarrow> read_index b \<le> write_index b \<and> write_index b \<le> length (buff b) \<and> length (buff b) \<le> vec_max
    | Inl e \<Rightarrow> e = Assert_Fail \<or> e = Length_Error"
proof -
  have "safe (each apply_op ps b)" if "buffer_ok b" "proper_run ps b" for b
    using that
  proof (induction ps arbitrary: b)
    case (Cons p ps)
    have "safe (apply_op p b)" using Cons.prems by (intro apply_op_safe) simp_all
    then show ?case using Cons by (auto intro!: safe_bind)
  qed simp
  then have "safe (each apply_op ps (new_buffer n))" using assms by simp
  then show ?thesis by (auto simp: safe_def buffer_ok_def split: sum.splits)
qed

lemma proper_runI: "list_all (\<lambda>p. \<forall>b. proper_op p b) ps \<Longrightarrow> proper_run ps b"
  by (induction ps arbitrary: b) (auto split: sum.splits)

theorem buffer_memory_safe_witness:
  "proper_run [Append [1, 2, 3], Ensure 40, Read K16, Seek_Read 1, Read K32, Rewind] (new_buffer 2)
   \<and> (case each apply_op [Append [1, 2, 3], Ensure 40, Read K16, Seek_Read 1, Read K32, Rewind] (new_buffer 2) of
        Inr b \<Rightarrow> read_index b \<le> write_index b \<and> write_index b \<le> length (buff b) \<and> length (buff b) \<le> vec_max
      | Inl e \<Rightarrow> e = Assert_Fail \<or> e = Length_Error)"
proof
  show run: "proper_run [Append [1, 2, 3], Ensure 40, Read K16, Seek_Read 1, Read K32, Rewind] (new_buffer 2)"
    by (intro proper_runI) (simp only: list.pred_inject, intro conjI allI, simp_all add: vec_max_def)
  have n: "(2 :: nat) \<le> vec_max" by (simp add: vec_max_def)
  from buffer_memory_safe [OF n run]
  show "case each apply_op [Append [1, 2, 3], Ensure 40, Read K16, Seek_Read 1, Read K32, Rewind] (new_buffer 2) of
      Inr b \<Rightarrow> read_index b \<le> write_index b \<and> write_index b \<le> length (buff b) \<and> length (buff b) \<le> vec_max
    | Inl e \<Rightarrow> e = Assert_Fail \<or> e = Length_Error" .
qed

end
