(* ===== verification/Manager_Stop.thy ===== *)
theory Manager_Stop
  imports Connection_Table
begin

text \<open>Stopping a \<open>TcpManager\<close> and starting it again.\<close>

section \<open>Stopping\<close>

lemma push_sizes: "block_size (pool_push a P) = block_size P" "elem_size (pool_push a P) = elem_size P"
  by (simp_all add: pool_push_def split: option.split)

lemma fold_push_sizes [simp]:
  "block_size (fold pool_push hs P) = block_size P" "elem_size (fold pool_push hs P) = elem_size P"
  by (induction hs arbitrary: P) (simp_all add: push_sizes)

text \<open>What stopping the socket loops may change.\<close>

definition stopping :: "tcp_manager \<Rightarrow> tcp_manager \<Rightarrow> bool" where
  "stopping s s' \<longleftrightarrow> (\<exists>ws P. s' = s\<lparr>handle_pool := P, socket_loop := ws\<rparr>
     \<and> length ws = length (socket_loop s) \<and> (\<forall>w \<in> set ws. em_ok w)
     \<and> block_size P = block_size (handle_pool s) \<and> elem_size P = elem_size (handle_pool s))"

lemma em_ok_recycled [simp]: "em_ok (w\<lparr>recycled := rs\<rparr>) = em_ok w"
  by (simp add: em_ok_def table_ok_def)

lemma stop_loop_em_ok: "em_ok w \<Longrightarrow> stop_loop w = Inr w' \<Longrightarrow> em_ok w'"
  using stop_loop_ok [of w] by (auto simp: em_ok_def table_ok_def)

lemma stop_loops:
  assumes "\<forall>w \<in> set (socket_loop s). em_ok w" and "\<forall>i \<in> set js. i < length (socket_loop s)"
  shows "\<exists>s'. each (\<lambda>i s. bind_res (loop_at i s) (\<lambda>w. bind_res (stop_loop w) (\<lambda>w. Inr (put_loop i w s)))) js s
    = Inr s' \<and> stopping s s'"
proof (rule each_inv)
  show "stopping s s" using assms(1) unfolding stopping_def
    by (intro exI [of _ "socket_loop s"] exI [of _ "handle_pool s"]) simp
next
  fix i t assume i: "i \<in> set js" and "stopping s t"
  then obtain ws P where t: "t = s\<lparr>handle_pool := P, socket_loop := ws\<rparr>"
      "length ws = length (socket_loop s)" "\<forall>w \<in> set ws. em_ok w"
      "block_size P = block_size (handle_pool s)" "elem_size P = elem_size (handle_pool s)"
    unfolding stopping_def by blast
  have il: "i < length ws" using i assms(2) t(2) by simp
  then have "em_ok (ws ! i)" using t(3) by simp
  then obtain w' where w': "stop_loop (ws ! i) = Inr w'" "em_ok w'"
    using stop_loop_ok stop_loop_em_ok by blast
  have "\<forall>w \<in> set (ws[i := w'\<lparr>recycled := []\<rparr>]). em_ok w"
    using t(3) w'(2) set_update_subset_insert [of ws i "w'\<lparr>recycled := []\<rparr>"] by auto
  then have "stopping s (put_loop i w' t)"
    unfolding stopping_def put_loop_eq t(1)
    by (intro exI [of _ "ws[i := w'\<lparr>recycled := []\<rparr>]"] exI [of _ "fold pool_push (recycled w') P"]) (simp add: t)
  then show "\<exists>s'. bind_res (loop_at i t) (\<lambda>w. bind_res (stop_loop w) (\<lambda>w. Inr (put_loop i w t))) = Inr s'
      \<and> stopping s s'"
    using il w'(1) by (simp add: loop_at_def t(1))
qed

lemma tm_stop_ok:
  assumes "m_running s" and "em_ok (acceptor_loop s)" and "\<forall>w \<in> set (socket_loop s). em_ok w"
    and "event_size s = length (socket_loop s)"
  shows "\<exists>s'. tm_stop s = Inr s' \<and> \<not> m_running s' \<and> m_init s' = m_init s \<and> clients s' = Map.empty
    \<and> client_map s' = Map.empty \<and> connect_map s' = Map.empty \<and> bufs (buffer_pool s') = Map.empty
    \<and> closed_fds s' = closed_fds s \<and> write_list (main_thread s') = write_list (main_thread s)
    \<and> read_list (main_thread s') = read_list (main_thread s) \<and> m_callback s' = m_callback s
    \<and> em_quit (acceptor_loop s') \<and> handler_map (acceptor_loop s') = Map.empty
    \<and> loop_functions_read (acceptor_loop s') = [] \<and> loop_functions_write (acceptor_loop s') = []
    \<and> block_list (handle_pool s') = [] \<and> block_size (handle_pool s') = block_size (handle_pool s)
    \<and> elem_size (handle_pool s') = elem_size (handle_pool s)"
proof -
  let ?s = "s\<lparr>m_running := False, main_thread := joined_main (main_thread s)\<rparr>"
  obtain w where w: "stop_loop (acceptor_loop s) = Inr w" "em_quit w" "handler_map w = Map.empty"
      "loop_functions_read w = []" "loop_functions_write w = []"
    using stop_loop_ok [OF assms(2)] by auto
  let ?t = "put_acceptor w ?s"
  have "\<exists>t'. each (\<lambda>i s. bind_res (loop_at i s) (\<lambda>w. bind_res (stop_loop w) (\<lambda>w. Inr (put_loop i w s))))
      [0 ..< event_size s] ?t = Inr t' \<and> stopping ?t t'"
    using assms(3,4) by (intro stop_loops) (simp_all add: put_acceptor_eq)
  then obtain t' where t': "each (\<lambda>i s. bind_res (loop_at i s) (\<lambda>w. bind_res (stop_loop w) (\<lambda>w. Inr (put_loop i w s))))
      [0 ..< event_size s] ?t = Inr t'" "stopping ?t t'"
    by blast
  have main: "write_list (joined_main t) = write_list t" "read_list (joined_main t) = read_list t" for t
    by (simp_all add: joined_main_def stop_request_def wakeup_def)
  have "event_size ?t = event_size s" by (simp add: put_acceptor_eq)
  then show ?thesis
    using assms(1) w t' main unfolding tm_stop_def stopping_def
    by (auto simp: Let_def put_acceptor_eq free_all_def)
qed

lemma start_send_timer_quit:
  assumes "start_send_timer env s = Inr s'" and "em_quit (acceptor_loop s)"
  shows "loop_functions_write (acceptor_loop s') = loop_functions_write (acceptor_loop s)
    \<and> loop_functions_read (acceptor_loop s') = loop_functions_read (acceptor_loop s)
    \<and> handler_map (acceptor_loop s') = handler_map (acceptor_loop s) \<and> main_thread s' = main_thread s
    \<and> event_size s' = event_size s \<and> socket_loop s' = socket_loop s"
  using assms
  by (auto simp: start_send_timer_def pop_handle_def offer_def add_handle_def put_acceptor_eq push_handle_def
      Let_def elim!: bind_resE split: prod.splits if_splits)

text \<open>
  After a stop, a start reports success although nothing will happen any more: the send timer is
  neither registered nor queued for registration, because the acceptor loop still counts as stopped
  when it is offered.  The stop itself forgets all clients without closing their descriptors, and the
  tasks queued for the main thread survive it.
\<close>

theorem restart_without_send_timer:
  assumes "m_running s" and "em_ok (acceptor_loop s)" and "\<forall>w \<in> set (socket_loop s). em_ok w"
    and "event_size s = length (socket_loop s)" and "tm_stop s = Inr s1" and "tm_start env s1 = Inr (r, s2)"
    and "m_init s"
  shows "r = 0 \<and> handler_map (acceptor_loop s2) = Map.empty \<and> loop_functions_write (acceptor_loop s2) = []
    \<and> loop_functions_read (acceptor_loop s2) = [] \<and> \<not> em_quit (acceptor_loop s2)
    \<and> closed_fds s1 = closed_fds s \<and> clients s1 = Map.empty
    \<and> write_list (main_thread s2) = write_list (main_thread s) \<and> t_running (main_thread s2)"
proof -
  have s1: "\<not> m_running s1" "m_init s1" "em_quit (acceptor_loop s1)" "handler_map (acceptor_loop s1) = Map.empty"
      "loop_functions_read (acceptor_loop s1) = []" "loop_functions_write (acceptor_loop s1) = []"
      "write_list (main_thread s1) = write_list (main_thread s)" "closed_fds s1 = closed_fds s" "clients s1 = Map.empty"
    using tm_stop_ok [OF assms(1-4)] assms(5,7) by auto
  obtain t where t: "start_send_timer env (s1\<lparr>m_running := True, last_key := 0\<rparr>) = Inr t" "r = 0"
      "acceptor_loop s2 = start_loop (hd (loop_tids env)) 0 (acceptor_loop t)" "main_thread s2 = tt_start (main_thread t)"
    using assms(6) s1(1,2) by (auto simp: tm_start_def elim!: bind_resE)
  show ?thesis
    using start_send_timer_quit [OF t(1)] s1 t(2-)
    by (simp add: start_loop_def tt_start_def Let_def split_beta)
qed

theorem restart_without_send_timer_witness:
  "\<exists>s1. tm_stop tm_sample = Inr s1 \<and> closed_fds s1 = [] \<and> clients s1 = Map.empty \<and>
     (\<exists>s2. tm_start \<lparr>timer_malloc = 5000, timer_ret = 9, timer_errno = 0, settime = 0, clock = 1, loop_tids = [7, 8]\<rparr> s1
        = Inr (0, s2) \<and> handler_map (acceptor_loop s2) = Map.empty \<and> loop_functions_write (acceptor_loop s2) = [])"
proof -
  let ?env = "\<lparr>timer_malloc = 5000, timer_ret = 9, timer_errno = 0, settime = 0, clock = 1, loop_tids = [7, 8]\<rparr>"
  let ?w = "ready_quit new_event_manager"
  have stop: "stop_loop new_event_manager = Inr (?w\<lparr>handler_map := Map.empty, loop_functions_read := [],
      loop_functions_write := [], events_size := 0\<rparr>)"
    by (simp add: stop_loop_def ready_quit_def new_event_manager_def)
  have rec: "recycled new_event_manager = []" by (simp add: new_event_manager_def)
  obtain s1 where s1: "tm_stop tm_sample = Inr s1" "m_init s1" "\<not> m_running s1" "event_size s1 = 1"
      "handle_pool s1 = empty_pool 96"
    using rec by (simp add: tm_stop_def stop put_acceptor_eq put_loop_eq loop_at_def ready_quit_def free_all_def
        Let_def) (simp add: empty_pool_def)
  obtain h P where h: "pool_pop 5000 (empty_pool 96) = Inr (h, P)"
    using opool.take_ok [OF empty_pool_ok(1) [of 96] empty_pool_ok(2) [of 5000 96]] by auto
  have quit: "em_quit (acceptor_loop s1)"
    using tm_stop_ok [of tm_sample] s1(1) new_event_manager_em_ok by auto
  obtain s2 where s2: "tm_start ?env s1 = Inr (0, s2)"
    using s1 h quit by (simp add: tm_start_def start_send_timer_def pop_handle_def bind_timer_def create_timerfd_def
        offer_def add_handle_def Let_def put_acceptor_eq)
  show ?thesis
    using restart_without_send_timer [of tm_sample s1 ?env 0 s2] s1(1) s2 new_event_manager_em_ok by auto
qed

end
