(* ===== verification/Tcp_Server.thy ===== *)
theory Tcp_Server
  imports Manager_Stop
begin

text \<open>
  \<open>TcpServer\<close> (include/TcpServer.h, src/TcpServer.cpp): the listening sockets and the accept loop on
  top of a \<open>TcpManager\<close>.  What the socket calls return is given as data.
\<close>

section \<open>Accepting\<close>

text \<open>
  A connection as \<open>accept4\<close> delivers it, with the text \<open>inet_ntop\<close> makes of its address and the
  outcomes of the three \<open>setsockopt\<close> calls; \<open>p_malloc\<close> is what \<open>malloc\<close> returns if the client pool
  has to grow.
\<close>

record peer =
  p_fd :: int
  p_ip :: "byte list"
  p_port :: "16 word"
  p_rcvbuf :: int
  p_sndbuf :: int
  p_nodelay :: int
  p_malloc :: nat

datatype accept_result = Accepted peer | Accept_EINTR | Accept_ECONNABORTED | Accept_EAGAIN | Accept_Error

definition close_fd :: "int \<Rightarrow> tcp_manager \<Rightarrow> tcp_manager" where
  "close_fd n s = s\<lparr>closed_fds := closed_fds s @ [n]\<rparr>"

text \<open>The accept loop; at the end of the list the socket would block.\<close>

fun handle_accept :: "accept_result list \<Rightarrow> tcp_manager \<Rightarrow> fault + tcp_manager" where
  "handle_accept [] s = Inr s"
| "handle_accept (Accept_EINTR # rs) s = handle_accept rs s"
| "handle_accept (Accept_ECONNABORTED # rs) s = Inr s"
| "handle_accept (Accept_EAGAIN # rs) s = Inr s"
| "handle_accept (Accept_Error # rs) s = Inr s"
| "handle_accept (Accepted p # rs) s =
     (if p_rcvbuf p < 0 then handle_accept rs (close_fd (p_fd p) s)
      else if p_sndbuf p < 0 then handle_accept rs (close_fd (p_fd p) s)
      else if p_nodelay p < 0 then handle_accept rs (close_fd (p_fd p) s)
      else
        bind_res (register_socket (p_malloc p) (p_fd p) (p_ip p) (p_port p) None None s)
          (\<lambda>(_, _, s). handle_accept rs s))"

section \<open>Life cycle\<close>

record tcp_server =
  sv_ip :: string
  sv_port :: int
  reuseaddr :: nat
  sv_init :: bool
  sv_running :: bool
  self_manager :: bool
  listen_fd :: "int list"
  sv_manager :: "tcp_manager option"

definition new_tcp_server :: tcp_server where
  "new_tcp_server = \<lparr>sv_ip = [], sv_port = 0, reuseaddr = 0, sv_init = False, sv_running = False,
     self_manager = False, listen_fd = [], sv_manager = None\<rparr>"

definition sv_set_tcp_manager :: "tcp_manager \<Rightarrow> tcp_server \<Rightarrow> tcp_server" where
  "sv_set_tcp_manager s v =
     (if sv_manager v \<noteq> None then v else v\<lparr>self_manager := False, sv_manager := Some s\<rparr>)"

definition with_manager :: "(tcp_manager \<Rightarrow> fault + ('a \<times> tcp_manager)) \<Rightarrow> tcp_server \<Rightarrow> fault + ('a \<times> tcp_server)" where
  "with_manager f v =
     (case sv_manager v of
        None \<Rightarrow> Inl Null_Pointer
      | Some s \<Rightarrow> bind_res (f s) (\<lambda>(x, s). Inr (x, v\<lparr>sv_manager := Some s\<rparr>)))"

definition sv_set_msg_callback :: "nat \<Rightarrow> tcp_server \<Rightarrow> fault + tcp_server" where
  "sv_set_msg_callback k v =
     bind_res (with_manager (\<lambda>s. Inr ((), set_msg_callback k s)) v) (\<lambda>(_, v). Inr v)"

definition sv_push_send_data :: "nat \<Rightarrow> nat \<Rightarrow> tcp_server \<Rightarrow> fault + (int \<times> tcp_server)" where
  "sv_push_send_data m src v = with_manager (tm_push_send_pack m src) v"

definition sv_pool_dump :: "tcp_server \<Rightarrow> fault + ((nat \<times> nat \<times> nat) \<times> (nat \<times> nat \<times> nat) list) list" where
  "sv_pool_dump v =
     (case sv_manager v of None \<Rightarrow> Inl Null_Pointer | Some s \<Rightarrow> Inr (tm_pool_dump s))"

text \<open>\<open>fresh\<close> is the manager \<open>new TcpManager\<close> makes.\<close>

definition sv_init_server :: "tcp_manager \<Rightarrow> string \<Rightarrow> int \<Rightarrow> nat \<Rightarrow> tcp_server \<Rightarrow> int \<times> tcp_server" where
  "sv_init_server fresh ip port n v =
     (if sv_init v then (-1, v)
      else
        let n = (if 0 < n then n else 1);
            v = v\<lparr>sv_init := True, sv_ip := ip, sv_port := port, reuseaddr := n, listen_fd := replicate n 0\<rparr>;
            v = (case sv_manager v of
                   None \<Rightarrow> v\<lparr>sv_manager := Some fresh, self_manager := True\<rparr>
                 | Some _ \<Rightarrow> v) in
        (0, v\<lparr>sv_manager := map_option (\<lambda>s. snd (tm_init n s)) (sv_manager v)\<rparr>))"

text \<open>What the calls of \<open>do_init_socket\<close> return for one listening socket.\<close>

record listen_env =
  l_socket :: int
  l_pton :: int
  l_reuseaddr :: int
  l_reuseport :: int
  l_bind :: int
  l_listen :: int
  l_malloc :: nat

definition do_init_socket :: "listen_env \<Rightarrow> nat \<Rightarrow> tcp_server \<Rightarrow> fault + tcp_server" where
  "do_init_socket e i v =
     bind_res (check (0 \<le> l_socket e) Process_Abort) (\<lambda>_.
     let v = v\<lparr>listen_fd := (listen_fd v)[i := l_socket e]\<rparr> in
     bind_res (check (0 \<le> l_pton e) Process_Abort) (\<lambda>_.
     bind_res (check (0 \<le> l_reuseaddr e) Process_Abort) (\<lambda>_.
     bind_res (check (1 < reuseaddr v \<longrightarrow> 0 \<le> l_reuseport e) Process_Abort) (\<lambda>_.
     bind_res (check (0 \<le> l_bind e) Process_Abort) (\<lambda>_.
     bind_res (check (0 \<le> l_listen e) Process_Abort) (\<lambda>_. Inr v))))))"

fun digits :: "nat \<Rightarrow> string" where
  "digits n = (if n < 10 then [char_of (48 + n)] else digits (n div 10) @ [char_of (48 + n mod 10)])"

declare digits.simps [simp del]

text \<open>The handle that calls \<open>handle_accept\<close>; its function is number 0.\<close>

definition socket_init :: "listen_env \<Rightarrow> nat \<Rightarrow> tcp_server \<Rightarrow> fault + tcp_server" where
  "socket_init e i v =
     bind_res (do_init_socket e i v) (\<lambda>v.
     bind_res (with_manager (\<lambda>s.
       bind_res (pop_handle (l_malloc e) s) (\<lambda>(h, s).
       let (_, hd) = bind_io 0 (listen_fd v ! i) (take 30 (''handle_name'' @ digits i))
                       (set_recycle_func 0 new_handle) in
       if 0 < h_fd hd then
         bind_res (add_acceptor h hd s) (\<lambda>(r, s). if r = 0 then Inr ((), s) else Inl Process_Abort)
       else Inl Process_Abort)) v) (\<lambda>(_, v). Inr v))"

definition sv_start :: "listen_env list \<Rightarrow> start_env \<Rightarrow> tcp_server \<Rightarrow> fault + (int \<times> tcp_server)" where
  "sv_start es env v =
     (if \<not> sv_init v then Inl Process_Abort
      else if sv_running v then Inr (-1, v)
      else
        bind_res (check (length es = reuseaddr v) Bad_Environment) (\<lambda>_.
        bind_res (each (\<lambda>i. socket_init (es ! i) i) [0 ..< reuseaddr v] (v\<lparr>sv_running := True\<rparr>)) (\<lambda>v.
        bind_res (with_manager (tm_start env) v) (\<lambda>(_, v). Inr (0, v)))))"

definition sv_stop :: "tcp_server \<Rightarrow> fault + tcp_server" where
  "sv_stop v =
     (if \<not> sv_running v then Inr v
      else
        bind_res (with_manager (\<lambda>s. bind_res (tm_stop s) (\<lambda>s. Inr ((), s))) (v\<lparr>sv_running := False\<rparr>)) (\<lambda>(_, v).
        Inr (v\<lparr>listen_fd := replicate (reuseaddr v) 0\<rparr>)))"

definition sv_destroy :: "tcp_server \<Rightarrow> fault + tcp_server" where
  "sv_destroy v =
     bind_res (if sv_running v then sv_stop v else Inr v) (\<lambda>v.
     bind_res
       (if self_manager v then
          bind_res (with_manager (\<lambda>s. bind_res (tm_destroy s) (\<lambda>s. Inr ((), s))) v)
            (\<lambda>(_, v). Inr (v\<lparr>sv_manager := None\<rparr>))
        else Inr v) (\<lambda>v.
     Inr (if sv_init v then v\<lparr>listen_fd := [], sv_init := False\<rparr> else v)))"

section \<open>Accounting for accepted connections\<close>

text \<open>The connections accepted before the loop returns, and those whose options could be set.\<close>

fun arrivals :: "accept_result list \<Rightarrow> peer list" where
  "arrivals (Accepted p # rs) = p # arrivals rs"
| "arrivals (Accept_EINTR # rs) = arrivals rs"
| "arrivals rs = []"

definition opts_ok :: "peer \<Rightarrow> bool" where
  "opts_ok p \<longleftrightarrow> 0 \<le> p_rcvbuf p \<and> 0 \<le> p_sndbuf p \<and> 0 \<le> p_nodelay p"

text \<open>
  The clients \<open>as\<close> were made for the connections \<open>ps\<close>, in order: new objects under consecutive keys that
  lead to their descriptors, each posted once to the main thread, and nothing else changed in the tables.
\<close>

definition admitted :: "tcp_manager \<Rightarrow> peer list \<Rightarrow> nat list \<Rightarrow> tcp_manager \<Rightarrow> bool" where
  "admitted s ps as s' \<longleftrightarrow>
     length as = length ps \<and> distinct as \<and> set as \<inter> live (client_pool s) = {} \<and>
     backlog (main_thread s') = backlog (main_thread s) @ map Add_Client as \<and>
     last_key s' = last_key s + word_of_nat (length ps) \<and>
     (\<forall>j < length ps. let k = last_key s + word_of_nat (Suc j) in
        clients s' (as ! j) = Some (registered_client k (p_fd (ps ! j)) (p_ip (ps ! j)) (p_port (ps ! j)) None None) \<and>
        get_fd k s' = p_fd (ps ! j)) \<and>
     (\<forall>x. x \<notin> set as \<longrightarrow> clients s' x = clients s x) \<and>
     (\<forall>k. k \<notin> (\<lambda>j. last_key s + word_of_nat (Suc j)) ` {0 ..< length ps} \<longrightarrow> connect_map s' k = connect_map s k)"

text \<open>
  \<open>malloc\<close> gives memory apart from the blocks there are, each time a client is needed and none is idle.
\<close>

fun mallocs_ok :: "nat list \<Rightarrow> pool \<Rightarrow> bool" where
  "mallocs_ok [] P = True"
| "mallocs_ok (m # ms) P =
     ((pop_blocks (block_list P) = None \<longrightarrow> malloc_ok m P) \<and>
      (case pool_pop m P of Inl _ \<Rightarrow> True | Inr (_, Q) \<Rightarrow> mallocs_ok ms Q))"

lemma mallocs_okE:
  assumes "mallocs_ok (m # ms) P" and "pool_ok P"
  obtains a Q where "pool_pop m P = Inr (a, Q)" "pool_ok Q" "a \<notin> live P" "live Q = insert a (live P)" "mallocs_ok ms Q"
proof -
  have "\<exists>a Q. pool_pop m P = Inr (a, Q) \<and> pool_ok Q \<and> a \<notin> live P \<and> live Q = insert a (live P)"
  proof (cases "pop_blocks (block_list P)")
    case None
    then show ?thesis using pool_pop_ok [OF assms(2)] assms(1) by simp
  next
    case (Some r)
    then have "0 < length (idle_list (block_list P))"
      using pop_blocks_None [of "block_list P"] by (cases "idle_list (block_list P)") auto
    from pool_pop_idle [OF assms(2) this, of m] show ?thesis by metis
  qed
  then show thesis using that assms(1) by auto
qed

lemma admitted_Nil: "admitted s [] [] s"
  by (simp add: admitted_def)

lemma admitted_close: "admitted (close_fd n s) ps as s' = admitted s ps as s'"
  by (simp add: admitted_def close_fd_def)

lemma closed_close_fd: "closed_fds (close_fd n s) = closed_fds s @ [n]"
  by (simp add: close_fd_def)

lemma admitted_Cons:
  assumes pop: "pool_pop (p_malloc p) (client_pool s) = Inr (a, P)" "a \<notin> live (client_pool s)"
      "live P = insert a (live (client_pool s))"
    and reg: "register_socket (p_malloc p) (p_fd p) (p_ip p) (p_port p) None None s = Inr (k, a, s1)"
    and rest: "admitted s1 ps as s'" and len: "length ps < 2 ^ 64 - 1"
  shows "admitted s (p # ps) (a # as) s'"
proof -
  let ?C = "registered_client (last_key s + 1) (p_fd p) (p_ip p) (p_port p) None None"
  have s1: "s1 = s\<lparr>last_key := last_key s + 1, connect_map := (connect_map s)(last_key s + 1 \<mapsto> p_fd p),
      client_pool := P, clients := (clients s)(a \<mapsto> ?C),
      main_thread := run_in_thread (Add_Client a) (main_thread s)\<rparr>"
    using trans [OF reg [symmetric] register_socket_ok [OF pop(1), of "p_fd p" "p_ip p" "p_port p" None None]]
    by blast
  have key: "last_key s1 + word_of_nat j = last_key s + word_of_nat (Suc j)" for j
    by (simp add: s1)
  have ne: "last_key s + 1 \<noteq> last_key s + word_of_nat (Suc (Suc j))" if "j < length ps" for j
  proof -
    have "(1 :: 64 word) = word_of_nat 1" by simp
    moreover have "word_of_nat 1 \<noteq> (word_of_nat (Suc (Suc j)) :: 64 word)"
      using that len by (subst word_of_nat_eq_iff) (simp add: take_bit_nat_eq_self del: of_nat_Suc)
    ultimately show ?thesis by (metis add_left_cancel)
  qed
  have r: "length as = length ps" "distinct as" "set as \<inter> live P = {}"
      "backlog (main_thread s') = backlog (main_thread s1) @ map Add_Client as"
      "last_key s' = last_key s1 + word_of_nat (length ps)"
      "\<forall>j < length ps. let k = last_key s1 + word_of_nat (Suc j) in
        clients s' (as ! j) = Some (registered_client k (p_fd (ps ! j)) (p_ip (ps ! j)) (p_port (ps ! j)) None None) \<and>
        get_fd k s' = p_fd (ps ! j)"
      "\<forall>x. x \<notin> set as \<longrightarrow> clients s' x = clients s1 x"
      "\<forall>k. k \<notin> (\<lambda>j. last_key s1 + word_of_nat (Suc j)) ` {0 ..< length ps} \<longrightarrow> connect_map s' k = connect_map s1 k"
    using rest by (simp_all add: admitted_def s1)
  have a: "a \<notin> set as" using r(3) pop(3) by auto
  have first: "clients s' a = Some ?C" "connect_map s' (last_key s + 1) = Some (p_fd p)"
  proof -
    show "clients s' a = Some ?C" using r(7) a by (simp add: s1)
    have "last_key s + 1 \<notin> (\<lambda>j. last_key s1 + word_of_nat (Suc j)) ` {0 ..< length ps}"
      unfolding key using ne by auto
    then show "connect_map s' (last_key s + 1) = Some (p_fd p)" using r(8) by (simp add: s1)
  qed
  show ?thesis
    unfolding admitted_def
  proof (intro conjI)
    show "\<forall>j < length (p # ps). let k = last_key s + word_of_nat (Suc j) in
        clients s' ((a # as) ! j) = Some (registered_client k (p_fd ((p # ps) ! j)) (p_ip ((p # ps) ! j))
          (p_port ((p # ps) ! j)) None None) \<and> get_fd k s' = p_fd ((p # ps) ! j)"
    proof (intro allI impI)
      fix j assume "j < length (p # ps)"
      then show "let k = last_key s + word_of_nat (Suc j) in
        clients s' ((a # as) ! j) = Some (registered_client k (p_fd ((p # ps) ! j)) (p_ip ((p # ps) ! j))
          (p_port ((p # ps) ! j)) None None) \<and> get_fd k s' = p_fd ((p # ps) ! j)"
        using r(6) first unfolding key by (cases j) (simp_all add: Let_def get_fd_def del: of_nat_Suc, simp_all)
    qed
    show "\<forall>k. k \<notin> (\<lambda>j. last_key s + word_of_nat (Suc j)) ` {0 ..< length (p # ps)} \<longrightarrow> connect_map s' k = connect_map s k"
    proof (intro allI impI)
      fix k assume k: "k \<notin> (\<lambda>j. last_key s + word_of_nat (Suc j)) ` {0 ..< length (p # ps)}"
      have "k \<noteq> last_key s + word_of_nat (Suc j)" if "j < length (p # ps)" for j
        using k that by (auto simp del: of_nat_Suc)
      note neq = this
      have "k \<noteq> last_key s + 1" using neq [of 0] by simp
      moreover have "k \<notin> (\<lambda>j. last_key s1 + word_of_nat (Suc j)) ` {0 ..< length ps}"
      proof
        assume "k \<in> (\<lambda>j. last_key s1 + word_of_nat (Suc j)) ` {0 ..< length ps}"
        then obtain j where "j < length ps" "k = last_key s + word_of_nat (Suc (Suc j))"
          unfolding key by (auto simp del: of_nat_Suc)
        with neq [of "Suc j"] show False by simp
      qed
      ultimately show "connect_map s' k = connect_map s k" using r(8) by (simp add: s1)
    qed
  qed (use r a pop in \<open>auto simp: s1 backlog_run_in_thread\<close>)
qed

section \<open>Starting again\<close>

lemma socket_init_quit:
  assumes s: "sv_manager v = Some s" "m_init s" "em_quit (acceptor_loop s)" "pool_ok (handle_pool s)"
    "malloc_ok (l_malloc e) (handle_pool s)" and i: "i < length (listen_fd v)"
  shows "socket_init e i v = Inl Process_Abort"
proof (cases "do_init_socket e i v")
  case (Inl f)
  then have "f = Process_Abort"
    by (auto simp: do_init_socket_def check_def Let_def split: if_splits)
  then show ?thesis by (simp add: socket_init_def Inl)
next
  case (Inr v')
  then have v': "v' = v\<lparr>listen_fd := (listen_fd v)[i := l_socket e]\<rparr>"
    by (auto simp: do_init_socket_def Let_def elim!: bind_resE)
  obtain h P where h: "pool_pop (l_malloc e) (handle_pool s) = Inr (h, P)"
    using opool.take_ok [OF s(4,5)] by blast
  show ?thesis
    using s i h by (auto simp: socket_init_def Inr v' with_manager_def pop_handle_def bind_io_def set_recycle_func_def
        add_acceptor_def offer_def add_handle_def Let_def)
qed

section \<open>Properties\<close>

text \<open>
  C13: Every connection the accept loop takes is accounted for: one whose socket options cannot be set is
  closed, every other one gets a new client under a fresh key and is posted to the main thread, in the
  order of arrival; interrupted calls are repeated and any other failure ends the loop.  The pool of
  clients may be empty, as after the start, and grow on the way; fewer than \<open>2 ^ 64\<close> connections are taken.
\<close>

theorem handle_accept_accounts:
  assumes "pool_ok (client_pool s)" and "mallocs_ok (map p_malloc (filter opts_ok (arrivals rs))) (client_pool s)"
    and "length (filter opts_ok (arrivals rs)) < 2 ^ 64"
  shows "\<exists>as s'. handle_accept rs s = Inr s' \<and> admitted s (filter opts_ok (arrivals rs)) as s'
    \<and> closed_fds s' = closed_fds s @ map p_fd (filter (\<lambda>p. \<not> opts_ok p) (arrivals rs))"
  using assms
proof (induction rs s rule: handle_accept.induct)
  case (6 p rs s)
  show ?case
  proof (cases "opts_ok p")
    case False
    then have "handle_accept (Accepted p # rs) s = handle_accept rs (close_fd (p_fd p) s)"
      by (auto simp: opts_ok_def)
    moreover have prem: "pool_ok (client_pool (close_fd (p_fd p) s))"
        "mallocs_ok (map p_malloc (filter opts_ok (arrivals rs))) (client_pool (close_fd (p_fd p) s))"
        "length (filter opts_ok (arrivals rs)) < 2 ^ 64"
      using 6(5-7) False by (simp_all add: close_fd_def)
    have "p_rcvbuf p < 0 \<or> \<not> p_rcvbuf p < 0 \<and> p_sndbuf p < 0
        \<or> \<not> p_rcvbuf p < 0 \<and> \<not> p_sndbuf p < 0 \<and> p_nodelay p < 0"
      using False by (auto simp: opts_ok_def)
    then have "\<exists>as s'. handle_accept rs (close_fd (p_fd p) s) = Inr s'
        \<and> admitted (close_fd (p_fd p) s) (filter opts_ok (arrivals rs)) as s'
        \<and> closed_fds s' = closed_fds (close_fd (p_fd p) s) @ map p_fd (filter (\<lambda>p. \<not> opts_ok p) (arrivals rs))"
      by (elim disjE conjE) (use 6(1) [OF _ prem] 6(2) [OF _ _ prem] 6(3) [OF _ _ _ prem] in blast)+
    ultimately show ?thesis using False by (auto simp: admitted_close closed_close_fd)
  next
    case True
    let ?n = "length (filter opts_ok (arrivals rs))"
    obtain a P where pop: "pool_pop (p_malloc p) (client_pool s) = Inr (a, P)" "pool_ok P"
        "a \<notin> live (client_pool s)" "live P = insert a (live (client_pool s))"
        "mallocs_ok (map p_malloc (filter opts_ok (arrivals rs))) P"
      by (rule mallocs_okE [of "p_malloc p" "map p_malloc (filter opts_ok (arrivals rs))" "client_pool s"])
        (use 6(5,6) True in auto)
    obtain k s1 where reg: "register_socket (p_malloc p) (p_fd p) (p_ip p) (p_port p) None None s = Inr (k, a, s1)"
        "client_pool s1 = P" "closed_fds s1 = closed_fds s"
      using register_socket_ok [OF pop(1), of "p_fd p" "p_ip p" "p_port p" None None] by simp
    have "\<not> p_rcvbuf p < 0" "\<not> p_sndbuf p < 0" "\<not> p_nodelay p < 0" using True by (simp_all add: opts_ok_def)
    moreover obtain as s' where "handle_accept rs s1 = Inr s'" "admitted s1 (filter opts_ok (arrivals rs)) as s'"
        "closed_fds s' = closed_fds s1 @ map p_fd (filter (\<lambda>p. \<not> opts_ok p) (arrivals rs))"
      using 6(4) [OF calculation reg(1) refl refl] reg(2) pop(2,5) 6(6,7) True by auto
    ultimately show ?thesis
      using admitted_Cons [OF pop(1,3,4) reg(1)] reg(1,3) 6(7) True
      by (intro exI [of _ "a # as"] exI [of _ s']) auto
  qed
qed (auto intro: admitted_Nil)

definition sample_peer :: "int \<Rightarrow> int \<Rightarrow> nat \<Rightarrow> peer" where
  "sample_peer n nodelay m = \<lparr>p_fd = n, p_ip = [], p_port = 6000, p_rcvbuf = 0, p_sndbuf = 0, p_nodelay = nodelay,
     p_malloc = m\<rparr>"

text \<open>A manager whose pool of clients is empty and takes memory for two at a time.\<close>

definition accept_sample :: tcp_manager where
  "accept_sample = tm_sample\<lparr>client_pool := \<lparr>block_list = [], block_size = 2, elem_size = 8\<rparr>\<rparr>"

theorem handle_accept_accounts_witness:
  "\<exists>as s'. handle_accept [Accept_EINTR, Accepted (sample_peer 7 0 400), Accepted (sample_peer 8 (-1) 0),
        Accepted (sample_peer 9 0 0), Accepted (sample_peer 10 0 800), Accept_EAGAIN] accept_sample = Inr s'
     \<and> closed_fds s' = [8] \<and> length as = 3 \<and> backlog (main_thread s') = map Add_Client as \<and> get_fd 3 s' = 9"
proof -
  let ?rs = "[Accept_EINTR, Accepted (sample_peer 7 0 400), Accepted (sample_peer 8 (-1) 0),
        Accepted (sample_peer 9 0 0), Accepted (sample_peer 10 0 800), Accept_EAGAIN]"
  let ?ps = "[sample_peer 7 0 400, sample_peer 9 0 0, sample_peer 10 0 800]"
  have f: "filter opts_ok (arrivals ?rs) = ?ps" "filter (\<lambda>p. \<not> opts_ok p) (arrivals ?rs) = [sample_peer 8 (-1) 0]"
    by (simp_all add: opts_ok_def sample_peer_def)
  have "pool_ok (client_pool accept_sample)" "mallocs_ok [400, 0, 800] (client_pool accept_sample)"
    by (simp_all add: accept_sample_def pool_ok_def blocks_ok_def malloc_ok_def pool_pop_def make_new_block_def slot_list_def
        upt_rec apart_def Let_def)
  then obtain as s' where r: "handle_accept ?rs accept_sample = Inr s'"
      "admitted accept_sample ?ps as s'" "closed_fds s' = closed_fds accept_sample @ [8]"
    using handle_accept_accounts [of accept_sample ?rs] unfolding f by (auto simp: sample_peer_def)
  moreover have "get_fd 3 s' = 9" "length as = 3" "backlog (main_thread s') = map Add_Client as"
  proof -
    have base: "last_key accept_sample = 1" "main_thread accept_sample = new_task_thread"
      by (simp add: accept_sample_def tm_sample_def, simp add: accept_sample_def)
    have "let k = last_key accept_sample + word_of_nat (Suc 1) in
        clients s' (as ! 1) = Some (registered_client k 9 [] 6000 None None) \<and> get_fd k s' = 9"
      using r(2) unfolding admitted_def by (auto simp: sample_peer_def dest!: spec [of _ 1])
    then show "get_fd 3 s' = 9" by (simp add: base Let_def)
    show "length as = 3" "backlog (main_thread s') = map Add_Client as"
      using r(2) by (simp_all add: admitted_def base new_task_thread_def backlog_def)
  qed
  ultimately show ?thesis by (auto simp: accept_sample_def)
qed

text \<open>
  C34: A server that was stopped cannot be started again: the acceptor loop refuses the first listening
  handle, whatever the socket calls return, and the process is aborted.  The stop itself forgets the
  listening descriptors without closing them.
\<close>

theorem server_restart_aborts:
  assumes "sv_running v" and "sv_init v" and "0 < reuseaddr v" and "sv_manager v = Some s"
    and "m_running s" and "m_init s" and "em_ok (acceptor_loop s)" and "\<forall>w \<in> set (socket_loop s). em_ok w"
    and "event_size s = length (socket_loop s)" and "pool_ok (handle_pool s)"
    and "length es = reuseaddr v" and "l_malloc (es ! 0) \<noteq> 0"
  shows "\<exists>v1 s1. sv_stop v = Inr v1 \<and> sv_manager v1 = Some s1 \<and> listen_fd v1 = replicate (reuseaddr v) 0
    \<and> closed_fds s1 = closed_fds s \<and> sv_start es env v1 = Inl Process_Abort"
proof -
  obtain s1 where s1: "tm_stop s = Inr s1" "m_init s1" "em_quit (acceptor_loop s1)" "closed_fds s1 = closed_fds s"
      "block_list (handle_pool s1) = []" "block_size (handle_pool s1) = block_size (handle_pool s)"
      "elem_size (handle_pool s1) = elem_size (handle_pool s)"
    using tm_stop_ok [OF assms(5,7-9)] assms(6) by auto
  let ?v1 = "v\<lparr>sv_running := False, sv_manager := Some s1, listen_fd := replicate (reuseaddr v) 0\<rparr>"
  have stop: "sv_stop v = Inr ?v1"
    using assms(1,4) s1(1) by (simp add: sv_stop_def with_manager_def)
  have pool: "pool_ok (handle_pool s1)" "malloc_ok (l_malloc (es ! 0)) (handle_pool s1)"
    using assms(10,12) s1(5-7) by (simp_all add: pool_ok_def malloc_ok_def)
  have first: "socket_init (es ! 0) 0 (?v1\<lparr>sv_running := True\<rparr>) = Inl Process_Abort"
    by (rule socket_init_quit [of _ s1]) (use s1 pool assms(3) in simp_all)
  have "each (\<lambda>i. socket_init (es ! i) i) [0 ..< reuseaddr v] (?v1\<lparr>sv_running := True\<rparr>) = Inl Process_Abort"
    using assms(3) first by (simp add: upt_conv_Cons)
  then have "sv_start es env ?v1 = Inl Process_Abort"
    using assms(2,11) by (simp add: sv_start_def)
  then show ?thesis using stop s1(4) by (intro exI [of _ ?v1] exI [of _ s1]) simp
qed

theorem server_restart_aborts_witness:
  "\<exists>v1. sv_stop (new_tcp_server\<lparr>reuseaddr := 1, sv_init := True, sv_running := True, listen_fd := [4],
       sv_manager := Some tm_sample\<rparr>) = Inr v1
     \<and> sv_start [\<lparr>l_socket = 4, l_pton = 1, l_reuseaddr = 0, l_reuseport = 0, l_bind = 0, l_listen = 0, l_malloc = 9000\<rparr>]
         \<lparr>timer_malloc = 5000, timer_ret = 9, timer_errno = 0, settime = 0, clock = 1, loop_tids = [7, 8]\<rparr> v1
       = Inl Process_Abort"
proof -
  let ?v = "new_tcp_server\<lparr>reuseaddr := 1, sv_init := True, sv_running := True, listen_fd := [4],
       sv_manager := Some tm_sample\<rparr>"
  let ?es = "[\<lparr>l_socket = 4, l_pton = 1, l_reuseaddr = 0, l_reuseport = 0, l_bind = 0, l_listen = 0, l_malloc = 9000\<rparr>]"
  let ?env = "\<lparr>timer_malloc = 5000, timer_ret = 9, timer_errno = 0, settime = 0, clock = 1, loop_tids = [7, 8]\<rparr>"
  show ?thesis
    using server_restart_aborts [of ?v tm_sample ?es ?env] new_event_manager_em_ok empty_pool_ok(1) [of 96] by auto
qed

end
