(* ===== verification/Tcp_Client.thy ===== *)
theory Tcp_Client
  imports Connection_Table
begin

text \<open>
  \<open>TcpClient\<close> (include/TcpClient.h, src/TcpClient.cpp): outgoing connections on top of a
  \<open>TcpManager\<close>.
\<close>

section \<open>State and operations\<close>

record tcp_client =
  cl_running :: bool
  cl_self_manager :: bool
  cl_manager :: "tcp_manager option"

definition new_tcp_client :: tcp_client where
  "new_tcp_client = \<lparr>cl_running = False, cl_self_manager = False, cl_manager = None\<rparr>"

definition cl_set_tcp_manager :: "tcp_manager \<Rightarrow> tcp_client \<Rightarrow> tcp_client" where
  "cl_set_tcp_manager s v =
     (if cl_manager v \<noteq> None then v else v\<lparr>cl_self_manager := False, cl_manager := Some s\<rparr>)"

definition on_manager :: "(tcp_manager \<Rightarrow> fault + ('a \<times> tcp_manager)) \<Rightarrow> tcp_client \<Rightarrow> fault + ('a \<times> tcp_client)" where
  "on_manager f v =
     (case cl_manager v of
        None \<Rightarrow> Inl Null_Pointer
      | Some s \<Rightarrow> bind_res (f s) (\<lambda>(x, s). Inr (x, v\<lparr>cl_manager := Some s\<rparr>)))"

definition cl_start :: "tcp_manager \<Rightarrow> start_env \<Rightarrow> tcp_client \<Rightarrow> fault + tcp_client" where
  "cl_start fresh env v =
     (let v = v\<lparr>cl_running := True\<rparr>;
          v = (case cl_manager v of
                 None \<Rightarrow> v\<lparr>cl_manager := Some fresh, cl_self_manager := True\<rparr>
               | Some _ \<Rightarrow> v);
          v = v\<lparr>cl_manager := map_option (\<lambda>s. snd (tm_init 1 s)) (cl_manager v)\<rparr> in
      bind_res (on_manager (tm_start env) v) (\<lambda>(_, v). Inr v))"

definition cl_stop :: "tcp_client \<Rightarrow> fault + tcp_client" where
  "cl_stop v =
     (if \<not> cl_running v then Inr v
      else
        bind_res (on_manager (\<lambda>s. bind_res (tm_stop s) (\<lambda>s. Inr ((), s))) (v\<lparr>cl_running := False\<rparr>)) (\<lambda>(_, v). Inr v))"

definition cl_destroy :: "tcp_client \<Rightarrow> fault + tcp_client" where
  "cl_destroy v =
     bind_res (cl_stop v) (\<lambda>v.
     if cl_self_manager v then
       bind_res (on_manager (\<lambda>s. bind_res (tm_destroy s) (\<lambda>s. Inr ((), s))) v)
         (\<lambda>(_, v). Inr (v\<lparr>cl_manager := None\<rparr>))
     else Inr v)"

text \<open>What the calls of \<open>connect\<close> return.\<close>

record connect_env =
  c_socket :: int
  c_pton :: int
  c_connect :: int
  c_rcvbuf :: int
  c_sndbuf :: int
  c_nodelay :: int
  c_nonblock :: int
  c_malloc :: nat

text \<open>The key, or \<open>(uint64_t)-1\<close> for a failure.\<close>

definition tm_connect ::
    "connect_env \<Rightarrow> byte list \<Rightarrow> int \<Rightarrow> nat option \<Rightarrow> nat option \<Rightarrow> tcp_manager \<Rightarrow> fault + (64 word \<times> tcp_manager)" where
  "tm_connect e ip port callback estab s =
     (let n = c_socket e; closed = s\<lparr>closed_fds := closed_fds s @ [n]\<rparr> in
      if n < 0 then Inr (-1, s)
      else if c_pton e < 0 then Inr (-1, s)
      else if c_connect e < 0 then Inr (-1, s)
      else if c_rcvbuf e < 0 then Inr (-1, closed)
      else if c_sndbuf e < 0 then Inr (-1, closed)
      else if c_nodelay e < 0 then Inr (-1, closed)
      else if c_nonblock e < 0 then Inr (-1, closed)
      else
        bind_res (register_socket (c_malloc e) n ip (word_of_int port) callback estab s)
          (\<lambda>(k, _, s). Inr (k, s)))"

definition cl_connect ::
    "connect_env \<Rightarrow> byte list \<Rightarrow> int \<Rightarrow> nat option \<Rightarrow> nat option \<Rightarrow> tcp_client \<Rightarrow> fault + (64 word \<times> tcp_client)" where
  "cl_connect e ip port callback estab v = on_manager (tm_connect e ip port callback estab) v"

definition cl_disconnect :: "64 word \<Rightarrow> tcp_client \<Rightarrow> fault + tcp_client" where
  "cl_disconnect k v =
     bind_res (on_manager (\<lambda>s. bind_res (close_client k s) (\<lambda>s. Inr ((), s))) v) (\<lambda>(_, v). Inr v)"

definition cl_push_send_data :: "nat \<Rightarrow> nat \<Rightarrow> tcp_client \<Rightarrow> fault + (int \<times> tcp_client)" where
  "cl_push_send_data m src v = on_manager (tm_push_send_pack m src) v"

definition cl_pop_buffer :: "nat \<Rightarrow> tcp_client \<Rightarrow> fault + (nat \<times> tcp_client)" where
  "cl_pop_buffer m v =
     on_manager (\<lambda>s. bind_res (pop_buffer m (buffer_pool s)) (\<lambda>(a, bs). Inr (a, s\<lparr>buffer_pool := bs\<rparr>))) v"

definition cl_push_buffer :: "nat \<Rightarrow> tcp_client \<Rightarrow> fault + tcp_client" where
  "cl_push_buffer a v =
     bind_res (on_manager (\<lambda>s. bind_res (push_buffer a (buffer_pool s)) (\<lambda>bs. Inr ((), s\<lparr>buffer_pool := bs\<rparr>))) v)
       (\<lambda>(_, v). Inr v)"

definition cl_pool_dump :: "tcp_client \<Rightarrow> fault + ((nat \<times> nat \<times> nat) \<times> (nat \<times> nat \<times> nat) list) list" where
  "cl_pool_dump v =
     (case cl_manager v of None \<Rightarrow> Inl Null_Pointer | Some s \<Rightarrow> Inr (tm_pool_dump s))"

section \<open>Outcomes\<close>

text \<open>
  Failures of \<open>inet_pton\<close> and \<open>connect\<close> leave the socket open and unknown; the later ones close it.
  An address that is not in dotted form makes \<open>inet_pton\<close> return 0, which passes the test.
\<close>

lemma connect_failure:
  assumes "0 \<le> c_socket e"
  shows "c_pton e < 0 \<or> c_connect e < 0 \<Longrightarrow> tm_connect e ip port cb est s = Inr (-1, s)"
    and "0 \<le> c_pton e \<Longrightarrow> 0 \<le> c_connect e \<Longrightarrow>
      c_rcvbuf e < 0 \<or> c_sndbuf e < 0 \<or> c_nodelay e < 0 \<or> c_nonblock e < 0 \<Longrightarrow>
      tm_connect e ip port cb est s = Inr (-1, s\<lparr>closed_fds := closed_fds s @ [c_socket e]\<rparr>)"
  using assms by (auto simp: tm_connect_def Let_def)

definition connected :: "connect_env \<Rightarrow> bool" where
  "connected e \<longleftrightarrow> 0 < c_socket e \<and> 0 \<le> c_pton e \<and> 0 \<le> c_connect e \<and> 0 \<le> c_rcvbuf e \<and> 0 \<le> c_sndbuf e
     \<and> 0 \<le> c_nodelay e \<and> 0 \<le> c_nonblock e"

text \<open>
  C21: A connection that could be made is known by the returned key from the moment it is added: the key
  is new, the main thread's task succeeds, the key leads to the descriptor and the descriptor to the
  client with that key, and the established callback is called once with it; the client's message
  callback is the one given to \<open>connect\<close> unless the manager has one of its own, which replaces it.
\<close>

theorem connect_registers:
  assumes "connected e" and "loops_ok s" and "unat (acceptor_index s) < event_size s" and "event_size s < 2 ^ 32"
    and "\<forall>w \<in> set (socket_loop s). \<not> em_quit w" and "malloc_ok m (handle_pool s)"
    and "pool_ok (client_pool s)" and "malloc_ok (c_malloc e) (client_pool s)"
  shows "\<exists>k a c s1 s2. tm_connect e ip port cb (Some est) s = Inr (k, s1) \<and> k = last_key s + 1
    \<and> backlog (main_thread s1) = backlog (main_thread s) @ [Add_Client a] \<and> a \<notin> live (client_pool s)
    \<and> do_add_client m a s1 = Inr s2 \<and> get_fd k s2 = c_socket e \<and> get_client (c_socket e) s2 = Some a
    \<and> clients s2 a = Some c \<and> fd_key c = k \<and> fd c = c_socket e
    \<and> message_callback c = (case m_callback s of None \<Rightarrow> cb | Some x \<Rightarrow> Some x)
    \<and> announced s2 = announced s @ [(est, k)]"
proof -
  obtain a P where a: "pool_pop (c_malloc e) (client_pool s) = Inr (a, P)" "a \<notin> live (client_pool s)"
    using opool.take_ok [OF assms(7,8)] by blast
  let ?k = "last_key s + 1" and ?i = "(unat (acceptor_index s) + 1) mod event_size s"
  let ?c = "registered_client ?k (c_socket e) ip (word_of_int port) cb (Some est)"
  let ?s1 = "s\<lparr>last_key := ?k, connect_map := (connect_map s)(?k \<mapsto> c_socket e), client_pool := P,
      clients := (clients s)(a \<mapsto> ?c), main_thread := run_in_thread (Add_Client a) (main_thread s)\<rparr>"
  have con: "tm_connect e ip port cb (Some est) s = Inr (?k, ?s1)"
    using assms(1) register_socket_ok [OF a(1)] by (simp add: tm_connect_def connected_def Let_def)
  have ok1: "loops_ok ?s1" using assms(2) by (simp add: loops_ok_def)
  have cb: "message_callback ?c = cb" by simp
  have pos: "0 < fd ?c" using assms(1) by (simp add: connected_def)
  obtain s2 where s2: "do_add_client m a ?s1 = Inr s2"
      "clients s2 a = Some (?c\<lparr>loop_index := ?i, event_loop := Some ?i,
          message_callback := (case m_callback s of None \<Rightarrow> cb | Some x \<Rightarrow> Some x)\<rparr>)"
      "announced s2 = announced s @ [(est, ?k)]"
    using do_add_client_ok [OF ok1, of m a ?c, unfolded cb] assms(3-6) pos by (auto simp: Let_def)
  have frame: "client_map s2 = (client_map ?s1)(c_socket e \<mapsto> a)" "connect_map s2 = connect_map ?s1"
    using do_add_client_frame [OF s2(1), of ?c] by auto
  have r: "get_fd ?k s2 = c_socket e" "get_client (c_socket e) s2 = Some a"
      "backlog (main_thread ?s1) = backlog (main_thread s) @ [Add_Client a]"
    by (simp_all add: frame get_fd_def get_client_def backlog_run_in_thread)
  let ?d = "?c\<lparr>loop_index := ?i, event_loop := Some ?i,
      message_callback := (case m_callback s of None \<Rightarrow> cb | Some x \<Rightarrow> Some x)\<rparr>"
  show ?thesis
    by (rule exI [of _ ?k], rule exI [of _ a], rule exI [of _ ?d], rule exI [of _ ?s1], rule exI [of _ s2])
      (use con a(2) s2 r in simp)
qed

definition sample_connect :: connect_env where
  "sample_connect = \<lparr>c_socket = 6, c_pton = 1, c_connect = 0, c_rcvbuf = 0, c_sndbuf = 0, c_nodelay = 0,
     c_nonblock = 0, c_malloc = 2000\<rparr>"

theorem connect_registers_witness:
  "\<exists>a s1 s2. tm_connect sample_connect [] 6000 (Some 3) (Some 4) (tm_sample\<lparr>client_pool := empty_pool 640\<rparr>) = Inr (2, s1)
     \<and> do_add_client 1000 a s1 = Inr s2 \<and> get_client 6 s2 = Some a \<and> announced s2 = [(4, 2)]"
proof -
  let ?s = "tm_sample\<lparr>client_pool := empty_pool 640\<rparr>"
  have "connected sample_connect" "c_socket sample_connect = 6" "c_malloc sample_connect = 2000"
    by (simp_all add: connected_def sample_connect_def)
  moreover have "loops_ok ?s"
    using new_event_manager_em_ok by (simp add: loops_ok_def empty_pool_ok) (simp add: new_event_manager_def)
  moreover have "last_key ?s = 1" "announced ?s = []"
    by (simp_all add: tm_sample_def tm_init_def new_tcp_manager_def)
  moreover have "\<forall>w \<in> set (socket_loop ?s). \<not> em_quit w" by (simp add: new_event_manager_def)
  ultimately show ?thesis
    using connect_registers [of sample_connect ?s 1000 "[]" 6000 "Some 3" 4] empty_pool_ok [of 640]
      empty_pool_ok(2) [of 1000 96] empty_pool_ok(2) [of 2000 640] by auto
qed

end
