(* ===== verification/Timestamp.thy ===== *)
theory Timestamp
  imports Sc_Prelude
begin

text \<open>
  \<open>Timestamp\<close> (include/Timestamp.h, src/Timestamp.cpp): seconds and microseconds, their
  normalisation, sums and differences, and the comparisons, which go through a \<open>double\<close>.  The
  fields are integers here; in the code they are 64 bits wide and their overflow is undefined.
\<close>

section \<open>Data\<close>

datatype timestamp = Timestamp (tv_sec: int) (tv_usec: int)

definition USEC_PER_SEC :: int where "USEC_PER_SEC = 1000 * 1000"

text \<open>The time denoted, in microseconds, and the canonical representation.\<close>

definition stamp_value :: "timestamp \<Rightarrow> int" where
  "stamp_value t = tv_sec t * USEC_PER_SEC + tv_usec t"

definition normalized :: "timestamp \<Rightarrow> bool" where
  "normalized t \<longleftrightarrow> 0 \<le> tv_usec t \<and> tv_usec t < USEC_PER_SEC"

text \<open>The order of the denoted times on canonical stamps.\<close>

instantiation timestamp :: linorder
begin

definition less_eq_timestamp :: "timestamp \<Rightarrow> timestamp \<Rightarrow> bool" where
  "less_eq_timestamp s t \<longleftrightarrow> tv_sec s < tv_sec t \<or> tv_sec s = tv_sec t \<and> tv_usec s \<le> tv_usec t"

definition less_timestamp :: "timestamp \<Rightarrow> timestamp \<Rightarrow> bool" where
  "less_timestamp s t \<longleftrightarrow> tv_sec s < tv_sec t \<or> tv_sec s = tv_sec t \<and> tv_usec s < tv_usec t"

instance
  by standard (auto simp: less_eq_timestamp_def less_timestamp_def timestamp.expand)

end

section \<open>Normalisation\<close>

text \<open>The two \<open>do ... while\<close> loops.\<close>

function carry_up :: "int \<Rightarrow> int \<Rightarrow> int \<times> int" where
  "carry_up sec usec =
     (let sec = sec + 1; usec = usec - USEC_PER_SEC in
      if USEC_PER_SEC \<le> usec then carry_up sec usec else (sec, usec))"
  by auto
termination
  by (relation "measure (\<lambda>(sec, usec). nat usec)") (auto simp: USEC_PER_SEC_def)

function borrow :: "int \<Rightarrow> int \<Rightarrow> int \<times> int" where
  "borrow sec usec =
     (let sec = sec - 1; usec = usec + USEC_PER_SEC in
      if usec < 0 \<and> 0 < sec then borrow sec usec else (sec, usec))"
  by auto
termination
  by (relation "measure (\<lambda>(sec, usec). nat sec)") (auto simp: USEC_PER_SEC_def)

declare carry_up.simps [simp del] borrow.simps [simp del]

definition normalize :: "timestamp \<Rightarrow> timestamp" where
  "normalize t =
     (if USEC_PER_SEC \<le> tv_usec t then case_prod Timestamp (carry_up (tv_sec t) (tv_usec t))
      else if tv_usec t < 0 then case_prod Timestamp (borrow (tv_sec t) (tv_usec t))
      else t)"

definition from_sec :: "int \<Rightarrow> timestamp" where
  "from_sec sec = Timestamp sec 0"

definition from_sec_usec :: "int \<Rightarrow> int \<Rightarrow> timestamp" where
  "from_sec_usec sec usec = normalize (Timestamp sec usec)"

definition valid :: "timestamp \<Rightarrow> bool" where
  "valid t =
     (if 0 < tv_sec t then 0 \<le> tv_usec t
      else if tv_sec t = 0 then 0 < tv_usec t
      else False)"

definition add_time :: "int \<Rightarrow> int \<Rightarrow> timestamp \<Rightarrow> timestamp" where
  "add_time sec usec t = normalize (Timestamp (tv_sec t + sec) (tv_usec t + usec))"

text \<open>The operators \<open>+=\<close> and \<open>-=\<close>, and \<open>+\<close> and \<open>-\<close>, which work on a copy.\<close>

definition add_assign :: "timestamp \<Rightarrow> timestamp \<Rightarrow> timestamp" where
  "add_assign t t2 = normalize (Timestamp (tv_sec t + tv_sec t2) (tv_usec t + tv_usec t2))"

definition sub_assign :: "timestamp \<Rightarrow> timestamp \<Rightarrow> timestamp" where
  "sub_assign t t2 = normalize (Timestamp (tv_sec t - tv_sec t2) (tv_usec t - tv_usec t2))"

definition stamp_add :: "timestamp \<Rightarrow> timestamp \<Rightarrow> timestamp" where
  "stamp_add t1 t2 = (let t = t1 in add_assign t t2)"

definition stamp_sub :: "timestamp \<Rightarrow> timestamp \<Rightarrow> timestamp" where
  "stamp_sub t1 t2 = (let t = t1 in sub_assign t t2)"

definition unixstamp :: "timestamp \<Rightarrow> int" where
  "unixstamp t = tv_sec t"

subsection \<open>Results\<close>

lemma carry_up_result:
  "USEC_PER_SEC \<le> usec \<Longrightarrow> carry_up sec usec = (sec + usec div USEC_PER_SEC, usec mod USEC_PER_SEC)"
proof (induction sec usec rule: carry_up.induct)
  case (1 sec usec)
  have pos: "0 < USEC_PER_SEC" by (simp add: USEC_PER_SEC_def)
  have shift: "sec + 1 + (usec - USEC_PER_SEC) div USEC_PER_SEC = sec + usec div USEC_PER_SEC"
    "(usec - USEC_PER_SEC) mod USEC_PER_SEC = usec mod USEC_PER_SEC"
    using div_pos_geq [of USEC_PER_SEC usec] mod_pos_geq [of USEC_PER_SEC usec] pos 1(2) by simp_all
  show ?case
  proof (cases "USEC_PER_SEC \<le> usec - USEC_PER_SEC")
    case True
    then have "carry_up (sec + 1) (usec - USEC_PER_SEC) =
        (sec + 1 + (usec - USEC_PER_SEC) div USEC_PER_SEC, (usec - USEC_PER_SEC) mod USEC_PER_SEC)"
      using 1(1) by simp
    then show ?thesis unfolding shift using True by (subst carry_up.simps) simp
  next
    case False
    then have "(usec - USEC_PER_SEC) div USEC_PER_SEC = 0"
      using 1(2) by (intro div_pos_pos_trivial) simp_all
    moreover have "(usec - USEC_PER_SEC) mod USEC_PER_SEC = usec - USEC_PER_SEC"
      using 1(2) False by (intro mod_pos_pos_trivial) simp_all
    ultimately have "(sec + 1, usec - USEC_PER_SEC) =
        (sec + 1 + (usec - USEC_PER_SEC) div USEC_PER_SEC, (usec - USEC_PER_SEC) mod USEC_PER_SEC)"
      by simp
    then show ?thesis unfolding shift using False by (subst carry_up.simps) simp
  qed
qed

text \<open>The number of rounds of the borrowing loop: it also ends when the seconds are used up.\<close>

lemma borrow_result:
  assumes "usec < 0"
  shows "\<exists>j. 1 \<le> j \<and> borrow sec usec = (sec - j, usec + j * USEC_PER_SEC) \<and>
    usec + (j - 1) * USEC_PER_SEC < 0 \<and> (0 \<le> usec + j * USEC_PER_SEC \<or> sec - j \<le> 0)
    \<and> (j = 1 \<or> 0 < sec - (j - 1))"
  using assms
proof (induction sec usec rule: borrow.induct)
  case (1 sec usec)
  show ?case
  proof (cases "usec + USEC_PER_SEC < 0 \<and> 0 < sec - 1")
    case True
    then obtain j where j: "1 \<le> j"
        "borrow (sec - 1) (usec + USEC_PER_SEC) = (sec - 1 - j, usec + USEC_PER_SEC + j * USEC_PER_SEC)"
        "usec + USEC_PER_SEC + (j - 1) * USEC_PER_SEC < 0"
        "0 \<le> usec + USEC_PER_SEC + j * USEC_PER_SEC \<or> sec - 1 - j \<le> 0"
        "j = 1 \<or> 0 < sec - 1 - (j - 1)"
      using 1(1) by auto
    have "borrow sec usec = borrow (sec - 1) (usec + USEC_PER_SEC)"
      using True by (subst borrow.simps) simp
    with j True show ?thesis
      by (intro exI [of _ "j + 1"]) (auto simp: algebra_simps)
  next
    case False
    then have "borrow sec usec = (sec - 1, usec + USEC_PER_SEC)"
      by (subst borrow.simps) auto
    with False 1(2) show ?thesis by (intro exI [of _ 1]) auto
  qed
qed

lemma normalize_value: "stamp_value (normalize t) = stamp_value t"
proof -
  consider "USEC_PER_SEC \<le> tv_usec t" | "tv_usec t < 0" | "0 \<le> tv_usec t" "tv_usec t < USEC_PER_SEC"
    by linarith
  then show ?thesis
  proof cases
    case 1
    then show ?thesis
      by (simp add: normalize_def carry_up_result stamp_value_def distrib_right)
  next
    case 2
    moreover from 2 have "\<not> USEC_PER_SEC \<le> tv_usec t" by (simp add: USEC_PER_SEC_def)
    moreover obtain j where "borrow (tv_sec t) (tv_usec t) = (tv_sec t - j, tv_usec t + j * USEC_PER_SEC)"
      using borrow_result [OF 2] by blast
    ultimately show ?thesis
      by (simp add: normalize_def stamp_value_def left_diff_distrib)
  next
    case 3
    then show ?thesis by (simp add: normalize_def)
  qed
qed

text \<open>
  When the microseconds lack more than one second and the seconds do not suffice, the result is not
  canonical.
\<close>

lemma normalize_normalized:
  assumes "- (max 1 (tv_sec t)) * USEC_PER_SEC \<le> tv_usec t"
  shows "normalized (normalize t)"
proof -
  have pos: "0 < USEC_PER_SEC" by (simp add: USEC_PER_SEC_def)
  consider "USEC_PER_SEC \<le> tv_usec t" | "tv_usec t < 0" | "0 \<le> tv_usec t" "tv_usec t < USEC_PER_SEC"
    by linarith
  then show ?thesis
  proof cases
    case 1
    then show ?thesis using pos by (simp add: normalize_def carry_up_result normalized_def)
  next
    case 2
    obtain j where j: "1 \<le> j" "borrow (tv_sec t) (tv_usec t) = (tv_sec t - j, tv_usec t + j * USEC_PER_SEC)"
      "tv_usec t + (j - 1) * USEC_PER_SEC < 0"
      "0 \<le> tv_usec t + j * USEC_PER_SEC \<or> tv_sec t - j \<le> 0"
      using borrow_result [OF 2] by blast
    have "0 \<le> tv_usec t + j * USEC_PER_SEC"
    proof (cases "tv_sec t - j \<le> 0")
      case True
      with j(1) have "max 1 (tv_sec t) \<le> j" by simp
      then have "max 1 (tv_sec t) * USEC_PER_SEC \<le> j * USEC_PER_SEC"
        using pos by (intro mult_right_mono) auto
      with assms show ?thesis by simp
    qed (use j(4) in simp)
    moreover have "tv_usec t + j * USEC_PER_SEC < USEC_PER_SEC"
      using j(3) by (simp add: left_diff_distrib)
    ultimately show ?thesis
      using 2 j(2) pos by (simp add: normalize_def normalized_def)
  next
    case 3
    then show ?thesis by (simp add: normalize_def normalized_def)
  qed
qed

section \<open>Comparison\<close>

text \<open>
  \<open>tv_sec * 1e6 + tv_usec\<close> is computed in IEEE doubles: every integer and every intermediate result
  is rounded to 53 significant bits, ties to even.
\<close>

fun excess_bits :: "nat \<Rightarrow> nat" where
  "excess_bits n = (if n < 2 ^ 53 then 0 else Suc (excess_bits (n div 2)))"

declare excess_bits.simps [simp del]

definition to_double :: "int \<Rightarrow> int" where
  "to_double k =
     (let u = 2 ^ excess_bits (nat \<bar>k\<bar>); q = k div u; r = k mod u in
      if 2 * r < u then q * u
      else if u < 2 * r then (q + 1) * u
      else (if even q then q else q + 1) * u)"

definition long_unixstamp :: "timestamp \<Rightarrow> int" where
  "long_unixstamp t = to_double (to_double (to_double (tv_sec t) * 1000000) + to_double (tv_usec t))"

definition stamp_gt :: "timestamp \<Rightarrow> timestamp \<Rightarrow> bool" where
  "stamp_gt t1 t2 \<longleftrightarrow> long_unixstamp t1 > long_unixstamp t2"

definition stamp_ge :: "timestamp \<Rightarrow> timestamp \<Rightarrow> bool" where
  "stamp_ge t1 t2 \<longleftrightarrow> long_unixstamp t1 \<ge> long_unixstamp t2"

definition stamp_lt :: "timestamp \<Rightarrow> timestamp \<Rightarrow> bool" where
  "stamp_lt t1 t2 \<longleftrightarrow> long_unixstamp t1 < long_unixstamp t2"

definition stamp_le :: "timestamp \<Rightarrow> timestamp \<Rightarrow> bool" where
  "stamp_le t1 t2 \<longleftrightarrow> long_unixstamp t1 \<le> long_unixstamp t2"

lemma to_double_exact: "\<bar>k\<bar> < 2 ^ 53 \<Longrightarrow> to_double k = k"
  by (simp add: to_double_def excess_bits.simps nat_less_iff)

text \<open>Stamps within about 285 years of the epoch.\<close>

definition in_range :: "timestamp \<Rightarrow> bool" where
  "in_range t \<longleftrightarrow> \<bar>tv_sec t\<bar> < 9007199254 \<and> \<bar>tv_usec t\<bar> \<le> USEC_PER_SEC"

lemma long_unixstamp_exact:
  assumes "in_range t"
  shows "long_unixstamp t = stamp_value t"
proof -
  have b: "\<bar>tv_sec t\<bar> < 9007199254" "\<bar>tv_usec t\<bar> \<le> 1000000"
    using assms by (simp_all add: in_range_def USEC_PER_SEC_def)
  have "to_double (tv_sec t) = tv_sec t" "to_double (tv_usec t) = tv_usec t"
    using b by (simp_all add: to_double_exact)
  moreover have "to_double (tv_sec t * 1000000) = tv_sec t * 1000000"
    "to_double (tv_sec t * 1000000 + tv_usec t) = tv_sec t * 1000000 + tv_usec t"
    using b by (auto intro!: to_double_exact)
  ultimately show ?thesis by (simp add: long_unixstamp_def stamp_value_def USEC_PER_SEC_def)
qed

lemma stamp_value_less:
  assumes "normalized s" and "normalized t"
  shows "stamp_value s < stamp_value t \<longleftrightarrow> s < t"
  using assms by (auto simp: stamp_value_def normalized_def less_timestamp_def USEC_PER_SEC_def)

section \<open>Properties\<close>

text \<open>
  C29: Sums and differences of canonical stamps denote the sum and the difference of the times, and
  are canonical again, also when the difference is negative.
\<close>

theorem stamp_arithmetic:
  assumes "normalized t1" and "normalized t2"
  shows "stamp_value (stamp_add t1 t2) = stamp_value t1 + stamp_value t2 \<and> normalized (stamp_add t1 t2)
    \<and> stamp_value (stamp_sub t1 t2) = stamp_value t1 - stamp_value t2 \<and> normalized (stamp_sub t1 t2)"
proof -
  have "USEC_PER_SEC \<le> max 1 k * USEC_PER_SEC" for k
    using mult_right_mono [of 1 "max 1 k" USEC_PER_SEC] by (simp add: USEC_PER_SEC_def)
  then have low: "- (max 1 k) * USEC_PER_SEC \<le> - USEC_PER_SEC" for k
    by (simp only: mult_minus_left neg_le_iff_le)
  have "normalized (stamp_add t1 t2)"
    unfolding stamp_add_def Let_def add_assign_def using assms low [of "tv_sec t1 + tv_sec t2"]
    by (intro normalize_normalized) (unfold normalized_def timestamp.sel, elim conjE, linarith)
  moreover have "normalized (stamp_sub t1 t2)"
    unfolding stamp_sub_def Let_def sub_assign_def using assms low [of "tv_sec t1 - tv_sec t2"]
    by (intro normalize_normalized) (unfold normalized_def timestamp.sel, elim conjE, linarith)
  ultimately show ?thesis
    by (auto simp: stamp_add_def stamp_sub_def add_assign_def sub_assign_def normalize_value) (simp_all add: stamp_value_def algebra_simps)
qed

theorem stamp_arithmetic_witness:
  "stamp_value (stamp_sub (Timestamp 5 0) (Timestamp 7 500000)) = -2500000
     \<and> normalized (stamp_sub (Timestamp 5 0) (Timestamp 7 500000))"
  using stamp_arithmetic [of "Timestamp 5 0" "Timestamp 7 500000"]
  by (simp add: normalized_def stamp_value_def USEC_PER_SEC_def)

text \<open>
  \<open>add_time\<close> adds the given time whatever the arguments, but it yields a canonical stamp only
  when a lack of microseconds can be covered: with no seconds left, the borrowing loop gives up after
  one round and leaves the microseconds negative.
\<close>

theorem add_time_result:
  "stamp_value (add_time sec usec t) = stamp_value t + sec * USEC_PER_SEC + usec
    \<and> (normalized (add_time sec usec t) \<longleftrightarrow>
        - (max 1 (tv_sec t + sec)) * USEC_PER_SEC \<le> tv_usec t + usec)"
proof
  let ?t = "Timestamp (tv_sec t + sec) (tv_usec t + usec)"
  show "stamp_value (add_time sec usec t) = stamp_value t + sec * USEC_PER_SEC + usec"
    by (simp add: add_time_def normalize_value) (simp add: stamp_value_def algebra_simps)
  show "normalized (add_time sec usec t) \<longleftrightarrow>
        - (max 1 (tv_sec t + sec)) * USEC_PER_SEC \<le> tv_usec t + usec"
  proof
    assume n: "normalized (add_time sec usec t)"
    show "- (max 1 (tv_sec t + sec)) * USEC_PER_SEC \<le> tv_usec t + usec"
    proof (cases "tv_usec ?t < 0")
      case True
      obtain j where j: "1 \<le> j" "borrow (tv_sec ?t) (tv_usec ?t) = (tv_sec ?t - j, tv_usec ?t + j * USEC_PER_SEC)"
        "j = 1 \<or> 0 < tv_sec ?t - (j - 1)"
        using borrow_result [OF True] by blast
      have "\<not> USEC_PER_SEC \<le> tv_usec ?t" using True by (simp add: USEC_PER_SEC_def)
      then have "0 \<le> tv_usec ?t + j * USEC_PER_SEC"
        using n j(2) True by (simp add: add_time_def normalize_def normalized_def)
      moreover have "j \<le> max 1 (tv_sec ?t)" using j(3) by auto
      then have "j * USEC_PER_SEC \<le> max 1 (tv_sec ?t) * USEC_PER_SEC"
        by (intro mult_right_mono) (simp_all add: USEC_PER_SEC_def)
      ultimately show ?thesis by simp
    next
      case False
      moreover have "0 \<le> max 1 (tv_sec t + sec) * USEC_PER_SEC" by (simp add: USEC_PER_SEC_def)
      ultimately show ?thesis by simp
    qed
  next
    assume "- (max 1 (tv_sec t + sec)) * USEC_PER_SEC \<le> tv_usec t + usec"
    then show "normalized (add_time sec usec t)"
      unfolding add_time_def by (intro normalize_normalized) simp
  qed
qed

text \<open>
  C30: On canonical stamps within about 285 years of the epoch the four comparison operators are those
  of the denoted times, although they are computed in doubles.
\<close>

theorem comparisons_agree:
  assumes "normalized s" and "normalized t" and "in_range s" and "in_range t"
  shows "(stamp_lt s t \<longleftrightarrow> s < t) \<and> (stamp_le s t \<longleftrightarrow> s \<le> t) \<and> (stamp_gt s t \<longleftrightarrow> s > t) \<and> (stamp_ge s t \<longleftrightarrow> s \<ge> t)"
proof -
  have "stamp_value s \<le> stamp_value t \<longleftrightarrow> s \<le> t"
    unfolding linorder_not_less [symmetric] stamp_value_less [OF assms(2,1)] ..
  moreover have "stamp_value t \<le> stamp_value s \<longleftrightarrow> t \<le> s"
    unfolding linorder_not_less [symmetric] stamp_value_less [OF assms(1,2)] ..
  ultimately show ?thesis
    using stamp_value_less [OF assms(1,2)] stamp_value_less [OF assms(2,1)]
    unfolding stamp_lt_def stamp_le_def stamp_gt_def stamp_ge_def long_unixstamp_exact [OF assms(3)]
      long_unixstamp_exact [OF assms(4)] by blast
qed

theorem comparisons_agree_witness:
  "stamp_lt (Timestamp 1700000000 999999) (Timestamp 1700000001 0)"
  using comparisons_agree [of "Timestamp 1700000000 999999" "Timestamp 1700000001 0"]
  by (simp add: normalized_def in_range_def USEC_PER_SEC_def less_timestamp_def)

end
