(* ===== verification/Log_File.thy ===== *)
theory Log_File
  imports Sc_Prelude
begin

text \<open>
  \<open>LogFile\<close> (include/LogFile.h, src/LogFile.cpp): the file log lines are appended to, which is
  replaced by a new one when it has grown large.  A stream is the name of its file and the bytes it has
  accepted; \<open>disk\<close> is what the files hold, which are opened for appending: a file that exists under the
  name, which has a resolution of one second, is continued.  How far the C library has passed bytes on to
  the kernel is not observable, except that \<open>unflushed\<close> counts the bytes accepted since the last flush.
\<close>

section \<open>State and operations\<close>

definition FILE_SIZE :: nat where
  "FILE_SIZE = 100 * 1024 * 1024"

text \<open>
  \<open>closed_logs\<close> are the streams closed so far, \<open>leaked_logs\<close> those overwritten in \<open>fp_\<close> while they were
  open.
\<close>

record log_file =
  write_size :: "32 word"
  base_filename :: string
  fp :: "(string \<times> byte list) option"
  closed_logs :: "(string \<times> byte list) list"
  leaked_logs :: "(string \<times> byte list) list"
  disk :: "string \<Rightarrow> byte list"
  unflushed :: nat

definition new_log_file :: log_file where
  "new_log_file = \<lparr>write_size = 0, base_filename = [], fp = None, closed_logs = [], leaked_logs = [],
     disk = (\<lambda>_. []), unflushed = 0\<rparr>"

text \<open>What opening a file depends on: the local time as \<open>strftime\<close> prints it, and the outcome of \<open>fopen\<close>.\<close>

record open_env =
  stamp :: string
  opened :: bool

definition get_logfile_name :: "open_env \<Rightarrow> log_file \<Rightarrow> string" where
  "get_logfile_name e f = base_filename f @ stamp e"

text \<open>A new stream at the end of the file of that name, which keeps what it holds.\<close>

definition open_fp :: "open_env \<Rightarrow> log_file \<Rightarrow> fault + log_file" where
  "open_fp e f =
     bind_res (check (opened e) Process_Abort) (\<lambda>_.
     Inr (f\<lparr>fp := Some (get_logfile_name e f, []),
            leaked_logs := leaked_logs f @ (case fp f of None \<Rightarrow> [] | Some x \<Rightarrow> [x])\<rparr>))"

definition init_file :: "open_env \<Rightarrow> string \<Rightarrow> log_file \<Rightarrow> fault + log_file" where
  "init_file e name f = open_fp e (f\<lparr>base_filename := name\<rparr>)"

definition flush :: "log_file \<Rightarrow> log_file" where
  "flush f = f\<lparr>unflushed := 0\<rparr>"

definition close_fp :: "log_file \<Rightarrow> log_file" where
  "close_fp f =
     (case fp f of
        None \<Rightarrow> f
      | Some x \<Rightarrow> (flush f)\<lparr>fp := None, closed_logs := closed_logs f @ [x]\<rparr>)"

definition destroy_log_file :: "log_file \<Rightarrow> log_file" where
  "destroy_log_file f = close_fp f"

definition check_upadte_fp :: "open_env \<Rightarrow> log_file \<Rightarrow> fault + log_file" where
  "check_upadte_fp e f =
     (if FILE_SIZE \<le> unat (write_size f)
      then bind_res (open_fp e (close_fp f)) (\<lambda>f. Inr (f\<lparr>write_size := 0\<rparr>))
      else Inr f)"

text \<open>One \<open>fwrite_unlocked\<close> of the bytes \<open>ds\<close>, of which the stream takes at most \<open>n\<close>.\<close>

definition fwrite :: "nat \<Rightarrow> byte list \<Rightarrow> log_file \<Rightarrow> nat \<times> log_file" where
  "fwrite n ds f =
     (let x = min n (length ds) in
      (x, f\<lparr>fp := map_option (\<lambda>(name, bs). (name, bs @ take x ds)) (fp f),
             disk := (case fp f of None \<Rightarrow> disk f | Some (name, _) \<Rightarrow> (disk f)(name := disk f name @ take x ds)),
             unflushed := unflushed f + x\<rparr>))"

text \<open>The loop over the remaining bytes, which gives up when a write takes none; call \<open>i\<close> takes \<open>takes i\<close>.\<close>

function write_rest :: "(nat \<Rightarrow> nat) \<Rightarrow> nat \<Rightarrow> byte list \<Rightarrow> log_file \<Rightarrow> nat \<times> log_file" where
  "write_rest takes i ds f =
     (if ds = [] then (0, f)
      else
        let r = fwrite (takes i) ds f in
        if fst r = 0 then (0, snd r)
        else let q = write_rest takes (i + 1) (drop (fst r) ds) (snd r) in (fst r + fst q, snd q))"
  by pat_completeness auto
termination
  by (relation "measure (\<lambda>(_, _, ds, _). length ds)") auto

declare write_rest.simps [simp del]

definition append_log :: "(nat \<Rightarrow> nat) \<Rightarrow> open_env \<Rightarrow> byte list \<Rightarrow> log_file \<Rightarrow> fault + log_file" where
  "append_log takes e ds f =
     bind_res (check (fp f \<noteq> None) Null_Pointer) (\<lambda>_.
     let (x, f) = fwrite (takes 0) ds f;
         (y, f) = write_rest takes 1 (drop x ds) f in
     check_upadte_fp e (f\<lparr>write_size := write_size f + word_of_nat (x + y)\<rparr>))"

section \<open>Writing\<close>

text \<open>A stream that takes something at every call takes everything.\<close>

definition accepted_bytes :: "byte list \<Rightarrow> log_file \<Rightarrow> log_file" where
  "accepted_bytes ds f =
     f\<lparr>fp := map_option (\<lambda>(name, bs). (name, bs @ ds)) (fp f),
       disk := (case fp f of None \<Rightarrow> disk f | Some (name, _) \<Rightarrow> (disk f)(name := disk f name @ ds)),
       unflushed := unflushed f + length ds\<rparr>"

lemma accepted_bytes_append: "accepted_bytes es (accepted_bytes ds f) = accepted_bytes (ds @ es) f"
  by (cases "fp f") (simp_all add: accepted_bytes_def split_beta)

lemma accepted_bytes_Nil [simp]: "accepted_bytes [] f = f"
  by (cases f; cases "fp f") (simp_all add: accepted_bytes_def)

lemma fwrite_eq: "fwrite n ds f = (min n (length ds), accepted_bytes (take n ds) f)"
proof -
  have "take (min n (length ds)) ds = take n ds" by (simp add: min_def)
  then show ?thesis by (cases "fp f") (auto simp: fwrite_def accepted_bytes_def Let_def min.commute)
qed

lemma write_rest_all:
  assumes "\<And>j. i \<le> j \<Longrightarrow> 0 < takes j"
  shows "write_rest takes i ds f = (length ds, accepted_bytes ds f)"
  using assms
proof (induction takes i ds f rule: write_rest.induct)
  case (1 takes i ds f)
  show ?case
  proof (cases "ds = []")
    case True
    then show ?thesis by (simp add: write_rest.simps)
  next
    case False
    let ?x = "min (takes i) (length ds)"
    have x: "?x \<noteq> 0" using False 1(2) [of i] by simp
    have "write_rest takes (i + 1) (drop ?x ds) (accepted_bytes (take (takes i) ds) f)
        = (length ds - ?x, accepted_bytes (drop ?x ds) (accepted_bytes (take (takes i) ds) f))"
      using 1(1) [OF False refl] x 1(2) by (simp add: fwrite_eq)
    moreover have "take (takes i) ds @ drop ?x ds = ds"
      by (cases "takes i \<le> length ds") simp_all
    ultimately show ?thesis
      using False x by (subst write_rest.simps) (simp add: fwrite_eq Let_def accepted_bytes_append)
  qed
qed

lemma append_log_eq:
  assumes "fp f = Some x" and "\<And>j. 0 < takes j"
  shows "append_log takes e ds f =
    check_upadte_fp e ((accepted_bytes ds f)\<lparr>write_size := write_size f + word_of_nat (length ds)\<rparr>)"
proof -
  have "take (takes 0) ds @ drop (min (takes 0) (length ds)) ds = ds"
    by (cases "takes 0 \<le> length ds") simp_all
  then show ?thesis
    using assms
    by (simp add: append_log_def fwrite_eq write_rest_all accepted_bytes_append)
      (simp add: accepted_bytes_def)
qed

section \<open>Rotation\<close>

text \<open>
  The counter is what the current stream has accepted, which is below the limit; a closed stream has
  reached the limit by less than one line of at most \<open>l\<close> bytes.
\<close>

definition log_file_ok :: "nat \<Rightarrow> log_file \<Rightarrow> bool" where
  "log_file_ok l f \<longleftrightarrow>
     (\<exists>name bs. fp f = Some (name, bs) \<and> unat (write_size f) = length bs \<and> length bs < FILE_SIZE) \<and>
     (\<forall>(name, bs) \<in> set (closed_logs f). FILE_SIZE \<le> length bs \<and> length bs < FILE_SIZE + l)"

definition file_bytes :: "log_file \<Rightarrow> byte list list" where
  "file_bytes f = map snd (closed_logs f) @ (case fp f of None \<Rightarrow> [] | Some (_, bs) \<Rightarrow> [bs])"

definition streams :: "log_file \<Rightarrow> (string \<times> byte list) list" where
  "streams f = closed_logs f @ (case fp f of None \<Rightarrow> [] | Some x \<Rightarrow> [x])"

lemma file_bytes_streams: "file_bytes f = map snd (streams f)"
  by (simp add: file_bytes_def streams_def split: option.split)

text \<open>What streams with the name \<open>n\<close> have accepted, and how many there are.\<close>

definition under :: "string \<Rightarrow> (string \<times> byte list) list \<Rightarrow> byte list list" where
  "under n xs = map snd (filter (\<lambda>x. fst x = n) xs)"

text \<open>Every file holds what it held in \<open>D\<close>, then what its streams accepted, one after the other.\<close>

definition disk_ok :: "(string \<Rightarrow> byte list) \<Rightarrow> log_file \<Rightarrow> bool" where
  "disk_ok D f \<longleftrightarrow> (\<forall>n. disk f n = D n @ concat (under n (streams f)))"

lemma disk_ok_accepted: "disk_ok D f \<Longrightarrow> disk_ok D (accepted_bytes ds f)"
  by (auto simp: disk_ok_def streams_def accepted_bytes_def under_def split: option.splits)

lemma disk_ok_closed: "disk_ok D f \<Longrightarrow> disk_ok D (close_fp f)"
  by (auto simp: disk_ok_def streams_def close_fp_def flush_def under_def split: option.splits)

lemma disk_ok_opened: "open_fp e f = Inr f' \<Longrightarrow> fp f = None \<Longrightarrow> disk_ok D f \<Longrightarrow> disk_ok D f'"
  by (auto simp: disk_ok_def streams_def open_fp_def under_def check_def split: if_splits)

lemma disk_ok_append:
  assumes "disk_ok D f" and "fp f \<noteq> None" and "\<forall>j. 0 < takes j" and run: "append_log takes e ds f = Inr f'"
  shows "disk_ok D f'"
proof -
  obtain x where x: "fp f = Some x" using assms(2) by blast
  let ?g = "(accepted_bytes ds f)\<lparr>write_size := write_size f + word_of_nat (length ds)\<rparr>"
  have g: "disk_ok D ?g" using disk_ok_accepted [OF assms(1), of ds] by (simp add: disk_ok_def streams_def)
  have "check_upadte_fp e ?g = Inr f'" using append_log_eq [OF x, of takes e ds] assms(3) run by simp
  then consider "f' = ?g" | h where "open_fp e (close_fp ?g) = Inr h" "f' = h\<lparr>write_size := 0\<rparr>"
    by (auto simp: check_upadte_fp_def elim!: bind_resE split: if_splits)
  then show ?thesis
  proof cases
    case 2
    have "fp (close_fp ?g) = None" by (simp add: close_fp_def flush_def split: option.split)
    then have "disk_ok D h" by (rule disk_ok_opened [OF 2(1) _ disk_ok_closed [OF g]])
    then show ?thesis by (simp add: 2(2) disk_ok_def streams_def)
  qed (use g in simp)
qed

text \<open>Everything written, over all streams.\<close>

definition written :: "log_file \<Rightarrow> byte list" where
  "written f = concat (file_bytes f)"

lemma append_log_ok:
  assumes ok: "log_file_ok l f" and len: "length ds \<le> l" "FILE_SIZE + l \<le> 2 ^ 32"
    and env: "\<forall>j. 0 < takes j" "opened e"
  shows "\<exists>f' bs. append_log takes e ds f = Inr f' \<and> log_file_ok l f' \<and> file_bytes f = map snd (closed_logs f) @ [bs]
    \<and> (file_bytes f' = map snd (closed_logs f) @ [bs @ ds] \<or> file_bytes f' = map snd (closed_logs f) @ [bs @ ds, []])
    \<and> leaked_logs f' = leaked_logs f"
proof -
  obtain name bs where bs: "fp f = Some (name, bs)" "unat (write_size f) = length bs" "length bs < FILE_SIZE"
    using ok by (auto simp: log_file_ok_def)
  let ?g = "(accepted_bytes ds f)\<lparr>write_size := write_size f + word_of_nat (length ds)\<rparr>"
  have g: "fp ?g = Some (name, bs @ ds)" "closed_logs ?g = closed_logs f" "leaked_logs ?g = leaked_logs f"
    by (simp_all add: accepted_bytes_def bs)
  have size: "unat (write_size ?g) = length (bs @ ds)"
    using bs(2,3) len by (simp add: unat_word_ariths(1) unat_of_nat take_bit_nat_eq_self)
  have run: "append_log takes e ds f = check_upadte_fp e ?g"
    using append_log_eq [OF bs(1), of takes e ds] env(1) by simp
  show ?thesis
  proof (cases "FILE_SIZE \<le> length (bs @ ds)")
    case False
    then have "\<not> FILE_SIZE \<le> unat (write_size ?g)" by (simp only: size not_False_eq_True)
    then have "append_log takes e ds f = Inr ?g" unfolding run check_upadte_fp_def by (rule if_not_P)
    moreover have "log_file_ok l ?g"
      unfolding log_file_ok_def g using False size ok by (auto simp: log_file_ok_def)
    ultimately show ?thesis
      using g by (intro exI [of _ ?g] exI [of _ bs]) (simp add: file_bytes_def bs(1))
  next
    case True
    define g' where "g' = (close_fp ?g)\<lparr>fp := Some (get_logfile_name e (close_fp ?g), []), write_size := 0\<rparr>"
    have c: "fp (close_fp ?g) = None" "closed_logs (close_fp ?g) = closed_logs f @ [(name, bs @ ds)]"
        "leaked_logs (close_fp ?g) = leaked_logs f"
      unfolding close_fp_def g by (simp_all add: flush_def accepted_bytes_def)
    have "FILE_SIZE \<le> unat (write_size ?g)" using True size by simp
    then have "append_log takes e ds f = Inr g'"
      unfolding run check_upadte_fp_def g'_def using env(2) c by (simp add: open_fp_def)
    moreover have "log_file_ok l g'"
      unfolding log_file_ok_def g'_def using True ok bs(3) len(1) c(2)
      by (auto simp: log_file_ok_def FILE_SIZE_def)
    ultimately show ?thesis
      using c by (intro exI [of _ g'] exI [of _ bs]) (simp add: file_bytes_def bs(1) g'_def)
  qed
qed

lemma append_log_written:
  assumes "log_file_ok l f" and "length ds \<le> l" "FILE_SIZE + l \<le> 2 ^ 32" and "\<forall>j. 0 < takes j" "opened e"
  obtains f' where "append_log takes e ds f = Inr f'" "log_file_ok l f'" "written f' = written f @ ds"
  using append_log_ok [of l f ds takes e, OF assms] unfolding written_def by fastforce

lemma lines_grouped:
  assumes "log_file_ok l f" and "file_bytes f = [[]]" and "FILE_SIZE + l \<le> 2 ^ 32"
    and "\<forall>(takes, e, ds) \<in> set ws. (\<forall>j. 0 < takes j) \<and> opened e \<and> length ds \<le> l"
  shows "\<exists>f' groups. each (\<lambda>(takes, e, ds). append_log takes e ds) ws f = Inr f' \<and> log_file_ok l f'
    \<and> concat groups = map (\<lambda>(takes, e, ds). ds) ws \<and> file_bytes f' = map concat groups"
proof -
  have "\<exists>f' groups. each (\<lambda>(takes, e, ds). append_log takes e ds) ws f = Inr f' \<and> log_file_ok l f'
    \<and> concat groups = ls @ map (\<lambda>(takes, e, ds). ds) ws \<and> file_bytes f' = map concat groups"
    if "log_file_ok l f" "concat groups = ls" "file_bytes f = map concat groups"
      "\<forall>(takes, e, ds) \<in> set ws. (\<forall>j. 0 < takes j) \<and> opened e \<and> length ds \<le> l" for f groups ls
    using that
  proof (induction ws arbitrary: f groups ls)
    case Nil
    then show ?case by auto
  next
    case (Cons w ws)
    obtain takes e ds where w: "w = (takes, e, ds)" by (cases w)
    then have env: "\<forall>j. 0 < takes j" "opened e" "length ds \<le> l" using Cons.prems(4) by auto
    obtain f1 bs where f1: "append_log takes e ds f = Inr f1" "log_file_ok l f1"
        "file_bytes f = map snd (closed_logs f) @ [bs]"
        "file_bytes f1 = map snd (closed_logs f) @ [bs @ ds] \<or> file_bytes f1 = map snd (closed_logs f) @ [bs @ ds, []]"
      using append_log_ok [OF Cons.prems(1) env(3) assms(3) env(1,2)] by blast
    obtain gs g where g: "groups = gs @ [g]" "map concat gs = map snd (closed_logs f)" "concat g = bs"
    proof -
      have e: "map snd (closed_logs f) @ [bs] = map concat groups" using Cons.prems(3) f1(3) by simp
      show thesis
      proof (cases groups rule: rev_cases)
        case Nil
        with e show thesis by simp
      next
        case (snoc gs g)
        with e show thesis by (intro that [of gs g]) simp_all
      qed
    qed
    have "\<exists>groups'. concat groups' = ls @ [ds] \<and> file_bytes f1 = map concat groups'"
      using f1(4) g Cons.prems(2)
      by (elim disjE; intro exI [of _ "gs @ [g @ [ds]] @ (if file_bytes f1 = map snd (closed_logs f) @ [bs @ ds] then [] else [[]])"])
        auto
    then obtain groups' where g': "concat groups' = ls @ [ds]" "file_bytes f1 = map concat groups'" by blast
    have "\<exists>f' groups. each (\<lambda>(takes, e, ds). append_log takes e ds) ws f1 = Inr f' \<and> log_file_ok l f'
      \<and> concat groups = (ls @ [ds]) @ map (\<lambda>(takes, e, ds). ds) ws \<and> file_bytes f' = map concat groups"
      using Cons.prems(4) by (intro Cons.IH [OF f1(2) g']) simp
    then show ?case by (simp add: w f1(1))
  qed
  from this [of f "[[]]" "[]"] show ?thesis using assms by simp
qed

lemma lines_on_disk:
  assumes "log_file_ok l f" and "disk_ok D f" and "FILE_SIZE + l \<le> 2 ^ 32"
    and "\<forall>(takes, e, ds) \<in> set ws. (\<forall>j. 0 < takes j) \<and> opened e \<and> length ds \<le> l"
    and "each (\<lambda>(takes, e, ds). append_log takes e ds) ws f = Inr f'"
  shows "disk_ok D f'"
  using assms(1,2,4,5)
proof (induction ws arbitrary: f)
  case (Cons w ws)
  obtain takes e ds where w: "w = (takes, e, ds)" by (cases w)
  then have env: "\<forall>j. 0 < takes j" "opened e" "length ds \<le> l" using Cons.prems(3) by auto
  obtain f1 where f1: "append_log takes e ds f = Inr f1" "log_file_ok l f1"
    using append_log_ok [OF Cons.prems(1) env(3) assms(3) env(1,2)] by blast
  have "fp f \<noteq> None" using Cons.prems(1) by (auto simp: log_file_ok_def)
  then have "disk_ok D f1" using disk_ok_append [OF Cons.prems(2) _ env(1) f1(1)] by blast
  then show ?case using Cons.IH [OF f1(2)] Cons.prems(3,4) f1(1) by (simp add: w)
qed simp

lemma under_bound:
  assumes "\<forall>(n, bs) \<in> set xs. length bs \<le> k"
  shows "length (concat (under n xs)) \<le> length (under n xs) * k"
  using assms by (induction xs) (auto simp: under_def)

section \<open>Properties\<close>

text \<open>
  C39: Rotation keeps lines whole and files bounded: after any sequence of lines of at most \<open>l\<close> bytes,
  written through streams that take something at every call, the streams opened one after the other hold
  exactly the lines in order, each line in one stream.  Every file holds, behind what it held before, the
  lines of the streams opened under its name.  A stream accepts fewer bytes than the limit plus \<open>l\<close>, so a
  file grows by less than that for every stream opened under its name: by one of them, unless rotation
  recurs within the second its name shows.
\<close>

theorem rotation_keeps_lines:
  assumes "log_file_ok l f" and "streams f = [(name, [])]" and "FILE_SIZE + l \<le> 2 ^ 32"
    and "\<forall>(takes, e, ds) \<in> set ws. (\<forall>j. 0 < takes j) \<and> opened e \<and> length ds \<le> l"
  shows "\<exists>f' groups. each (\<lambda>(takes, e, ds). append_log takes e ds) ws f = Inr f' \<and> log_file_ok l f'
    \<and> concat groups = map (\<lambda>(takes, e, ds). ds) ws \<and> map snd (streams f') = map concat groups
    \<and> (\<forall>n. disk f' n = disk f n @ concat (under n (streams f')))
    \<and> (\<forall>n. length (disk f' n) \<le> length (disk f n) + length (under n (streams f')) * (FILE_SIZE + l))"
proof -
  have "file_bytes f = [[]]" using assms(2) by (simp add: file_bytes_streams)
  from lines_grouped [OF assms(1) this assms(3,4)] obtain f' groups where
    f': "each (\<lambda>(takes, e, ds). append_log takes e ds) ws f = Inr f'" "log_file_ok l f'"
      "concat groups = map (\<lambda>(takes, e, ds). ds) ws" "map snd (streams f') = map concat groups"
    unfolding file_bytes_streams by blast
  have "disk_ok (disk f) f" using assms(2) by (simp add: disk_ok_def under_def)
  from lines_on_disk [OF assms(1) this assms(3,4) f'(1)] have "disk_ok (disk f) f'" .
  then have d: "\<forall>n. disk f' n = disk f n @ concat (under n (streams f'))" by (simp add: disk_ok_def)
  have "\<forall>(n, bs) \<in> set (streams f'). length bs \<le> FILE_SIZE + l"
    using f'(2) by (fastforce simp: log_file_ok_def streams_def)
  from under_bound [OF this] have "length (disk f' n) \<le> length (disk f n) + length (under n (streams f')) * (FILE_SIZE + l)" for n
    using d by simp
  with f' d show ?thesis by blast
qed

text \<open>A file opened for a new log.\<close>

definition sample_open :: open_env where
  "sample_open = \<lparr>stamp = ''20240101-000000'', opened = True\<rparr>"

lemma init_file_ok:
  assumes "opened e"
  obtains f where "init_file e name new_log_file = Inr f" "log_file_ok l f" "file_bytes f = [[]]"
    "streams f = [(name @ stamp e, [])]"
  using assms
  by (simp add: init_file_def open_fp_def new_log_file_def log_file_ok_def file_bytes_def FILE_SIZE_def streams_def
      get_logfile_name_def)

theorem rotation_keeps_lines_witness:
  "\<exists>f f' groups. init_file sample_open ''log_'' new_log_file = Inr f
     \<and> each (\<lambda>(takes, e, ds). append_log takes e ds) [(\<lambda>_. 1, sample_open, [1, 2]), (\<lambda>_. 9, sample_open, [3])] f = Inr f'
     \<and> log_file_ok 8192 f' \<and> concat groups = [[1, 2], [3]] \<and> map snd (streams f') = map concat groups
     \<and> (\<forall>n. disk f' n = disk f n @ concat (under n (streams f')))"
proof -
  have o: "opened sample_open" by (simp add: sample_open_def)
  obtain f where f: "init_file sample_open ''log_'' new_log_file = Inr f" "log_file_ok 8192 f"
      "streams f = [(''log_'' @ stamp sample_open, [])]"
    by (rule init_file_ok [OF o])
  then show ?thesis
    using rotation_keeps_lines [OF f(2,3), of "[(\<lambda>_. 1, sample_open, [1, 2]), (\<lambda>_. 9, sample_open, [3])]"] o
    by (auto simp: FILE_SIZE_def)
qed

text \<open>
  Rotation within the second the current file was opened in does not begin a new file: the stream is
  closed and opened again at the end of the same file, and the counter starts at zero.
\<close>

theorem same_second_keeps_file:
  assumes "log_file_ok l f" and "fp f = Some (n, bs)" and "disk f n = bs" and "get_logfile_name e f = n"
    and "FILE_SIZE \<le> length bs + length ds" and "length ds \<le> l" "FILE_SIZE + l \<le> 2 ^ 32" and "\<forall>j. 0 < takes j" "opened e"
  shows "\<exists>f'. append_log takes e ds f = Inr f' \<and> fp f' = Some (n, []) \<and> disk f' n = bs @ ds \<and> write_size f' = 0"
proof -
  let ?g = "(accepted_bytes ds f)\<lparr>write_size := write_size f + word_of_nat (length ds)\<rparr>"
  have bs: "unat (write_size f) = length bs" "length bs < FILE_SIZE"
    using assms(1,2) by (auto simp: log_file_ok_def)
  have "unat (write_size ?g) = length (bs @ ds)"
    using bs assms(6,7) by (simp add: unat_word_ariths(1) unat_of_nat take_bit_nat_eq_self)
  then have "FILE_SIZE \<le> unat (write_size ?g)" using assms(5) by simp
  then have "append_log takes e ds f = bind_res (open_fp e (close_fp ?g)) (\<lambda>f. Inr (f\<lparr>write_size := 0\<rparr>))"
    using append_log_eq [OF assms(2), of takes e ds] assms(8) by (simp add: check_upadte_fp_def)
  moreover have "get_logfile_name e (close_fp ?g) = n"
    using assms(2,4) by (simp add: get_logfile_name_def close_fp_def flush_def accepted_bytes_def)
  ultimately show ?thesis
    using assms(2,3,9) by (simp add: open_fp_def) (simp add: close_fp_def flush_def accepted_bytes_def)
qed

theorem same_second_keeps_file_witness:
  "\<exists>f'. append_log (\<lambda>_. 1) sample_open [0] (new_log_file\<lparr>fp := Some (''20240101-000000'', replicate (FILE_SIZE - 1) 7),
       disk := (\<lambda>_. replicate (FILE_SIZE - 1) 7), write_size := word_of_nat (FILE_SIZE - 1)\<rparr>) = Inr f'
     \<and> disk f' ''20240101-000000'' = replicate (FILE_SIZE - 1) 7 @ [0] \<and> fp f' = Some (''20240101-000000'', [])"
proof -
  let ?f = "new_log_file\<lparr>fp := Some (''20240101-000000'', replicate (FILE_SIZE - 1) 7),
       disk := (\<lambda>_. replicate (FILE_SIZE - 1) 7), write_size := word_of_nat (FILE_SIZE - 1)\<rparr>"
  have "log_file_ok 1 ?f"
    by (simp add: log_file_ok_def new_log_file_def FILE_SIZE_def unat_of_nat take_bit_nat_eq_self)
  moreover have "get_logfile_name sample_open ?f = ''20240101-000000''"
    by (simp add: get_logfile_name_def sample_open_def new_log_file_def)
  moreover have "opened sample_open" "FILE_SIZE \<le> length (replicate (FILE_SIZE - 1) (7 :: byte)) + length [0 :: byte]"
      "FILE_SIZE + 1 \<le> 2 ^ 32" by (simp_all add: sample_open_def FILE_SIZE_def)
  ultimately show ?thesis
    using same_second_keeps_file [of 1 ?f "''20240101-000000''" "replicate (FILE_SIZE - 1) 7" sample_open "[0]" "\<lambda>_. 1"]
    by auto
qed

end
