(* ===== verification/Log_Line.thy ===== *)
theory Log_Line
  imports Buffer
begin

text \<open>
  The free function \<open>log_info\<close> (src/LogThread.cpp), as far as it fills the buffer of one line: the time,
  the formatted message and, for a trace, the symbols of the stack.
\<close>

section \<open>Formatting\<close>

text \<open>
  \<open>snprintf\<close> to \<open>n\<close> bytes at index \<open>i\<close> of the vector: what fits of the text, and a zero byte.
\<close>

definition snprintf :: "nat \<Rightarrow> nat \<Rightarrow> byte list \<Rightarrow> byte list \<Rightarrow> fault + byte list" where
  "snprintf i n text xs = (if n = 0 then Inr xs else mem_write i (take (n - 1) text @ [0]) xs)"

text \<open>The fields of \<open>localtime_r\<close> that are printed, each with two digits.\<close>

record clock_time =
  tm_hour :: nat
  tm_min :: nat
  tm_sec :: nat

definition two_digits :: "nat \<Rightarrow> byte list" where
  "two_digits n = [word_of_nat (48 + n div 10 mod 10), word_of_nat (48 + n mod 10)]"

definition time_tag :: "clock_time \<Rightarrow> byte list" where
  "time_tag t = [91] @ two_digits (tm_hour t) @ [58] @ two_digits (tm_min t) @ [58] @ two_digits (tm_sec t) @ [93]"

text \<open>
  What \<open>vsnprintf\<close> makes of the format and its arguments: a text, or an error after some bytes.
\<close>

datatype format_result = Formatted "byte list" | Format_Error "byte list"

fun format_bytes :: "format_result \<Rightarrow> byte list" where
  "format_bytes (Formatted text) = text"
| "format_bytes (Format_Error some) = some"

fun format_length :: "format_result \<Rightarrow> nat" where
  "format_length (Formatted text) = length text"
| "format_length (Format_Error _) = size_of_int (- 1)"

text \<open>\<open>frames\<close> are the strings of \<open>backtrace_symbols\<close>; their number is at most 512.\<close>

definition trace_lines :: "int \<Rightarrow> byte list list \<Rightarrow> byte list list" where
  "trace_lines log_type frames = (if log_type = 2 then take 512 frames @ [[10]] else [])"

definition fill_line :: "int \<Rightarrow> clock_time \<Rightarrow> format_result \<Rightarrow> byte list list \<Rightarrow> buffer \<Rightarrow> fault + buffer" where
  "fill_line log_type t r frames b =
     bind_res (snprintf (read_index b) 11 (time_tag t) (buff b)) (\<lambda>xs.
     bind_res (set_write_index 10 (b\<lparr>buff := xs\<rparr>)) (\<lambda>b.
     bind_res (snprintf (write_index b) (size_sub (writeableBytes b) 1) (format_bytes r) (buff b)) (\<lambda>xs.
     bind_res (set_write_index (size_add (write_index b) (format_length r)) (b\<lparr>buff := xs\<rparr>)) (\<lambda>b.
     bind_res (append_bytes [10] b) (\<lambda>b.
     each append_bytes (trace_lines log_type frames) b)))))"

section \<open>Results\<close>

lemma length_time_tag [simp]: "length (time_tag t) = 10"
  by (simp add: time_tag_def two_digits_def)

lemma each_append_bytes:
  assumes "buffer_ok b" and "fits (concat dss) b"
  obtains b' where "each append_bytes dss b = Inr b'" "buffer_ok b'" "contents b' = contents b @ concat dss"
    "read_index b' = read_index b"
  using assms
proof (induction dss arbitrary: b thesis)
  case Nil
  then show ?case by simp
next
  case (Cons ds dss)
  have "fits ds b" using Cons.prems(3) by (simp add: fits_def)
  then obtain b1 where b1: "append_bytes ds b = Inr b1" "buffer_ok b1" "contents b1 = contents b @ ds"
      "read_index b1 = read_index b" "write_index b1 = write_index b + length ds"
    using append_bytes_spec [OF Cons.prems(2)] by metis
  have "fits (concat dss) b1" using Cons.prems(3) b1(5) by (simp add: fits_def)
  then obtain b' where "each append_bytes dss b1 = Inr b'" "buffer_ok b'" "contents b' = contents b1 @ concat dss"
      "read_index b' = read_index b1"
    using Cons.IH [OF _ b1(2)] by blast
  with b1 show ?case by (intro Cons.prems(1) [of b']) simp_all
qed

text \<open>
  The buffer after the time and the text have been written at the start of a fresh buffer of \<open>n\<close>
  bytes: the text takes at most \<open>n - 12\<close> bytes, and zeros follow.
\<close>

definition shown :: "nat \<Rightarrow> byte list \<Rightarrow> byte list" where
  "shown n text = take (n - 12) text @ replicate (length text - (n - 12)) 0"

lemma fill_start:
  assumes "12 \<le> n" "n \<le> vec_max"
  shows "fill_line log_type t r frames (new_buffer n) =
    bind_res (set_write_index (size_add 10 (format_length r))
        \<lparr>buff = time_tag t @ take (n - 12) (format_bytes r) @ replicate (n - 10 - length (take (n - 12) (format_bytes r))) 0,
         read_index = 0, write_index = 10\<rparr>) (\<lambda>b.
    bind_res (append_bytes [10] b) (\<lambda>b. each append_bytes (trace_lines log_type frames) b))"
proof -
  have big: "n < 2 ^ 64" using assms(2) by (simp add: vec_max_def)
  let ?xs = "time_tag t @ replicate (n - 10) 0"
  have a: "snprintf 0 11 (time_tag t) (replicate n 0) = Inr ?xs"
  proof -
    have "(0 :: 8 word) # replicate (n - 11) 0 = replicate (Suc (n - 11)) 0" by simp
    moreover have "Suc (n - 11) = n - 10" using assms(1) by simp
    ultimately have "(0 :: 8 word) # replicate (n - 11) 0 = replicate (n - 10) 0" by (simp only:)
    then show ?thesis using assms(1) by (simp add: snprintf_def mem_write_def)
  qed
  let ?b = "\<lparr>buff = ?xs, read_index = 0, write_index = 10\<rparr> :: buffer"
  have b: "set_write_index 10 ((new_buffer n)\<lparr>buff := ?xs\<rparr>) = Inr ?b"
    using assms(1) by (simp add: set_write_index_def new_buffer_def)
  have w: "size_sub (writeableBytes ?b) 1 = n - 11"
    using assms(1) big by (simp add: writeableBytes_def size_arith)
  let ?ds = "take (n - 12) (format_bytes r)"
  have c: "snprintf 10 (n - 11) (format_bytes r) ?xs
      = Inr (time_tag t @ ?ds @ replicate (n - 10 - length ?ds) 0)"
  proof -
    have "n - 11 \<noteq> 0 \<Longrightarrow> Suc (n - 11 - length ?ds) = n - 10 - length ?ds" using assms(1) by simp
    then have "0 < n - 11 \<Longrightarrow> (0 :: 8 word) # replicate (n - 11 - length ?ds) 0 = replicate (n - 10 - length ?ds) 0"
      by (metis replicate_Suc neq0_conv)
    moreover have "0 < n - 11" using assms(1) by simp
    ultimately show ?thesis
      using assms(1) by (simp add: snprintf_def mem_write_def min_def) arith
  qed
  show ?thesis
    unfolding fill_line_def using a b w c by simp
qed

lemma fill_line_ok:
  assumes n: "12 \<le> n" "n \<le> vec_max" and len: "length text \<le> n - 10"
    and room: "10 + length text + 1 + length (concat (trace_lines log_type frames)) \<le> vec_max"
  obtains b where "fill_line log_type t (Formatted text) frames (new_buffer n) = Inr b" "buffer_ok b"
    "contents b = time_tag t @ shown n text @ [10] @ concat (trace_lines log_type frames)" "read_index b = 0"
proof -
  let ?ds = "take (n - 12) text"
  let ?xs = "time_tag t @ ?ds @ replicate (n - 10 - length ?ds) 0"
  let ?b = "\<lparr>buff = ?xs, read_index = 0, write_index = 10 + length text\<rparr> :: buffer"
  have add: "size_add 10 (length text) = 10 + length text"
    using len n(2) by (intro size_add_exact) (simp add: vec_max_def)
  have size: "length ?xs = n" using n(1) by simp
  have start: "set_write_index (size_add 10 (format_length (Formatted text)))
      \<lparr>buff = ?xs, read_index = 0, write_index = 10\<rparr> = Inr ?b"
  proof -
    have "10 + length text \<le> n" using len n(1) by simp
    then show ?thesis using size by (simp add: set_write_index_def add)
  qed
  have ok: "buffer_ok ?b" using len n size by (simp add: buffer_ok_def)
  have shown: "contents ?b = time_tag t @ shown n text"
    using len n(1) by (auto simp: contents_def shown_def min_def)
  have "fits [10] ?b" "fits (concat (trace_lines log_type frames)) (?b\<lparr>write_index := 11 + length text\<rparr>)"
    using room by (auto simp: fits_def)
  obtain b1 where b1: "append_bytes [10] ?b = Inr b1" "buffer_ok b1" "contents b1 = contents ?b @ [10]"
      "read_index b1 = 0" "write_index b1 = 11 + length text"
    using append_bytes_spec [OF ok, of "[10]"] room by (auto simp: fits_def)
  have "fits (concat (trace_lines log_type frames)) b1" using room b1(5) by (simp add: fits_def)
  then obtain b2 where "each append_bytes (trace_lines log_type frames) b1 = Inr b2" "buffer_ok b2"
      "contents b2 = contents b1 @ concat (trace_lines log_type frames)" "read_index b2 = read_index b1"
    using each_append_bytes [OF b1(2)] by blast
  then show thesis
    using fill_start [OF n, of log_type t "Formatted text" frames] start b1 shown
    by (intro that [of b2]) simp_all
qed

text \<open>However it is filled, a line that was made is a proper buffer.\<close>

lemma append_bytes_InrD:
  assumes "append_bytes ds b = Inr b'" and "buffer_ok b"
  shows "buffer_ok b'"
proof -
  obtain b1 xs where b1: "ensureWriteable (length ds) b = Inr b1" "mem_write (write_index b1) ds (buff b1) = Inr xs"
      "b' = b1\<lparr>buff := xs, write_index := size_add (write_index b1) (length ds)\<rparr>"
    using assms(1) by (auto simp: append_bytes_def elim!: bind_resE)
  have e: "write_index b1 = write_index b" "read_index b1 = read_index b" "length (buff b1) \<le> vec_max"
    using b1(1) assms(2)
    by (auto simp: ensureWriteable_def vec_resize_def buffer_ok_def split: if_splits elim!: bind_resE)
  have w: "write_index b1 + length ds \<le> length (buff b1)" "length xs = length (buff b1)"
    using b1(2) by (auto simp: mem_write_def split: if_splits)
  then have "size_add (write_index b1) (length ds) = write_index b1 + length ds"
    using e(3) by (intro size_add_exact) (simp add: vec_max_def)
  then show ?thesis using assms(2) e w by (simp add: buffer_ok_def b1(3))
qed

lemma fill_line_InrD:
  assumes "fill_line log_type t r frames default_buffer = Inr b"
  shows "buffer_ok b"
proof -
  have n: "12 \<le> (8192 :: nat)" "8192 \<le> vec_max" by (simp_all add: vec_max_def)
  have d: "default_buffer = new_buffer 8192" by (simp add: default_buffer_def)
  have trace: "each append_bytes dss b1 = Inr b2 \<Longrightarrow> buffer_ok b1 \<Longrightarrow> buffer_ok b2" for dss b1 b2
    by (induction dss arbitrary: b1) (auto elim!: bind_resE dest: append_bytes_InrD)
  have start: "set_write_index i \<lparr>buff = time_tag t @ take 8180 ds @ replicate (8182 - min (length ds) 8180) 0,
      read_index = 0, write_index = 10\<rparr> = Inr b1 \<Longrightarrow> buffer_ok b1" for i ds b1
    using n by (auto simp: set_write_index_def buffer_ok_def check_eq_Inr vec_max_def elim!: bind_resE)
  show ?thesis
    using assms unfolding d fill_start [OF n]
    by (auto elim!: bind_resE dest!: start append_bytes_InrD intro: trace)
qed

section \<open>Properties\<close>

text \<open>
  C40: What a log line becomes, for every length of the formatted message: with at most 8180 bytes the
  line is the time, the message and a line feed; with one or two more, those bytes are lost and zero
  bytes stand in their place; and with more than 8182 the assertion of \<open>set_write_index\<close> stops the
  process, but nothing is ever written outside the buffer.
\<close>

theorem log_line_outcomes:
  assumes "length text < 2 ^ 31"
  shows "let res = fill_line 1 t (Formatted text) frames default_buffer; n = length text in
    (n \<le> 8180 \<longrightarrow> (\<exists>b. res = Inr b \<and> buffer_ok b \<and> contents b = time_tag t @ text @ [10])) \<and>
    (8180 < n \<and> n \<le> 8182 \<longrightarrow> (\<exists>b. res = Inr b \<and> buffer_ok b
        \<and> contents b = time_tag t @ take 8180 text @ replicate (n - 8180) 0 @ [10])) \<and>
    (8182 < n \<longrightarrow> res = Inl Assert_Fail)"
proof -
  have n: "12 \<le> (8192 :: nat)" "8192 \<le> vec_max" by (simp_all add: vec_max_def)
  have tr: "trace_lines 1 frames = []" by (simp add: trace_lines_def)
  have d: "default_buffer = new_buffer 8192" by (simp add: default_buffer_def)
  have "\<exists>b. fill_line 1 t (Formatted text) frames default_buffer = Inr b \<and> buffer_ok b
      \<and> contents b = time_tag t @ shown 8192 text @ [10]" if short: "length text \<le> 8182"
  proof -
    obtain b where "fill_line 1 t (Formatted text) frames (new_buffer 8192) = Inr b" "buffer_ok b"
        "contents b = time_tag t @ shown 8192 text @ [10] @ concat (trace_lines 1 frames)"
      using fill_line_ok [OF n, of "text" 1 frames t] short unfolding tr vec_max_def by auto
    then show ?thesis unfolding d tr by auto
  qed
  moreover have "fill_line 1 t (Formatted text) frames default_buffer = Inl Assert_Fail" if long: "8182 < length text"
  proof -
    have "size_add 10 (length text) = 10 + length text" using assms by (intro size_add_exact) simp
    then show ?thesis
      using long unfolding d fill_start [OF n] by (simp add: set_write_index_def)
  qed
  ultimately show ?thesis by (auto simp: shown_def Let_def)
qed

theorem log_line_outcomes_witness:
  "(\<exists>b. fill_line 1 \<lparr>tm_hour = 23, tm_min = 5, tm_sec = 9\<rparr> (Formatted [104, 105]) [] default_buffer = Inr b
      \<and> contents b = [91, 50, 51, 58, 48, 53, 58, 48, 57, 93, 104, 105, 10])
   \<and> (\<exists>b. fill_line 1 \<lparr>tm_hour = 23, tm_min = 5, tm_sec = 9\<rparr> (Formatted (replicate 8181 65)) [] default_buffer = Inr b
      \<and> contents b = [91, 50, 51, 58, 48, 53, 58, 48, 57, 93] @ replicate 8180 65 @ [0, 10])
   \<and> fill_line 1 \<lparr>tm_hour = 23, tm_min = 5, tm_sec = 9\<rparr> (Formatted (replicate 9000 65)) [] default_buffer
      = Inl Assert_Fail"
proof -
  have tag: "time_tag \<lparr>tm_hour = 23, tm_min = 5, tm_sec = 9\<rparr> = [91, 50, 51, 58, 48, 53, 58, 48, 57, 93]"
    by (simp add: time_tag_def two_digits_def)
  note out = log_line_outcomes [of _ "\<lparr>tm_hour = 23, tm_min = 5, tm_sec = 9\<rparr>" "[]", unfolded Let_def tag]
  show ?thesis
    by (intro conjI; insert out [of "[104, 105]"] out [of "replicate 8181 65"] out [of "replicate 9000 65"])
      (auto simp: append_Cons)
qed

end
