(* ===== verification/Log_Thread.thy ===== *)
theory Log_Thread
  imports Log_File Log_Line Buffer_Store Task_Queue Thread_Core
begin

text \<open>
  \<open>Log\<close> (include/LogThread.h, src/LogThread.cpp): callers fill a buffer each and put it in a list; one
  thread takes the list over and writes the lines to the log file.  As for the other threads of the
  library, a step is a stretch of code no other thread can interfere with.
\<close>

section \<open>State and operations\<close>

text \<open>
  The writer is before its critical section, waiting, woken in \<open>wait\<close>, writing the lines of
  \<open>log_list_\<close>, or gone.
\<close>

datatype writer_phase = Entering | Parked | Roused | Draining | Gone

text \<open>
  \<open>drafts\<close> are the buffers callers hold between \<open>pop_buff_log\<close> and \<open>log_info\<close>; \<open>logged\<close> records
  the lines that were put in the list.
\<close>

record log =
  lg_running :: bool
  lg_list :: "nat list"
  lg_write_list :: "nat list"
  buff_pool :: store
  loop_thread_obj :: "unit thread"
  lg_file :: log_file
  writer :: "writer_phase option"
  drafts :: "nat list"
  logged :: "byte list list"

text \<open>\<open>sz\<close> is the size of a \<open>Buffer\<close>.\<close>

definition new_log :: "nat \<Rightarrow> log" where
  "new_log sz =
     \<lparr>lg_running = False, lg_list = [], lg_write_list = [],
      buff_pool = \<lparr>bpool = \<lparr>block_list = [], block_size = 1024, elem_size = sz\<rparr>, bufs = Map.empty\<rparr>,
      loop_thread_obj = new_thread, lg_file = new_log_file, writer = None, drafts = [], logged = []\<rparr>"

definition lg_destroy :: "log \<Rightarrow> log" where
  "lg_destroy s =
     s\<lparr>lg_running := False, lg_file := destroy_log_file (lg_file s), lg_list := [], lg_write_list := []\<rparr>"

definition pop_buff_log :: "nat \<Rightarrow> log \<Rightarrow> fault + (nat \<times> log)" where
  "pop_buff_log m s =
     bind_res (pop_buffer m (buff_pool s)) (\<lambda>(a, bs). Inr (a, s\<lparr>buff_pool := bs, drafts := drafts s @ [a]\<rparr>))"

definition lg_notify :: "log \<Rightarrow> log" where
  "lg_notify s = (if writer s = Some Parked then s\<lparr>writer := Some Roused\<rparr> else s)"

definition lg_log_info :: "nat \<Rightarrow> log \<Rightarrow> log" where
  "lg_log_info a s = lg_notify (s\<lparr>lg_write_list := lg_write_list s @ [a], drafts := remove1 a (drafts s),
     logged := logged s @ [view (buff_pool s) a]\<rparr>)"

text \<open>The free function \<open>log_info\<close>: take a buffer and fill it, and, as a later step, hand it over.\<close>

definition draft_line ::
    "nat \<Rightarrow> int \<Rightarrow> clock_time \<Rightarrow> format_result \<Rightarrow> byte list list \<Rightarrow> log \<Rightarrow> fault + (nat \<times> log)" where
  "draft_line m log_type t r frames s =
     bind_res (pop_buff_log m s) (\<lambda>(a, s).
     bind_res (upd_buf a (fill_line log_type t r frames) (buff_pool s)) (\<lambda>bs.
     Inr (a, s\<lparr>buff_pool := bs\<rparr>)))"

definition log_info ::
    "nat \<Rightarrow> int \<Rightarrow> clock_time \<Rightarrow> format_result \<Rightarrow> byte list list \<Rightarrow> log \<Rightarrow> fault + log" where
  "log_info m log_type t r frames s =
     bind_res (draft_line m log_type t r frames s) (\<lambda>(a, s). Inr (lg_log_info a s))"

text \<open>The splice that moves the lines handed over to the writer's list.\<close>

definition lg_splice :: "log \<Rightarrow> log" where
  "lg_splice s = s\<lparr>lg_list := lg_list s @ lg_write_list s, lg_write_list := []\<rparr>"

text \<open>The writer's work on the first line of its list.\<close>

definition write_line :: "(nat \<Rightarrow> nat) \<Rightarrow> open_env \<Rightarrow> nat \<Rightarrow> log \<Rightarrow> fault + log" where
  "write_line takes e a s =
     bind_res (get_buf a (buff_pool s)) (\<lambda>b.
     bind_res (mem_read (read_index b) (readableBytes b) (buff b)) (\<lambda>ds.
     bind_res (append_log takes e ds (lg_file s)) (\<lambda>f.
     bind_res (push_buffer a (buff_pool s)) (\<lambda>bs.
     Inr (s\<lparr>lg_file := f, buff_pool := bs, lg_list := tl (lg_list s)\<rparr>)))))"

text \<open>One step of \<open>loop_write\<close>; a writer that waits, has gone or was never started does not step.\<close>

definition loop_write :: "(nat \<Rightarrow> nat) \<Rightarrow> open_env \<Rightarrow> log \<Rightarrow> fault + log" where
  "loop_write takes e s =
     (case writer s of
        Some Entering \<Rightarrow>
          Inr (if lg_write_list s = [] then s\<lparr>writer := Some Parked\<rparr> else (lg_splice s)\<lparr>writer := Some Draining\<rparr>)
      | Some Roused \<Rightarrow> Inr ((lg_splice s)\<lparr>writer := Some Draining\<rparr>)
      | Some Draining \<Rightarrow>
          (case lg_list s of
             [] \<Rightarrow> Inr (s\<lparr>writer := Some (if lg_running s then Entering else Gone)\<rparr>)
           | a # _ \<Rightarrow> write_line takes e a s)
      | _ \<Rightarrow> Inr s)"

text \<open>\<open>new_tid\<close> and \<open>ret\<close> are what \<open>pthread_create\<close> delivers.\<close>

definition lg_start :: "open_env \<Rightarrow> string \<Rightarrow> nat \<Rightarrow> int \<Rightarrow> log \<Rightarrow> fault + (int \<times> log)" where
  "lg_start e base new_tid ret s =
     (if lg_running s then Inr (-1, s)
      else
        bind_res (init_file e base (lg_file s)) (\<lambda>f.
        let (_, created, t) = thread_start new_tid ret (init_func () ''LogThread'' (loop_thread_obj s)) in
        Inr (0, s\<lparr>lg_running := True, lg_file := f, loop_thread_obj := t,
                  writer := (if created then Some Entering else writer s)\<rparr>)))"

text \<open>\<open>stop\<close> up to the join, and the join.\<close>

definition lg_stop_request :: "log \<Rightarrow> log" where
  "lg_stop_request s = (if lg_running s then lg_notify (s\<lparr>lg_running := False\<rparr>) else s)"

definition lg_stop_join :: "int \<Rightarrow> log \<Rightarrow> log option" where
  "lg_stop_join ret s =
     (let (_, joined, t) = thread_stop ret (loop_thread_obj s) in
      case joined of
        None \<Rightarrow> Some (s\<lparr>loop_thread_obj := t\<rparr>)
      | Some _ \<Rightarrow> if writer s = Some Gone then Some (s\<lparr>loop_thread_obj := t, writer := None\<rparr>) else None)"

section \<open>Runs\<close>

datatype log_event = Draft | Hand_Over | Writer | Rouse | Stop_Request

text \<open>
  The lines have at most \<open>l\<close> bytes, every write to the file takes something and every file can be
  opened; a wait may return for no reason.
\<close>

inductive log_step :: "nat \<Rightarrow> log \<Rightarrow> log_event \<Rightarrow> log \<Rightarrow> bool" for l where
  log_draft: "log_step l s Draft s'"
    if "draft_line m log_type t r frames s = Inr (a, s')" and "malloc_ok m (bpool (buff_pool s))"
      and "length (view (buff_pool s') a) \<le> l"
| log_hand_over: "log_step l s Hand_Over (lg_log_info a s)" if "a \<in> set (drafts s)"
| log_writer: "log_step l s Writer s'"
    if "loop_write takes e s = Inr s'" and "\<forall>j. 0 < takes j" and "opened e"
| log_rouse: "log_step l s Rouse (s\<lparr>writer := Some Roused\<rparr>)" if "writer s = Some Parked"
| log_stop: "log_step l s Stop_Request (lg_stop_request s)"

inductive log_run :: "nat \<Rightarrow> log \<Rightarrow> log_event list \<Rightarrow> log \<Rightarrow> bool" for l where
  log_nil: "log_run l s [] s"
| log_cons: "log_step l s e s1 \<Longrightarrow> log_run l s1 es s' \<Longrightarrow> log_run l s (e # es) s'"

section \<open>Invariant\<close>

text \<open>
  Every constructed buffer is held by exactly one caller or list, lines in the lists are short enough,
  and the bytes accepted by the streams followed by the lines still queued are the lines logged.  While the
  writer is outside its loop over \<open>log_list_\<close> that list is empty, and it never waits with a line queued.
\<close>

definition log_inv :: "nat \<Rightarrow> log \<Rightarrow> bool" where
  "log_inv l s \<longleftrightarrow>
     store_ok (buff_pool s) \<and> distinct (lg_list s @ lg_write_list s @ drafts s) \<and>
     set (lg_list s @ lg_write_list s @ drafts s) = dom (bufs (buff_pool s)) \<and>
     (\<forall>a \<in> dom (bufs (buff_pool s)). length (view (buff_pool s) a) \<le> l) \<and>
     log_file_ok l (lg_file s) \<and>
     written (lg_file s) @ concat (map (view (buff_pool s)) (lg_list s @ lg_write_list s)) = concat (logged s) \<and>
     (writer s \<noteq> Some Draining \<longrightarrow> lg_list s = []) \<and> (writer s = Some Parked \<longrightarrow> lg_write_list s = [])"

lemma log_invD:
  assumes "log_inv l s"
  shows "store_ok (buff_pool s)" "distinct (lg_list s @ lg_write_list s @ drafts s)"
    "set (lg_list s @ lg_write_list s @ drafts s) = dom (bufs (buff_pool s))"
    "\<And>a. a \<in> dom (bufs (buff_pool s)) \<Longrightarrow> length (view (buff_pool s) a) \<le> l"
    "log_file_ok l (lg_file s)"
    "written (lg_file s) @ concat (map (view (buff_pool s)) (lg_list s @ lg_write_list s)) = concat (logged s)"
    "writer s \<noteq> Some Draining \<Longrightarrow> lg_list s = []" "writer s = Some Parked \<Longrightarrow> lg_write_list s = []"
  using assms by (auto simp: log_inv_def)

lemma hand_over_inv:
  assumes "log_inv l s" and "a \<in> set (drafts s)"
  shows "log_inv l (lg_log_info a s)"
  using assms
  by (auto simp: log_inv_def lg_log_info_def lg_notify_def notin_set_remove1 distinct_remove1
      set_remove1_eq)

lemma write_line_ok:
  assumes inv: "log_inv l s" and s: "writer s = Some Draining" "lg_list s = a # as"
    and l: "FILE_SIZE + l \<le> 2 ^ 32" and env: "\<forall>j. 0 < takes j" "opened e"
  obtains s' where "write_line takes e a s = Inr s'" "log_inv l s'" "lg_list s' = as"
    "writer s' = writer s" "lg_running s' = lg_running s" "logged s' = logged s" "drafts s' = drafts s"
    "lg_write_list s' = lg_write_list s"
proof -
  note I = log_invD [OF inv]
  have a: "a \<in> dom (bufs (buff_pool s))" using I(3) s(2) by auto
  then obtain b where b: "bufs (buff_pool s) a = Some b" by blast
  have ok: "buffer_ok b" by (rule store_ok_buffer [OF I(1) b])
  have read: "mem_read (read_index b) (readableBytes b) (buff b) = Inr (contents b)"
    using mem_read_contents [OF ok, of 0 "length (contents b)"] by (simp add: readable_eq [OF ok])
  have len: "length (contents b) \<le> l" using I(4) [OF a] b by simp
  obtain f where f: "append_log takes e (contents b) (lg_file s) = Inr f" "log_file_ok l f"
      "written f = written (lg_file s) @ contents b"
    by (rule append_log_written [OF I(5) len l env])
  obtain bs where bs: "push_buffer a (buff_pool s) = Inr bs" "store_ok bs" "bufs bs = (bufs (buff_pool s))(a := None)"
    using push_buffer_ok [OF I(1) a] by blast
  let ?s = "s\<lparr>lg_file := f, buff_pool := bs, lg_list := as\<rparr>"
  have d: "a \<notin> set (as @ lg_write_list s @ drafts s)" "distinct (as @ lg_write_list s @ drafts s)"
    using I(2) s(2) by auto
  have view: "view bs x = view (buff_pool s) x" if "x \<noteq> a" for x
    using that by (simp add: view_def bs(3))
  have views: "map (view bs) (as @ lg_write_list s) = map (view (buff_pool s)) (as @ lg_write_list s)"
    using d(1) by (intro map_cong refl view) auto
  have "set (as @ lg_write_list s @ drafts s) = dom (bufs bs)"
    using I(3) s(2) d(1) by (auto simp: bs(3))
  moreover have "\<forall>x \<in> dom (bufs bs). length (view bs x) \<le> l"
    using I(4) by (auto simp: bs(3) view split: if_splits)
  moreover have "written f @ concat (map (view bs) (as @ lg_write_list s)) = concat (logged s)"
    unfolding views f(3) using I(6) s(2) b by simp
  ultimately have "log_inv l ?s"
    using bs(2) d(2) f(2) s(1) by (simp add: log_inv_def)
  moreover have "write_line takes e a s = Inr ?s"
    using b read f(1) bs(1) s(2) by (simp add: write_line_def)
  ultimately show thesis by (intro that [of ?s]) simp_all
qed

lemma draft_line_inv:
  assumes inv: "log_inv l s" and run: "draft_line m log_type t r frames s = Inr (a, s')"
    and m: "malloc_ok m (bpool (buff_pool s))" and len: "length (view (buff_pool s') a) \<le> l"
  shows "log_inv l s'"
proof -
  note I = log_invD [OF inv]
  obtain x P where x: "pop_buffer m (buff_pool s)
        = Inr (x, (buff_pool s)\<lparr>bpool := P, bufs := (bufs (buff_pool s))(x \<mapsto> default_buffer)\<rparr>)"
      "x \<notin> dom (bufs (buff_pool s))"
      "store_ok ((buff_pool s)\<lparr>bpool := P, bufs := (bufs (buff_pool s))(x \<mapsto> default_buffer)\<rparr>)"
    by (rule pop_buffer_ok [OF I(1) m])
  let ?bs = "(buff_pool s)\<lparr>bpool := P, bufs := (bufs (buff_pool s))(x \<mapsto> default_buffer)\<rparr>"
  obtain b where b: "fill_line log_type t r frames default_buffer = Inr b" "a = x"
      "s' = s\<lparr>buff_pool := ?bs\<lparr>bufs := (bufs ?bs)(x \<mapsto> b)\<rparr>, drafts := drafts s @ [x]\<rparr>"
    using run x(1)
    by (auto simp: draft_line_def pop_buff_log_def upd_buf_def get_buf_def elim!: bind_resE)
  have ok: "store_ok (?bs\<lparr>bufs := (bufs ?bs)(x \<mapsto> b)\<rparr>)"
    using upd_buf_ok(2) [OF x(3), of x default_buffer "\<lambda>_. Inr b" b] fill_line_InrD [OF b(1)] by simp
  have fresh: "x \<notin> set (lg_list s @ lg_write_list s @ drafts s)" using I(3) x(2) by blast
  have view: "view (buff_pool s') y = view (buff_pool s) y" if "y \<noteq> x" for y
    using that by (simp add: view_def b(3))
  have views: "map (view (buff_pool s')) (lg_list s @ lg_write_list s) = map (view (buff_pool s)) (lg_list s @ lg_write_list s)"
    using fresh by (intro map_cong refl view) auto
  have dom: "dom (bufs (buff_pool s')) = insert x (dom (bufs (buff_pool s)))" by (simp add: b(3))
  have lens: "\<forall>y \<in> dom (bufs (buff_pool s')). length (view (buff_pool s') y) \<le> l"
    using I(4) len by (auto simp: dom view b(2) [symmetric]) (metis b(2) domI view)
  have l: "lg_list s' = lg_list s" "lg_write_list s' = lg_write_list s" "lg_file s' = lg_file s"
      "logged s' = logged s" "writer s' = writer s" "drafts s' = drafts s @ [x]"
    by (simp_all add: b(3))
  show ?thesis
    unfolding log_inv_def l views dom using I ok lens fresh dom
    by (auto simp: b(3))
qed

lemma loop_write_ok:
  assumes inv: "log_inv l s" and l: "FILE_SIZE + l \<le> 2 ^ 32" and env: "\<forall>j. 0 < takes j" "opened e"
  obtains s' where "loop_write takes e s = Inr s'" "log_inv l s'" "logged s' = logged s" "lg_running s' = lg_running s"
proof (cases "writer s = Some Draining \<and> lg_list s \<noteq> []")
  case True
  then obtain a as where a: "lg_list s = a # as" by (cases "lg_list s") auto
  with True obtain s' where "write_line takes e a s = Inr s'" "log_inv l s'" "logged s' = logged s"
      "lg_running s' = lg_running s"
    using write_line_ok [OF inv _ _ l env] by blast
  with True a show thesis by (intro that [of s']) (simp_all add: loop_write_def)
next
  case False
  let ?s = "case loop_write takes e s of Inr s' \<Rightarrow> s'"
  show thesis
  proof (rule that [of ?s])
    show "loop_write takes e s = Inr ?s"
      using False by (auto simp: loop_write_def split: option.split writer_phase.split list.split)
    show "log_inv l ?s" "logged ?s = logged s" "lg_running ?s = lg_running s"
      using False inv
      by (auto simp: loop_write_def log_inv_def lg_splice_def split: option.split writer_phase.split list.split)
  qed
qed

lemma log_step_inv:
  assumes "log_step l s e s'" and "log_inv l s" and "FILE_SIZE + l \<le> 2 ^ 32"
  shows "log_inv l s'"
  using assms(1)
proof cases
  case (log_draft m log_type t r frames a)
  then show ?thesis using draft_line_inv assms(2) by blast
next
  case (log_hand_over a)
  then show ?thesis using hand_over_inv assms(2) by blast
next
  case (log_writer takes e)
  obtain t where "loop_write takes e s = Inr t" "log_inv l t"
    by (rule loop_write_ok [OF assms(2,3) log_writer(3,4)])
  with log_writer show ?thesis by simp
next
  case log_rouse
  then show ?thesis using assms(2) by (auto simp: log_inv_def)
next
  case log_stop
  then show ?thesis using assms(2) by (auto simp: log_inv_def lg_stop_request_def lg_notify_def)
qed

lemma log_run_inv: "log_run l s es s' \<Longrightarrow> log_inv l s \<Longrightarrow> FILE_SIZE + l \<le> 2 ^ 32 \<Longrightarrow> log_inv l s'"
  by (induction rule: log_run.induct) (auto dest: log_step_inv)

text \<open>A log that was just started.\<close>

lemma lg_start_inv:
  assumes "lg_start e name new_tid 0 (new_log sz) = Inr (0, s)" and "0 < sz" and "1024 * sz < 2 ^ 64"
  shows "log_inv l s" and "lg_running s" and "writer s = Some Entering" and "logged s = []"
  using assms
  by (auto simp: lg_start_def new_log_def init_file_def open_fp_def new_log_file_def thread_start_def init_func_def
      new_thread_def log_inv_def log_file_ok_def written_def file_bytes_def FILE_SIZE_def store_ok_def
      live_def all_slots_def block_slots_def pool_ok_def elim!: bind_resE)

section \<open>The writer alone\<close>

inductive log_alone :: "(nat \<Rightarrow> nat) \<Rightarrow> open_env \<Rightarrow> log \<Rightarrow> log \<Rightarrow> bool" for takes e where
  log_alone_refl: "log_alone takes e s s"
| log_alone_step: "loop_write takes e s = Inr s1 \<Longrightarrow> log_alone takes e s1 s' \<Longrightarrow> log_alone takes e s s'"

lemma log_alone_trans: "log_alone takes e s t \<Longrightarrow> log_alone takes e t u \<Longrightarrow> log_alone takes e s u"
  by (induction rule: log_alone.induct) (auto intro: log_alone.intros)

text \<open>The states of a log that runs.\<close>

definition log_alive :: "nat \<Rightarrow> log \<Rightarrow> bool" where
  "log_alive l s \<longleftrightarrow> log_inv l s \<and> lg_running s \<and> writer s \<in> {Some Entering, Some Parked, Some Roused, Some Draining}"

lemma alone_drain:
  assumes "log_alive l s" and "writer s = Some Draining" and l: "FILE_SIZE + l \<le> 2 ^ 32" and env: "\<forall>j. 0 < takes j" "opened e"
  shows "\<exists>s'. log_alone takes e s s' \<and> log_alive l s' \<and> writer s' = Some Entering \<and> logged s' = logged s
    \<and> lg_write_list s' = lg_write_list s \<and> drafts s' = drafts s"
  using assms(1,2)
proof (induction "lg_list s" arbitrary: s)
  case Nil
  let ?s = "s\<lparr>writer := Some Entering\<rparr>"
  have run: "loop_write takes e s = Inr ?s" using Nil by (simp add: loop_write_def log_alive_def split: list.split)
  have "log_alive l ?s" using Nil by (simp add: log_alive_def log_inv_def)
  then show ?case using log_alone_step [OF run log_alone_refl] by (intro exI [of _ ?s]) simp
next
  case (Cons a as)
  have inv: "log_inv l s" using Cons.prems(1) by (simp add: log_alive_def)
  obtain s1 where s1: "write_line takes e a s = Inr s1" "log_inv l s1" "lg_list s1 = as" "writer s1 = writer s"
      "lg_running s1 = lg_running s" "logged s1 = logged s" "drafts s1 = drafts s" "lg_write_list s1 = lg_write_list s"
    by (rule write_line_ok [OF inv Cons.prems(2) Cons.hyps(2) [symmetric] l env])
  have run: "loop_write takes e s = Inr s1"
    using Cons.prems(2) Cons.hyps(2) [symmetric] s1(1) by (simp add: loop_write_def)
  have "log_alive l s1" "writer s1 = Some Draining"
    using Cons.prems s1 by (simp_all add: log_alive_def)
  then obtain s' where "log_alone takes e s1 s'" "log_alive l s'" "writer s' = Some Entering" "logged s' = logged s1"
      "lg_write_list s' = lg_write_list s1" "drafts s' = drafts s1"
    using Cons.hyps(1) [of s1] s1(3) by blast
  then show ?case using log_alone_step [OF run] s1 by auto
qed

lemma alone_park:
  assumes "log_alive l s" and "writer s = Some Entering" and "lg_write_list s = []"
  shows "\<exists>s'. log_alone takes e s s' \<and> log_alive l s' \<and> writer s' = Some Parked \<and> logged s' = logged s \<and> drafts s' = drafts s"
proof -
  let ?s = "s\<lparr>writer := Some Parked\<rparr>"
  have run: "loop_write takes e s = Inr ?s" using assms by (simp add: loop_write_def)
  have "log_alive l ?s" using assms by (auto simp: log_alive_def log_inv_def)
  then show ?thesis using log_alone_step [OF run log_alone_refl] by (intro exI [of _ ?s]) simp
qed

lemma alone_catch_up:
  assumes alive: "log_alive l s" and l: "FILE_SIZE + l \<le> 2 ^ 32" and env: "\<forall>j. 0 < takes j" "opened e"
  shows "\<exists>s'. log_alone takes e s s' \<and> log_alive l s' \<and> writer s' = Some Parked \<and> logged s' = logged s \<and> drafts s' = drafts s"
proof -
  have quiet: "\<exists>s'. log_alone takes e s s' \<and> log_alive l s' \<and> writer s' = Some Parked \<and> logged s' = logged s \<and> drafts s' = drafts s"
    if "log_alive l s" "writer s = Some Draining" "lg_write_list s = []" for s
    using alone_drain [OF that(1,2) l env] alone_park that(3) log_alone_trans by metis
  have splice: "\<exists>s'. log_alone takes e s s' \<and> log_alive l s' \<and> writer s' = Some Parked \<and> logged s' = logged s \<and> drafts s' = drafts s"
    if st: "log_alive l s" "writer s \<in> {Some Entering, Some Roused}" for s
  proof (cases "writer s = Some Entering \<and> lg_write_list s = []")
    case True
    then show ?thesis using alone_park st(1) by blast
  next
    case False
    let ?t = "(lg_splice s)\<lparr>writer := Some Draining\<rparr>"
    have run: "loop_write takes e s = Inr ?t" using False st(2) by (auto simp: loop_write_def)
    have "log_alive l ?t" using st by (auto simp: log_alive_def log_inv_def lg_splice_def)
    then obtain s' where "log_alone takes e ?t s'" "log_alive l s'" "writer s' = Some Parked" "logged s' = logged ?t"
        "drafts s' = drafts ?t"
      using quiet [of ?t] by (auto simp: lg_splice_def)
    then show ?thesis using log_alone_step [OF run] by (auto simp: lg_splice_def)
  qed
  consider "writer s = Some Parked" | "writer s \<in> {Some Entering, Some Roused}" | "writer s = Some Draining"
    using alive by (auto simp: log_alive_def)
  then show ?thesis
  proof cases
    case 1
    then show ?thesis using alive log_alone_refl by blast
  next
    case 2
    then show ?thesis using splice alive by blast
  next
    case 3
    then show ?thesis
      using alone_drain [OF alive 3 l env] splice log_alone_trans by (metis insertI1)
  qed
qed

lemma log_step_alive:
  assumes "log_step l s e s'" and "log_alive l s" and "FILE_SIZE + l \<le> 2 ^ 32" and "e \<noteq> Stop_Request"
  shows "log_alive l s'"
proof -
  have inv: "log_inv l s'" using log_step_inv [OF assms(1) _ assms(3)] assms(2) by (simp add: log_alive_def)
  have "lg_running s' \<and> writer s' \<in> {Some Entering, Some Parked, Some Roused, Some Draining}"
    using assms(1)
  proof cases
    case (log_draft m log_type t r frames a)
    then show ?thesis
      using assms(2) by (auto simp: draft_line_def pop_buff_log_def log_alive_def elim!: bind_resE)
  next
    case (log_writer takes w)
    obtain t where "loop_write takes w s = Inr t" "lg_running t = lg_running s"
      using loop_write_ok [of l s takes w] assms(2,3) log_writer(3,4) by (auto simp: log_alive_def)
    with log_writer show ?thesis
      using assms(2)
      by (auto simp: loop_write_def log_alive_def write_line_def lg_splice_def elim!: bind_resE split: list.splits if_splits)
  qed (use assms(2,4) in \<open>auto simp: log_alive_def lg_log_info_def lg_notify_def\<close>)
  with inv show ?thesis by (simp add: log_alive_def)
qed

lemma log_run_alive:
  "log_run l s es s' \<Longrightarrow> log_alive l s \<Longrightarrow> FILE_SIZE + l \<le> 2 ^ 32 \<Longrightarrow> Stop_Request \<notin> set es \<Longrightarrow> log_alive l s'"
  by (induction rule: log_run.induct) (auto dest: log_step_alive)

text \<open>The two lists as a queue that is emptied as a whole.\<close>

definition lg_put :: "nat \<Rightarrow> log \<Rightarrow> log" where
  "lg_put a s = lg_log_info a s"

definition lg_take :: "log \<Rightarrow> nat list \<times> log" where
  "lg_take s = (lg_list (lg_splice s), (lg_splice s)\<lparr>lg_list := []\<rparr>)"

interpretation lgq: draining_queue lg_put lg_take "\<lambda>s. lg_list s @ lg_write_list s"
  by unfold_locales (auto simp: lg_put_def lg_log_info_def lg_notify_def lg_take_def lg_splice_def)

section \<open>Stopping\<close>

text \<open>
  \<open>stop\<close> notifies without holding the mutex: between the writer's test of \<open>running_\<close> and its wait the
  notification is lost, and the join never returns.  Otherwise the writer makes one more round, so that
  lines handed over while it writes its last ones stay unwritten.
\<close>

lemma log_stop_can_hang:
  assumes "writer s = Some Entering" and "lg_running s" and "lg_write_list s = []" and "tid (loop_thread_obj s) \<noteq> 0"
  shows "\<exists>s'. loop_write takes e (lg_stop_request s) = Inr s' \<and> loop_write takes e s' = Inr s' \<and> lg_stop_join ret s' = None"
  using assms by (simp add: lg_stop_request_def lg_notify_def loop_write_def lg_stop_join_def thread_stop_def)

lemma log_stop_drops_late_lines:
  assumes "writer s = Some Draining" and "lg_running s" and "lg_list s = []"
  shows "loop_write takes e (lg_stop_request s) = Inr (s\<lparr>lg_running := False, writer := Some Gone\<rparr>)"
  using assms by (simp add: lg_stop_request_def lg_notify_def loop_write_def)

section \<open>Properties\<close>

text \<open>
  C37: In every run of a started log, whatever the interleaving of callers, writer and stop, no buffer
  is in two hands and none is lost, and what the log's streams accepted, one after the other, followed
  by the lines still queued are the lines in the order in which they were logged; the writer's next step never faults.
\<close>

theorem log_lines_in_order:
  assumes "lg_start e name new_tid 0 (new_log sz) = Inr (0, s0)" and "0 < sz" and "1024 * sz < 2 ^ 64"
    and "log_run l s0 es s" and "FILE_SIZE + l \<le> 2 ^ 32" and "\<forall>j. 0 < takes j" and "opened w"
  shows "distinct (lg_list s @ lg_write_list s @ drafts s)
    \<and> set (lg_list s @ lg_write_list s @ drafts s) = live (bpool (buff_pool s))
    \<and> written (lg_file s) @ concat (map (view (buff_pool s)) (lg_list s @ lg_write_list s)) = concat (logged s)
    \<and> (\<exists>s'. loop_write takes w s = Inr s')"
proof -
  have "log_inv l s0" by (rule lg_start_inv(1) [OF assms(1-3)])
  then have inv: "log_inv l s" using log_run_inv assms(4,5) by blast
  obtain s' where "loop_write takes w s = Inr s'"
    by (rule loop_write_ok [OF inv assms(5-7)])
  then show ?thesis
    using log_invD(1-3,6) [OF inv] by (simp add: store_ok_def)
qed

definition started_log :: log where
  "started_log = (case lg_start sample_open ''log_'' 7 0 (new_log 48) of Inr (_, s) \<Rightarrow> s)"

lemma started_log: "lg_start sample_open ''log_'' 7 0 (new_log 48) = Inr (0, started_log)"
  by (simp add: started_log_def lg_start_def init_file_def open_fp_def sample_open_def thread_start_def init_func_def
      new_log_def new_thread_def Let_def)

lemma one_line_run:
  obtains s where "log_run 8192 started_log [Draft, Hand_Over] s"
    "logged s = [[91, 50, 51, 58, 48, 53, 58, 48, 57, 93, 104, 105, 10]]"
proof -
  let ?t = "\<lparr>tm_hour = 23, tm_min = 5, tm_sec = 9\<rparr>"
  have inv: "log_inv 8192 started_log" and log: "logged started_log = []"
    by (rule lg_start_inv(1,4) [OF started_log]; simp)+
  have pool: "malloc_ok 5000 (bpool (buff_pool started_log))"
    by (simp add: started_log_def lg_start_def init_file_def open_fp_def sample_open_def thread_start_def
        init_func_def new_log_def new_thread_def Let_def malloc_ok_def)
  obtain x P where x: "pop_buffer 5000 (buff_pool started_log) = Inr (x, (buff_pool started_log)\<lparr>bpool := P,
      bufs := (bufs (buff_pool started_log))(x \<mapsto> default_buffer)\<rparr>)"
    by (rule pop_buffer_ok [OF log_invD(1) [OF inv] pool])
  have n: "12 \<le> (8192 :: nat)" "8192 \<le> vec_max" by (simp_all add: vec_max_def)
  have tr: "trace_lines 1 [] = []" by (simp add: trace_lines_def)
  obtain b where "fill_line 1 ?t (Formatted [104, 105]) [] (new_buffer 8192) = Inr b" "buffer_ok b"
      "contents b = time_tag ?t @ shown 8192 [104, 105] @ [10] @ concat (trace_lines 1 [])"
    using fill_line_ok [OF n, of "[104, 105]" 1 "[]" ?t] unfolding tr vec_max_def by auto
  then have b: "fill_line 1 ?t (Formatted [104, 105]) [] default_buffer = Inr b"
      "contents b = [91, 50, 51, 58, 48, 53, 58, 48, 57, 93, 104, 105, 10]"
    by (simp_all add: default_buffer_def tr shown_def time_tag_def two_digits_def)
  let ?s = "started_log\<lparr>buff_pool := (buff_pool started_log)\<lparr>bpool := P,
      bufs := (bufs (buff_pool started_log))(x \<mapsto> b)\<rparr>, drafts := drafts started_log @ [x]\<rparr>"
  have d: "draft_line 5000 1 ?t (Formatted [104, 105]) [] started_log = Inr (x, ?s)"
    by (simp add: draft_line_def pop_buff_log_def x upd_buf_def b(1))
  have view: "view (buff_pool ?s) x = [91, 50, 51, 58, 48, 53, 58, 48, 57, 93, 104, 105, 10]"
    by (simp add: view_def b(2))
  have "log_step 8192 started_log Draft ?s"
    by (rule log_draft [OF d pool]) (simp add: b(2))
  moreover have "log_step 8192 ?s Hand_Over (lg_log_info x ?s)" by (rule log_hand_over) simp
  ultimately have "log_run 8192 started_log [Draft, Hand_Over] (lg_log_info x ?s)"
    using log_cons log_nil by blast
  moreover have "logged (lg_log_info x ?s) = [view (buff_pool ?s) x]"
    by (simp add: lg_log_info_def lg_notify_def log)
  ultimately show thesis using that view by simp
qed

theorem log_lines_in_order_witness:
  "\<exists>s. log_run 8192 started_log [Draft, Hand_Over] s
     \<and> written (lg_file s) @ concat (map (view (buff_pool s)) (lg_list s @ lg_write_list s))
       = [91, 50, 51, 58, 48, 53, 58, 48, 57, 93, 104, 105, 10]"
proof -
  obtain s where s: "log_run 8192 started_log [Draft, Hand_Over] s"
      "logged s = [[91, 50, 51, 58, 48, 53, 58, 48, 57, 93, 104, 105, 10]]"
    by (rule one_line_run)
  show ?thesis
    using log_lines_in_order [OF started_log _ _ s(1), of "\<lambda>_. 1" sample_open] s
    by (auto simp: FILE_SIZE_def sample_open_def)
qed

text \<open>
  C38: No line waits for another one to be logged: from every state a running log can reach, the writer
  alone writes everything that was logged, gives all buffers back but the drafts of the callers, and
  then waits.
\<close>

theorem log_writer_catches_up:
  assumes "lg_start e name new_tid 0 (new_log sz) = Inr (0, s0)" and "0 < sz" and "1024 * sz < 2 ^ 64"
    and "log_run l s0 es s" and "Stop_Request \<notin> set es"
    and "FILE_SIZE + l \<le> 2 ^ 32" and "\<forall>j. 0 < takes j" and "opened w"
  shows "\<exists>s'. log_alone takes w s s' \<and> writer s' = Some Parked \<and> lg_list s' = [] \<and> lg_write_list s' = []
    \<and> written (lg_file s') = concat (logged s) \<and> live (bpool (buff_pool s')) = set (drafts s)"
proof -
  have "log_alive l s0" using lg_start_inv [OF assms(1-3)] by (simp add: log_alive_def)
  then have "log_alive l s" using log_run_alive assms(4-6) by blast
  then obtain s' where s': "log_alone takes w s s'" "log_alive l s'" "writer s' = Some Parked" "logged s' = logged s"
      "drafts s' = drafts s"
    using alone_catch_up assms(6-8) by blast
  then have "log_inv l s'" by (simp add: log_alive_def)
  note I = log_invD [OF this]
  have "lg_list s' = []" "lg_write_list s' = []" using I(7,8) s'(3) by simp_all
  then show ?thesis using I(1,3,6) s' by (intro exI [of _ s']) (simp add: store_ok_def)
qed

theorem log_writer_catches_up_witness:
  "\<exists>s s'. log_run 8192 started_log [Draft, Hand_Over] s \<and> log_alone (\<lambda>_. 1) sample_open s s'
     \<and> written (lg_file s') = [91, 50, 51, 58, 48, 53, 58, 48, 57, 93, 104, 105, 10]"
proof -
  obtain s where s: "log_run 8192 started_log [Draft, Hand_Over] s"
      "logged s = [[91, 50, 51, 58, 48, 53, 58, 48, 57, 93, 104, 105, 10]]"
    by (rule one_line_run)
  show ?thesis
    using log_writer_catches_up [OF started_log _ _ s(1), of "\<lambda>_. 1" sample_open] s
    by (auto simp: FILE_SIZE_def sample_open_def)
qed

end
