(* ===== verification/Singleton.thy ===== *)
theory Singleton
  imports Sc_Prelude
begin

text \<open>
  \<open>Singleton\<close> (include/Singleton.h): the object of a class that is made on first use, deleted by
  \<open>destory\<close>, which the C library also calls at exit, and never made again.
\<close>

record 'a singleton =
  once_ran :: bool
  instance_ptr :: "'a option"
  exit_calls :: nat

definition initial_singleton :: "'a singleton" where
  "initial_singleton = \<lparr>once_ran = False, instance_ptr = None, exit_calls = 0\<rparr>"

text \<open>\<open>init\<close> makes the object, here \<open>fresh\<close>, and registers \<open>destory\<close> with \<open>atexit\<close>.\<close>

definition init_instance :: "'a \<Rightarrow> 'a singleton \<Rightarrow> 'a singleton" where
  "init_instance fresh s = s\<lparr>instance_ptr := Some fresh, exit_calls := exit_calls s + 1\<rparr>"

definition get_instance :: "'a \<Rightarrow> 'a singleton \<Rightarrow> 'a option \<times> 'a singleton" where
  "get_instance fresh s =
     (let s = (if once_ran s then s else (init_instance fresh s)\<lparr>once_ran := True\<rparr>) in (instance_ptr s, s))"

text \<open>\<open>destory\<close>, with the object it deletes.\<close>

definition destory :: "'a singleton \<Rightarrow> 'a option \<times> 'a singleton" where
  "destory s = (instance_ptr s, s\<lparr>instance_ptr := None\<rparr>)"

text \<open>A sequence of calls, with what each call of \<open>instance\<close> returned and what was deleted.\<close>

datatype 'a singleton_call = Instance 'a | Destory

fun singleton_run :: "'a singleton_call list \<Rightarrow> 'a singleton \<Rightarrow> 'a option list \<times> 'a list \<times> 'a singleton" where
  "singleton_run [] s = ([], [], s)"
| "singleton_run (Instance x # cs) s =
     (let (p, s) = get_instance x s; (ps, ds, s) = singleton_run cs s in (p # ps, ds, s))"
| "singleton_run (Destory # cs) s =
     (let (d, s) = destory s; (ps, ds, s) = singleton_run cs s in
      (ps, (case d of None \<Rightarrow> ds | Some x \<Rightarrow> x # ds), s))"

lemma singleton_run_gone:
  assumes "once_ran s" and "instance_ptr s = None" and "singleton_run cs s = (ps, ds, s')"
  shows "set ps \<subseteq> {None} \<and> ds = [] \<and> s' = s"
  using assms
proof (induction cs s arbitrary: ps ds s' rule: singleton_run.induct)
  case (2 y cs s)
  have g: "get_instance y s = (None, s)" using 2(2,3) by (simp add: get_instance_def)
  obtain ps1 where ps1: "singleton_run cs s = (ps1, ds, s')" "ps = None # ps1"
    using 2(4) by (auto simp: g split: prod.splits)
  then show ?case using 2(1) [OF g [symmetric] refl 2(2,3) ps1(1)] by simp
next
  case (3 cs s)
  then have "s\<lparr>instance_ptr := None\<rparr> = s" by (cases s) simp
  with 3 show ?case by (auto simp: destory_def split: prod.splits)
qed simp

lemma singleton_run_live:
  assumes "once_ran s" and "instance_ptr s = Some x" and "singleton_run cs s = (ps, ds, s')"
  shows "\<exists>n m. ps = replicate n (Some x) @ replicate m None \<and> (ds = [x] \<or> ds = [] \<and> m = 0) \<and> exit_calls s' = exit_calls s"
  using assms
proof (induction cs s arbitrary: ps ds s' rule: singleton_run.induct)
  case (1 s)
  then show ?case by auto
next
  case (2 y cs s)
  obtain ps1 where ps1: "singleton_run cs s = (ps1, ds, s')" "ps = Some x # ps1"
    using 2(2-4) by (auto simp: get_instance_def split: prod.splits)
  have g: "get_instance y s = (Some x, s)" using 2(2,3) by (simp add: get_instance_def)
  obtain n m where "ps1 = replicate n (Some x) @ replicate m None" "ds = [x] \<or> ds = [] \<and> m = 0"
      "exit_calls s' = exit_calls s"
    using 2(1) [OF g [symmetric] refl 2(2,3) ps1(1)] by blast
  then show ?case using ps1(2) by (intro exI [of _ "Suc n"] exI [of _ m]) simp
next
  case (3 cs s)
  let ?s = "s\<lparr>instance_ptr := None\<rparr>"
  obtain ds1 where r: "singleton_run cs ?s = (ps, ds1, s')" "ds = x # ds1"
    using 3(2-4) by (auto simp: destory_def split: prod.splits)
  have "set ps \<subseteq> {None} \<and> ds1 = [] \<and> s' = ?s"
    by (rule singleton_run_gone [OF _ _ r(1)]) (use 3(2) in simp_all)
  then have "ps = replicate 0 (Some x) @ replicate (length ps) None" "ds = [x]" "exit_calls s' = exit_calls s"
    using r(2) replicate_eqI [of ps "length ps" None] by auto
  then show ?case by blast
qed

text \<open>
  At most one object is ever made and it is deleted at most once, whatever the calls; once deleted,
  \<open>instance\<close> returns the null pointer for good.
\<close>

theorem singleton_once:
  assumes "singleton_run (Instance x # cs) initial_singleton = (ps, ds, s)"
  shows "\<exists>n m. ps = replicate (Suc n) (Some x) @ replicate m None \<and> (ds = [x] \<or> ds = [] \<and> m = 0)
    \<and> exit_calls s = 1"
proof -
  let ?s = "\<lparr>once_ran = True, instance_ptr = Some x, exit_calls = 1\<rparr>"
  obtain ps1 where r: "singleton_run cs ?s = (ps1, ds, s)" "ps = Some x # ps1"
    using assms by (auto simp: get_instance_def init_instance_def initial_singleton_def split: prod.splits)
  obtain n m where "ps1 = replicate n (Some x) @ replicate m None" "ds = [x] \<or> ds = [] \<and> m = 0" "exit_calls s = 1"
    using singleton_run_live [OF _ _ r(1), of x] by auto
  then show ?thesis using r(2) by (intro exI [of _ n] exI [of _ m]) simp
qed

theorem singleton_once_witness:
  "\<exists>s. singleton_run [Instance (7 :: nat), Instance 8, Destory, Instance 9, Destory] initial_singleton
     = ([Some 7, Some 7, None], [7], s) \<and> exit_calls s = 1"
proof -
  obtain s where s: "singleton_run [Instance (7 :: nat), Instance 8, Destory, Instance 9, Destory] initial_singleton
      = ([Some 7, Some 7, None], [7], s)"
    by (simp add: get_instance_def init_instance_def initial_singleton_def destory_def)
  show ?thesis using singleton_once [OF s] s by auto
qed

end
