(* ===== verification/Example_Echo.thy ===== *)
theory Example_Echo
  imports Connection_Push
begin

text \<open>
  The program of example/tcp/main.cpp over the library: a server that sends every message back, and
  a client that sends a packet when it is connected and answers every message.  The callbacks of the
  example are the functions a \<open>TcpManager\<close> is given; log lines are left out.
\<close>

section \<open>The callbacks\<close>

definition server_handle_msg :: "nat \<Rightarrow> nat \<Rightarrow> tcp_manager \<Rightarrow> fault + tcp_manager" where
  "server_handle_msg m src s = bind_res (tm_push_send_pack m src s) (\<lambda>(_, s). Inr s)"

text \<open>
  \<open>m\<close> and \<open>m2\<close> are the blocks the allocator would hand out for the two buffers taken; the result
  also has the three fields read.
\<close>

definition client_handle_msg ::
    "nat \<Rightarrow> nat \<Rightarrow> nat \<Rightarrow> tcp_manager \<Rightarrow> fault + ((64 word \<times> 32 word \<times> byte list) \<times> tcp_manager)" where
  "client_handle_msg m m2 src s =
     bind_res (pop_buffer m (buffer_pool s)) (\<lambda>(send_buff, bs).
     bind_res (get_buf src bs) (\<lambda>b.
     bind_res (append_from send_buff src (readableBytes b) bs) (\<lambda>bs.
     bind_res (tm_push_send_pack m2 send_buff (s\<lparr>buffer_pool := bs\<rparr>)) (\<lambda>(_, s).
     bind_res (push_buffer send_buff (buffer_pool s)) (\<lambda>bs.
     bind_res (get_buf src bs) (\<lambda>b.
     bind_res (readInt64 b) (\<lambda>(k, b).
     bind_res (readInt32 b) (\<lambda>(buff_size, b).
     bind_res (readString [] b) (\<lambda>(data, b).
     Inr ((k, buff_size, data), s\<lparr>buffer_pool := bs\<lparr>bufs := (bufs bs)(src \<mapsto> b)\<rparr>\<rparr>))))))))))"

text \<open>What the client sends once it is connected: a mebibyte of the digit one.\<close>

definition payload :: "byte list" where
  "payload = replicate (1024 * 1024) 49"

definition client_packet :: "64 word \<Rightarrow> buffer \<Rightarrow> fault + buffer" where
  "client_packet k b =
     (let data = payload;
          len = word_of_nat (length data) :: 32 word;
          buff_size = word_of_nat (length data + 2) :: 32 word in
      bind_res (writeInt64 k b) (\<lambda>b.
      bind_res (writeInt32 buff_size b) (\<lambda>b.
      bind_res (writeInt32 len b) (append_bytes (take (unat len) data)))))"

definition client_send_data :: "nat \<Rightarrow> nat \<Rightarrow> 64 word \<Rightarrow> tcp_manager \<Rightarrow> fault + tcp_manager" where
  "client_send_data m m2 k s =
     bind_res (pop_buffer m (buffer_pool s)) (\<lambda>(buff, bs).
     bind_res (upd_buf buff (client_packet k) bs) (\<lambda>bs.
     bind_res (tm_push_send_pack m2 buff (s\<lparr>buffer_pool := bs\<rparr>)) (\<lambda>(_, s).
     bind_res (push_buffer buff (buffer_pool s)) (\<lambda>bs. Inr (s\<lparr>buffer_pool := bs\<rparr>)))))"

section \<open>The client's packet\<close>

text \<open>The bytes the packet of the example has behind its key.\<close>

definition wire :: "byte list" where
  "wire = be_bytes (word_of_nat (length payload + 2) :: 32 word) @ be_bytes (word_of_nat (length payload) :: 32 word) @ payload"

lemma length_payload [simp]: "length payload = 1048576"
  by (simp add: payload_def)

lemma length_wire [simp]: "length wire = 1048584"
  by (simp add: wire_def)

lemma client_packet_ok:
  assumes "buffer_ok b" and "fits (be_bytes k @ wire) b"
  shows "\<exists>b'. client_packet k b = Inr b' \<and> buffer_ok b' \<and> contents b' = contents b @ be_bytes k @ wire"
proof -
  have f: "fits (be_bytes k) b" using assms(2) by (simp add: fits_def)
  obtain b1 where b1: "writeInt64 k b = Inr b1" "buffer_ok b1" "contents b1 = contents b @ be_bytes k"
      "write_index b1 = write_index b + 8"
    by (rule append_bytes_spec [OF assms(1) f]) (simp add: writeInt64_def)
  let ?n = "word_of_nat (length payload + 2) :: 32 word" and ?l = "word_of_nat (length payload) :: 32 word"
  have f: "fits (be_bytes ?n) b1" using assms(2) b1(4) by (simp add: fits_def)
  obtain b2 where b2: "writeInt32 ?n b1 = Inr b2" "buffer_ok b2" "contents b2 = contents b1 @ be_bytes ?n"
      "write_index b2 = write_index b1 + 4"
    by (rule append_bytes_spec [OF b1(2) f]) (simp add: writeInt32_def)
  have f: "fits (be_bytes ?l) b2" using assms(2) b1(4) b2(4) by (simp add: fits_def)
  obtain b3 where b3: "writeInt32 ?l b2 = Inr b3" "buffer_ok b3" "contents b3 = contents b2 @ be_bytes ?l"
      "write_index b3 = write_index b2 + 4"
    by (rule append_bytes_spec [OF b2(2) f]) (simp add: writeInt32_def)
  have f: "fits payload b3" using assms(2) b1(4) b2(4) b3(4) by (simp add: fits_def)
  obtain b4 where b4: "append_bytes payload b3 = Inr b4" "buffer_ok b4" "contents b4 = contents b3 @ payload"
    by (rule append_bytes_spec [OF b3(2) f]) simp
  have "take (unat ?l) payload = payload" by simp
  then have "client_packet k b = Inr b4"
    using b1(1) b2(1) b3(1) b4(1) by (simp add: client_packet_def Let_def del: length_payload)
  then show ?thesis using b1 b2 b3 b4 by (simp add: wire_def)
qed

lemma wire_start: "take 4 (wire @ bs) = be_bytes (1048578 :: 32 word)"
  by (simp add: wire_def)

lemma parse_wire: "parse_packet (wire @ bs) = Packet (take 1048582 wire) ([49, 49] @ bs)"
proof -
  have l: "packet_len (wire @ bs) = 1048578"
    by (simp add: packet_len_def wire_start del: take_append)
  have "drop 1048582 wire = drop 1048574 payload"
    by (simp add: wire_def)
  also have "\<dots> = replicate 2 49" unfolding payload_def by (subst drop_replicate) simp
  finally have "drop 1048582 wire = [49, 49]" by (simp add: numeral_2_eq_2)
  then show ?thesis by (simp add: parse_packet_def l)
qed

lemma parse_next_wire: "parse_packet ([49, 49] @ wire) = Need_More"
proof -
  have "take 4 ([49, 49] @ wire) = [49, 49, 0, 16]"
    by (simp add: wire_def be_bytes_def mem_of_def upt_rec)
  then have "packet_len ([49, 49] @ wire) = 825294864"
    by (simp add: packet_len_def from_be_def)
  then show ?thesis by (simp add: parse_packet_def)
qed

lemma pop_then_malloc:
  assumes "pop_buffer m B = Inr (x, B\<lparr>bpool := P, bufs := f\<rparr>)"
    and "\<forall>x P. pool_pop m (bpool B) = Inr (x, P) \<longrightarrow> malloc_ok m2 P"
  shows "malloc_ok m2 P"
  using assms by (auto simp: pop_buffer_def bind_res_eq_Inr dest: arg_cong [where f = bpool])

lemma client_send_data_ok:
  assumes ok: "store_ok (buffer_pool s)" and m: "malloc_ok m (bpool (buffer_pool s))"
    and m2: "\<forall>x P. pool_pop m (bpool (buffer_pool s)) = Inr (x, P) \<longrightarrow> malloc_ok m2 P"
    and conn: "open_connection k a s"
  shows "\<exists>s'. client_send_data m m2 k s = Inr s' \<and> unsent_of a s' = unsent_of a s @ wire
    \<and> (\<forall>y. y \<noteq> a \<longrightarrow> clients s' y = clients s y)"
proof -
  let ?B = "buffer_pool s"
  obtain x P where pop: "pop_buffer m ?B = Inr (x, ?B\<lparr>bpool := P, bufs := (bufs ?B)(x \<mapsto> default_buffer)\<rparr>)"
    and x: "x \<notin> dom (bufs ?B)" and ok1: "store_ok (?B\<lparr>bpool := P, bufs := (bufs ?B)(x \<mapsto> default_buffer)\<rparr>)"
    by (rule pop_buffer_ok [OF ok m])
  have P: "malloc_ok m2 P" by (rule pop_then_malloc [OF pop m2])
  obtain b where b: "client_packet k default_buffer = Inr b" "buffer_ok b" "contents b = be_bytes k @ wire"
    using client_packet_ok [of default_buffer k] by (auto simp: fits_def vec_max_def)
  let ?B1 = "?B\<lparr>bpool := P, bufs := (bufs ?B)(x \<mapsto> default_buffer)\<rparr>"
  let ?B2 = "?B1\<lparr>bufs := (bufs ?B1)(x \<mapsto> b)\<rparr>" and ?s = "s\<lparr>buffer_pool := ?B1\<lparr>bufs := (bufs ?B1)(x \<mapsto> b)\<rparr>\<rparr>"
  have u: "upd_buf x (client_packet k) ?B1 = Inr ?B2" and ok2: "store_ok ?B2"
    using upd_buf_ok [OF ok1, of x default_buffer "client_packet k"] b by simp_all
  obtain c where c: "clients s a = Some c" "set (wait_write_list c @ wait_pack_list c) \<subseteq> dom (bufs ?B)"
    using conn by (auto simp: open_connection_def Let_def)
  have pre: "store_ok (buffer_pool ?s)" "malloc_ok m2 (bpool (buffer_pool ?s))" "bufs (buffer_pool ?s) x = Some b"
    using ok2 P by simp_all
  have conn': "open_connection k a ?s"
    using conn by (auto simp: open_connection_def Let_def get_fd_def get_client_def)
  have alien: "\<forall>c. clients ?s a = Some c \<longrightarrow> x \<notin> set (wait_write_list c @ wait_pack_list c)"
    using c x by auto
  obtain y s' where s': "tm_push_send_pack m2 x ?s = Inr (0, s')" "store_ok (buffer_pool s')"
      "bufs (buffer_pool s') x = Some (skip 8 b)" "unsent_of a s' = unsent_of a ?s @ wire"
      "\<forall>y. y \<noteq> a \<longrightarrow> clients s' y = clients ?s y"
      "\<exists>c. clients s' a = Some c \<and> set (wait_write_list c @ wait_pack_list c) \<subseteq> dom (bufs (buffer_pool s')) - {x}"
    by (rule tm_push_send_pack_ok [OF pre b(3) conn' alien]) (rule that; assumption)
  obtain B where B: "push_buffer x (buffer_pool s') = Inr B" "bufs B = (bufs (buffer_pool s'))(x := None)"
    using push_buffer_ok [OF s'(2), of x] s'(3) by blast
  have "\<forall>z \<in> set (wait_write_list c @ wait_pack_list c). bufs ?B2 z = bufs ?B z"
    using c(2) x by auto
  then have "unsent_of a ?s = unsent_of a s"
    using c(1) unsent_frame [of c ?B2 ?B] by (simp add: unsent_of_def)
  moreover have "unsent_of a (s'\<lparr>buffer_pool := B\<rparr>) = unsent_of a s'"
  proof -
    obtain c where c: "clients s' a = Some c"
        "set (wait_write_list c @ wait_pack_list c) \<subseteq> dom (bufs (buffer_pool s')) - {x}"
      using s'(6) by blast
    then have "\<forall>z \<in> set (wait_write_list c @ wait_pack_list c). bufs B z = bufs (buffer_pool s') z"
      using B(2) by auto
    then show ?thesis using c(1) unsent_frame [of c B] by (simp add: unsent_of_def)
  qed
  ultimately show ?thesis
    using pop u s'(1,4,5) B(1) by (simp add: client_send_data_def)
qed

lemma client_handler_aborts:
  assumes ok: "store_ok (buffer_pool s)" and m: "malloc_ok m (bpool (buffer_pool s))"
    and m2: "\<forall>x P. pool_pop m (bpool (buffer_pool s)) = Inr (x, P) \<longrightarrow> malloc_ok m2 P"
    and conn: "open_connection k a s" "\<forall>c. clients s a = Some c \<longrightarrow> src \<notin> set (wait_write_list c @ wait_pack_list c)"
    and src: "bufs (buffer_pool s) src = Some b" "contents b = be_bytes k @ take 1048582 wire"
  shows "client_handle_msg m m2 src s = Inl Assert_Fail"
proof -
  let ?B = "buffer_pool s"
  obtain x P where pop: "pop_buffer m ?B = Inr (x, ?B\<lparr>bpool := P, bufs := (bufs ?B)(x \<mapsto> default_buffer)\<rparr>)"
    and x: "x \<notin> dom (bufs ?B)" and ok1: "store_ok (?B\<lparr>bpool := P, bufs := (bufs ?B)(x \<mapsto> default_buffer)\<rparr>)"
    by (rule pop_buffer_ok [OF ok m])
  have P: "malloc_ok m2 P" by (rule pop_then_malloc [OF pop m2])
  let ?B1 = "?B\<lparr>bpool := P, bufs := (bufs ?B)(x \<mapsto> default_buffer)\<rparr>"
  have ne: "src \<noteq> x" using src(1) x by blast
  have bok: "buffer_ok b" using ok src(1) by (rule store_ok_buffer)
  have fit: "write_index default_buffer + length (contents b) \<le> vec_max"
    using bok length_contents [OF bok] by (simp add: buffer_ok_def) linarith
  obtain b' where app: "append_from x src (length (contents b)) ?B1 = Inr (?B1\<lparr>bufs := (bufs ?B1)(x \<mapsto> b')\<rparr>)"
      and ok2: "store_ok (?B1\<lparr>bufs := (bufs ?B1)(x \<mapsto> b')\<rparr>)"
      and b': "contents b' = contents default_buffer @ take (length (contents b)) (contents b)"
    by (rule append_from_ok [OF ok1, of src b x default_buffer "length (contents b)"]) (use src(1) ne fit in auto)
  let ?s = "s\<lparr>buffer_pool := ?B1\<lparr>bufs := (bufs ?B1)(x \<mapsto> b')\<rparr>\<rparr>"
  have conn': "open_connection k a ?s"
    using conn(1) by (auto simp: open_connection_def Let_def get_fd_def get_client_def)
  have alien: "\<forall>c. clients ?s a = Some c \<longrightarrow> x \<notin> set (wait_write_list c @ wait_pack_list c)"
    using conn(1) x by (auto simp: open_connection_def Let_def)
  have pre: "store_ok (buffer_pool ?s)" "malloc_ok m2 (bpool (buffer_pool ?s))" "bufs (buffer_pool ?s) x = Some b'"
      "contents b' = be_bytes k @ take 1048582 wire"
    using ok2 P b' src(2) by simp_all
  obtain y s' where s': "tm_push_send_pack m2 x ?s = Inr (0, s')" "store_ok (buffer_pool s')"
      "bufs (buffer_pool s') x = Some (skip 8 b')"
      "\<forall>z \<in> dom (bufs (buffer_pool ?s)) - {x}. bufs (buffer_pool s') z = bufs (buffer_pool ?s) z"
    by (rule tm_push_send_pack_ok [OF pre conn' alien]) (rule that; assumption)
  obtain B where B: "push_buffer x (buffer_pool s') = Inr B" "bufs B = (bufs (buffer_pool s'))(x := None)"
    using push_buffer_ok [OF s'(2), of x] s'(3) by blast
  have "src \<in> dom (bufs (buffer_pool ?s)) - {x}" using src(1) ne by auto
  then have "bufs (buffer_pool s') src = Some b" using s'(4) src(1) ne by auto
  then have gb: "get_buf src B = Inr b" using B(2) ne by (simp add: get_buf_def)
  have r8: "readInt64 b = Inr (k, skip 8 b)" using read_skips(4) [OF bok] src(2) by simp
  have b8: "buffer_ok (skip 8 b)" "contents (skip 8 b) = take 1048582 wire"
    using skip_ok(1,2) [OF bok, of 8] src(2) by simp_all
  obtain n where r4: "readInt32 (skip 8 b) = Inr (n, skip 4 (skip 8 b))" using read_skips(3) [OF b8(1)] b8(2) by simp
  have b4: "buffer_ok (skip 4 (skip 8 b))" "contents (skip 4 (skip 8 b)) = drop 4 (take 1048582 wire)"
    using skip_ok(1,2) [OF b8(1), of 4] b8(2) by simp_all
  have "drop 4 (take 1048582 wire) = be_bytes (1048576 :: 32 word) @ take 1048574 payload"
    by (simp add: wire_def)
  then have "readString [] (skip 4 (skip 8 b)) = Inl Assert_Fail"
    using b4 by (simp add: readString_def peekString_def peekInt32_ok is_readable_def readable_eq)
  then show ?thesis
    using pop app s'(1) B(1) gb r8 r4 src(1) ne bok by (simp add: client_handle_msg_def readable_eq)
qed

section \<open>Properties\<close>

text \<open>
  C35: The server of the example answers a message with exactly the packet it received: a message is the
  key of its connection followed by the packet, the handler consumes the key, queues the packet behind
  everything already queued for that connection, and touches no other connection and no other buffer.
\<close>

theorem server_echoes_message:
  assumes "store_ok (buffer_pool s)" and "malloc_ok m (bpool (buffer_pool s))"
    and "bufs (buffer_pool s) src = Some b" and "contents b = be_bytes k @ p"
    and "open_connection k a s"
    and "\<forall>c. clients s a = Some c \<longrightarrow> src \<notin> set (wait_write_list c @ wait_pack_list c)"
  shows "\<exists>s'. server_handle_msg m src s = Inr s' \<and> unsent_of a s' = unsent_of a s @ p
    \<and> view (buffer_pool s') src = p
    \<and> (\<forall>y. y \<noteq> a \<longrightarrow> clients s' y = clients s y)
    \<and> (\<forall>y \<in> dom (bufs (buffer_pool s)) - {src}. bufs (buffer_pool s') y = bufs (buffer_pool s) y)"
proof -
  obtain s' where s': "tm_push_send_pack m src s = Inr (0, s')" "bufs (buffer_pool s') src = Some (skip 8 b)"
      "unsent_of a s' = unsent_of a s @ p" "\<forall>y. y \<noteq> a \<longrightarrow> clients s' y = clients s y"
      "\<forall>y \<in> dom (bufs (buffer_pool s)) - {src}. bufs (buffer_pool s') y = bufs (buffer_pool s) y"
    by (rule tm_push_send_pack_ok [OF assms]) (rule that; assumption)
  have "contents (skip 8 b) = p"
    using skip_ok(2) [OF store_ok_buffer [OF assms(1,3)], of 8] assms(4) by simp
  then show ?thesis using s' by (intro exI [of _ s']) (simp add: server_handle_msg_def)
qed

text \<open>One open connection, with a message of one packet in a buffer of the pool.\<close>

definition echo_manager :: "byte list \<Rightarrow> tcp_manager" where
  "echo_manager bs = tm_sample\<lparr>buffer_pool := rx_store\<lparr>bufs := (bufs rx_store)(116 \<mapsto> rx_buf bs)\<rparr>\<rparr>"

lemma echo_manager_ok:
  assumes "length bs \<le> vec_max"
  shows "store_ok (buffer_pool (echo_manager bs))" "malloc_ok 200 (bpool (buffer_pool (echo_manager bs)))"
    "bufs (buffer_pool (echo_manager bs)) 116 = Some (rx_buf bs)" "contents (rx_buf bs) = bs"
    "open_connection 1 300 (echo_manager bs)"
    "\<forall>c. clients (echo_manager bs) 300 = Some c \<longrightarrow> 116 \<notin> set (wait_write_list c @ wait_pack_list c)"
    "unsent_of 300 (echo_manager bs) = []"
proof -
  have b: "buffer_ok (rx_buf bs)" "contents (rx_buf bs) = bs"
    using assms by (simp_all add: rx_buf_def buffer_ok_def contents_def)
  have "bufs rx_store 116 = Some (rx_buf [0, 0, 0, 0])" by (simp add: rx_store_def)
  then show "store_ok (buffer_pool (echo_manager bs))"
    using upd_buf_ok(2) [OF rx_store_ok, of 116 _ "\<lambda>_. Inr (rx_buf bs)"] b(1) by (simp add: echo_manager_def)
qed (use rx_malloc in \<open>simp_all add: echo_manager_def open_connection_def get_fd_def get_client_def tm_client_def
    new_client_def ready_close_def unsent_of_def unsent_def rx_buf_def contents_def\<close>)

theorem server_echoes_message_witness:
  "\<exists>s'. server_handle_msg 200 116 (echo_manager (be_bytes (1 :: 64 word) @ [0, 0, 0, 1, 7])) = Inr s'
     \<and> unsent_of 300 s' = [0, 0, 0, 1, 7]"
proof -
  have "length (be_bytes (1 :: 64 word) @ [0, 0, 0, 1, 7]) \<le> vec_max" by (simp add: vec_max_def)
  note ok = echo_manager_ok [OF this]
  show ?thesis using server_echoes_message [OF ok(1-6)] ok(7) by auto
qed

text \<open>
  C36: The example's client miscounts the length of its packet: it announces the length of its string plus
  two, but the string follows with four bytes of length of its own.  So the peer cuts the packet two
  bytes before its end, takes the last two bytes for the start of the next length and waits for 825
  megabytes before it delivers anything else; and when the server's answer comes back, the client's own
  handler fails an assertion, because the string it reads is two bytes short.
\<close>

theorem example_packet_misframed:
  assumes "store_ok (buffer_pool s)" and "malloc_ok m (bpool (buffer_pool s))"
    and "\<forall>x P. pool_pop m (bpool (buffer_pool s)) = Inr (x, P) \<longrightarrow> malloc_ok m2 P"
    and "open_connection k a s"
  shows "\<exists>s' q p. client_send_data m m2 k s = Inr s' \<and> unsent_of a s' = unsent_of a s @ q
    \<and> parse_packet q = Packet p [49, 49] \<and> length q = length p + 2 \<and> parse_packet ([49, 49] @ q) = Need_More
    \<and> (\<forall>src b. bufs (buffer_pool s) src = Some b \<and> contents b = be_bytes k @ p
          \<and> (\<forall>c. clients s a = Some c \<longrightarrow> src \<notin> set (wait_write_list c @ wait_pack_list c))
         \<longrightarrow> client_handle_msg m m2 src s = Inl Assert_Fail)"
proof -
  obtain s' where "client_send_data m m2 k s = Inr s'" "unsent_of a s' = unsent_of a s @ wire"
    using client_send_data_ok [OF assms] by blast
  then show ?thesis
    using parse_wire [of "[]"] parse_next_wire client_handler_aborts [OF assms]
    by (intro exI [of _ s'] exI [of _ wire] exI [of _ "take 1048582 wire"]) simp
qed

theorem example_packet_misframed_witness:
  "\<exists>s' q p. client_send_data 200 300 1 (echo_manager []) = Inr s' \<and> unsent_of 300 s' = q
     \<and> parse_packet q = Packet p [49, 49] \<and> parse_packet ([49, 49] @ q) = Need_More"
proof -
  have l: "length ([] :: byte list) \<le> vec_max" by simp
  have m: "\<forall>x P. pool_pop 200 (bpool (buffer_pool (echo_manager []))) = Inr (x, P) \<longrightarrow> malloc_ok 300 P"
    by (auto simp: echo_manager_def rx_store_def pool_pop_def malloc_ok_def apart_def bind_res_eq_Inr Let_def)
  note ok = echo_manager_ok [OF l]
  show ?thesis
    using example_packet_misframed [OF ok(1,2) m ok(5)] ok(7) by auto
qed

end
