(* ===== verification/Example_Basics.thy ===== *)
theory Example_Basics
  imports Object_Pool Timestamp Log_Line
begin

text \<open>
  The programs under example/buffer, example/objpool, example/timerstamp and example/log: each drives one
  class and logs what it sees.  The arguments of its log lines are the result.
\<close>

datatype shown_arg = I int | S "byte list"

section \<open>example/buffer/main.cpp\<close>

definition sizes :: "buffer \<Rightarrow> shown_arg list" where
  "sizes b = [I (int (readableBytes b)), I (int (writeableBytes b))]"

text \<open>The bytes of \<open>"string"\<close>.\<close>

definition string_text :: "byte list" where
  "string_text = [115, 116, 114, 105, 110, 103]"

definition write_buff :: "buffer \<Rightarrow> fault + (shown_arg list list \<times> buffer)" where
  "write_buff b =
     bind_res (writeInt64 64 b) (\<lambda>b1.
     bind_res (writeInt16 16 b1) (\<lambda>b2.
     bind_res (writeString string_text b2) (\<lambda>b3.
     bind_res (writeInt32 32 b3) (\<lambda>b4.
     bind_res (writeInt8 8 b4) (\<lambda>b5.
     Inr (map sizes [b, b1, b2, b3, b4, b5], b5))))))"

definition read_buff :: "buffer \<Rightarrow> fault + (shown_arg list list \<times> buffer)" where
  "read_buff b =
     (let n = (\<lambda>b. I (int (readableBytes b))) in
      bind_res (peekInt64 b) (\<lambda>p64.
      bind_res (readInt64 b) (\<lambda>(num64, b1).
      bind_res (peekInt16 b1) (\<lambda>p16.
      bind_res (readInt16 b1) (\<lambda>(num16, b2).
      bind_res (peekString [] b2) (\<lambda>pstr.
      bind_res (readString pstr b2) (\<lambda>(str, b3).
      bind_res (peekInt32 b3) (\<lambda>p32.
      bind_res (readInt32 b3) (\<lambda>(num32, b4).
      bind_res (peekInt8 b4) (\<lambda>p8.
      bind_res (readInt8 b4) (\<lambda>(num8, b5).
      Inr ([[], [n b], [I (sint p64), n b], [I (sint num64), n b1], [I (sint p16), n b1], [I (sint num16), n b2],
            [S pstr, n b2], [S str, n b3], [I (sint p32), n b3], [I (sint num32), n b4],
            [I (sint p8), n b4], [I (sint num8), n b5]], b5))))))))))))"

definition buffer_main :: "fault + shown_arg list list" where
  "buffer_main =
     bind_res (write_buff (new_buffer 8)) (\<lambda>(out1, b).
     bind_res (read_buff b) (\<lambda>(out2, b).
     let can_read = [I (of_bool (is_readable 10 b))];
         (b1024, b) = swap (new_buffer 1024) b in
     Inr (out1 @ out2 @ [can_read, [I (int (writeableBytes b))], [I (of_bool (is_readable 10 b1024))]])))"

lemma append_sizes:
  assumes ok: "buffer_ok b" and room: "write_index b + length ds < 2 ^ 20" "length (buff b) < 2 ^ 20"
  obtains b' where "append_bytes ds b = Inr b'" "buffer_ok b'" "contents b' = contents b @ ds"
    "length (buff b') = max (length (buff b)) (write_index b + length ds)" "write_index b' = write_index b + length ds"
    "readableBytes b' = length (contents b) + length ds"
    "writeableBytes b' = length (buff b) - (write_index b + length ds)"
proof -
  have f: "fits ds b" using room by (simp add: fits_def vec_max_def)
  obtain b' where b': "append_bytes ds b = Inr b'" "buffer_ok b'" "contents b' = contents b @ ds"
      "write_index b' = write_index b + length ds"
    using append_bytes_spec [OF ok f] by metis
  have "length (buff b') = max (length (buff b)) (write_index b + length ds)"
    using append_bytes_fits [OF ok f] b'(1) ok by (auto simp: buffer_ok_def max_def)
  then show thesis using b' readable_eq [OF b'(2)] writeable_eq [OF b'(2)] by (intro that [of b']) simp_all
qed

text \<open>Every field is written and read back; the sizes are those of eight, two, ten, four and one bytes.\<close>

lemma write_buff_output:
  obtains b where "write_buff (new_buffer 8) = Inr ([[I 0, I 8], [I 8, I 0], [I 10, I 0], [I 20, I 0], [I 24, I 0], [I 25, I 0]], b)"
    "buffer_ok b" "contents b = concat (map enc [F64 64, F16 16, FString string_text, F32 32, F8 8])"
    "length (buff b) = 25" "write_index b = 25"
proof -
  have n: "buffer_ok (new_buffer 8)" by (simp add: vec_max_def)
  obtain b1 where b1: "append_bytes (enc (F64 64)) (new_buffer 8) = Inr b1" "buffer_ok b1" "contents b1 = enc (F64 64)"
      "length (buff b1) = 8" "write_index b1 = 8" "readableBytes b1 = 8" "writeableBytes b1 = 0"
    by (rule append_sizes [OF n, of "enc (F64 64)"]) simp_all
  obtain b2 where b2: "append_bytes (enc (F16 16)) b1 = Inr b2" "buffer_ok b2" "contents b2 = contents b1 @ enc (F16 16)"
      "length (buff b2) = 10" "write_index b2 = 10" "readableBytes b2 = 10" "writeableBytes b2 = 0"
    by (rule append_sizes [OF b1(2), of "enc (F16 16)"]) (use b1 in simp_all)
  obtain b3 where b3: "append_bytes (enc (FString string_text)) b2 = Inr b3" "buffer_ok b3"
      "contents b3 = contents b2 @ enc (FString string_text)"
      "length (buff b3) = 20" "write_index b3 = 20" "readableBytes b3 = 20" "writeableBytes b3 = 0"
    by (rule append_sizes [OF b2(2), of "enc (FString string_text)"]) (use b1 b2 in \<open>simp_all add: string_text_def\<close>)
  obtain b4 where b4: "append_bytes (enc (F32 32)) b3 = Inr b4" "buffer_ok b4" "contents b4 = contents b3 @ enc (F32 32)"
      "length (buff b4) = 24" "write_index b4 = 24" "readableBytes b4 = 24" "writeableBytes b4 = 0"
    by (rule append_sizes [OF b3(2), of "enc (F32 32)"]) (use b1 b2 b3 in \<open>simp_all add: string_text_def\<close>)
  obtain b5 where b5: "append_bytes (enc (F8 8)) b4 = Inr b5" "buffer_ok b5" "contents b5 = contents b4 @ enc (F8 8)"
      "length (buff b5) = 25" "write_index b5 = 25" "readableBytes b5 = 25" "writeableBytes b5 = 0"
    by (rule append_sizes [OF b4(2), of "enc (F8 8)"]) (use b1 b2 b3 b4 in \<open>simp_all add: string_text_def\<close>)
  have s: "writeString string_text b2 = Inr b3"
    using writeString_ok [OF b2(2), of string_text] b2(5) b3(1) by (simp add: fits_def vec_max_def string_text_def)
  have z: "sizes (new_buffer 8) = [I 0, I 8]"
    using readable_eq [OF n] writeable_eq [OF n] by (simp add: sizes_def)
  have "write_buff (new_buffer 8) = Inr ([[I 0, I 8], [I 8, I 0], [I 10, I 0], [I 20, I 0], [I 24, I 0], [I 25, I 0]], b5)"
    using b1 b2 b3 b4 b5 s z
    by (simp add: write_buff_def writeInt64_def writeInt16_def writeInt32_def writeInt8_def sizes_def)
  then show thesis using b1(3) b2(3) b3(3) b4(3) b5(2-5) by (intro that [of b5]) simp_all
qed

lemma read_buff_output:
  assumes ok: "buffer_ok b" and c: "contents b = concat (map enc [F64 x, F16 y, FString s, F32 z, F8 w])"
    and s: "length s < 2 ^ 20" "s \<noteq> []"
  defines "n \<equiv> 11 + length s"
  obtains b' where "read_buff b = Inr ([[], [I (int n + 8)], [I (sint x), I (int n + 8)], [I (sint x), I (int n)],
      [I (sint y), I (int n)], [I (sint y), I (int n - 2)], [S s, I (int n - 2)], [S s, I 5], [I (sint z), I 5], [I (sint z), I 1],
      [I (sint w), I 1], [I (sint w), I 0]], b')" "buffer_ok b'" "contents b' = []" "buff b' = buff b" "write_index b' = write_index b"
proof -
  have full: "contents b = be_bytes x @ be_bytes y @ be_bytes (word_of_nat (length s) :: 32 word) @ s @ be_bytes z @ be_bytes w"
    using c by simp
  define b1 where "b1 = skip 8 b"
  define b2 where "b2 = skip 2 b1"
  define b3 where "b3 = skip (4 + length s) b2"
  define b4 where "b4 = skip 4 b3"
  define b5 where "b5 = skip 1 b4"
  have k1: "buffer_ok b1" "contents b1 = be_bytes y @ be_bytes (word_of_nat (length s) :: 32 word) @ s @ be_bytes z @ be_bytes w"
    using skip_ok(1,2) [OF ok, of 8] full by (simp_all add: b1_def)
  have k2: "buffer_ok b2" "contents b2 = enc (FString s) @ be_bytes z @ be_bytes w"
    using skip_ok(1,2) [OF k1(1), of 2] k1(2) by (simp_all add: b2_def)
  have k3: "buffer_ok b3" "contents b3 = be_bytes z @ be_bytes w"
    using skip_ok(1,2) [OF k2(1), of "4 + length s"] k2(2) by (simp_all add: b3_def)
  have k4: "buffer_ok b4" "contents b4 = be_bytes w"
    using skip_ok(1,2) [OF k3(1), of 4] k3(2) by (simp_all add: b4_def)
  have k5: "buffer_ok b5" "contents b5 = []"
    using skip_ok(1,2) [OF k4(1), of 1] k4(2) by (simp_all add: b5_def)
  have sl: "length s < 2 ^ 32" using s(1) by simp
  have str: "peekString [] b2 = Inr s" "peekString s b2 = Inr s"
    using peekString_ok [OF k2(1) sl k2(2)] s(2) by simp_all
  then have rs: "readString s b2 = Inr (s, b3)"
    using skip_ok(5) [OF k2(1), of "4 + length s"] k2(2) by (simp add: readString_def b3_def skip_def)
  have e: "skip 8 b = b1" "skip 2 b1 = b2" "skip 4 b3 = b4" "skip (Suc 0) b4 = b5"
    by (simp_all add: b1_def b2_def b4_def b5_def)
  have "read_buff b = Inr ([[], [I (int n + 8)], [I (sint x), I (int n + 8)], [I (sint x), I (int n)],
      [I (sint y), I (int n)], [I (sint y), I (int n - 2)], [S s, I (int n - 2)], [S s, I 5], [I (sint z), I 5], [I (sint z), I 1],
      [I (sint w), I 1], [I (sint w), I 0]], b5)"
    using full k1 k2 k3 k4 k5 ok
    by (simp add: read_buff_def Let_def peekInt64_ok peekInt16_ok peekInt32_ok peekInt8_ok read_skips str rs readable_eq n_def e)
  moreover have "buff b5 = buff b" "write_index b5 = write_index b"
    by (simp_all add: b1_def b2_def b3_def b4_def b5_def skip_def)
  ultimately show thesis using k5 by (intro that)
qed


text \<open>
  What the program logs: the free space of the vector of eight bytes is used up, then the vector grows to
  exactly what is needed; each field is peeked and read as it was written; nothing is left, and swapping
  with an empty buffer leaves its 1024 bytes to the first.
\<close>

theorem buffer_main_output:
  "buffer_main = Inr (
     [[I 0, I 8], [I 8, I 0], [I 10, I 0], [I 20, I 0], [I 24, I 0], [I 25, I 0]]
     @ [[], [I 25], [I 64, I 25], [I 64, I 17], [I 16, I 17], [I 16, I 15], [S string_text, I 15], [S string_text, I 5],
        [I 32, I 5], [I 32, I 1], [I 8, I 1], [I 8, I 0]]
     @ [[I 0], [I 1024], [I 0]])"
proof -
  obtain b where b: "write_buff (new_buffer 8) = Inr ([[I 0, I 8], [I 8, I 0], [I 10, I 0], [I 20, I 0], [I 24, I 0], [I 25, I 0]], b)"
    "buffer_ok b" "contents b = concat (map enc [F64 64, F16 16, FString string_text, F32 32, F8 8])"
    "length (buff b) = 25" "write_index b = 25"
    by (rule write_buff_output)
  have len: "length string_text = 6" "string_text \<noteq> []" by (simp_all add: string_text_def)
  have vals: "sint (64 :: 64 word) = 64" "sint (16 :: 16 word) = 16" "sint (32 :: 32 word) = 32" "sint (8 :: 8 word) = 8"
    by simp_all
  obtain b' where b': "read_buff b = Inr ([[], [I 25], [I 64, I 25], [I 64, I 17], [I 16, I 17], [I 16, I 15],
      [S string_text, I 15], [S string_text, I 5], [I 32, I 5], [I 32, I 1], [I 8, I 1], [I 8, I 0]], b')"
      "buffer_ok b'" "contents b' = []" "buff b' = buff b" "write_index b' = write_index b"
    by (rule read_buff_output [OF b(2,3)]) (simp_all add: len vals)
  have "buffer_ok (new_buffer 1024)" by (simp add: vec_max_def)
  then have fresh: "\<not> is_readable 10 b'" "writeableBytes (snd (swap (new_buffer 1024) b')) = 1024"
    "\<not> is_readable 10 (fst (swap (new_buffer 1024) b'))"
    using b'(2,3) readable_eq [of b'] writeable_eq [of "snd (swap (new_buffer 1024) b')"] buffer_ok_swap [of "new_buffer 1024" b']
    by (auto simp: is_readable_def swap_def readableBytes_def new_buffer_def)
  then show ?thesis by (simp add: buffer_main_def b b' Let_def split_beta)
qed

section \<open>example/timerstamp/main.cpp\<close>

text \<open>\<open>now\<close> is what \<open>gettimeofday\<close> gives the default constructor.\<close>

definition add_test :: "timestamp \<Rightarrow> shown_arg list \<times> timestamp" where
  "add_test now = (let t1 = now; t2 = from_sec_usec 10 0 in ([I (unixstamp t1)], stamp_add t1 t2))"

definition sub_test :: "timestamp \<Rightarrow> shown_arg list \<times> timestamp" where
  "sub_test now = (let t1 = now; t2 = from_sec_usec 10 0 in ([I (unixstamp t1)], stamp_sub t1 t2))"

definition stamp_test :: "timestamp \<Rightarrow> timestamp \<Rightarrow> shown_arg list list" where
  "stamp_test now now' =
     (let (out1, t1) = add_test now; t2 = t1; equal = [[I (of_bool (stamp_ge t1 t2))], [I (of_bool (stamp_le t1 t2))]];
          (out2, t2) = sub_test now'; t3 = from_sec (unixstamp t1 + 10);
          ordered = [[I (of_bool (stamp_ge t1 t2))], [I (of_bool (stamp_le t2 t1))],
            [I (of_bool (stamp_gt t3 t1))], [I (of_bool (stamp_lt t1 t3))]];
          zero = sub_assign t1 t1; second = add_time 0 USEC_PER_SEC zero in
      [out1, [I (unixstamp t1), I (long_unixstamp t1)], [I (tv_sec t1), I (tv_usec t1)]] @ equal @ [out2] @ ordered
      @ [[I (long_unixstamp zero), I (of_bool (valid zero))], [I (tv_sec second), I (tv_usec second)]])"

text \<open>
  Every comparison the program announces as true is true, as long as less than twenty seconds pass between
  its two readings of the clock; the difference of a time and itself is zero and not valid, and a million
  microseconds more are one second.
\<close>

theorem stamp_test_output:
  assumes "normalized now" and "normalized now'" and "0 \<le> tv_sec now" and "tv_sec now < 9000000000"
    and "0 \<le> tv_sec now'" and "tv_sec now' \<le> tv_sec now + 19"
  shows "stamp_test now now' =
    [[I (tv_sec now)], [I (tv_sec now + 10), I (stamp_value now + 10000000)], [I (tv_sec now + 10), I (tv_usec now)],
     [I 1], [I 1], [I (tv_sec now')], [I 1], [I 1], [I 1], [I 1], [I 0, I 0], [I 1, I 0]]"
proof -
  obtain s u where now: "now = Timestamp s u" by (cases now)
  obtain s' u' where now': "now' = Timestamp s' u'" by (cases now')
  have r: "0 \<le> u" "u < 1000000" "0 \<le> u'" "u' < 1000000" "0 \<le> s" "s < 9000000000" "0 \<le> s'" "s' \<le> s + 19"
    using assms by (simp_all add: now now' normalized_def USEC_PER_SEC_def)
  have t: "from_sec_usec 10 0 = Timestamp 10 0" by (simp add: from_sec_usec_def normalize_def USEC_PER_SEC_def)
  have t1: "stamp_add now (Timestamp 10 0) = Timestamp (s + 10) u"
    using r by (simp add: now stamp_add_def add_assign_def normalize_def USEC_PER_SEC_def)
  have t2: "stamp_sub now' (Timestamp 10 0) = Timestamp (s' - 10) u'"
    using r by (simp add: now' stamp_sub_def sub_assign_def normalize_def USEC_PER_SEC_def)
  have long: "long_unixstamp (Timestamp a b) = a * 1000000 + b" if "\<bar>a\<bar> < 9007199254" "\<bar>b\<bar> \<le> 1000000" for a b
    using long_unixstamp_exact [of "Timestamp a b"] that by (simp add: in_range_def stamp_value_def USEC_PER_SEC_def)
  have z: "sub_assign (Timestamp (s + 10) u) (Timestamp (s + 10) u) = Timestamp 0 0"
    by (simp add: sub_assign_def normalize_def USEC_PER_SEC_def)
  have one: "add_time 0 USEC_PER_SEC (Timestamp 0 0) = Timestamp 1 0"
    by (simp add: add_time_def normalize_def carry_up.simps USEC_PER_SEC_def)
  show ?thesis
    using r
    by (simp add: stamp_test_def add_test_def sub_test_def t t1 t2 z one Let_def unixstamp_def from_sec_def stamp_ge_def
        stamp_le_def stamp_gt_def stamp_lt_def long valid_def)
      (simp add: now now' stamp_value_def USEC_PER_SEC_def)
qed

theorem stamp_test_output_witness:
  "stamp_test (Timestamp 1700000000 250000) (Timestamp 1700000000 250031) =
    [[I 1700000000], [I 1700000010, I 1700000010250000], [I 1700000010, I 250000], [I 1], [I 1], [I 1700000000],
     [I 1], [I 1], [I 1], [I 1], [I 0, I 0], [I 1, I 0]]"
  using stamp_test_output [of "Timestamp 1700000000 250000" "Timestamp 1700000000 250031"]
  by (simp add: normalized_def stamp_value_def USEC_PER_SEC_def)

section \<open>example/log/main.cpp\<close>

text \<open>
  \<open>LOG_INFO("%s", log_tmp)\<close>: the macro puts the level, the file, the line and the function in front and keeps
  the quotes of the format, since it makes a string of it.
\<close>

definition info_text :: "byte list \<Rightarrow> byte list \<Rightarrow> byte list" where
  "info_text where_from message = [73, 78, 70, 79, 32, 32] @ where_from @ [58, 32, 34] @ message @ [34]"

definition loging_line :: "clock_time \<Rightarrow> byte list \<Rightarrow> fault + buffer" where
  "loging_line t where_from = fill_line 1 t (Formatted (info_text where_from (replicate 2999 49))) [] default_buffer"

text \<open>A line of the program is complete, with up to 5171 bytes for the names of the file and the function.\<close>

theorem loging_line_complete:
  assumes "length where_from \<le> 5171"
  shows "\<exists>b. loging_line t where_from = Inr b
    \<and> contents b = time_tag t @ [73, 78, 70, 79, 32, 32] @ where_from @ [58, 32, 34] @ replicate 2999 49 @ [34, 10]"
proof -
  let ?text = "info_text where_from (replicate 2999 49)"
  have n: "12 \<le> (8192 :: nat)" "8192 \<le> vec_max" by (simp_all add: vec_max_def)
  have len: "length ?text \<le> 8180" using assms by (simp add: info_text_def)
  obtain b where b: "fill_line 1 t (Formatted ?text) [] (new_buffer 8192) = Inr b"
      "contents b = time_tag t @ shown 8192 ?text @ [10] @ concat (trace_lines 1 [])"
    by (rule fill_line_ok [OF n, of ?text 1 "[]" t]) (use len in \<open>simp_all add: trace_lines_def vec_max_def\<close>)
  have "shown 8192 ?text = ?text" using len by (simp add: shown_def)
  then show ?thesis using b by (simp add: loging_line_def default_buffer_def info_text_def trace_lines_def)
qed

theorem loging_line_complete_witness:
  "\<exists>b. loging_line \<lparr>tm_hour = 1, tm_min = 2, tm_sec = 3\<rparr> [109] = Inr b
     \<and> contents b = time_tag \<lparr>tm_hour = 1, tm_min = 2, tm_sec = 3\<rparr> @ [73, 78, 70, 79, 32, 32] @ [109] @ [58, 32, 34]
         @ replicate 2999 49 @ [34, 10]"
  by (rule loging_line_complete) simp

section \<open>example/objpool/main.cpp\<close>

text \<open>
  Objects with a vector live in the global pool; their constructor, destructor and \<open>operator delete\<close> log.
  Destroying an object that is not there is the use of a freed object.
\<close>

record simple =
  simple_vec :: "int list"
  simple_size :: nat

datatype simple_log =
    Made | Destroyed | Deleted | Size nat | Vec int | Title "byte list"
  | Info "(nat \<times> nat \<times> nat) \<times> (nat \<times> nat \<times> nat) list"

record simple_pool =
  slots :: pool
  simples :: "nat \<rightharpoonup> simple"
  logged :: "simple_log list"

definition simple_log :: "simple_log list \<Rightarrow> simple_pool \<Rightarrow> simple_pool" where
  "simple_log ls s = s\<lparr>logged := logged s @ ls\<rparr>"

definition new_simple :: simple where
  "new_simple = \<lparr>simple_vec = [], simple_size = 0\<rparr>"

definition pop_simple :: "nat \<Rightarrow> simple_pool \<Rightarrow> fault + (nat \<times> simple_pool)" where
  "pop_simple m s =
     bind_res (pool_pop m (slots s)) (\<lambda>(a, P).
     Inr (a, simple_log [Made] (s\<lparr>slots := P, simples := (simples s)(a \<mapsto> new_simple)\<rparr>)))"

definition destroy_simple :: "nat \<Rightarrow> simple_pool \<Rightarrow> fault + simple_pool" where
  "destroy_simple a s =
     (case simples s a of None \<Rightarrow> Inl Use_After_Free
      | Some _ \<Rightarrow> Inr (simple_log [Destroyed] (s\<lparr>simples := (simples s)(a := None)\<rparr>)))"

definition push_simple :: "nat \<Rightarrow> simple_pool \<Rightarrow> fault + simple_pool" where
  "push_simple a s = bind_res (destroy_simple a s) (\<lambda>s. Inr (s\<lparr>slots := pool_push a (slots s)\<rparr>))"

text \<open>\<open>delete p\<close> runs the destructor and then \<open>operator delete\<close>.\<close>

definition delete_simple :: "nat \<Rightarrow> simple_pool \<Rightarrow> fault + simple_pool" where
  "delete_simple a s = bind_res (destroy_simple a s) (\<lambda>s. push_simple a (simple_log [Deleted] s))"

definition simple_add :: "int \<Rightarrow> simple \<Rightarrow> simple" where
  "simple_add x v = (let v = v\<lparr>simple_vec := simple_vec v @ [x]\<rparr> in v\<lparr>simple_size := length (simple_vec v)\<rparr>)"

definition simple_info :: "simple \<Rightarrow> simple_log list" where
  "simple_info v = Size (simple_size v) # map Vec (simple_vec v)"

definition log_dump :: "simple_pool \<Rightarrow> simple_pool" where
  "log_dump s = simple_log [Info (dump_info (slots s))] s"

text \<open>The smart pointer of \<open>func1\<close> deletes its object at the end.\<close>

definition func1 :: "nat \<Rightarrow> simple_pool \<Rightarrow> fault + simple_pool" where
  "func1 m s = bind_res (pop_simple m s) (\<lambda>(p, s). delete_simple p (log_dump s))"

definition with_simple :: "nat \<Rightarrow> (simple \<Rightarrow> simple \<times> simple_log list) \<Rightarrow> simple_pool \<Rightarrow> fault + simple_pool" where
  "with_simple a f s =
     (case simples s a of None \<Rightarrow> Inl Use_After_Free
      | Some v \<Rightarrow> let (v, ls) = f v in Inr (simple_log ls (s\<lparr>simples := (simples s)(a \<mapsto> v)\<rparr>)))"

text \<open>\<open>func\<close> in three parts: up to \<open>shrink\<close>, which may not return, \<open>shrink\<close>, and the rest.\<close>

definition func_fill :: "nat list \<Rightarrow> simple_pool \<Rightarrow> fault + simple_pool" where
  "func_fill ms s =
     bind_res (gather pop_simple ms (simple_log [Title [112, 111, 112]] s)) (\<lambda>(obj_list, s).
     bind_res (each push_simple obj_list (simple_log [Title [112, 117, 115, 104]] (log_dump s))) (\<lambda>s.
     Inr (simple_log [Title [115, 104, 114, 105, 110, 107]] (log_dump s))))"

definition func_rest :: "nat \<Rightarrow> nat \<Rightarrow> simple_pool \<Rightarrow> fault + simple_pool" where
  "func_rest m m' s =
     bind_res (pop_simple m (simple_log [Title []] (log_dump s))) (\<lambda>(ptr, s).
     bind_res (with_simple ptr (\<lambda>v. (simple_add 1 v, [])) s) (\<lambda>s.
     bind_res (with_simple ptr (\<lambda>v. (simple_add 2 v, [])) s) (\<lambda>s.
     bind_res (with_simple ptr (\<lambda>v. (v, simple_info v)) s) (\<lambda>s.
     bind_res (push_simple ptr s) (\<lambda>s.
     bind_res (pop_simple m' s) (\<lambda>(ptr, s). with_simple ptr (\<lambda>v. (v, simple_info v)) s))))))"

definition func :: "nat list \<Rightarrow> nat \<Rightarrow> nat \<Rightarrow> simple_pool \<Rightarrow> (fault + simple_pool) option" where
  "func ms m m' s =
     (case func_fill ms s of
        Inl e \<Rightarrow> Some (Inl e)
      | Inr s \<Rightarrow> (case shrink (slots s) of
          None \<Rightarrow> None
        | Some (_, P) \<Rightarrow> Some (func_rest m m' (s\<lparr>slots := P\<rparr>))))"

text \<open>
  The program's \<open>main\<close> runs \<open>func1\<close>: the object is destroyed by \<open>delete\<close> and once more by \<open>push\<close>, whatever the
  pool.
\<close>

theorem func1_destroys_twice:
  assumes "pool_ok (slots s)" and "malloc_ok m (slots s)"
  shows "func1 m s = Inl Use_After_Free"
proof -
  obtain a P where "pool_pop m (slots s) = Inr (a, P)" using pool_pop_ok [OF assms] by blast
  then show ?thesis
    by (simp add: func1_def pop_simple_def delete_simple_def push_simple_def destroy_simple_def simple_log_def log_dump_def)
qed

theorem func1_destroys_twice_witness:
  "func1 5000 \<lparr>slots = sample_pool, simples = Map.empty, logged = []\<rparr> = Inl Use_After_Free"
  by (rule func1_destroys_twice) (simp_all add: sample_pool_ok, simp add: malloc_ok_def sample_pool_def apart_def)

text \<open>A pool of one block with the given idle slots.\<close>

definition one_block :: "nat \<Rightarrow> nat \<Rightarrow> nat \<Rightarrow> nat list \<Rightarrow> pool" where
  "one_block p n sz xs = \<lparr>block_list = [\<lparr>key = p, objs = xs, blk_begin = p, blk_end = p + (n - 1) * sz\<rparr>],
     block_size = n, elem_size = sz\<rparr>"

lemma one_block_pop: "pool_pop m (one_block p n sz (a # xs)) = Inr (a, one_block p n sz xs)"
  by (simp add: pool_pop_def one_block_def)

lemma one_block_push: "a \<in> set (slot_list p n sz) \<Longrightarrow> pool_push a (one_block p n sz xs) = one_block p n sz (xs @ [a])"
  by (auto simp: pool_push_def one_block_def valid_addr_def elim!: in_slot_listE)

lemma one_block_shrink: "shrink (one_block p n sz xs) = Some ([], one_block p n sz xs)"
  by (simp add: shrink_def one_block_def shrink_loop.simps)

lemma gather_pop_simple:
  assumes "slots s = one_block p n sz (as @ xs)" and "length ms = length as"
  shows "\<exists>s'. gather pop_simple ms s = Inr (as, s') \<and> slots s' = one_block p n sz xs
    \<and> logged s' = logged s @ replicate (length as) Made \<and> (\<forall>b. simples s' b = (if b \<in> set as then Some new_simple else simples s b))"
  using assms
proof (induction as arbitrary: s ms)
  case (Cons a as)
  obtain m ms' where ms: "ms = m # ms'" "length ms' = length as" using Cons.prems(2) by (cases ms) auto
  let ?s = "simple_log [Made] (s\<lparr>slots := one_block p n sz (as @ xs), simples := (simples s)(a \<mapsto> new_simple)\<rparr>)"
  have pop: "pop_simple m s = Inr (a, ?s)" using Cons.prems(1) by (simp add: pop_simple_def one_block_pop)
  obtain s' where "gather pop_simple ms' ?s = Inr (as, s')" "slots s' = one_block p n sz xs"
      "logged s' = logged ?s @ replicate (length as) Made"
      "\<forall>b. simples s' b = (if b \<in> set as then Some new_simple else simples ?s b)"
    using Cons.IH [of ?s ms'] ms(2) by (auto simp: simple_log_def)
  then show ?case using pop ms(1) by (auto simp: simple_log_def)
qed auto

lemma each_push_simple:
  assumes "slots s = one_block p n sz xs" and "set as \<subseteq> set (slot_list p n sz)" and "distinct as"
    and "set as \<subseteq> dom (simples s)"
  shows "\<exists>s'. each push_simple as s = Inr s' \<and> slots s' = one_block p n sz (xs @ as)
    \<and> logged s' = logged s @ replicate (length as) Destroyed"
  using assms
proof (induction as arbitrary: s xs)
  case (Cons a as)
  let ?s = "simple_log [Destroyed] (s\<lparr>simples := (simples s)(a := None), slots := one_block p n sz (xs @ [a])\<rparr>)"
  have "push_simple a s = Inr ?s"
    using Cons.prems by (auto simp: push_simple_def destroy_simple_def simple_log_def one_block_push)
  moreover have "\<exists>s'. each push_simple as ?s = Inr s' \<and> slots s' = one_block p n sz ((xs @ [a]) @ as)
      \<and> logged s' = logged ?s @ replicate (length as) Destroyed"
    by (rule Cons.IH) (use Cons.prems in \<open>auto simp: simple_log_def\<close>)
  ultimately show ?case by (auto simp: simple_log_def)
qed auto

text \<open>
  \<open>func\<close>, which \<open>main\<close> does not call, returns: \<open>shrink\<close> keeps the only block, an object that is taken again is
  a new one, and the last object is never given back.
\<close>

theorem func_output:
  assumes "new_pool p 1024 sz = Inr P" and "0 < sz" and "length ms = 7"
  shows "\<exists>s'. func ms m m' \<lparr>slots = P, simples = Map.empty, logged = []\<rparr> = Some (Inr s')
    \<and> [l \<leftarrow> logged s'. \<exists>n. l = Size n \<or> l = Vec (int n)] = [Size 2, Vec 1, Vec 2, Size 0]
    \<and> length [l \<leftarrow> logged s'. l = Made] = length [l \<leftarrow> logged s'. l = Destroyed] + 1"
proof -
  let ?xs = "slot_list p 1024 sz"
  have "0 < p" using assms(1) by (auto simp: new_pool_def make_new_block_def check_def split: if_splits)
  then have P: "P = one_block p 1024 sz ?xs"
    using assms(1) by (simp add: new_pool_def make_new_block_def one_block_def Let_def)
  let ?as = "take 7 ?xs" and ?r = "drop 7 ?xs"
  have split: "?xs = ?as @ ?r" and d: "distinct ?xs" using distinct_slot_list [OF assms(2)] by simp_all
  let ?s = "\<lparr>slots = P, simples = Map.empty, logged = []\<rparr>"
  let ?start = "simple_log [Title [112, 111, 112]] ?s"
  have start: "slots ?start = one_block p 1024 sz (?as @ ?r)" "length ms = length ?as"
    unfolding split [symmetric] using P assms(3) by (simp_all add: simple_log_def)
  obtain s1 where s1: "gather pop_simple ms ?start = Inr (?as, s1)" "slots s1 = one_block p 1024 sz ?r"
      "logged s1 = logged ?start @ replicate (length ?as) Made"
      "\<forall>b. simples s1 b = (if b \<in> set ?as then Some new_simple else simples ?start b)"
    using gather_pop_simple [OF start] by blast
  let ?s1 = "simple_log [Title [112, 117, 115, 104]] (log_dump s1)"
  have "\<exists>s2. each push_simple ?as ?s1 = Inr s2 \<and> slots s2 = one_block p 1024 sz (?r @ ?as)
      \<and> logged s2 = logged ?s1 @ replicate (length ?as) Destroyed"
  proof (rule each_push_simple)
    show "distinct ?as" using d by (rule distinct_take)
    show "set ?as \<subseteq> dom (simples ?s1)" using s1(4) by (auto simp: simple_log_def log_dump_def)
  qed (use s1(2) in \<open>simp_all add: simple_log_def log_dump_def set_take_subset\<close>)
  then obtain s2 where s2: "each push_simple ?as ?s1 = Inr s2" "slots s2 = one_block p 1024 sz (?r @ ?as)"
      "logged s2 = logged ?s1 @ replicate (length ?as) Destroyed" by blast
  let ?s2 = "simple_log [Title [115, 104, 114, 105, 110, 107]] (log_dump s2)"
  have fill: "func_fill ms ?s = Inr ?s2" using s1(1) s2(1) by (simp add: func_fill_def)
  have "length (?r @ ?as) = Suc (Suc 1022)" by simp
  then obtain a b ys where ys: "?r @ ?as = a # b # ys" by (auto simp only: length_Suc_conv)
  have "set (a # b # ys) \<subseteq> set ?xs"
    unfolding ys [symmetric] by (auto dest: in_set_takeD in_set_dropD)
  then have a: "a \<in> set ?xs" by simp
  have sl: "slots ?s2 = one_block p 1024 sz (a # b # ys)" using s2(2) ys by (simp add: simple_log_def log_dump_def)
  have same: "?s2\<lparr>slots := slots ?s2\<rparr> = ?s2" by (cases ?s2) simp
  have shr: "shrink (slots ?s2) = Some ([], slots ?s2)" unfolding sl by (rule one_block_shrink)
  have "\<exists>s'. func_rest m m' ?s2 = Inr s' \<and> logged s' = logged ?s2 @ [Info (dump_info (slots ?s2)), Title [], Made, Size 2, Vec 1, Vec 2,
      Destroyed, Made, Size 0]"
    using sl a by (simp add: func_rest_def pop_simple_def with_simple_def push_simple_def destroy_simple_def simple_log_def
        log_dump_def one_block_pop one_block_push simple_add_def simple_info_def new_simple_def Let_def)
  then obtain s' where s': "func_rest m m' ?s2 = Inr s'" "logged s' = logged ?s2 @ [Info (dump_info (slots ?s2)), Title [], Made,
      Size 2, Vec 1, Vec 2, Destroyed, Made, Size 0]" by blast
  have "func ms m m' ?s = Some (Inr s')" using fill shr s'(1) same by (simp add: func_def)
  moreover have "\<exists>n. (1 :: int) = int n" "\<exists>n. (2 :: int) = int n" by presburger+
  ultimately show ?thesis
    using s'(2) s2(3) s1(3) by (intro exI [of _ s']) (simp add: simple_log_def log_dump_def)
qed

theorem func_output_witness:
  "\<exists>P s'. new_pool 4096 1024 40 = Inr P
     \<and> func (replicate 7 4096) 4096 4096 \<lparr>slots = P, simples = Map.empty, logged = []\<rparr> = Some (Inr s')
     \<and> [l \<leftarrow> logged s'. \<exists>n. l = Size n \<or> l = Vec (int n)] = [Size 2, Vec 1, Vec 2, Size 0]"
proof -
  obtain P where P: "new_pool 4096 1024 40 = Inr P"
    by (auto simp: new_pool_def make_new_block_def Let_def)
  have "0 < (40 :: nat)" "length (replicate 7 (4096 :: nat)) = 7" by simp_all
  from func_output [OF P this, of 4096 4096] P show ?thesis by blast
qed

end
