(* ===== verification/Example_Timer.thy ===== *)
theory Example_Timer
  imports Object_Pool Event_Dispatch
begin

text \<open>
  The program under example/timer: a \<open>TimerManager\<close> owns an event loop and a pool of handles, and has the
  loop call it every tenth of a millisecond until the timer is removed.
\<close>

section \<open>The manager\<close>

text \<open>\<open>last_time\<close> is the static variable of \<open>handler_timeout\<close>, \<open>timeouts\<close> what it has logged.\<close>

record timer_manager =
  tm_events :: event_manager
  tm_pool :: pool
  tm_timer :: int
  last_time :: int
  timeouts :: "(int \<times> int) list"

definition handler_timeout :: "int \<Rightarrow> timer_manager \<Rightarrow> timer_manager" where
  "handler_timeout now s = s\<lparr>timeouts := timeouts s @ [(now, now - last_time s)], last_time := now\<rparr>"

definition remove_timer :: "timer_manager \<Rightarrow> timer_manager" where
  "remove_timer s = s\<lparr>tm_events := snd (remove_handle (tm_timer s) (tm_events s))\<rparr>"

text \<open>
  \<open>m\<close> is the memory \<open>malloc\<close> would give, \<open>ret\<close>, \<open>errno\<close> and \<open>settime\<close> what \<open>timerfd_create\<close> and
  \<open>timerfd_settime\<close> return, \<open>thr\<close> the id of the loop's thread.
\<close>

definition timer_start :: "nat \<Rightarrow> int \<Rightarrow> int \<Rightarrow> int \<Rightarrow> int \<Rightarrow> nat \<Rightarrow> timer_manager \<Rightarrow> fault + timer_manager" where
  "timer_start m now ret errno settime thr s =
     bind_res (pool_pop m (tm_pool s)) (\<lambda>(h, P).
     let (_, _, e) = bind_timer 0 (now + 2 * 1000000) 100 ''timeout_handle'' ret errno settime new_handle;
         put = (\<lambda>e. (tm_events s)\<lparr>handles := (handles (tm_events s))(h \<mapsto> e)\<rparr>) in
     bind_res
       (if 0 < h_fd e then
          bind_res (add_handle h (put (set_recycle_func 0 e))) (\<lambda>(_, w). Inr (s\<lparr>tm_timer := h_fd e, tm_events := w\<rparr>))
        else Inr (s\<lparr>tm_events := put e\<rparr>))
       (\<lambda>s. Inr (s\<lparr>tm_pool := P, tm_events := start_loop thr 0 (tm_events s)\<rparr>)))"

text \<open>Handles that were recycled go back to the pool.\<close>

definition put_events :: "event_manager \<Rightarrow> timer_manager \<Rightarrow> timer_manager" where
  "put_events w s = s\<lparr>tm_events := w\<lparr>recycled := []\<rparr>, tm_pool := fold pool_push (recycled w) (tm_pool s)\<rparr>"

definition timer_stop :: "timer_manager \<Rightarrow> fault + timer_manager" where
  "timer_stop s = bind_res (stop_loop (tm_events s)) (\<lambda>w. Inr (put_events w s))"

text \<open>The loop's thread: what was posted, and one report of the timer by \<open>epoll_wait\<close>.\<close>

definition timer_posted :: "nat \<Rightarrow> (int \<Rightarrow> bool) \<Rightarrow> timer_manager \<Rightarrow> fault + timer_manager" where
  "timer_posted me accepts s = bind_res (loop_func me accepts (tm_events s)) (\<lambda>w. Inr (put_events w s))"

definition timer_tick :: "nat \<Rightarrow> int \<Rightarrow> timer_manager \<Rightarrow> fault + timer_manager" where
  "timer_tick p now s =
     bind_res (loop_io (Ready [(p, EPOLLIN)]) now (tm_events s)) (\<lambda>(cs, w).
     let s = s\<lparr>tm_events := w\<rparr> in
     Inr (case cs of [Timer_Call _ t] \<Rightarrow> handler_timeout t s | _ \<Rightarrow> s))"

text \<open>
  The destructors: the members go in the reverse order of their declaration, the pool's memory before the
  event loop, whose destructor stops it once more.
\<close>

definition destroy_event_manager :: "event_manager \<Rightarrow> fault + event_manager" where
  "destroy_event_manager w = stop_loop w"

definition timer_destroy :: "timer_manager \<Rightarrow> fault + timer_manager" where
  "timer_destroy s =
     (let s = s\<lparr>tm_pool := snd (free_all (tm_pool s)), tm_events := (tm_events s)\<lparr>handles := Map.empty\<rparr>\<rparr> in
      bind_res (destroy_event_manager (tm_events s)) (\<lambda>w. Inr (s\<lparr>tm_events := w\<rparr>)))"

definition new_timer_manager :: "pool \<Rightarrow> timer_manager" where
  "new_timer_manager P = \<lparr>tm_events = new_event_manager, tm_pool = P, tm_timer = 0, last_time = 0, timeouts = []\<rparr>"

section \<open>Its life\<close>

text \<open>The timer is registered in a loop run by thread \<open>me\<close>.\<close>

definition ticking :: "nat \<Rightarrow> nat \<Rightarrow> int \<Rightarrow> timer_manager \<Rightarrow> bool" where
  "ticking me p n s \<longleftrightarrow> (let w = tm_events s in
     em_tid w = me \<and> handler_map w = [n \<mapsto> p] \<and> dom (interest w) = {n} \<and> loop_functions_read w = [] \<and>
     loop_functions_write w = [] \<and> 0 < events_size w \<and> \<not> em_quit w \<and> recycled w = [] \<and> tm_timer s = n \<and> 0 < n \<and>
     (\<exists>e. handles w p = Some e \<and> recycle_func e \<noteq> None \<and> (\<forall>now fl. run_func now fl e = Inr (Timer_Call 0 now))))"

fun intervals :: "int \<Rightarrow> int list \<Rightarrow> (int \<times> int) list" where
  "intervals t0 [] = []"
| "intervals t0 (t # ts) = (t, t - t0) # intervals t ts"

lemma ticking_tick:
  assumes "ticking me p n s"
  shows "\<exists>s'. timer_tick p now s = Inr s' \<and> ticking me p n s' \<and> timeouts s' = timeouts s @ [(now, now - last_time s)]
    \<and> last_time s' = now \<and> tm_pool s' = tm_pool s"
proof -
  let ?w = "tm_events s"
  obtain e where e: "handles ?w p = Some e" "\<And>now fl. run_func now fl e = Inr (Timer_Call 0 now)"
    using assms by (auto simp: ticking_def Let_def)
  have w: "0 < events_size ?w" "\<not> em_quit ?w" using assms by (simp_all add: ticking_def Let_def)
  obtain k where k: "0 < k" "loop_io (Ready [(p, EPOLLIN)]) now ?w = Inr ([Timer_Call 0 now], ?w\<lparr>events_size := k\<rparr>)"
  proof (cases "events_size ?w = 1")
    case True
    then show thesis using e w by (intro that [of 2]) (simp_all add: loop_io_def)
  next
    case False
    have same: "?w\<lparr>events_size := events_size ?w\<rparr> = ?w" by simp
    have "loop_io (Ready [(p, EPOLLIN)]) now ?w = Inr ([Timer_Call 0 now], ?w\<lparr>events_size := events_size ?w\<rparr>)"
      unfolding same using False e w by (simp add: loop_io_def check_def)
    then show thesis using w(1) that by blast
  qed
  then show ?thesis using assms by (simp add: timer_tick_def handler_timeout_def ticking_def Let_def)
qed

lemma ticking_ticks:
  "ticking me p n s \<Longrightarrow> \<exists>s'. each (timer_tick p) ts s = Inr s' \<and> ticking me p n s'
    \<and> timeouts s' = timeouts s @ intervals (last_time s) ts \<and> tm_pool s' = tm_pool s"
proof (induction ts arbitrary: s)
  case (Cons t ts)
  obtain s1 where s1: "timer_tick p t s = Inr s1" "ticking me p n s1" "timeouts s1 = timeouts s @ [(t, t - last_time s)]"
      "last_time s1 = t" "tm_pool s1 = tm_pool s"
    using ticking_tick [OF Cons.prems] by blast
  then show ?case using Cons.IH [OF s1(2)] by auto
qed simp

lemma timer_starts:
  assumes P: "pool_ok P" "live P = {}" "malloc_ok m P" and ret: "0 < ret"
  obtains h s1 s2 where "timer_start m now ret errno settime thr (new_timer_manager P) = Inr s1"
    "timer_posted me (\<lambda>_. True) (s1\<lparr>tm_events := loop_enter me (tm_events s1)\<rparr>) = Inr s2" "ticking me h ret s2"
    "timeouts s2 = []" "last_time s2 = 0" "pool_ok (tm_pool s2)" "live (tm_pool s2) = {h}"
proof -
  obtain h Q where h: "pool_pop m P = Inr (h, Q)" "pool_ok Q" "live Q = {h}"
    using pool_pop_ok [OF P(1,3)] P(2) by auto
  let ?e = "set_recycle_func 0 (snd (snd (bind_timer 0 (now + 2 * 1000000) 100 ''timeout_handle'' ret errno settime new_handle)))"
  have e: "h_fd ?e = ret" "recycle_func ?e = Some 0" "\<And>now fl. run_func now fl ?e = Inr (Timer_Call 0 now)"
    using ret by (simp_all add: bind_timer_def create_timerfd_def set_recycle_func_def run_func_def IO_EVENT_def
        TIMER_EVENT_def split_beta)
  define w where "w = new_event_manager\<lparr>handles := [h \<mapsto> ?e], loop_functions_write := [Do_Add h]\<rparr>"
  define s1 where "s1 = (new_timer_manager P)\<lparr>tm_timer := ret, tm_events := start_loop thr 0 w, tm_pool := Q\<rparr>"
  have new: "\<not> em_quit new_event_manager" "handles new_event_manager = Map.empty" "loop_functions_write new_event_manager = []"
    by (simp_all add: new_event_manager_def)
  have start: "timer_start m now ret errno settime thr (new_timer_manager P) = Inr s1"
    using h(1) ret e(1) new
    by (simp add: timer_start_def new_timer_manager_def add_handle_def run_in_handle_loop_def s1_def w_def split_beta Let_def
        set_recycle_func_def)
  let ?v = "loop_enter me (start_loop thr 0 w)"
  have v: "loop_functions_write ?v = [Do_Add h]" "loop_functions_read ?v = []" "handler_map ?v = Map.empty" "interest ?v = Map.empty"
      "handles ?v = [h \<mapsto> ?e]" "em_tid ?v = me" "recycled ?v = []" "0 < events_size ?v" "\<not> em_quit ?v"
    by (simp_all add: start_loop_def loop_enter_def w_def new_event_manager_def MAX_EVENT_def Let_def split_beta)
  let ?u = "?v\<lparr>loop_functions_write := [], loop_functions_read := [], handler_map := [ret \<mapsto> h],
      interest := [ret \<mapsto> (h, event_flags ?e)]\<rparr>"
  have loop: "loop_func me (\<lambda>_. True) ?v = Inr ?u"
    using v e(1) by (simp add: loop_func_def splice_calls_def do_add_handle_def assert_in_thread_def ctl_add_def Let_def)
  let ?s2 = "put_events ?u (s1\<lparr>tm_events := ?v\<rparr>)"
  have s1: "tm_events s1 = start_loop thr 0 w" "tm_timer s1 = ret" "tm_pool s1 = Q" "timeouts s1 = []" "last_time s1 = 0"
    by (simp_all add: s1_def new_timer_manager_def)
  have "ticking me h ret ?s2"
    using v e ret by (simp add: ticking_def put_events_def Let_def s1)
  then show thesis
    using start loop v(7) h(2,3) s1
    by (intro that [of s1 ?s2 h]) (simp_all add: timer_posted_def put_events_def)
qed

lemma removed_timer:
  assumes t: "ticking me h n s" and P: "pool_ok (tm_pool s)" "live (tm_pool s) = {h}"
  obtains s' where "timer_posted me accepts (remove_timer s) = Inr s'" "handler_map (tm_events s') = Map.empty"
    "interest (tm_events s') = Map.empty" "pool_ok (tm_pool s')" "live (tm_pool s') = {}" "timeouts s' = timeouts s"
proof -
  let ?w = "tm_events s"
  obtain e where e: "handles ?w h = Some e" "recycle_func e \<noteq> None" using t by (auto simp: ticking_def Let_def)
  have w: "em_tid ?w = me" "handler_map ?w = [n \<mapsto> h]" "dom (interest ?w) = {n}" "loop_functions_read ?w = []"
      "loop_functions_write ?w = []" "\<not> em_quit ?w" "recycled ?w = []" "tm_timer s = n" "0 < n"
    using t by (simp_all add: ticking_def Let_def)
  obtain x where x: "interest ?w n = Some x" using w(3) by blast
  have i: "(interest ?w)(n := None) = Map.empty" using w(3) by (metis dom_eq_empty_conv dom_fun_upd Diff_cancel)
  let ?v = "?w\<lparr>loop_functions_write := [], loop_functions_read := [], handler_map := Map.empty, interest := Map.empty,
      recycled := [h], handles := (handles ?w)(h := None)\<rparr>"
  have rem: "tm_events (remove_timer s) = ?w\<lparr>loop_functions_write := [Do_Remove n]\<rparr>"
    using w by (simp add: remove_timer_def remove_handle_def run_in_handle_loop_def)
  have "loop_func me accepts (tm_events (remove_timer s)) = Inr ?v"
    unfolding rem using w e x i
    by (auto simp: loop_func_def splice_calls_def do_remove_handle_def assert_in_thread_def ctl_del_def recycle_def
        recycle_self_def Let_def)
  moreover have "pool_ok (pool_push h (tm_pool s)) \<and> live (pool_push h (tm_pool s)) = {}"
    using pool_push_ok [OF P(1), of h] P(2) by simp
  moreover have "tm_pool (remove_timer s) = tm_pool s" "timeouts (remove_timer s) = timeouts s"
    by (simp_all add: remove_timer_def)
  ultimately show thesis
    by (intro that [of "put_events ?v (remove_timer s)"]) (simp_all add: timer_posted_def put_events_def)
qed

lemma stop_empty_loop:
  assumes "handler_map w = Map.empty"
  shows "\<exists>v. stop_loop w = Inr v \<and> handler_map v = Map.empty \<and> recycled v = recycled w"
  using assms by (simp add: stop_loop_def ready_quit_def)

section \<open>Properties\<close>

text \<open>
  C28: The program from its start to its end: the timer is registered, every report of the kernel is logged with the
  time since the one before, removing the timer empties the table and the kernel's list and gives the handle
  back to the pool, and the manager can be stopped and deleted.
\<close>

theorem timer_example_life:
  assumes "pool_ok P" and "live P = {}" and "malloc_ok m P" and "0 < ret"
  shows "\<exists>h s1 s2 s3 s4 s5 s6. timer_start m now ret errno settime thr (new_timer_manager P) = Inr s1
    \<and> timer_posted me (\<lambda>_. True) (s1\<lparr>tm_events := loop_enter me (tm_events s1)\<rparr>) = Inr s2
    \<and> each (timer_tick h) ts s2 = Inr s3 \<and> timeouts s3 = intervals 0 ts
    \<and> timer_posted me (\<lambda>_. True) (remove_timer s3) = Inr s4 \<and> interest (tm_events s4) = Map.empty \<and> live (tm_pool s4) = {}
    \<and> timeouts s4 = timeouts s3 \<and> timer_stop s4 = Inr s5 \<and> timer_destroy s5 = Inr s6"
proof -
  obtain h s1 s2 where s2: "timer_start m now ret errno settime thr (new_timer_manager P) = Inr s1"
    "timer_posted me (\<lambda>_. True) (s1\<lparr>tm_events := loop_enter me (tm_events s1)\<rparr>) = Inr s2" "ticking me h ret s2"
    "timeouts s2 = []" "last_time s2 = 0" "pool_ok (tm_pool s2)" "live (tm_pool s2) = {h}"
    by (rule timer_starts [OF assms])
  obtain s3 where s3: "each (timer_tick h) ts s2 = Inr s3" "ticking me h ret s3" "timeouts s3 = intervals 0 ts" "tm_pool s3 = tm_pool s2"
    using ticking_ticks [OF s2(3), of ts] s2(4,5) by auto
  have P3: "pool_ok (tm_pool s3)" "live (tm_pool s3) = {h}" using s2(6,7) s3(4) by simp_all
  obtain s4 where s4: "timer_posted me (\<lambda>_. True) (remove_timer s3) = Inr s4" "handler_map (tm_events s4) = Map.empty"
    "interest (tm_events s4) = Map.empty" "pool_ok (tm_pool s4)" "live (tm_pool s4) = {}" "timeouts s4 = timeouts s3"
    by (rule removed_timer [OF s3(2) P3])
  obtain w where w: "stop_loop (tm_events s4) = Inr w" "handler_map w = Map.empty" using stop_empty_loop [OF s4(2)] by blast
  have stop: "timer_stop s4 = Inr (put_events w s4)" using w(1) by (simp add: timer_stop_def)
  obtain s6 where "timer_destroy (put_events w s4) = Inr s6"
    using w(2) stop_empty_loop [of "w\<lparr>recycled := [], handles := Map.empty\<rparr>"]
    by (auto simp: timer_destroy_def put_events_def destroy_event_manager_def Let_def)
  then show ?thesis using s2(1,2) s3(1,3) s4(1,3,5,6) stop by blast
qed

theorem timer_example_life_witness:
  "\<exists>h s1 s2 s3. timer_start 5000 1700000000000000 9 0 0 7 (new_timer_manager sample_pool) = Inr s1
    \<and> timer_posted 7 (\<lambda>_. True) (s1\<lparr>tm_events := loop_enter 7 (tm_events s1)\<rparr>) = Inr s2
    \<and> each (timer_tick h) [1700000002000000, 1700000002000100] s2 = Inr s3
    \<and> timeouts s3 = [(1700000002000000, 1700000002000000), (1700000002000100, 100)]"
proof -
  have P: "pool_ok sample_pool" "live sample_pool = {}" "malloc_ok 5000 sample_pool"
    using sample_pool_ok sample_pool_live by (simp_all add: malloc_ok_def sample_pool_def apart_def)
  have "(0 :: int) < 9" by simp
  from timer_example_life [OF P this, of 1700000000000000 0 0 7 7 "[1700000002000000, 1700000002000100]"]
  show ?thesis unfolding intervals.simps by (simp, blast)
qed

text \<open>
  Deleted while the timer is still registered, the manager uses freed memory: the pool, declared last, is gone
  before the loop's destructor recycles the handle.
\<close>

theorem timer_destroyed_while_ticking:
  assumes "ticking me h n s"
  shows "timer_destroy s = Inl Use_After_Free"
proof -
  have w: "handler_map (tm_events s) = [n \<mapsto> h]" "dom (interest (tm_events s)) = {n}"
    using assms by (simp_all add: ticking_def Let_def)
  show ?thesis
    using w by (auto simp: timer_destroy_def destroy_event_manager_def stop_loop_def ready_quit_def ctl_del_def recycle_def
        Let_def split: option.split)
qed

theorem timer_destroyed_while_ticking_witness:
  "\<exists>s. ticking 7 100 9 s \<and> timer_destroy s = Inl Use_After_Free"
proof -
  have P: "pool_ok sample_pool" "live sample_pool = {}" "malloc_ok 5000 sample_pool"
    using sample_pool_ok sample_pool_live by (simp_all add: malloc_ok_def sample_pool_def apart_def)
  let ?e = "set_recycle_func 0 (snd (snd (bind_timer 0 0 100 ''timeout_handle'' 9 0 0 new_handle)))"
  let ?s = "(new_timer_manager sample_pool)\<lparr>tm_timer := 9, tm_events := new_event_manager\<lparr>em_tid := 7, handles := [100 \<mapsto> ?e],
      handler_map := [9 \<mapsto> 100], interest := [9 \<mapsto> (100, EPOLLIN)]\<rparr>\<rparr>"
  have "ticking 7 100 9 ?s"
    by (simp add: ticking_def new_event_manager_def MAX_EVENT_def bind_timer_def create_timerfd_def set_recycle_func_def
        run_func_def IO_EVENT_def TIMER_EVENT_def Let_def)
  from timer_destroyed_while_ticking [OF this] this show ?thesis by blast
qed

end
