(* ===== verification/Example_Threads.thy ===== *)
theory Example_Threads
  imports Thread_Pool "HOL-Library.Sublist"
begin

text \<open>
  The program under example/thread: a \<open>ThreadManager\<close> has one thread that gives tasks to a pool of one worker,
  until the main thread stops both.
\<close>

section \<open>The manager\<close>

text \<open>
  The producer tests \<open>runing_\<close>, has queued a task and not yet notified, sleeps, or has left its loop; the main
  thread has called \<open>stop\<close> and waits for the producer, then for the pool.
\<close>

datatype producer = Looping | Queued | Resting | Ended

datatype main_phase = Working | Joining_Producer | Joining_Pool | Over

text \<open>Tasks are numbered in the order they are made; \<open>inline\<close> are those \<open>accept_task\<close> has run itself.\<close>

record thread_manager =
  runing :: bool
  tpool :: "nat thread_pool"
  gen :: producer
  made :: nat
  inline :: "nat list"
  main_phase :: main_phase

definition new_thread_manager :: thread_manager where
  "new_thread_manager = \<lparr>runing = False, tpool = new_thread_pool, gen = Ended, made = 0, inline = [], main_phase = Working\<rparr>"

definition manager_start :: "thread_manager \<Rightarrow> thread_manager" where
  "manager_start s = s\<lparr>runing := True, tpool := tp_start 1 (tpool s), gen := Looping\<rparr>"

definition gen_task :: "thread_manager \<Rightarrow> thread_manager option" where
  "gen_task s =
     (case gen s of
        Looping \<Rightarrow>
          if runing s then
            let (now, p) = accept_task (made s) (tpool s) in
            Some (s\<lparr>tpool := p, made := made s + 1, inline := inline s @ now, gen := if now = [] then Queued else Resting\<rparr>)
          else Some (s\<lparr>gen := Ended\<rparr>)
      | Queued \<Rightarrow> Some (s\<lparr>tpool := accept_notify (tpool s), gen := Resting\<rparr>)
      | Resting \<Rightarrow> Some (s\<lparr>gen := Looping\<rparr>)
      | Ended \<Rightarrow> None)"

text \<open>\<open>stop\<close>: the flag, the join of the producer followed by the pool's request to stop, the join of its worker.\<close>

definition manager_stop :: "thread_manager \<Rightarrow> thread_manager option" where
  "manager_stop s =
     (case main_phase s of
        Working \<Rightarrow> Some (s\<lparr>runing := False, main_phase := Joining_Producer\<rparr>)
      | Joining_Producer \<Rightarrow>
          if gen s = Ended then Some (s\<lparr>tpool := tp_stop_request (tpool s), main_phase := Joining_Pool\<rparr>) else None
      | Joining_Pool \<Rightarrow> map_option (\<lambda>p. s\<lparr>tpool := p, main_phase := Over\<rparr>) (tp_stop_join (tpool s))
      | Over \<Rightarrow> None)"

text \<open>The worker; its task sleeps and logs, so it returns.\<close>

inductive manager_step :: "thread_manager \<Rightarrow> thread_manager \<Rightarrow> bool" where
  ms_gen: "gen_task s = Some s' \<Longrightarrow> manager_step s s'"
| ms_stop: "manager_stop s = Some s' \<Longrightarrow> manager_step s s'"
| ms_worker: "can_step i (tpool s) \<Longrightarrow> worker_step i Returns (tpool s) = Inr p \<Longrightarrow> manager_step s (s\<lparr>tpool := p\<rparr>)"
| ms_spurious: "i < length (workers (tpool s)) \<Longrightarrow> workers (tpool s) ! i = Sleeping \<Longrightarrow>
    manager_step s (s\<lparr>tpool := (tpool s)\<lparr>workers := (workers (tpool s))[i := Notified]\<rparr>\<rparr>)"

abbreviation manager_run :: "thread_manager \<Rightarrow> thread_manager \<Rightarrow> bool" where
  "manager_run \<equiv> manager_step\<^sup>*\<^sup>*"

section \<open>The invariant\<close>

definition manager_inv :: "thread_manager \<Rightarrow> bool" where
  "manager_inv s \<longleftrightarrow> (let p = tpool s in
     pool_inv p \<and> inline s = [] \<and> in_flight p = (if gen s = Queued then 1 else 0) \<and>
     (case main_phase s of
        Over \<Rightarrow> workers p = [] \<and> gen s = Ended \<and> \<not> runing s \<and> prefix (taken p) [0 ..< made s]
      | Joining_Pool \<Rightarrow> \<not> tp_running p \<and> gen s = Ended \<and> \<not> runing s \<and> task_list p = [] \<and> prefix (taken p) [0 ..< made s]
      | ph \<Rightarrow> workers p \<noteq> [] \<and> tp_running p \<and> (runing s \<longleftrightarrow> ph = Working) \<and> taken p @ task_list p = [0 ..< made s]))"

lemma worker_pool_same:
  assumes "worker_step i Returns p = Inr p'"
  shows "in_flight p' = in_flight p" "tp_running p' = tp_running p" "length (workers p') = length (workers p)"
    "taken p' @ task_list p' = taken p @ task_list p" "task_list p = [] \<Longrightarrow> task_list p' = [] \<and> taken p' = taken p"
  using assms require_task_fifo [of i p]
  by (auto simp: worker_step_def require_task_def split: pool_worker.splits option.splits list.splits if_splits)

lemma started_inv: "manager_inv (manager_start new_thread_manager)"
  by (simp add: manager_inv_def manager_start_def new_thread_manager_def tp_start_def new_thread_pool_def pool_inv_def)

lemma manager_step_inv:
  assumes "manager_step s s'" and inv: "manager_inv s"
  shows "manager_inv s'"
  using assms(1)
proof cases
  case ms_gen
  show ?thesis
  proof (cases "gen s")
    case Looping
    show ?thesis
    proof (cases "runing s")
      case True
      then have w: "main_phase s = Working" "workers (tpool s) \<noteq> []"
        using inv by (cases "main_phase s"; simp add: manager_inv_def Let_def)+
      then have "s' = s\<lparr>tpool := (tp_put (made s) (tpool s))\<lparr>in_flight := in_flight (tpool s) + 1\<rparr>, made := made s + 1,
          inline := inline s @ [], gen := Queued\<rparr>"
        using ms_gen Looping True by (simp add: gen_task_def accept_task_def)
      moreover have "taken (tpool s) @ task_list (tpool s) = [0 ..< made s]" "in_flight (tpool s) = 0" "inline s = []"
          "tp_running (tpool s)"
        using inv w(1) Looping by (simp_all add: manager_inv_def Let_def)
      ultimately show ?thesis using w True by (simp add: manager_inv_def tp_put_def pool_inv_def Let_def)
    next
      case False
      then have "s' = s\<lparr>gen := Ended\<rparr>" using ms_gen Looping by (simp add: gen_task_def)
      then show ?thesis using inv Looping by (cases "main_phase s") (simp_all add: manager_inv_def Let_def)
    qed
  next
    case Queued
    then have "s' = s\<lparr>tpool := accept_notify (tpool s), gen := Resting\<rparr>" using ms_gen by (simp add: gen_task_def)
    then show ?thesis
      using inv Queued
      by (cases "main_phase s") (simp_all add: manager_inv_def accept_notify_def notify_all_def pool_inv_def Let_def)
  next
    case Resting
    then have "s' = s\<lparr>gen := Looping\<rparr>" using ms_gen by (simp add: gen_task_def)
    then show ?thesis using inv Resting by (cases "main_phase s") (simp_all add: manager_inv_def Let_def)
  qed (use ms_gen in \<open>simp add: gen_task_def\<close>)
next
  case ms_stop
  show ?thesis
  proof (cases "main_phase s")
    case Working
    then have "s' = s\<lparr>runing := False, main_phase := Joining_Producer\<rparr>" using ms_stop by (simp add: manager_stop_def)
    then show ?thesis using inv Working by (simp add: manager_inv_def Let_def)
  next
    case Joining_Producer
    then have s': "gen s = Ended" "s' = s\<lparr>tpool := tp_stop_request (tpool s), main_phase := Joining_Pool\<rparr>"
      using ms_stop by (simp_all add: manager_stop_def split: if_splits)
    have t: "taken (tpool s) @ task_list (tpool s) = [0 ..< made s]"
      using inv Joining_Producer by (simp add: manager_inv_def Let_def)
    have "prefix (taken (tpool s)) [0 ..< made s]" unfolding t [symmetric] by simp
    then show ?thesis
      using inv s' Joining_Producer
      by (simp add: manager_inv_def tp_stop_request_def notify_all_def pool_inv_def Let_def)
  next
    case Joining_Pool
    then obtain p where "tp_stop_join (tpool s) = Some p" "s' = s\<lparr>tpool := p, main_phase := Over\<rparr>"
      using ms_stop by (auto simp: manager_stop_def)
    then have "s' = s\<lparr>tpool := (tpool s)\<lparr>workers := []\<rparr>, main_phase := Over\<rparr>"
      by (simp add: tp_stop_join_def split: if_splits)
    then show ?thesis using inv Joining_Pool by (simp add: manager_inv_def pool_inv_def Let_def)
  qed (use ms_stop in \<open>simp add: manager_stop_def\<close>)
next
  case (ms_worker i p)
  note same = worker_pool_same [OF ms_worker(3)]
  have "pool_inv p" using worker_step_inv [OF _ ms_worker(3)] inv by (simp add: manager_inv_def Let_def)
  moreover have "workers p = [] \<longleftrightarrow> workers (tpool s) = []" using same(3) by (metis length_0_conv)
  moreover have "main_phase s = Over \<Longrightarrow> False"
    using ms_worker(2) inv by (simp add: manager_inv_def can_step_def Let_def)
  ultimately show ?thesis
    using inv same ms_worker(1) by (cases "main_phase s") (simp_all add: manager_inv_def Let_def)
next
  case (ms_spurious i)
  have "pool_inv ((tpool s)\<lparr>workers := (workers (tpool s))[i := Notified]\<rparr>)"
    using inv by (auto simp: manager_inv_def pool_inv_def Let_def dest!: in_update)
  then show ?thesis using inv ms_spurious by (cases "main_phase s") (simp_all add: manager_inv_def Let_def)
qed

lemma manager_run_inv: "manager_run s s' \<Longrightarrow> manager_inv s \<Longrightarrow> manager_inv s'"
  by (induction rule: rtranclp_induct) (auto dest: manager_step_inv)

section \<open>Stopping\<close>

lemma pool_stops:
  assumes "manager_inv s" and "main_phase s = Joining_Pool"
  shows "\<exists>s'. manager_run s s' \<and> main_phase s' = Over"
  using assms
proof (induction "total_rank (tpool s)" arbitrary: s rule: less_induct)
  case less
  have p: "\<not> tp_running (tpool s)" "pool_inv (tpool s)" using less.prems by (simp_all add: manager_inv_def Let_def)
  show ?case
  proof (cases "\<forall>w \<in> set (workers (tpool s)). w = Finished")
    case True
    then have "manager_stop s = Some (s\<lparr>tpool := (tpool s)\<lparr>workers := []\<rparr>, main_phase := Over\<rparr>)"
      using less.prems(2) by (simp add: manager_stop_def tp_stop_join_def)
    then have "manager_run s (s\<lparr>tpool := (tpool s)\<lparr>workers := []\<rparr>, main_phase := Over\<rparr>)"
      by (intro r_into_rtranclp ms_stop)
    then show ?thesis by (intro exI conjI) (assumption, simp)
  next
    case False
    then obtain i where i: "i < length (workers (tpool s))" "workers (tpool s) ! i \<noteq> Finished" by (metis in_set_conv_nth)
    have "workers (tpool s) ! i \<noteq> Sleeping" using p i(1) by (metis nth_mem pool_inv_def)
    then have can: "can_step i (tpool s)" using i by (simp add: can_step_def)
    have "\<exists>q. worker_step i Returns (tpool s) = Inr q"
      by (cases "workers (tpool s) ! i") (auto simp: worker_step_def split: option.split)
    then obtain q where q: "worker_step i Returns (tpool s) = Inr q" by blast
    have step: "manager_step s (s\<lparr>tpool := q\<rparr>)" by (rule ms_worker [OF can q])
    have "total_rank (tpool (s\<lparr>tpool := q\<rparr>)) < total_rank (tpool s)" using worker_step_rank [OF p(1) can q] by simp
    moreover have "manager_inv (s\<lparr>tpool := q\<rparr>)" by (rule manager_step_inv [OF step less.prems(1)])
    moreover have "main_phase (s\<lparr>tpool := q\<rparr>) = Joining_Pool" using less.prems(2) by simp
    ultimately obtain s' where "manager_run (s\<lparr>tpool := q\<rparr>) s'" "main_phase s' = Over" using less.hyps by blast
    then show ?thesis using step by (meson converse_rtranclp_into_rtranclp)
  qed
qed

lemma ended_producer_stops:
  assumes "manager_inv s" and "main_phase s = Joining_Producer" and "gen s = Ended"
  shows "\<exists>s'. manager_run s s' \<and> main_phase s' = Over"
proof -
  let ?t = "s\<lparr>tpool := tp_stop_request (tpool s), main_phase := Joining_Pool\<rparr>"
  have step: "manager_step s ?t" using assms(2,3) by (intro ms_stop) (simp add: manager_stop_def)
  have "main_phase ?t = Joining_Pool" by simp
  then obtain s' where "manager_run ?t s'" "main_phase s' = Over" using pool_stops manager_step_inv [OF step assms(1)] by blast
  then show ?thesis using step by (meson converse_rtranclp_into_rtranclp)
qed

lemma producer_stops:
  assumes "manager_inv s" and "main_phase s = Joining_Producer"
  shows "\<exists>s'. manager_run s s' \<and> main_phase s' = Over"
proof -
  have step: "\<exists>s'. manager_run s s' \<and> main_phase s' = Over"
    if "manager_inv s" "main_phase s = Joining_Producer" "gen_task s = Some t" "main_phase t = Joining_Producer"
      "manager_inv t \<Longrightarrow> \<exists>s'. manager_run t s' \<and> main_phase s' = Over" for s t
    using that manager_step_inv [OF ms_gen [OF that(3)] that(1)] by (meson converse_rtranclp_into_rtranclp ms_gen)
  have off: "\<not> runing s" if "manager_inv s" "main_phase s = Joining_Producer" for s
    using that by (simp add: manager_inv_def Let_def)
  have looping: "\<exists>s'. manager_run s s' \<and> main_phase s' = Over"
    if "manager_inv s" "main_phase s = Joining_Producer" "gen s = Looping" for s
    by (rule step [OF that(1,2), of "s\<lparr>gen := Ended\<rparr>"])
      (use that off [OF that(1,2)] ended_producer_stops in \<open>simp_all add: gen_task_def\<close>)
  have resting: "\<exists>s'. manager_run s s' \<and> main_phase s' = Over"
    if "manager_inv s" "main_phase s = Joining_Producer" "gen s = Resting" for s
    by (rule step [OF that(1,2), of "s\<lparr>gen := Looping\<rparr>"]) (use that looping in \<open>simp_all add: gen_task_def\<close>)
  show ?thesis
  proof (cases "gen s")
    case Queued
    show ?thesis
      by (rule step [OF assms, of "s\<lparr>tpool := accept_notify (tpool s), gen := Resting\<rparr>"])
        (use Queued resting assms(2) in \<open>simp_all add: gen_task_def\<close>)
  qed (use assms looping resting ended_producer_stops in blast)+
qed

section \<open>Properties\<close>

text \<open>
  Whatever the three threads do, the worker gets the tasks in the order they were made, each once; while the
  manager works none is lost and none is run by the producer, and what \<open>stop\<close> drops is the end of the list.
\<close>

theorem tasks_in_order:
  assumes "manager_run (manager_start new_thread_manager) s"
  shows "prefix (taken (tpool s)) [0 ..< made s] \<and> inline s = []
    \<and> (main_phase s = Working \<longrightarrow> taken (tpool s) @ task_list (tpool s) = [0 ..< made s])"
proof -
  have inv: "manager_inv s" by (rule manager_run_inv [OF assms started_inv])
  have "prefix (taken (tpool s)) [0 ..< made s]"
    using inv by (cases "main_phase s") (auto simp: manager_inv_def Let_def prefix_def intro: sym)
  then show ?thesis using inv by (cases "main_phase s") (simp_all add: manager_inv_def Let_def)
qed

text \<open>
  \<open>stop\<close> can always return: once it has been called, in every state the threads reach, the steps that are left
  to the producer, the worker and the caller lead to its end, with no thread left.
\<close>

theorem stop_returns:
  assumes "manager_run (manager_start new_thread_manager) s" and "main_phase s \<noteq> Working"
  shows "\<exists>s'. manager_run s s' \<and> main_phase s' = Over \<and> workers (tpool s') = [] \<and> gen s' = Ended"
proof -
  have inv: "manager_inv s" by (rule manager_run_inv [OF assms(1) started_inv])
  have "\<exists>s'. manager_run s s' \<and> main_phase s' = Over"
    using inv assms(2) producer_stops pool_stops by (cases "main_phase s") auto
  then obtain s' where s': "manager_run s s'" "main_phase s' = Over" by blast
  have "manager_inv s'" by (rule manager_run_inv [OF s'(1) inv])
  then show ?thesis using s' by (auto simp: manager_inv_def Let_def)
qed

lemma sample_manager_steps:
  obtains s where "manager_run (manager_start new_thread_manager) s" "main_phase s = Joining_Producer" "made s = 1"
proof -
  let ?s0 = "manager_start new_thread_manager"
  obtain s1 where s1: "gen_task ?s0 = Some s1" "made s1 = 1" "main_phase s1 = Working"
    by (simp add: gen_task_def manager_start_def new_thread_manager_def accept_task_def tp_start_def new_thread_pool_def)
  then have "manager_stop s1 = Some (s1\<lparr>runing := False, main_phase := Joining_Producer\<rparr>)"
    by (simp add: manager_stop_def)
  then have "manager_run ?s0 (s1\<lparr>runing := False, main_phase := Joining_Producer\<rparr>)"
    by (meson ms_gen [OF s1(1)] ms_stop r_into_rtranclp rtranclp.rtrancl_into_rtrancl)
  then show thesis using that s1(2) by simp
qed

theorem tasks_in_order_witness: "\<exists>s :: thread_manager. main_phase s = Joining_Producer \<and> made s = 1 \<and> prefix (taken (tpool s)) [0]"
proof -
  obtain s where s: "manager_run (manager_start new_thread_manager) s" "main_phase s = Joining_Producer" "made s = 1"
    by (rule sample_manager_steps)
  have "prefix (taken (tpool s)) [0 ..< made s]" using tasks_in_order [OF s(1)] by blast
  moreover have "[0 ..< made s] = [0]" by (simp add: s(3))
  ultimately have "prefix (taken (tpool s)) [0]" by simp
  then show ?thesis using s(2,3) by blast
qed

theorem stop_returns_witness: "\<exists>s s'. made s = 1 \<and> manager_run s s' \<and> main_phase s' = Over"
proof -
  obtain s where s: "manager_run (manager_start new_thread_manager) s" "main_phase s = Joining_Producer" "made s = 1"
    by (rule sample_manager_steps)
  then have "main_phase s \<noteq> Working" by simp
  from stop_returns [OF s(1) this] s(3) show ?thesis by blast
qed

end
