(* ===== verification/Example_Main.thy ===== *)
theory Example_Main
  imports Tcp_Server Tcp_Client
begin

text \<open>
  The two programs of example/tcp/main.cpp around the callbacks of \<open>Example_Echo\<close>: starting a server or a
  client with a hundred connections, and the signals that end them.
\<close>

section \<open>The programs\<close>

definition SIGINT :: int where "SIGINT = 2"

text \<open>
  The callbacks by number: \<open>server_handle_msg\<close>, \<open>client_handle_msg\<close> and \<open>client_send_data\<close>.  \<open>dumps\<close> are the
  descriptions of the pools that were logged.
\<close>

definition SERVER_MSG :: nat where "SERVER_MSG = 0"
definition CLIENT_MSG :: nat where "CLIENT_MSG = 1"
definition CLIENT_SEND :: nat where "CLIENT_SEND = 2"

record program =
  running :: int
  server :: tcp_server
  tclient :: tcp_client
  dumps :: "((nat \<times> nat \<times> nat) \<times> (nat \<times> nat \<times> nat) list) list list"

definition new_program :: program where
  "new_program = \<lparr>running = 0, server = new_tcp_server, tclient = new_tcp_client, dumps = []\<rparr>"

definition stop_server :: "program \<Rightarrow> fault + program" where
  "stop_server p = bind_res (sv_stop (server p)) (\<lambda>v. Inr (p\<lparr>server := v\<rparr>))"

definition stop_client :: "program \<Rightarrow> fault + program" where
  "stop_client p = bind_res (cl_stop (tclient p)) (\<lambda>v. Inr (p\<lparr>tclient := v\<rparr>))"

definition signal_handle :: "int \<Rightarrow> program \<Rightarrow> fault + program" where
  "signal_handle signo p =
     (if signo = 50 then bind_res (sv_pool_dump (server p)) (\<lambda>d. Inr (p\<lparr>dumps := dumps p @ [d]\<rparr>))
      else if signo = 51 then bind_res (stop_server p) (\<lambda>p. Inr (p\<lparr>running := 0\<rparr>))
      else if signo = 52 then bind_res (cl_pool_dump (tclient p)) (\<lambda>d. Inr (p\<lparr>dumps := dumps p @ [d]\<rparr>))
      else if signo = 53 then bind_res (stop_client p) (\<lambda>p. Inr (p\<lparr>running := 0\<rparr>))
      else if signo = SIGINT then
        bind_res (if running p = 1 then stop_server p else Inr p) (\<lambda>p.
        bind_res (if running p = 2 then stop_client p else Inr p) (\<lambda>p. Inr (p\<lparr>running := 0\<rparr>)))
      else Inr p)"

text \<open>\<open>while(running) sleep(10000)\<close>: the signals that arrive, as long as the program waits for one.\<close>

fun wait_signals :: "int list \<Rightarrow> program \<Rightarrow> fault + program" where
  "wait_signals [] p = Inr p"
| "wait_signals (sig # sigs) p =
     (if running p = 0 then Inr p else bind_res (signal_handle sig p) (wait_signals sigs))"

definition start_server :: "tcp_manager \<Rightarrow> listen_env list \<Rightarrow> start_env \<Rightarrow> program \<Rightarrow> fault + program" where
  "start_server fresh es env p =
     (let p = p\<lparr>running := 1\<rparr>; (_, v) = sv_init_server fresh ''0.0.0.0'' 6000 10 (server p) in
      bind_res (sv_set_msg_callback SERVER_MSG v) (\<lambda>v.
      bind_res (sv_start es env v) (\<lambda>(_, v). Inr (p\<lparr>server := v\<rparr>))))"

text \<open>\<open>es\<close> are what the calls for the hundred connections return; the keys are a result.\<close>

definition peer_ip :: "byte list" where
  "peer_ip = [49, 57, 50, 46, 49, 54, 56, 46, 49, 54, 46, 49, 49, 55]"

definition start_client ::
    "tcp_manager \<Rightarrow> start_env \<Rightarrow> connect_env list \<Rightarrow> program \<Rightarrow> fault + (64 word list \<times> program)" where
  "start_client fresh env es p =
     (let p = p\<lparr>running := 2\<rparr> in
      bind_res (cl_start fresh env (tclient p)) (\<lambda>v.
      bind_res (check (length es = 100) Bad_Environment) (\<lambda>_.
      bind_res (gather (\<lambda>e. cl_connect e peer_ip 6000 (Some CLIENT_MSG) (Some CLIENT_SEND)) es v) (\<lambda>(ks, v).
      Inr (ks, p\<lparr>tclient := v\<rparr>)))))"

section \<open>The connections of the client\<close>

lemma cl_connect_registers:
  assumes "cl_manager v = Some s" and "connected e" and "cl_connect e ip port cb est v = Inr (k, v')"
  shows "\<exists>s' a. cl_manager v' = Some s' \<and> k = last_key s + 1 \<and> last_key s' = k \<and> connect_map s' = (connect_map s)(k \<mapsto> c_socket e)
    \<and> backlog (main_thread s') = backlog (main_thread s) @ [Add_Client a]"
proof -
  obtain s' where s': "tm_connect e ip port cb est s = Inr (k, s')" "cl_manager v' = Some s'"
    using assms(1,3) by (auto simp: cl_connect_def on_manager_def elim!: bind_resE)
  obtain a where r: "register_socket (c_malloc e) (c_socket e) ip (word_of_int port) cb est s = Inr (k, a, s')"
    using s'(1) assms(2) by (auto simp: tm_connect_def connected_def Let_def elim!: bind_resE)
  then obtain b P where P: "pool_pop (c_malloc e) (client_pool s) = Inr (b, P)"
    by (auto simp: register_socket_def pop_client_def insert_fd_def Let_def elim!: bind_resE)
  show ?thesis using register_socket_ok [OF P] r s'(2) by (auto simp: backlog_run_in_thread)
qed

lemma connects_register:
  assumes "cl_manager v = Some s" and "list_all connected es" and "length es < 2 ^ 32" and "last_key s = word_of_nat i"
    and "gather (\<lambda>e. cl_connect e ip port cb est) es v = Inr (ks, v')"
  shows "ks = map word_of_nat [i + 1 ..< i + 1 + length es] \<and>
    (\<exists>s'. cl_manager v' = Some s' \<and> length (backlog (main_thread s')) = length (backlog (main_thread s)) + length es \<and>
       (\<forall>k. connect_map s' k = (case map_of (rev (zip ks (map c_socket es))) k of None \<Rightarrow> connect_map s k | Some n \<Rightarrow> Some n)))"
  using assms
proof (induction es arbitrary: v s i ks)
  case Nil
  then show ?case by simp
next
  case (Cons e es)
  obtain k v1 ks' where one: "cl_connect e ip port cb est v = Inr (k, v1)"
      "gather (\<lambda>e. cl_connect e ip port cb est) es v1 = Inr (ks', v')" "ks = k # ks'"
    using Cons.prems(5) by (auto elim!: bind_resE)
  obtain s1 a where s1: "cl_manager v1 = Some s1" "k = last_key s + 1" "last_key s1 = k"
      "connect_map s1 = (connect_map s)(k \<mapsto> c_socket e)" "backlog (main_thread s1) = backlog (main_thread s) @ [Add_Client a]"
    using cl_connect_registers [OF Cons.prems(1) _ one(1)] Cons.prems(2) by auto
  have k: "k = word_of_nat (Suc i)" using s1(2) Cons.prems(4) by simp
  have "ks' = map word_of_nat [Suc i + 1 ..< Suc i + 1 + length es] \<and>
    (\<exists>s'. cl_manager v' = Some s' \<and> length (backlog (main_thread s')) = length (backlog (main_thread s1)) + length es \<and>
       (\<forall>k. connect_map s' k = (case map_of (rev (zip ks' (map c_socket es))) k of None \<Rightarrow> connect_map s1 k | Some n \<Rightarrow> Some n)))"
    by (rule Cons.IH [OF s1(1) _ _ _ one(2)]) (use Cons.prems s1(3) k in simp_all)
  then obtain s' where s': "ks' = map word_of_nat [Suc i + 1 ..< Suc i + 1 + length es]" "cl_manager v' = Some s'"
      "length (backlog (main_thread s')) = length (backlog (main_thread s1)) + length es"
      "\<forall>k. connect_map s' k = (case map_of (rev (zip ks' (map c_socket es))) k of None \<Rightarrow> connect_map s1 k | Some n \<Rightarrow> Some n)"
    by blast
  have "[i + 1 ..< i + 1 + length (e # es)] = Suc i # [Suc i + 1 ..< Suc i + 1 + length es]"
    by (simp add: upt_rec)
  then have "ks = map word_of_nat [i + 1 ..< i + 1 + length (e # es)]" using one(3) k s'(1) by simp
  moreover have "connect_map s' q = (case map_of (rev (zip ks (map c_socket (e # es)))) q of None \<Rightarrow> connect_map s q | Some n \<Rightarrow> Some n)" for q
    using s'(4) s1(4) one(3) by (auto simp: map_add_def split: option.split)
  ultimately show ?case using s'(2,3) s1(5) by auto
qed

lemma start_keeps_keys:
  assumes "tm_start env s = Inr (r, s')" and "\<not> m_running s"
  shows "last_key s' = 0 \<and> connect_map s' = connect_map s \<and> write_list (main_thread s') = write_list (main_thread s)
    \<and> read_list (main_thread s') = read_list (main_thread s)"
proof -
  let ?s = "s\<lparr>m_running := True, last_key := 0\<rparr>"
  obtain t where t: "start_send_timer env ?s = Inr t" "last_key s' = last_key t" "connect_map s' = connect_map t"
      "main_thread s' = tt_start (main_thread t)"
    using assms by (auto simp: tm_start_def elim!: bind_resE split: if_splits)
  have "last_key t = 0 \<and> connect_map t = connect_map s \<and> main_thread t = main_thread s"
    using t(1)
    by (auto simp: start_send_timer_def pop_handle_def push_handle_def put_acceptor_eq Let_def split_beta elim!: bind_resE
        split: if_splits)
  then show ?thesis using t(2-4) by (simp add: tt_start_def)
qed

section \<open>Properties\<close>

text \<open>
  The client program, once its hundred connections could be made: they have the keys 1 to 100, each of which
  leads to the socket of its own connection, and a hundred tasks wait for the main thread.
\<close>

theorem start_client_keys:
  assumes "start_client (new_tcp_manager bsz csz hsz) env es new_program = Inr (ks, p)" and "list_all connected es"
  shows "ks = map word_of_nat [1 ..< 101] \<and> running p = 2 \<and>
    (\<exists>s. cl_manager (tclient p) = Some s \<and> length (backlog (main_thread s)) = 100 \<and>
       list_all2 (\<lambda>k e. get_fd k s = c_socket e) ks es)"
proof -
  let ?s = "snd (tm_init 1 (new_tcp_manager bsz csz hsz))"
  let ?v = "\<lparr>cl_running = True, cl_self_manager = True, cl_manager = Some ?s\<rparr>"
  obtain v where v: "cl_start (new_tcp_manager bsz csz hsz) env new_tcp_client = Inr v" "length es = 100"
      "gather (\<lambda>e. cl_connect e peer_ip 6000 (Some CLIENT_MSG) (Some CLIENT_SEND)) es v = Inr (ks, tclient p)" "running p = 2"
    using assms(1) by (auto simp: start_client_def new_program_def Let_def check_eq_Inr elim!: bind_resE)
  obtain r s where s: "tm_start env ?s = Inr (r, s)" "cl_manager v = Some s"
    using v(1) by (auto simp: cl_start_def new_tcp_client_def on_manager_def elim!: bind_resE)
  have "\<not> m_running ?s" "connect_map ?s = Map.empty" "main_thread ?s = new_task_thread"
    by (simp_all add: tm_init_def new_tcp_manager_def)
  then have s0: "last_key s = word_of_nat 0" "connect_map s = Map.empty" "write_list (main_thread s) = []" "read_list (main_thread s) = []"
    using start_keeps_keys [OF s(1)] by (simp_all add: new_task_thread_def)
  have "backlog (main_thread s) = []" using s0(3,4) by (simp add: backlog_def split: option.split worker_phase.split)
  moreover have "ks = map word_of_nat [0 + 1 ..< 0 + 1 + length es] \<and>
    (\<exists>s'. cl_manager (tclient p) = Some s' \<and> length (backlog (main_thread s')) = length (backlog (main_thread s)) + length es \<and>
       (\<forall>k. connect_map s' k = (case map_of (rev (zip ks (map c_socket es))) k of None \<Rightarrow> connect_map s k | Some n \<Rightarrow> Some n)))"
    by (rule connects_register [OF s(2) assms(2) _ s0(1) v(3)]) (simp add: v(2))
  ultimately obtain s' where s': "ks = map word_of_nat [1 ..< 101]" "cl_manager (tclient p) = Some s'" "length (backlog (main_thread s')) = 100"
      "\<forall>k. connect_map s' k = (case map_of (rev (zip ks (map c_socket es))) k of None \<Rightarrow> connect_map s k | Some n \<Rightarrow> Some n)"
    using v(2) by auto
  have look: "connect_map s' k = map_of (rev (zip ks (map c_socket es))) k" for k
    using s'(4) s0(2) by (simp split: option.split)
  have len: "length ks = 100" by (simp add: s'(1))
  have "inj_on (word_of_nat :: nat \<Rightarrow> 64 word) {1 ..< 101}"
    by (rule inj_onI) (simp add: word_of_nat_eq_iff take_bit_nat_eq_self)
  then have d: "distinct ks" by (simp add: s'(1) distinct_map)
  have "get_fd (ks ! i) s' = c_socket (es ! i)" if "i < 100" for i
  proof -
    have "distinct (map fst (rev (zip ks (map c_socket es))))" using d len v(2) by (simp add: rev_map [symmetric])
    moreover have "(ks ! i, c_socket (es ! i)) \<in> set (rev (zip ks (map c_socket es)))"
      using that len v(2) by (auto simp: in_set_zip)
    ultimately have "map_of (rev (zip ks (map c_socket es))) (ks ! i) = Some (c_socket (es ! i))" by simp
    then show ?thesis by (simp add: get_fd_def look)
  qed
  then have "list_all2 (\<lambda>k e. get_fd k s' = c_socket e) ks es" using len v(2) by (simp add: list_all2_conv_all_nth)
  then show ?thesis using s'(1-3) v(4) by blast
qed

text \<open>
  A signal ends what its program runs: after an interrupt, or after the signal 51 to a server, the server is
  stopped and has given up its connections, the client object is as it was, and later signals find nothing to
  end.
\<close>

theorem server_signals:
  assumes "running p = 1" and "signo = 51 \<or> signo = SIGINT" and "sv_running (server p)" and "sv_manager (server p) = Some s"
    and "m_running s" and "em_ok (acceptor_loop s)" and "\<forall>w \<in> set (socket_loop s). em_ok w" and "event_size s = length (socket_loop s)"
  shows "\<exists>q s'. wait_signals (signo # sigs) p = Inr q \<and> running q = 0 \<and> \<not> sv_running (server q) \<and> tclient q = tclient p
    \<and> sv_manager (server q) = Some s' \<and> \<not> m_running s' \<and> clients s' = Map.empty"
proof -
  obtain s' where s': "tm_stop s = Inr s'" "\<not> m_running s'" "clients s' = Map.empty" using tm_stop_ok [OF assms(5-8)] by blast
  let ?v = "(server p)\<lparr>sv_running := False, sv_manager := Some s', listen_fd := replicate (reuseaddr (server p)) 0\<rparr>"
  let ?q = "p\<lparr>server := ?v, running := 0\<rparr>"
  have "signal_handle signo p = Inr ?q"
    using assms(1-4) s'(1)
    by (auto simp: signal_handle_def SIGINT_def stop_server_def sv_stop_def with_manager_def)
  moreover have "wait_signals sigs ?q = Inr ?q" by (cases sigs) simp_all
  ultimately show ?thesis using assms(1) s' by auto
qed

theorem server_signals_witness:
  "\<exists>q s'. wait_signals [SIGINT, 51] (new_program\<lparr>running := 1, server := new_tcp_server\<lparr>sv_running := True, sv_manager := Some tm_sample\<rparr>\<rparr>)
      = Inr q \<and> running q = 0 \<and> sv_manager (server q) = Some s' \<and> clients s' = Map.empty"
  using server_signals [of "new_program\<lparr>running := 1, server := new_tcp_server\<lparr>sv_running := True, sv_manager := Some tm_sample\<rparr>\<rparr>"
      SIGINT tm_sample "[51]"] new_event_manager_em_ok by fastforce

end
