(* ===== verification/Rw_Guard.thy ===== *)
theory Rw_Guard
  imports Sc_Prelude
begin

text \<open>
  The guards of include/ThreadMutex.h: objects that hold a read-write lock from their construction to their
  destruction.  They protect the handler map of an \<open>EventManager\<close> and the two tables of a \<open>TcpManager\<close>, which
  make their locks with a preference for writers.
\<close>

section \<open>The lock\<close>

text \<open>
  Threads are numbers.  \<open>protected\<close> is the object the lock is for; a thread in \<open>waiting\<close> has called
  \<open>pthread_rwlock_wrlock\<close> and does not hold the lock yet.
\<close>

record 'v rwlock =
  readers :: "nat list"
  writer :: "nat option"
  waiting :: "nat list"
  protected :: 'v

text \<open>A reader must wait while a writer holds the lock or waits for it; \<open>None\<close>: the thread waits.\<close>

definition rdlock :: "nat \<Rightarrow> 'v rwlock \<Rightarrow> 'v rwlock option" where
  "rdlock t l = (if writer l = None \<and> waiting l = [] then Some (l\<lparr>readers := t # readers l\<rparr>) else None)"

definition wrlock :: "nat \<Rightarrow> 'v rwlock \<Rightarrow> 'v rwlock option" where
  "wrlock t l = (if writer l = None \<and> readers l = [] then Some (l\<lparr>writer := Some t, waiting := remove1 t (waiting l)\<rparr>) else None)"

definition rw_unlock :: "nat \<Rightarrow> 'v rwlock \<Rightarrow> 'v rwlock" where
  "rw_unlock t l = (if writer l = Some t then l\<lparr>writer := None\<rparr> else l\<lparr>readers := remove1 t (readers l)\<rparr>)"

section \<open>The guards\<close>

definition RMutexGuard :: "nat \<Rightarrow> 'v rwlock \<Rightarrow> 'v rwlock option" where
  "RMutexGuard t l = rdlock t l"

definition end_RMutexGuard :: "nat \<Rightarrow> 'v rwlock \<Rightarrow> 'v rwlock" where
  "end_RMutexGuard t l = rw_unlock t l"

definition WMutexGuard :: "nat \<Rightarrow> 'v rwlock \<Rightarrow> 'v rwlock option" where
  "WMutexGuard t l = wrlock t l"

definition end_WMutexGuard :: "nat \<Rightarrow> 'v rwlock \<Rightarrow> 'v rwlock" where
  "end_WMutexGuard t l = rw_unlock t l"

text \<open>Threads make and destroy guards, and change the object only under a write guard.\<close>

datatype 'v guard_event = Read_Begin nat | Read_End nat | Write_Wait nat | Write_Begin nat | Write_End nat | Change nat "'v \<Rightarrow> 'v"

inductive guard_step :: "'v rwlock \<Rightarrow> 'v guard_event \<Rightarrow> 'v rwlock \<Rightarrow> bool" where
  read_begin: "RMutexGuard t l = Some l' \<Longrightarrow> guard_step l (Read_Begin t) l'"
| read_end: "t \<in> set (readers l) \<Longrightarrow> guard_step l (Read_End t) (end_RMutexGuard t l)"
| write_wait: "guard_step l (Write_Wait t) (l\<lparr>waiting := waiting l @ [t]\<rparr>)"
| write_begin: "WMutexGuard t l = Some l' \<Longrightarrow> guard_step l (Write_Begin t) l'"
| write_end: "writer l = Some t \<Longrightarrow> guard_step l (Write_End t) (end_WMutexGuard t l)"
| change: "writer l = Some t \<Longrightarrow> guard_step l (Change t f) (l\<lparr>protected := f (protected l)\<rparr>)"

inductive guard_run :: "'v rwlock \<Rightarrow> 'v guard_event list \<Rightarrow> 'v rwlock \<Rightarrow> bool" where
  guard_nil: "guard_run l [] l"
| guard_cons: "guard_step l e l1 \<Longrightarrow> guard_run l1 es l' \<Longrightarrow> guard_run l (e # es) l'"

definition new_rwlock :: "'v \<Rightarrow> 'v rwlock" where
  "new_rwlock v = \<lparr>readers = [], writer = None, waiting = [], protected = v\<rparr>"

definition exclusive_lock :: "'v rwlock \<Rightarrow> bool" where
  "exclusive_lock l \<longleftrightarrow> writer l = None \<or> readers l = []"

lemmas guard_defs = RMutexGuard_def WMutexGuard_def end_RMutexGuard_def end_WMutexGuard_def rdlock_def wrlock_def rw_unlock_def

lemma guard_step_exclusive: "guard_step l e l' \<Longrightarrow> exclusive_lock l \<Longrightarrow> exclusive_lock l'"
  by (induction rule: guard_step.induct) (auto simp: exclusive_lock_def guard_defs split: if_splits)

lemma guard_run_exclusive: "guard_run l es l' \<Longrightarrow> exclusive_lock l \<Longrightarrow> exclusive_lock l'"
  by (induction rule: guard_run.induct) (auto dest: guard_step_exclusive)

lemma read_guard_step:
  assumes "guard_step l e l'" and "exclusive_lock l" and "t \<in> set (readers l)" and "e \<noteq> Read_End t"
  shows "t \<in> set (readers l') \<and> protected l' = protected l"
  using assms by (induction rule: guard_step.induct) (auto simp: exclusive_lock_def guard_defs split: if_splits)

lemma read_guard_run:
  "guard_run l es l' \<Longrightarrow> exclusive_lock l \<Longrightarrow> t \<in> set (readers l) \<Longrightarrow> Read_End t \<notin> set es \<Longrightarrow> protected l' = protected l"
proof (induction rule: guard_run.induct)
  case (guard_cons l e l1 es l')
  then show ?case using read_guard_step [OF guard_cons.hyps(1)] guard_step_exclusive by fastforce
qed simp

lemma write_guard_step:
  assumes "guard_step l e l'" and "writer l = Some t" and "e \<noteq> Write_End t" and "\<forall>f. e \<noteq> Change t f" and "exclusive_lock l"
  shows "writer l' = Some t \<and> protected l' = protected l \<and> (\<forall>u. e \<noteq> Read_Begin u)"
  using assms by (induction rule: guard_step.induct) (auto simp: exclusive_lock_def guard_defs split: if_splits)

lemma write_guard_run:
  "guard_run l es l' \<Longrightarrow> exclusive_lock l \<Longrightarrow> writer l = Some t \<Longrightarrow> Write_End t \<notin> set es \<Longrightarrow> \<forall>f. Change t f \<notin> set es \<Longrightarrow>
    protected l' = protected l \<and> (\<forall>u. Read_Begin u \<notin> set es)"
proof (induction rule: guard_run.induct)
  case (guard_cons l e l1 es l')
  then show ?case using write_guard_step [OF guard_cons.hyps(1)] guard_step_exclusive by fastforce
qed simp

section \<open>Properties\<close>

text \<open>
  What a section under a guard may rely on, in every history of the lock: while a read guard lives, the object
  does not change; while a write guard lives, only its own thread changes it and no read guard is made.  This
  is what lets the models take such a section as one step.
\<close>

theorem guarded_sections_atomic:
  assumes "guard_run (new_rwlock v) es l" and "guard_run l es' l'"
  shows "(t \<in> set (readers l) \<and> Read_End t \<notin> set es' \<longrightarrow> protected l' = protected l) \<and>
    (writer l = Some t \<and> Write_End t \<notin> set es' \<and> (\<forall>f. Change t f \<notin> set es') \<longrightarrow>
       protected l' = protected l \<and> (\<forall>u. Read_Begin u \<notin> set es'))"
proof -
  have "exclusive_lock l" using guard_run_exclusive [OF assms(1)] by (simp add: exclusive_lock_def new_rwlock_def)
  then show ?thesis using read_guard_run [OF assms(2)] write_guard_run [OF assms(2)] by blast
qed

theorem guarded_sections_atomic_witness:
  "\<exists>l l'. guard_run (new_rwlock (0 :: nat)) [Read_Begin 1] l \<and> guard_run l [Write_Wait 2] l' \<and> protected l' = 0"
proof -
  let ?l = "(new_rwlock (0 :: nat))\<lparr>readers := [1]\<rparr>"
  have l: "guard_run (new_rwlock (0 :: nat)) [Read_Begin 1] ?l"
    by (rule guard_cons [OF read_begin guard_nil]) (simp add: guard_defs new_rwlock_def)
  have l': "guard_run ?l [Write_Wait 2] (?l\<lparr>waiting := waiting ?l @ [2]\<rparr>)"
    by (rule guard_cons [OF write_wait guard_nil])
  have "protected (?l\<lparr>waiting := waiting ?l @ [2]\<rparr>) = protected ?l"
    using guarded_sections_atomic [OF l l', of 1] by simp
  then have "protected (?l\<lparr>waiting := waiting ?l @ [2]\<rparr>) = 0" by (simp add: new_rwlock_def)
  with l l' show ?thesis by blast
qed

text \<open>
  With this kind of lock a thread must not make a second read guard inside the first: if a writer has begun to
  wait between them, neither can go on.
\<close>

theorem nested_read_guards_block:
  assumes "t \<in> set (readers l)" and "u \<in> set (waiting l)"
  shows "RMutexGuard t l = None \<and> WMutexGuard u l = None"
  using assms by (auto simp: guard_defs)

theorem nested_read_guards_block_witness:
  "RMutexGuard 1 ((new_rwlock (0 :: nat))\<lparr>readers := [1], waiting := [2]\<rparr>) = None"
  using nested_read_guards_block [of 1 "(new_rwlock (0 :: nat))\<lparr>readers := [1], waiting := [2]\<rparr>" 2] by simp

end
