(* ===== verification/Spec2Isabelle.thy ===== *)
theory Spec2Isabelle
  imports Threads_Run Races Buffer_Safety Tcp_Server Tcp_Client Timestamp Log_Thread Singleton Example_Echo Example_Basics Example_Timer Example_Threads Example_Main Rw_Guard
begin

text \<open>
  SimpleCommunication is a small networking library in C++: connections over TCP with a length-prefixed
  packet format, the event loops and threads that serve them, pools for the objects involved, a byte
  buffer, time stamps and a logger.  This development translates all of include/ and src/ and the programs
  of example/, and proves what makes the parts and their
  composition correct -- or, where the code does not do what it means to, what it does instead.

  \<^bold>\<open>How the parts interact.\<close>  A \<open>TcpServer\<close> accepts sockets and a \<open>TcpClient\<close> connects them; both
  hand them to a \<open>TcpManager\<close>, which gives every connection a key, a \<open>ClientEntity\<close> from a pool and one
  of its socket loops.  A loop (\<open>EventManager\<close>, on a \<open>Thread\<close>) waits for events of the descriptors in its
  table and calls the function of the \<open>EventHandle\<close> registered for each: for a connection this reads or
  writes.  A timer in the acceptor loop makes the main thread (\<open>TaskThread\<close>) look at all connections
  every millisecond and give the packer threads (\<open>ThreadPool\<close>) the jobs that are due: cut received bytes
  into packets and pass them to the user's callback, write queued packets, close.  Packets travel in
  \<open>Buffer\<close> objects of an \<open>ObjectPool\<close>.

  \<^bold>\<open>Conventions.\<close>  An operation is a function on the record of its object's state.  \<open>fault + 'a\<close> is the
  result of code that can fail: a failed assertion, a dereferenced null pointer, a destroyed object that is
  used, the vector's length error, \<open>abort\<close>.  Assertions count as enabled.  A \<open>size_t\<close> is a natural number
  with the wrap-around in \<open>size_add\<close> and \<open>size_sub\<close>; other fixed-width integers are words, or integers cut
  by \<open>int32\<close>.  What the operating system answers (bytes read, the result of \<open>writev\<close>, accepted sockets,
  ready events, the clock, the address of \<open>malloc\<close>) is an argument; theorems assume of it only what is
  documented, for instance that \<open>malloc\<close> returns memory apart from every live block (\<open>malloc_ok\<close>) and
  that \<open>read\<close> does not return more than was asked for (\<open>reads_ok\<close>).  A callback is a number; calling it is
  recorded in the result.  Concurrency is the interleaving of atomic steps.  The relations for the task
  thread, the thread pool and the logger, and those for one connection's stream, have a step of its own for
  every critical section.  The relations for a whole process and for the threads of a manager
  (\<open>Process_Run\<close>, \<open>Threads_Run\<close>) run each job, event, task, loop function and call of the user as one step;
  what happens when these overlap is the subject of \<open>Races\<close> and of \<open>bad_length_then_data\<close>.

  \<^bold>\<open>Theories.\<close>

  \<^item> \<open>Sc_Prelude\<close>: faults and the error monad, iteration (\<open>each\<close>, \<open>gather\<close>), \<open>size_t\<close> arithmetic, words
    in memory and in network order, rule collections.
  \<^item> \<open>Buffer\<close> (include/Buffer.h): the vector with its two indices; every typed field is read back as it
    was written (locale \<open>byte_codec\<close>), the wire format, what a truncated field does.  \<open>Buffer_Safety\<close>: any
    sequence of operations that keeps two rules stays inside the vector, and why the rules are needed.
  \<^item> \<open>Object_Pool\<close> (include/ObjectPool.h): blocks, free lists, \<open>shrink\<close>; no slot has two holders (locale
    \<open>object_pool\<close>).  \<open>Buffer_Store\<close>: the pool with the buffers living in it, as another instance of the locale.
  \<^item> \<open>Client_Entity\<close> (ClientEntity.h/.cpp): one connection, all operations.  \<open>Client_Unpack\<close> and
    \<open>Client_Receive\<close>: reading and unpacking refine a parser of one byte string.  \<open>Client_Stream\<close>: any
    interleaving of reading and of the rounds of unpacking cuts the peer's stream into its packets.  \<open>Client_Send\<close>: queueing and writing.
    \<open>End_To_End\<close>: a sender and a receiver joined by a socket.
  \<^item> \<open>Connection_Frame\<close>, \<open>Connection_Steps\<close>, \<open>Connection_Push\<close>: what each operation of one connection
    leaves alone in the shared store, and its part of the stream.  \<open>Process_Run\<close>: a process with any number
    of connections, all their steps in any order.
  \<^item> \<open>Races\<close>: two operations that overlap, cut where the code gives up a lock.  Queueing a packet during a
    write is harmless; a bad length met during a write, and a removal during \<open>push_send_pack\<close> or
    \<open>close_client\<close>, lead to freed memory.
  \<^item> \<open>Manager_Threads\<close>: the threads of a manager with their real queues: the main thread takes its tasks from
    its two lists, a worker its job from the pool, a loop the functions posted to it one by one and the events
    of the handles in its table (the loops of TaskThread.cpp, ThreadPool.cpp, EventManager.cpp, whose work is
    in TcpManager.cpp and ClientEntity.cpp); the invariant \<open>system_ok\<close> says what these queues hold about each
    connection.  \<open>Connection_Life\<close>: adding, closing and removing keep it.  \<open>Threads_Run\<close>: runs from \<open>start\<close>.
  \<^item> \<open>Task_Queue\<close>: the contract of a queue that is spliced, a locale interpreted for the task thread, the
    thread pool, the event loop and the logger.  \<open>Task_Thread\<close>, \<open>Thread_Pool\<close>, \<open>Thread_Core\<close>
    (TaskThread, ThreadPool, Thread): order of execution, wake-ups, stopping.
  \<^item> \<open>Event_Handle\<close>, \<open>Event_Manager\<close>, \<open>Event_Dispatch\<close> (EventHandle, EventManager): handles and timers; the
    table and the kernel's interest list; waiting and dispatching.
  \<^item> \<open>Tcp_Manager\<close> (TcpManager.h/.cpp): all operations.  \<open>Connection_Table\<close>: keys, loops, adding a client.
    \<open>Connection_Schedule\<close>: what a tick of the send timer does.  \<open>Manager_Stop\<close>: stopping and restarting.
    \<open>Tcp_Session\<close>: a connection together with its loop and its manager, down to its removal.
  \<^item> \<open>Tcp_Server\<close>, \<open>Tcp_Client\<close>: accepting and connecting.  \<open>Example_Echo\<close> (example/tcp/main.cpp): the echo
    server and its client.
  \<^item> \<open>Timestamp\<close>, \<open>Log_File\<close>, \<open>Log_Line\<close>, \<open>Log_Thread\<close>, \<open>Singleton\<close>: the parts of the same names.  Files
    are opened for appending, so one whose name comes up again keeps what it holds.
  \<^item> \<open>Rw_Guard\<close> (include/ThreadMutex.h): the guards of a read-write lock; what a section under a guard may
    rely on, which is why it can be one step of the other models.
  \<^item> \<open>Example_Main\<close> (example/tcp/main.cpp): start-up and signals of the two programs.  \<open>Example_Timer\<close>
    (example/timer/TimerManager.cpp): an event loop with one timer, from its start to its end.
    \<open>Example_Threads\<close> (example/thread/ThreadManager.cpp): a producer, a pool and the main thread that stops
    them.  \<open>Example_Basics\<close>: what the programs of example/buffer, objpool, timerstamp and log do and print.

  \<^bold>\<open>What the properties show.\<close>  C1 to C7 are the core: packets come out of a connection as they were put
  into the other; connections that share their pools do not disturb each other; the threads with their
  queues never fault from the start of the manager on, as long as steps do not overlap, implement the process these two are about, and add
  and remove each connection once; the unpacking loop, which works in place on shared buffers cut at
  arbitrary places, computes what the parser \<open>parse_packet\<close> does.  What the theorems about threads exclude
  are defects of the code, each with a theorem of its own: a worker that takes a job of a connection removed
  meanwhile (\<open>late_job_uses_freed_client\<close>), reading or writing that overlaps the handling of a bad length
  (\<open>bad_length_then_data\<close>, \<open>clear_races_writing\<close>) and a removal that overlaps a call of the user
  (\<open>late_push_uses_freed_client\<close>).  C8 to C15 follow a connection through the manager: its jobs and
  events never fault, it is accepted or closed, registered, scheduled and torn down, its events reach it,
  no slot is shared and the tables agree.  The
  other properties are about single components; those named in the manifest as error behaviour, and the
  theorems next to them without a number, state defects precisely.

  \<^bold>\<open>Bounds and fuel.\<close>  No definition has fuel: loops are structural or have a measure, and the one loop
  of the code that need not end, in \<open>shrink\<close>, is a partial function whose termination \<open>Object_Pool\<close>
  characterizes.  The vector's largest size is \<open>vec_max\<close>, \<open>2 ^ 63 - 1\<close> bytes as in libstdc++.  Sending assumes packets
  shorter than \<open>2 ^ 31\<close> bytes, because the code counts in an \<open>int32_t\<close>, and writes of at most
  \<open>0x7ffff000\<close> bytes, which is Linux's own limit.  Keys are distinct for \<open>2 ^ 64\<close> insertions.

  \<^bold>\<open>Not modelled.\<close>  \<open>noncopyable\<close>, which has no run-time behaviour, and the memory model: data races between
  unlocked accesses to the same word are outside an interleaving of atomic steps.  More than 1024 buffers in one
  \<open>writev\<close>, which the kernel refuses, appear only as the error result.  Log calls inside other components
  are left out; the logger itself is modelled, and the prefix of its macros in \<open>Example_Basics\<close>.  Of the
  examples the \<open>main\<close> functions that only start, sleep and stop, and the loop of example/log that repeats
  its line; the peers written in Erlang.
\<close>

end
